(* ===== verification/Prelude.thy ===== *)
theory Prelude
  imports Main "HOL-Library.Word"
begin

unbundle bit_operations_syntax

text \<open>
  Shared vocabulary of the development: the machine types of the Rust code, the checked and
  saturating integer operations of its standard library, results as sums, and the generic lemmas
  on words, lists and results that the component theories use.

  The model follows the release profile of the crates: \<open>debug_assert!\<close> and \<open>cfg!(debug_assertions)\<close>
  branches are not executed, and the plain operators \<open>+\<close>, \<open>-\<close>, \<open>*\<close> on machine integers wrap.
  Where the code relies on an operation not wrapping, this is a theorem. \<open>usize\<close> is the 64-bit
  type; lengths of slices and vectors are natural numbers.
\<close>

section \<open>Machine types\<close>

type_synonym u8 = "8 word"
type_synonym u16 = "16 word"
type_synonym u32 = "32 word"
type_synonym u64 = "64 word"
type_synonym u128 = "128 word"

text \<open>Lemmas that turn word arithmetic into arithmetic on \<^typ>\<open>nat\<close>.\<close>

named_theorems unat_simps

text \<open>Rewrite rules for results of fallible operations.\<close>

named_theorems result_simps

definition usize_max :: nat where
  "usize_max = 2 ^ 64 - 1"

text \<open>Subtraction of \<open>u64\<close> or \<open>usize\<close> without a check.\<close>

definition u64_sub :: "nat \<Rightarrow> nat \<Rightarrow> nat" where
  "u64_sub a b = (a + 2 ^ 64 - b) mod 2 ^ 64"

definition checked_add :: "'a::len word \<Rightarrow> 'a word \<Rightarrow> 'a word option" where
  "checked_add a b = (if unat a + unat b < 2 ^ LENGTH('a) then Some (a + b) else None)"

definition checked_sub :: "'a::len word \<Rightarrow> 'a word \<Rightarrow> 'a word option" where
  "checked_sub a b = (if b \<le> a then Some (a - b) else None)"

definition checked_mul :: "'a::len word \<Rightarrow> 'a word \<Rightarrow> 'a word option" where
  "checked_mul a b = (if unat a * unat b < 2 ^ LENGTH('a) then Some (a * b) else None)"

definition checked_div :: "'a::len word \<Rightarrow> 'a word \<Rightarrow> 'a word option" where
  "checked_div a b = (if b = 0 then None else Some (a div b))"

definition saturating_add :: "'a::len word \<Rightarrow> 'a word \<Rightarrow> 'a word" where
  "saturating_add a b = (if unat a + unat b < 2 ^ LENGTH('a) then a + b else - 1)"

definition saturating_sub :: "'a::len word \<Rightarrow> 'a word \<Rightarrow> 'a word" where
  "saturating_sub a b = (if b \<le> a then a - b else 0)"

definition saturating_mul :: "'a::len word \<Rightarrow> 'a word \<Rightarrow> 'a word" where
  "saturating_mul a b = (if unat a * unat b < 2 ^ LENGTH('a) then a * b else - 1)"

text \<open>
  Shifts: \<open>wrapping_shl\<close> and \<open>wrapping_shr\<close> take the amount modulo the width, as do \<open><<\<close> and
  \<open>>>\<close> in a release build; \<open>checked_shl\<close> refuses an amount that is too large.
\<close>

definition wrapping_shl :: "'a::len word \<Rightarrow> nat \<Rightarrow> 'a word" where
  "wrapping_shl a n = push_bit (n mod LENGTH('a)) a"

definition wrapping_shr :: "'a::len word \<Rightarrow> nat \<Rightarrow> 'a word" where
  "wrapping_shr a n = drop_bit (n mod LENGTH('a)) a"

definition checked_shl :: "'a::len word \<Rightarrow> nat \<Rightarrow> 'a word option" where
  "checked_shl a n = (if n < LENGTH('a) then Some (push_bit n a) else None)"

definition leading_zeros :: "'a::len word \<Rightarrow> nat" where
  "leading_zeros w = length (takeWhile (\<lambda>i. \<not> bit w i) (rev [0..<LENGTH('a)]))"

text \<open>\<open>checked_sub\<close> on \<open>usize\<close> values, which the model holds as natural numbers.\<close>

definition checked_sub_nat :: "nat \<Rightarrow> nat \<Rightarrow> nat option" where
  "checked_sub_nat a b = (if b \<le> a then Some (a - b) else None)"

text \<open>\<open>Option::filter\<close> and \<open>Option::is_some\<close>.\<close>

definition option_filter :: "('a \<Rightarrow> bool) \<Rightarrow> 'a option \<Rightarrow> 'a option" where
  "option_filter P x = (case x of None \<Rightarrow> None | Some v \<Rightarrow> if P v then Some v else None)"

section \<open>Sequences\<close>

text \<open>
  \<open>Vec\<close> and \<open>VecDeque\<close> as lists. An operation that panics on a bad index gives \<open>None\<close>.
\<close>

definition vec_insert :: "nat \<Rightarrow> 'a \<Rightarrow> 'a list \<Rightarrow> 'a list option" where
  "vec_insert i x xs = (if i \<le> length xs then Some (take i xs @ x # drop i xs) else None)"

definition vec_set :: "nat \<Rightarrow> 'a \<Rightarrow> 'a list \<Rightarrow> 'a list option" where
  "vec_set i x xs = (if i < length xs then Some (xs[i := x]) else None)"

definition vec_get :: "nat \<Rightarrow> 'a list \<Rightarrow> 'a option" where
  "vec_get i xs = (if i < length xs then Some (xs ! i) else None)"

text \<open>\<open>VecDeque::remove\<close> returns the element if there is one and does not panic.\<close>

definition vec_remove :: "nat \<Rightarrow> 'a list \<Rightarrow> 'a list" where
  "vec_remove i xs = take i xs @ drop (Suc i) xs"

definition vec_drain :: "nat \<Rightarrow> nat \<Rightarrow> 'a list \<Rightarrow> 'a list option" where
  "vec_drain i j xs = (if i \<le> j \<and> j \<le> length xs then Some (take i xs @ drop j xs) else None)"

text \<open>
  A \<open>for\<close> loop over an iterator given by its \<open>next\<close> function; \<open>None\<close> when the fuel runs out before
  the iterator ends.
\<close>

fun iterate :: "('r \<Rightarrow> 'a option \<times> 'r) \<Rightarrow> nat \<Rightarrow> 'r \<Rightarrow> 'a list option" where
  "iterate step 0 r = None"
| "iterate step (Suc fuel) r =
     (case step r of
        (None, _) \<Rightarrow> Some []
      | (Some x, r') \<Rightarrow> map_option ((#) x) (iterate step fuel r'))"

section \<open>Results\<close>

text \<open>\<open>Result<T, E>\<close> is the sum \<open>'e + 'a\<close> with \<open>Inl\<close> for \<open>Err\<close>; \<open>rbind\<close> is the \<open>?\<close> operator.\<close>

definition rbind :: "'e + 'a \<Rightarrow> ('a \<Rightarrow> 'e + 'b) \<Rightarrow> 'e + 'b" where
  "rbind r f = (case r of Inl e \<Rightarrow> Inl e | Inr x \<Rightarrow> f x)"

definition ensure :: "bool \<Rightarrow> 'e \<Rightarrow> 'e + 'a \<Rightarrow> 'e + 'a" where
  "ensure c e r = (if c then r else Inl e)"

definition is_ok :: "'e + 'a \<Rightarrow> bool" where
  "is_ok r = (case r of Inl _ \<Rightarrow> False | Inr _ \<Rightarrow> True)"

definition ok_or :: "'e \<Rightarrow> 'a option \<Rightarrow> 'e + 'a" where
  "ok_or e x = (case x of None \<Rightarrow> Inl e | Some v \<Rightarrow> Inr v)"

definition result_ok :: "'e + 'a \<Rightarrow> 'a option" where
  "result_ok r = (case r of Inl _ \<Rightarrow> None | Inr x \<Rightarrow> Some x)"

definition unwrap_or :: "'a \<Rightarrow> 'a option \<Rightarrow> 'a" where
  "unwrap_or d x = (case x of None \<Rightarrow> d | Some v \<Rightarrow> v)"

lemma rbind_simps [simp, result_simps]:
  "rbind (Inl e) f = Inl e"
  "rbind (Inr x) f = f x"
  by (simp_all add: rbind_def)

lemma rbind_eq_Inr [result_simps]:
  "rbind r f = Inr y \<longleftrightarrow> (\<exists>x. r = Inr x \<and> f x = Inr y)"
  by (cases r) auto

lemma rbind_eq_Inl [result_simps]:
  "rbind r f = Inl e \<longleftrightarrow> r = Inl e \<or> (\<exists>x. r = Inr x \<and> f x = Inl e)"
  by (cases r) auto

lemma rbind_assoc [result_simps]: "rbind (rbind r f) g = rbind r (\<lambda>x. rbind (f x) g)"
  by (cases r) auto

lemma ensure_simps [simp, result_simps]:
  "ensure True e r = r"
  "ensure False e r = Inl e"
  by (simp_all add: ensure_def)

lemma ensure_eq_Inr [result_simps]: "ensure c e r = Inr x \<longleftrightarrow> c \<and> r = Inr x"
  by (auto simp: ensure_def)

lemma is_ok_simps [simp, result_simps]:
  "is_ok (Inr x)"
  "\<not> is_ok (Inl e)"
  by (simp_all add: is_ok_def)

lemma is_ok_iff: "is_ok r \<longleftrightarrow> (\<exists>x. r = Inr x)"
  by (cases r) auto

lemma result_ok_simps [simp, result_simps]:
  "result_ok (Inl e) = None"
  "result_ok (Inr x) = Some x"
  by (simp_all add: result_ok_def)

lemma result_ok_eq_Some [result_simps]: "result_ok r = Some x \<longleftrightarrow> r = Inr x"
  by (cases r) auto

lemma ok_or_simps [simp, result_simps]:
  "ok_or e None = Inl e"
  "ok_or e (Some x) = Inr x"
  by (simp_all add: ok_or_def)

lemma ok_or_eq_Inr [result_simps]: "ok_or e v = Inr x \<longleftrightarrow> v = Some x"
  by (cases v) auto

lemma unwrap_or_simps [simp, result_simps]:
  "unwrap_or d None = d"
  "unwrap_or d (Some x) = x"
  by (simp_all add: unwrap_or_def)

section \<open>Words\<close>

lemma unat_less_power [simp]: "unat (w :: 'a::len word) < 2 ^ LENGTH('a)"
  by (rule unsigned_less)

lemma unat_add_no_wrap [unat_simps]:
  "unat (a :: 'a::len word) + unat b < 2 ^ LENGTH('a) \<Longrightarrow> unat (a + b) = unat a + unat b"
  by (simp add: unat_word_ariths)

lemma unat_of_nat_no_wrap [unat_simps]:
  "n < 2 ^ LENGTH('a) \<Longrightarrow> unat (of_nat n :: 'a::len word) = n"
  by (simp add: unsigned_of_nat take_bit_nat_def)

lemma unat_mult_no_wrap [unat_simps]:
  "unat (a :: 'a::len word) * unat b < 2 ^ LENGTH('a) \<Longrightarrow> unat (a * b) = unat a * unat b"
  by (simp add: unat_word_ariths)

lemma unat_sub_no_wrap [unat_simps]:
  "b \<le> (a :: 'a::len word) \<Longrightarrow> unat (a - b) = unat a - unat b"
  by (rule unat_sub)

lemma checked_add_Some [unat_simps]:
  "checked_add (a :: 'a::len word) b = Some c
   \<longleftrightarrow> unat a + unat b < 2 ^ LENGTH('a) \<and> unat c = unat a + unat b"
  by (auto simp: checked_add_def unat_add_no_wrap split: if_splits)
     (metis unat_add_no_wrap word_unat_eq_iff)

lemma checked_sub_Some [unat_simps]:
  "checked_sub (a :: 'a::len word) b = Some c \<longleftrightarrow> unat b \<le> unat a \<and> unat c = unat a - unat b"
  by (auto simp: checked_sub_def word_le_nat_alt unat_sub_no_wrap split: if_splits)
     (metis unat_sub_no_wrap word_le_nat_alt word_unat_eq_iff)

lemma checked_sub_None [unat_simps]:
  "checked_sub (a :: 'a::len word) b = None \<longleftrightarrow> unat a < unat b"
  by (auto simp: checked_sub_def word_le_nat_alt)

lemma checked_add_None [unat_simps]:
  "checked_add (a :: 'a::len word) b = None \<longleftrightarrow> 2 ^ LENGTH('a) \<le> unat a + unat b"
  by (auto simp: checked_add_def)

lemma unat_saturating_sub [unat_simps]:
  "unat (saturating_sub (a :: 'a::len word) b) = unat a - unat b"
  by (auto simp: saturating_sub_def word_le_nat_alt unat_sub_no_wrap)

lemma unat_minus_one_word: "unat (- 1 :: 'a::len word) = 2 ^ LENGTH('a) - 1"
  by (simp add: unsigned_minus_1_eq_mask mask_eq_exp_minus_1)

lemma unat_saturating_add [unat_simps]:
  "unat (saturating_add (a :: 'a::len word) b) = min (unat a + unat b) (2 ^ LENGTH('a) - 1)"
  by (auto simp: saturating_add_def unat_add_no_wrap unat_minus_one_word)

lemma unat_saturating_mul [unat_simps]:
  "unat (saturating_mul (a :: 'a::len word) b) = min (unat a * unat b) (2 ^ LENGTH('a) - 1)"
  by (auto simp: saturating_mul_def unat_mult_no_wrap unat_minus_one_word)

text \<open>A value below \<open>2 ^ n\<close> has no bit at or above \<open>n\<close>.\<close>

lemma bit_less_power:
  assumes "unat (w :: 'a::len word) < 2 ^ n" and "bit w k"
  shows "k < n"
proof (rule ccontr)
  assume "\<not> k < n"
  then have "(2::nat) ^ n \<le> 2 ^ k" by simp
  with assms(1) have "unat w < 2 ^ k" by (rule less_le_trans)
  then have "unat w div 2 ^ k = 0" by simp
  moreover from assms(2) have "bit (unat w) k" by (simp add: bit_unsigned_iff)
  ultimately show False by (simp add: bit_iff_odd)
qed

text \<open>Or-ing words with no common bit adds them.\<close>

lemma or_eq_add:
  assumes "\<And>n. bit a n \<Longrightarrow> bit b n \<Longrightarrow> False"
  shows "a OR b = a + (b :: 'a::len word)"
proof -
  have "a AND b = 0" using assms by (auto simp: bit_eq_iff bit_simps)
  then show ?thesis by (simp add: disjunctive_add_eq_or)
qed

lemma option_filter_simps [simp]:
  "option_filter P None = None"
  "option_filter P (Some x) = (if P x then Some x else None)"
  by (simp_all add: option_filter_def)

lemma option_filter_eq_Some: "option_filter P x = Some y \<longleftrightarrow> x = Some y \<and> P y"
  by (cases x) auto



text \<open>The position that \<open>leading_zeros\<close> finds is the most significant set bit.\<close>

lemma takeWhile_rev_upt:
  "\<exists>i<n. P i \<Longrightarrow>
   length (takeWhile (\<lambda>i. \<not> P i) (rev [0..<n])) < n \<and>
   P (n - 1 - length (takeWhile (\<lambda>i. \<not> P i) (rev [0..<n]))) \<and>
   (\<forall>i<n. P i \<longrightarrow> i + length (takeWhile (\<lambda>i. \<not> P i) (rev [0..<n])) < n)"
proof (induction n)
  case (Suc n)
  show ?case
  proof (cases "P n")
    case False
    with Suc.prems have "\<exists>i<n. P i" by (auto simp: less_Suc_eq)
    from Suc.IH [OF this] False show ?thesis by (auto simp: less_Suc_eq)
  qed simp
qed simp

lemma leading_zeros_bit:
  fixes w :: "'a::len word"
  assumes "w \<noteq> 0"
  shows "leading_zeros w < LENGTH('a)" "bit w (LENGTH('a) - 1 - leading_zeros w)"
    "bit w i \<Longrightarrow> i + leading_zeros w < LENGTH('a)"
proof -
  from assms have "\<exists>i<LENGTH('a). bit w i"
    using bit_imp_le_length bit_word_eqI [of w 0] by (auto simp: bit_simps)
  from takeWhile_rev_upt [OF this]
  show "leading_zeros w < LENGTH('a)" "bit w (LENGTH('a) - 1 - leading_zeros w)"
    "bit w i \<Longrightarrow> i + leading_zeros w < LENGTH('a)"
    by (auto simp: leading_zeros_def dest: bit_imp_le_length)
qed

lemma u64_sub_le: "b \<le> a \<Longrightarrow> a < 2 ^ 64 \<Longrightarrow> u64_sub a b = a - b"
proof -
  assume "b \<le> a" "a < 2 ^ 64"
  then have "a + 2 ^ 64 - b = (a - b) + 2 ^ 64" "a - b < 2 ^ 64" by auto
  then show ?thesis by (simp only: u64_sub_def mod_add_self2 mod_less)
qed

end
