(* ===== verification/Codec.thy ===== *)
theory Codec
  imports Prelude
begin

unbundle bit_operations_syntax

text \<open>
  The byte codec of \<^verbatim>\<open>common/s2n-codec\<close>: a \<open>DecoderBuffer\<close> is the list of bytes not yet read, an
  encoder is either an \<open>EncoderBuffer\<close> (a byte slice and a write position) or an
  \<open>EncoderLenEstimator\<close> (which only counts). Writing past the end of an \<open>EncoderBuffer\<close> is the
  value \<open>None\<close> (the debug assertion \<open>assert_capacity\<close>; undefined in release builds).

  The integer readers and writers of the third-party crate \<open>byteorder\<close> are a parameter,
  \<open>network_endian\<close>; \<open>network_endian_ok\<close> is their documented behaviour. The locale \<open>codec\<close> is
  the contract of a type that implements both \<open>EncoderValue\<close> and \<open>DecoderValue\<close>.
\<close>

section \<open>Bytes of machine integers\<close>

text \<open>\<open>to_le_bytes\<close>, \<open>to_be_bytes\<close>, \<open>from_le_bytes\<close>, \<open>from_be_bytes\<close> of the standard library.\<close>

definition to_le_bytes :: "nat \<Rightarrow> 'a::len word \<Rightarrow> u8 list" where
  "to_le_bytes n w = map (\<lambda>i. ucast (drop_bit (8 * i) w)) [0..<n]"

definition to_be_bytes :: "nat \<Rightarrow> 'a::len word \<Rightarrow> u8 list" where
  "to_be_bytes n w = rev (to_le_bytes n w)"

fun from_le_bytes :: "u8 list \<Rightarrow> 'a::len word" where
  "from_le_bytes [] = 0"
| "from_le_bytes (b # bs) = ucast b OR push_bit 8 (from_le_bytes bs)"

definition from_be_bytes :: "u8 list \<Rightarrow> 'a::len word" where
  "from_be_bytes bs = from_le_bytes (rev bs)"

lemma length_to_le_bytes [simp]: "length (to_le_bytes n w) = n"
  by (simp add: to_le_bytes_def)

lemma length_to_be_bytes [simp]: "length (to_be_bytes n w) = n"
  by (simp add: to_be_bytes_def)

lemma nth_to_le_bytes [simp]: "i < n \<Longrightarrow> to_le_bytes n w ! i = ucast (drop_bit (8 * i) w)"
  by (simp add: to_le_bytes_def)

lemma nth_to_be_bytes [simp]:
  "i < n \<Longrightarrow> to_be_bytes n w ! i = ucast (drop_bit (8 * (n - Suc i)) w)"
  by (simp add: to_be_bytes_def rev_nth)

lemma bit_from_le_bytes:
  "bit (from_le_bytes bs :: 'a::len word) n
   \<longleftrightarrow> n < LENGTH('a) \<and> n div 8 < length bs \<and> bit (bs ! (n div 8)) (n mod 8)"
proof (induction bs arbitrary: n)
  case Nil
  then show ?case by simp
next
  case (Cons b bs)
  show ?case
  proof (cases "n < 8")
    case True
    then show ?thesis
      by (auto simp: bit_simps dest: bit_imp_le_length)
  next
    case False
    then have "n div 8 = Suc ((n - 8) div 8)" and "n mod 8 = (n - 8) mod 8"
      by (simp_all add: le_div_geq le_mod_geq)
    moreover from False have "\<not> bit b n"
      using bit_imp_le_length [of b n] by auto
    ultimately show ?thesis
      using False Cons.IH [of "n - 8"] by (auto simp: bit_simps)
  qed
qed

lemma from_le_bytes_to_le_bytes:
  "from_le_bytes (to_le_bytes n (w :: 'a::len word)) = take_bit (8 * n) w"
proof (rule bit_word_eqI)
  fix k
  assume k: "k < LENGTH('a)"
  have "k div 8 < n \<longleftrightarrow> k < 8 * n"
    by (simp add: div_less_iff_less_mult mult.commute)
  then show "bit (from_le_bytes (to_le_bytes n w) :: 'a word) k = bit (take_bit (8 * n) w) k"
    using k by (auto simp: bit_from_le_bytes bit_simps)
qed

lemma from_be_bytes_to_be_bytes_take:
  "from_be_bytes (to_be_bytes n (w :: 'a::len word)) = take_bit (8 * n) w"
  by (simp add: from_be_bytes_def to_be_bytes_def from_le_bytes_to_le_bytes)

lemma from_be_bytes_to_be_bytes:
  "LENGTH('a) \<le> 8 * n \<Longrightarrow> from_be_bytes (to_be_bytes n (w :: 'a::len word)) = w"
  by (simp add: from_be_bytes_to_be_bytes_take take_bit_word_beyond_length_eq)

section \<open>The byteorder crate\<close>

text \<open>
  The functions of \<open>byteorder::NetworkEndian\<close> that the codec calls. A reader gets the slice it
  reads from, a writer gives the bytes it stores.
\<close>

record network_endian =
  read_u16 :: "u8 list \<Rightarrow> u16"
  read_u24 :: "u8 list \<Rightarrow> u32"
  read_u32 :: "u8 list \<Rightarrow> u32"
  read_u64 :: "u8 list \<Rightarrow> u64"
  write_u16 :: "u16 \<Rightarrow> u8 list"
  write_u24 :: "u32 \<Rightarrow> u8 list"
  write_u32 :: "u32 \<Rightarrow> u8 list"
  write_u64 :: "u64 \<Rightarrow> u8 list"

text \<open>
  Documented behaviour: network order is big endian, \<open>write_u24\<close> is defined for values that fit
  in three bytes.
\<close>

definition network_endian_ok :: "network_endian \<Rightarrow> bool" where
  "network_endian_ok ne \<longleftrightarrow>
     (\<forall>bs. length bs = 2 \<longrightarrow> read_u16 ne bs = from_be_bytes bs) \<and>
     (\<forall>bs. length bs = 3 \<longrightarrow> read_u24 ne bs = from_be_bytes bs) \<and>
     (\<forall>bs. length bs = 4 \<longrightarrow> read_u32 ne bs = from_be_bytes bs) \<and>
     (\<forall>bs. length bs = 8 \<longrightarrow> read_u64 ne bs = from_be_bytes bs) \<and>
     (\<forall>v. write_u16 ne v = to_be_bytes 2 v) \<and>
     (\<forall>v. v < 2 ^ 24 \<longrightarrow> write_u24 ne v = to_be_bytes 3 v) \<and>
     (\<forall>v. write_u32 ne v = to_be_bytes 4 v) \<and>
     (\<forall>v. write_u64 ne v = to_be_bytes 8 v)"

text \<open>An instance, used where a theorem about the parameter is applied to concrete bytes.\<close>

definition big_endian :: network_endian where
  "big_endian = \<lparr>read_u16 = from_be_bytes, read_u24 = from_be_bytes, read_u32 = from_be_bytes,
     read_u64 = from_be_bytes, write_u16 = to_be_bytes 2, write_u24 = to_be_bytes 3,
     write_u32 = to_be_bytes 4, write_u64 = to_be_bytes 8\<rparr>"

lemma big_endian_ok: "network_endian_ok big_endian"
  by (simp add: network_endian_ok_def big_endian_def)

lemma network_endian_okD:
  assumes "network_endian_ok ne"
  shows "length bs = 2 \<Longrightarrow> read_u16 ne bs = from_be_bytes bs"
    and "length bs = 3 \<Longrightarrow> read_u24 ne bs = from_be_bytes bs"
    and "length bs = 4 \<Longrightarrow> read_u32 ne bs = from_be_bytes bs"
    and "length bs = 8 \<Longrightarrow> read_u64 ne bs = from_be_bytes bs"
    and "write_u16 ne a = to_be_bytes 2 a"
    and "b < 2 ^ 24 \<Longrightarrow> write_u24 ne b = to_be_bytes 3 b"
    and "write_u32 ne b = to_be_bytes 4 b"
    and "write_u64 ne c = to_be_bytes 8 c"
  using assms by (simp_all add: network_endian_ok_def)

section \<open>Decoding\<close>

datatype decoder_error =
    UnexpectedEof nat
  | UnexpectedBytes nat
  | LengthCapacityExceeded
  | InvariantViolation string

type_synonym 'a decoded = "decoder_error + 'a \<times> u8 list"

definition ensure_empty :: "u8 list \<Rightarrow> decoder_error + unit" where
  "ensure_empty buffer =
     (if buffer \<noteq> [] then Inl (UnexpectedBytes (length buffer)) else Inr ())"

definition ensure_len :: "u8 list \<Rightarrow> nat \<Rightarrow> decoder_error + unit" where
  "ensure_len buffer len = (if length buffer < len then Inl (UnexpectedEof len) else Inr ())"

definition decode_slice :: "u8 list \<Rightarrow> nat \<Rightarrow> u8 list decoded" where
  "decode_slice buffer count =
     rbind (ensure_len buffer count) (\<lambda>_. Inr (take count buffer, drop count buffer))"

definition decode_exact :: "(u8 list \<Rightarrow> 'a decoded) \<Rightarrow> u8 list \<Rightarrow> decoder_error + 'a" where
  "decode_exact dec buffer =
     rbind (dec buffer) (\<lambda>(value, remaining).
       if remaining \<noteq> [] then Inl (UnexpectedBytes (length remaining)) else Inr value)"

definition decode_slice_with_len_prefix ::
    "(u8 list \<Rightarrow> 'l decoded) \<Rightarrow> ('l \<Rightarrow> nat option) \<Rightarrow> u8 list \<Rightarrow> u8 list decoded" where
  "decode_slice_with_len_prefix dec try_into buffer =
     rbind (dec buffer) (\<lambda>(len, buffer).
     rbind (ok_or LengthCapacityExceeded (try_into len)) (\<lambda>len.
     decode_slice buffer len))"

definition decode_with_len_prefix ::
    "(u8 list \<Rightarrow> 'l decoded) \<Rightarrow> ('l \<Rightarrow> nat option) \<Rightarrow> (u8 list \<Rightarrow> 'a decoded) \<Rightarrow> u8 list
     \<Rightarrow> 'a decoded" where
  "decode_with_len_prefix dec_len try_into dec buffer =
     rbind (decode_slice_with_len_prefix dec_len try_into buffer) (\<lambda>(slice, buffer).
     rbind (dec slice) (\<lambda>(value, slice).
     rbind (ensure_empty slice) (\<lambda>_.
     Inr (value, buffer))))"

definition skip :: "u8 list \<Rightarrow> nat \<Rightarrow> decoder_error + u8 list" where
  "skip buffer count = rbind (decode_slice buffer count) (\<lambda>(_, buffer). Inr buffer)"

definition skip_with_len_prefix ::
    "(u8 list \<Rightarrow> 'l decoded) \<Rightarrow> ('l \<Rightarrow> nat option) \<Rightarrow> u8 list \<Rightarrow> decoder_error + u8 list" where
  "skip_with_len_prefix dec try_into buffer =
     rbind (dec buffer) (\<lambda>(len, buffer).
     rbind (ok_or LengthCapacityExceeded (try_into len)) (\<lambda>len.
     skip buffer len))"

definition peek_byte :: "u8 list \<Rightarrow> nat \<Rightarrow> decoder_error + u8" where
  "peek_byte buffer index =
     (if index < length buffer then Inr (buffer ! index) else Inl (UnexpectedEof index))"

text \<open>\<open>slice::get(start..end)\<close> is \<open>None\<close> for a reversed or an out-of-bounds range.\<close>

definition peek_range :: "u8 list \<Rightarrow> nat \<Rightarrow> nat \<Rightarrow> decoder_error + u8 list" where
  "peek_range buffer start end' =
     (if start \<le> end' \<and> end' \<le> length buffer then Inr (take (end' - start) (drop start buffer))
      else Inl (UnexpectedEof end'))"

record checked_range =
  cr_start :: nat
  cr_end :: nat

text \<open>
  \<open>skip_into_range\<close> is called on a view into \<open>original_buffer\<close>, which is never shorter than the
  view, so that the subtraction does not wrap.
\<close>

definition skip_into_range ::
    "u8 list \<Rightarrow> nat \<Rightarrow> u8 list \<Rightarrow> checked_range decoded" where
  "skip_into_range buffer count original_buffer =
     (let start = length original_buffer - length buffer in
      rbind (decode_slice buffer count) (\<lambda>(_, buffer).
      Inr (\<lparr>cr_start = start, cr_end = start + count\<rparr>, buffer)))"

text \<open>\<open>&slice[start..end]\<close>: \<open>None\<close> is the panic of a reversed or an out-of-bounds range.\<close>

definition get_checked_range :: "u8 list \<Rightarrow> checked_range \<Rightarrow> u8 list option" where
  "get_checked_range bytes rng =
     (if cr_start rng \<le> cr_end rng \<and> cr_end rng \<le> length bytes
      then Some (take (cr_end rng - cr_start rng) (drop (cr_start rng) bytes)) else None)"

definition decode_u8 :: "u8 list \<Rightarrow> u8 decoded" where
  "decode_u8 buffer =
     rbind (decode_slice buffer 1) (\<lambda>(value, buffer). Inr (value ! 0, buffer))"

definition decode_u16 :: "network_endian \<Rightarrow> u8 list \<Rightarrow> u16 decoded" where
  "decode_u16 ne buffer =
     rbind (decode_slice buffer 2) (\<lambda>(value, buffer). Inr (read_u16 ne value, buffer))"

definition decode_u32 :: "network_endian \<Rightarrow> u8 list \<Rightarrow> u32 decoded" where
  "decode_u32 ne buffer =
     rbind (decode_slice buffer 4) (\<lambda>(value, buffer). Inr (read_u32 ne value, buffer))"

definition decode_u64 :: "network_endian \<Rightarrow> u8 list \<Rightarrow> u64 decoded" where
  "decode_u64 ne buffer =
     rbind (decode_slice buffer 8) (\<lambda>(value, buffer). Inr (read_u64 ne value, buffer))"

text \<open>\<open>u24\<close> is stored in a \<open>u32\<close>; \<open>new_truncated\<close> keeps the low 24 bits.\<close>

definition u24_new_truncated :: "u32 \<Rightarrow> u32" where
  "u24_new_truncated value = value AND (push_bit 24 1 - 1)"

definition decode_u24 :: "network_endian \<Rightarrow> u8 list \<Rightarrow> u32 decoded" where
  "decode_u24 ne buffer =
     rbind (decode_slice buffer (24 div 8)) (\<lambda>(value, buffer).
     Inr (u24_new_truncated (read_u24 ne value), buffer))"

text \<open>The value that takes the rest of the buffer, and a value that may be absent.\<close>

definition decode_rest :: "u8 list \<Rightarrow> u8 list decoded" where
  "decode_rest buffer = decode_slice buffer (length buffer)"

definition decode_option :: "(u8 list \<Rightarrow> 'a decoded) \<Rightarrow> u8 list \<Rightarrow> 'a option decoded" where
  "decode_option dec buffer =
     (if buffer = [] then Inr (None, buffer)
      else rbind (dec buffer) (\<lambda>(value, buffer). Inr (Some value, buffer)))"

text \<open>A byte array \<open>[u8; N]\<close>.\<close>

definition decode_array :: "nat \<Rightarrow> u8 list \<Rightarrow> u8 list decoded" where
  "decode_array n buffer =
     rbind (decode_slice buffer n) (\<lambda>(value, buffer).
       if length value = n then Inr (value, buffer)
       else Inl (InvariantViolation ''decode_slice returned a slice of the wrong length''))"

section \<open>Encoding\<close>

datatype encoder =
    EncoderBuffer (eb_bytes: "u8 list") (eb_position: nat)
  | EncoderLenEstimator (el_capacity: nat) (el_len: nat)

text \<open>
  Lengths of memory never exceed \<open>isize::MAX\<close>, so the \<open>usize\<close> arithmetic on positions is that of
  \<open>nat\<close>. The length of an estimator is only a sum of sizes of values held in memory; it is a \<open>nat\<close>
  too, without the wrap-around that a sum beyond \<open>usize\<close> would have.
\<close>

fun capacity :: "encoder \<Rightarrow> nat" where
  "capacity (EncoderBuffer bytes position) = length bytes"
| "capacity (EncoderLenEstimator cap len) = cap"

fun encoder_len :: "encoder \<Rightarrow> nat" where
  "encoder_len (EncoderBuffer bytes position) = position"
| "encoder_len (EncoderLenEstimator cap len) = len"

definition remaining_capacity :: "encoder \<Rightarrow> nat" where
  "remaining_capacity e = capacity e - encoder_len e"

text \<open>
  The closure of \<open>write_sized\<close> gets the memory that starts at the write position and returns it
  updated. \<open>None\<close> is a write past the end: with debug assertions \<open>assert_capacity\<close> panics, without
  them the unchecked slice is undefined behaviour. No outcome of such a write is ever relied on.
\<close>

fun write_sized :: "nat \<Rightarrow> (u8 list \<Rightarrow> u8 list) \<Rightarrow> encoder \<Rightarrow> encoder option" where
  "write_sized len write (EncoderBuffer bytes position) =
     (if len \<le> remaining_capacity (EncoderBuffer bytes position)
      then Some (EncoderBuffer (take position bytes @ write (drop position bytes)) (position + len))
      else None)"
| "write_sized len write (EncoderLenEstimator cap n) = Some (EncoderLenEstimator cap (n + len))"

text \<open>\<open>copy_from_slice\<close> into the start of the memory.\<close>

definition overwrite :: "u8 list \<Rightarrow> u8 list \<Rightarrow> u8 list" where
  "overwrite bs mem = bs @ drop (length bs) mem"

definition write_slice :: "u8 list \<Rightarrow> encoder \<Rightarrow> encoder option" where
  "write_slice src e = write_sized (length src) (overwrite src) e"

definition write_repeated :: "nat \<Rightarrow> u8 \<Rightarrow> encoder \<Rightarrow> encoder option" where
  "write_repeated count value e = write_sized count (overwrite (replicate count value)) e"

definition encode_u8 :: "u8 \<Rightarrow> encoder \<Rightarrow> encoder option" where
  "encode_u8 v e = write_sized 1 (overwrite [v]) e"

definition encode_u16 :: "network_endian \<Rightarrow> u16 \<Rightarrow> encoder \<Rightarrow> encoder option" where
  "encode_u16 ne v e = write_sized 2 (overwrite (write_u16 ne v)) e"

definition encode_u24 :: "network_endian \<Rightarrow> u32 \<Rightarrow> encoder \<Rightarrow> encoder option" where
  "encode_u24 ne v e = write_sized 3 (overwrite (write_u24 ne v)) e"

definition encode_u32 :: "network_endian \<Rightarrow> u32 \<Rightarrow> encoder \<Rightarrow> encoder option" where
  "encode_u32 ne v e = write_sized 4 (overwrite (write_u32 ne v)) e"

definition encode_u64 :: "network_endian \<Rightarrow> u64 \<Rightarrow> encoder \<Rightarrow> encoder option" where
  "encode_u64 ne v e = write_sized 8 (overwrite (write_u64 ne v)) e"

text \<open>Writes in sequence: the statements \<open>buffer.encode(a); buffer.encode(b);\<close>.\<close>

definition enc_then ::
    "(encoder \<Rightarrow> encoder option) \<Rightarrow> (encoder \<Rightarrow> encoder option) \<Rightarrow> encoder \<Rightarrow> encoder option" where
  "enc_then f g e = Option.bind (f e) g"

fun enc_seq :: "(encoder \<Rightarrow> encoder option) list \<Rightarrow> encoder \<Rightarrow> encoder option" where
  "enc_seq [] e = Some e"
| "enc_seq (f # fs) e = enc_then f (enc_seq fs) e"

text \<open>\<open>if let Some(value) = self.as_ref() { value.encode(buffer) }\<close>\<close>

definition encode_option ::
    "('a \<Rightarrow> encoder \<Rightarrow> encoder option) \<Rightarrow> 'a option \<Rightarrow> encoder \<Rightarrow> encoder option" where
  "encode_option enc v e = (case v of None \<Rightarrow> Some e | Some value \<Rightarrow> enc value e)"

text \<open>The default sizes: run the encoder on an estimator.\<close>

definition encoding_size_for_encoder ::
    "(encoder \<Rightarrow> encoder option) \<Rightarrow> encoder \<Rightarrow> nat option" where
  "encoding_size_for_encoder enc e =
     map_option encoder_len (enc (EncoderLenEstimator (remaining_capacity e) 0))"

definition encoding_size :: "(encoder \<Rightarrow> encoder option) \<Rightarrow> nat option" where
  "encoding_size enc = encoding_size_for_encoder enc (EncoderLenEstimator usize_max 0)"

definition encode_with_len_prefix ::
    "(nat \<Rightarrow> 'l option) \<Rightarrow> ('l \<Rightarrow> encoder \<Rightarrow> encoder option) \<Rightarrow> (encoder \<Rightarrow> encoder option)
     \<Rightarrow> encoder \<Rightarrow> encoder option" where
  "encode_with_len_prefix try_from enc_len enc e =
     Option.bind (encoding_size_for_encoder enc e) (\<lambda>len.
     Option.bind (try_from len) (\<lambda>len.
     enc_then (enc_len len) enc e))"


section \<open>What an encoder writes\<close>

text \<open>
  \<open>encoder_wf\<close>: the write position is inside the slice. \<open>fits n e\<close>: \<open>n\<close> more bytes can be
  written. \<open>writes e bs e'\<close>: \<open>e'\<close> is \<open>e\<close> after exactly the bytes \<open>bs\<close> were appended; the memory
  behind the new position may have changed. \<open>emits f bs\<close>: the encoding routine \<open>f\<close> appends \<open>bs\<close>
  to every encoder with room for them and fails on every other.
\<close>

fun encoder_wf :: "encoder \<Rightarrow> bool" where
  "encoder_wf (EncoderBuffer bytes position) \<longleftrightarrow> position \<le> length bytes"
| "encoder_wf (EncoderLenEstimator cap len) \<longleftrightarrow> True"

fun fits :: "nat \<Rightarrow> encoder \<Rightarrow> bool" where
  "fits n (EncoderBuffer bytes position) \<longleftrightarrow> position + n \<le> length bytes"
| "fits n (EncoderLenEstimator cap len) \<longleftrightarrow> True"

fun writes :: "encoder \<Rightarrow> u8 list \<Rightarrow> encoder \<Rightarrow> bool" where
  "writes (EncoderBuffer bytes position) bs e' \<longleftrightarrow>
     (\<exists>bytes'. e' = EncoderBuffer bytes' (position + length bs) \<and>
       length bytes' = length bytes \<and> position + length bs \<le> length bytes \<and>
       take (position + length bs) bytes' = take position bytes @ bs)"
| "writes (EncoderLenEstimator cap len) bs e' \<longleftrightarrow>
     e' = EncoderLenEstimator cap (len + length bs)"

definition emits :: "(encoder \<Rightarrow> encoder option) \<Rightarrow> u8 list \<Rightarrow> bool" where
  "emits f bs \<longleftrightarrow> (\<forall>e. encoder_wf e \<longrightarrow>
     (if fits (length bs) e then \<exists>e'. f e = Some e' \<and> writes e bs e' else f e = None))"

lemma writes_wf: "writes e bs e' \<Longrightarrow> encoder_wf e'"
  by (cases e) auto

lemma writes_trans:
  assumes "writes e as e'" and "writes e' bs e''"
  shows "writes e (as @ bs) e''"
proof (cases e)
  case (EncoderBuffer bytes position)
  with assms show ?thesis by (auto simp: add.assoc)
next
  case (EncoderLenEstimator cap len)
  with assms show ?thesis by simp
qed

lemma writes_fits:
  assumes "writes e as e'"
  shows "fits n e' \<longleftrightarrow> fits (length as + n) e"
  using assms by (cases e) (auto simp: add.assoc)

lemma writes_remaining:
  "writes e bs e' \<Longrightarrow> encoder_wf e \<Longrightarrow> remaining_capacity e' = remaining_capacity e - length bs"
  by (cases e) (auto simp: remaining_capacity_def)

lemma emitsI:
  assumes "\<And>e. encoder_wf e \<Longrightarrow> fits (length bs) e \<Longrightarrow> \<exists>e'. f e = Some e' \<and> writes e bs e'"
    and "\<And>e. encoder_wf e \<Longrightarrow> \<not> fits (length bs) e \<Longrightarrow> f e = None"
  shows "emits f bs"
  using assms by (simp add: emits_def)

lemma emitsD:
  assumes "emits f bs" and "encoder_wf e"
  shows "fits (length bs) e \<Longrightarrow> \<exists>e'. f e = Some e' \<and> writes e bs e'"
    and "\<not> fits (length bs) e \<Longrightarrow> f e = None"
  using assms by (auto simp: emits_def)

lemma emits_Some:
  assumes "emits f bs" and "encoder_wf e" and "f e = Some e'"
  shows "writes e bs e'"
  using assms by (cases "fits (length bs) e") (auto simp: emits_def)

text \<open>
  A sized write whose closure keeps the memory's length and puts \<open>bs\<close> first emits \<open>bs\<close>, whatever
  else it does to the memory behind them.
\<close>

lemma write_sized_emits:
  assumes len: "length bs = n"
    and closure: "\<And>mem. n \<le> length mem \<Longrightarrow> length (w mem) = length mem \<and> take n (w mem) = bs"
  shows "emits (write_sized n w) bs"
proof (rule emitsI)
  fix e
  assume wf: "encoder_wf e" and fit: "fits (length bs) e"
  show "\<exists>e'. write_sized n w e = Some e' \<and> writes e bs e'"
  proof (cases e)
    case (EncoderBuffer bytes position)
    with fit len have "n \<le> length (drop position bytes)" and "position \<le> length bytes"
      by auto
    with closure [of "drop position bytes"] EncoderBuffer fit len show ?thesis
      by (auto simp: remaining_capacity_def)
  next
    case (EncoderLenEstimator cap l)
    then show ?thesis using len by simp
  qed
next
  fix e
  assume "encoder_wf e" and "\<not> fits (length bs) e"
  then show "write_sized n w e = None"
    using len by (cases e) (auto simp: remaining_capacity_def)
qed

lemma overwrite_emits: "length bs = n \<Longrightarrow> emits (write_sized n (overwrite bs)) bs"
  by (rule write_sized_emits) (auto simp: overwrite_def)

lemma emits_cong: "(\<And>e. encoder_wf e \<Longrightarrow> f e = g e) \<Longrightarrow> emits f bs \<longleftrightarrow> emits g bs"
  by (simp add: emits_def)

named_theorems emits_intros

lemma write_slice_emits [emits_intros]: "emits (write_slice bs) bs"
  using overwrite_emits [of bs] by (simp add: write_slice_def [abs_def])

lemma write_repeated_emits [emits_intros]:
  "emits (write_repeated n v) (replicate n v)"
  using overwrite_emits [of "replicate n v"] by (simp add: write_repeated_def [abs_def])

lemma encode_u8_emits [emits_intros]: "emits (encode_u8 v) [v]"
  using overwrite_emits [of "[v]" 1] by (simp add: encode_u8_def [abs_def])

lemma encode_u16_emits [emits_intros]:
  "network_endian_ok ne \<Longrightarrow> emits (encode_u16 ne v) (to_be_bytes 2 v)"
  using overwrite_emits [of "write_u16 ne v" 2]
  by (simp add: encode_u16_def [abs_def] network_endian_okD)

lemma encode_u24_emits [emits_intros]:
  "network_endian_ok ne \<Longrightarrow> v < 2 ^ 24 \<Longrightarrow> emits (encode_u24 ne v) (to_be_bytes 3 v)"
  using overwrite_emits [of "write_u24 ne v" 3]
  by (simp add: encode_u24_def [abs_def] network_endian_okD)

lemma encode_u32_emits [emits_intros]:
  "network_endian_ok ne \<Longrightarrow> emits (encode_u32 ne v) (to_be_bytes 4 v)"
  using overwrite_emits [of "write_u32 ne v" 4]
  by (simp add: encode_u32_def [abs_def] network_endian_okD)

lemma encode_u64_emits [emits_intros]:
  "network_endian_ok ne \<Longrightarrow> emits (encode_u64 ne v) (to_be_bytes 8 v)"
  using overwrite_emits [of "write_u64 ne v" 8]
  by (simp add: encode_u64_def [abs_def] network_endian_okD)

lemma enc_then_emits [emits_intros]:
  assumes f: "emits f as" and g: "emits g bs"
  shows "emits (enc_then f g) (as @ bs)"
proof (rule emitsI)
  fix e
  assume wf: "encoder_wf e" and fit: "fits (length (as @ bs)) e"
  then have "fits (length as) e" by (cases e) auto
  with f wf obtain e' where e': "f e = Some e'" "writes e as e'"
    by (auto dest: emitsD)
  with fit have "fits (length bs) e'" by (simp add: writes_fits)
  with g e' obtain e'' where "g e' = Some e''" "writes e' bs e''"
    by (auto dest: emitsD writes_wf)
  with e' show "\<exists>e'. enc_then f g e = Some e' \<and> writes e (as @ bs) e'"
    by (auto simp: enc_then_def intro: writes_trans)
next
  fix e
  assume wf: "encoder_wf e" and fit: "\<not> fits (length (as @ bs)) e"
  show "enc_then f g e = None"
  proof (cases "f e")
    case None
    then show ?thesis by (simp add: enc_then_def)
  next
    case (Some e')
    with f wf have w: "writes e as e'" by (rule emits_Some)
    with fit have "\<not> fits (length bs) e'" by (simp add: writes_fits)
    with g w Some show ?thesis
      by (auto simp: enc_then_def dest: emitsD writes_wf)
  qed
qed

lemma enc_seq_Nil_emits [emits_intros]: "emits (enc_seq []) []"
proof (rule emitsI)
  fix e :: encoder
  assume "encoder_wf e"
  then show "\<exists>e'. enc_seq [] e = Some e' \<and> writes e [] e'"
    by (cases e) auto
next
  fix e :: encoder
  assume "encoder_wf e" and "\<not> fits (length []) e"
  then show "enc_seq [] e = None" by (cases e) auto
qed

lemma enc_seq_Cons_emits [emits_intros]:
  assumes "emits f as" and "emits (enc_seq fs) bs"
  shows "emits (enc_seq (f # fs)) (as @ bs)"
proof -
  have "enc_seq (f # fs) = enc_then f (enc_seq fs)" by (rule ext) simp
  with enc_then_emits [OF assms] show ?thesis by simp
qed

lemma encode_option_emits [emits_intros]:
  "(\<And>v. x = Some v \<Longrightarrow> emits (enc v) (bytes v)) \<Longrightarrow>
   emits (encode_option enc x) (case x of None \<Rightarrow> [] | Some v \<Rightarrow> bytes v)"
  using enc_seq_Nil_emits
  by (cases x) (auto simp: encode_option_def [abs_def] emits_def)

lemma emits_encoding_size_for_encoder:
  assumes "emits f bs"
  shows "encoding_size_for_encoder f e = Some (length bs)"
proof -
  obtain e' where "f (EncoderLenEstimator (remaining_capacity e) 0) = Some e'"
    and "writes (EncoderLenEstimator (remaining_capacity e) 0) bs e'"
    using emitsD(1) [OF assms, of "EncoderLenEstimator (remaining_capacity e) 0"] by auto
  then show ?thesis by (simp add: encoding_size_for_encoder_def)
qed

lemma emits_encoding_size: "emits f bs \<Longrightarrow> encoding_size f = Some (length bs)"
  by (simp add: encoding_size_def emits_encoding_size_for_encoder)

lemma encode_with_len_prefix_emits [emits_intros]:
  assumes "emits f bs" and "try_from (length bs) = Some l" and "emits (enc_len l) as"
  shows "emits (encode_with_len_prefix try_from enc_len f) (as @ bs)"
proof -
  have "encode_with_len_prefix try_from enc_len f = enc_then (enc_len l) f"
    using assms by (auto simp: encode_with_len_prefix_def emits_encoding_size_for_encoder fun_eq_iff)
  with enc_then_emits [OF assms(3,1)] show ?thesis by simp
qed

section \<open>What a decoder reads\<close>

named_theorems decode_simps

lemma decode_slice_append [decode_simps]:
  "length bs = n \<Longrightarrow> decode_slice (bs @ rest) n = Inr (bs, rest)"
  by (auto simp: decode_slice_def ensure_len_def)

lemma decode_slice_Inr:
  "decode_slice buffer n = Inr (s, rest) \<longleftrightarrow> buffer = s @ rest \<and> length s = n"
  by (auto simp: decode_slice_def ensure_len_def)

lemma decode_slice_Inl:
  "decode_slice buffer n = Inl e \<longleftrightarrow> length buffer < n \<and> e = UnexpectedEof n"
  by (auto simp: decode_slice_def ensure_len_def)

lemma decode_u8_Cons [decode_simps]: "decode_u8 (b # rest) = Inr (b, rest)"
  using decode_slice_append [of "[b]" 1 rest] by (simp add: decode_u8_def)

lemma decode_u16_append [decode_simps]:
  "network_endian_ok ne \<Longrightarrow> length bs = 2 \<Longrightarrow> decode_u16 ne (bs @ rest) = Inr (from_be_bytes bs, rest)"
  by (simp add: decode_u16_def decode_simps network_endian_okD)

lemma decode_u32_append [decode_simps]:
  "network_endian_ok ne \<Longrightarrow> length bs = 4 \<Longrightarrow> decode_u32 ne (bs @ rest) = Inr (from_be_bytes bs, rest)"
  by (simp add: decode_u32_def decode_simps network_endian_okD)

lemma decode_u64_append [decode_simps]:
  "network_endian_ok ne \<Longrightarrow> length bs = 8 \<Longrightarrow> decode_u64 ne (bs @ rest) = Inr (from_be_bytes bs, rest)"
  by (simp add: decode_u64_def decode_simps network_endian_okD)

lemma decode_u24_append [decode_simps]:
  "network_endian_ok ne \<Longrightarrow> length bs = 3 \<Longrightarrow>
   decode_u24 ne (bs @ rest) = Inr (u24_new_truncated (from_be_bytes bs), rest)"
  by (simp add: decode_u24_def decode_simps network_endian_okD)

lemma decode_rest_eq [decode_simps]: "decode_rest buffer = Inr (buffer, [])"
  by (simp add: decode_rest_def decode_slice_def ensure_len_def)

lemma decode_array_append [decode_simps]:
  "length bs = n \<Longrightarrow> decode_array n (bs @ rest) = Inr (bs, rest)"
  by (simp add: decode_array_def decode_simps)

lemma decode_slice_with_len_prefix_append [decode_simps]:
  assumes "dec (lb @ bs @ rest) = Inr (l, bs @ rest)" and "try_into l = Some (length bs)"
  shows "decode_slice_with_len_prefix dec try_into (lb @ bs @ rest) = Inr (bs, rest)"
  using assms by (simp add: decode_slice_with_len_prefix_def decode_simps)

text \<open>A decoder that only reads: what it leaves is a suffix of what it got.\<close>

definition consumes :: "(u8 list \<Rightarrow> 'a decoded) \<Rightarrow> bool" where
  "consumes dec \<longleftrightarrow> (\<forall>buffer v rest. dec buffer = Inr (v, rest) \<longrightarrow> (\<exists>read. buffer = read @ rest))"

lemma consumesD: "consumes dec \<Longrightarrow> dec buffer = Inr (v, rest) \<Longrightarrow> \<exists>read. buffer = read @ rest"
  by (auto simp: consumes_def)

section \<open>The contract of an encodable and decodable type\<close>

text \<open>
  \<open>valid\<close> are the values the Rust type admits, \<open>wire\<close> is the wire image. The two laws are about one
  direction each; the lemmas combine them to the round trip through a buffer and the agreement of
  the estimated with the written size.
\<close>

locale codec =
  fixes valid :: "'a \<Rightarrow> bool"
    and enc :: "'a \<Rightarrow> encoder \<Rightarrow> encoder option"
    and wire :: "'a \<Rightarrow> u8 list"
    and dec :: "u8 list \<Rightarrow> 'a decoded"
  assumes enc_emits: "valid v \<Longrightarrow> emits (enc v) (wire v)"
    and dec_wire: "valid v \<Longrightarrow> dec (wire v @ rest) = Inr (v, rest)"
begin

lemma encode_total:
  assumes "valid v" and "length (wire v) \<le> length buf"
  shows "\<exists>buf'. enc v (EncoderBuffer buf 0) = Some (EncoderBuffer buf' (length (wire v)))"
  using emitsD(1) [OF enc_emits [OF assms(1)], of "EncoderBuffer buf 0"] assms(2) by auto

lemma round_trip:
  assumes "valid v" and "enc v (EncoderBuffer buf 0) = Some e"
  shows "\<exists>buf' n. e = EncoderBuffer buf' n \<and> n = length (wire v) \<and> dec (take n buf') = Inr (v, [])"
proof -
  have "writes (EncoderBuffer buf 0) (wire v) e"
    by (rule emits_Some [OF enc_emits [OF assms(1)] _ assms(2)]) simp
  then show ?thesis using dec_wire [OF assms(1), of "[]"] by auto
qed

lemma size_correct: "valid v \<Longrightarrow> encoding_size (enc v) = Some (length (wire v))"
  by (rule emits_encoding_size [OF enc_emits])

lemma wire_inj:
  assumes "valid v" and "valid w" and "wire v @ r = wire w @ s"
  shows "v = w \<and> r = s"
  by (metis Pair_inject assms dec_wire sum.inject(2))

end

interpretation u8_codec: codec "\<lambda>_. True" encode_u8 "\<lambda>v. [v]" decode_u8
  by unfold_locales (simp_all add: emits_intros decode_simps)

lemma skip_append [decode_simps]: "length bs = n \<Longrightarrow> skip (bs @ rest) n = Inr rest"
  by (simp add: skip_def decode_simps)

text \<open>A checked range gives back the slice that was skipped, without a panic.\<close>

lemma get_checked_range_skip:
  assumes "original = before @ buffer"
    and "skip_into_range buffer count original = Inr (r, rest)"
  shows "\<exists>bs. get_checked_range original r = Some bs \<and> buffer = bs @ rest \<and> length bs = count"
  using assms by (auto simp: skip_into_range_def get_checked_range_def Let_def result_simps
      decode_slice_Inr)

end
