(* ===== verification/VarInt.thy ===== *)
theory VarInt
  imports Codec
begin

unbundle bit_operations_syntax

text \<open>
  Variable-length integers: \<^verbatim>\<open>quic/s2n-quic-core/src/varint/mod.rs\<close> and \<^verbatim>\<open>table.rs\<close>. A
  \<open>VarInt(u64)\<close> is the \<^typ>\<open>u64\<close> it wraps; \<open>varint_valid\<close> is the invariant of the private field.
  \<open>to_be\<close> and \<open>to_ne_bytes\<close> are those of a little-endian target.

  The table lookup with its branch-free updates is shown equal to the table of RFC 9000, the
  oversized eight-byte store is shown to write the same bytes as the exact one, and encoding and
  decoding are shown to be a \<open>codec\<close> with the wire image \<open>varint_wire\<close> of the RFC.
\<close>

type_synonym varint = u64

section \<open>Values\<close>

definition MAX_VARINT_VALUE :: u64 where
  "MAX_VARINT_VALUE = 4611686018427387903"

datatype varint_error = VarIntError

definition varint_valid :: "varint \<Rightarrow> bool" where
  "varint_valid v \<longleftrightarrow> v \<le> MAX_VARINT_VALUE"

definition varint_new :: "u64 \<Rightarrow> varint_error + varint" where
  "varint_new v = (if v > MAX_VARINT_VALUE then Inl VarIntError else Inr v)"

definition varint_checked_add :: "varint \<Rightarrow> varint \<Rightarrow> varint option" where
  "varint_checked_add self value =
     Option.bind (checked_add self value) (\<lambda>v. result_ok (varint_new v))"

text \<open>\<open>value as u64\<close> of a \<open>usize\<close>; the \<open>try_into\<close> is \<open>VarInt::try_from(usize)\<close>.\<close>

definition varint_from_usize :: "nat \<Rightarrow> varint_error + varint" where
  "varint_from_usize value = varint_new (word_of_nat value)"

definition varint_try_into_usize :: "varint \<Rightarrow> nat option" where
  "varint_try_into_usize v = (if unat v \<le> usize_max then Some (unat v) else None)"

definition varint_checked_add_usize :: "varint \<Rightarrow> nat \<Rightarrow> varint option" where
  "varint_checked_add_usize self value =
     Option.bind (result_ok (varint_from_usize value)) (\<lambda>value. varint_checked_add self value)"

definition varint_saturating_add :: "varint \<Rightarrow> varint \<Rightarrow> varint" where
  "varint_saturating_add self value =
     unwrap_or MAX_VARINT_VALUE (result_ok (varint_new (saturating_add self value)))"

definition varint_checked_sub :: "varint \<Rightarrow> varint \<Rightarrow> varint option" where
  "varint_checked_sub self value = checked_sub self value"

definition varint_saturating_sub :: "varint \<Rightarrow> varint \<Rightarrow> varint" where
  "varint_saturating_sub self value = saturating_sub self value"

definition varint_checked_mul :: "varint \<Rightarrow> varint \<Rightarrow> varint option" where
  "varint_checked_mul self value =
     Option.bind (checked_mul self value) (\<lambda>v. result_ok (varint_new v))"

definition varint_saturating_mul :: "varint \<Rightarrow> varint \<Rightarrow> varint" where
  "varint_saturating_mul self value =
     unwrap_or MAX_VARINT_VALUE (result_ok (varint_new (saturating_mul self value)))"

definition varint_checked_div :: "varint \<Rightarrow> varint \<Rightarrow> varint option" where
  "varint_checked_div self value = checked_div self value"

text \<open>The operators \<open>+\<close> and \<open>-\<close>, release build: no check beyond \<open>u64\<close>.\<close>

definition varint_add :: "varint \<Rightarrow> varint \<Rightarrow> varint" where
  "varint_add self rhs = self + rhs"

definition varint_sub :: "varint \<Rightarrow> varint \<Rightarrow> varint" where
  "varint_sub self rhs = self - rhs"

section \<open>The encoding table\<close>

definition swap_bytes :: "u64 \<Rightarrow> u64" where
  "swap_bytes w = from_le_bytes (to_be_bytes 8 w)"

text \<open>\<open>u64::to_be\<close> and \<open>u64::to_ne_bytes\<close> on a little-endian target.\<close>

definition to_be :: "u64 \<Rightarrow> u64" where
  "to_be w = swap_bytes w"

definition to_ne_bytes :: "u64 \<Rightarrow> u8 list" where
  "to_ne_bytes w = to_le_bytes 8 w"

record entry =
  two_bit :: u64
  two_bit_be :: u64
  entry_len :: nat
  usable_bits :: nat
  entry_shift :: nat

text \<open>The rows of \<open>call_table!\<close>: two-bit prefix, length, usable bits, largest value.\<close>

definition call_table :: "(u64 \<times> nat \<times> nat \<times> u64) list" where
  "call_table = [(0b10, 4, 30, 1073741823), (0b01, 2, 14, 16383), (0b00, 1, 6, 63)]"

text \<open>\<open>read_rfc\<close>; the last arm is \<open>unreachable!()\<close>.\<close>

definition read_rfc :: "u64 \<Rightarrow> entry option" where
  "read_rfc x =
     (if x \<le> 63 then
        Some \<lparr>two_bit = 0b00, two_bit_be = 0b00, entry_len = 1, usable_bits = 6, entry_shift = 56\<rparr>
      else if x \<le> 16383 then
        Some \<lparr>two_bit = 0b01, two_bit_be = to_be (push_bit 62 0b01), entry_len = 2,
              usable_bits = 14, entry_shift = 48\<rparr>
      else if x \<le> 1073741823 then
        Some \<lparr>two_bit = 0b10, two_bit_be = to_be (push_bit 62 0b10), entry_len = 4,
              usable_bits = 30, entry_shift = 32\<rparr>
      else if x \<le> 4611686018427387903 then
        Some \<lparr>two_bit = 0b11, two_bit_be = to_be (push_bit 62 0b11), entry_len = 8,
              usable_bits = 62, entry_shift = 0\<rparr>
      else None)"

fun read_optimized_step :: "u64 \<Rightarrow> u64 \<times> nat \<times> nat \<times> u64 \<Rightarrow> entry \<Rightarrow> entry" where
  "read_optimized_step x (_, row_len, bits, max_value) en =
     (if x \<le> max_value then
        en\<lparr>entry_shift := 62 - bits, usable_bits := bits, two_bit := two_bit en - 1,
           two_bit_be := two_bit_be en - to_be (push_bit 62 1), entry_len := row_len\<rparr>
      else en)"

definition read_optimized :: "u64 \<Rightarrow> entry" where
  "read_optimized x =
     fold (read_optimized_step x) call_table
       \<lparr>two_bit = 0b11, two_bit_be = to_be (push_bit 62 0b11), entry_len = 8, usable_bits = 62,
        entry_shift = 0\<rparr>"

definition entry_read :: "u64 \<Rightarrow> entry" where
  "entry_read x = read_optimized x"

record formatted =
  encoded_be :: u64
  fmt_len :: nat

definition entry_format :: "entry \<Rightarrow> u64 \<Rightarrow> formatted" where
  "entry_format self value =
     \<lparr>encoded_be = to_be (push_bit (entry_shift self) value) OR two_bit_be self,
      fmt_len = entry_len self\<rparr>"

fun formatted_new_step :: "u64 \<Rightarrow> u64 \<times> nat \<times> nat \<times> u64 \<Rightarrow> nat \<times> u64 \<times> nat \<Rightarrow> nat \<times> u64 \<times> nat" where
  "formatted_new_step x (_, row_len, bits, max_value) (shift, tb, len) =
     (if x \<le> max_value then (62 - bits, tb - to_be (push_bit 62 1), row_len)
      else (shift, tb, len))"

definition formatted_new :: "u64 \<Rightarrow> formatted" where
  "formatted_new x =
     (let (shift, tb, len) =
        fold (formatted_new_step x) call_table (0, to_be (push_bit 62 0b11), 8)
      in \<lparr>encoded_be = to_be (push_bit shift x) OR tb, fmt_len = len\<rparr>)"

section \<open>Encoding and decoding\<close>

text \<open>
  \<open>encode_oversized\<close> stores all eight bytes through the pointer of the slice but advances the
  position by \<open>len\<close> only.
\<close>

definition encode_oversized :: "formatted \<Rightarrow> encoder \<Rightarrow> encoder option" where
  "encode_oversized self e =
     write_sized (fmt_len self) (overwrite (to_ne_bytes (encoded_be self))) e"

definition encode_maybe_undersized :: "formatted \<Rightarrow> encoder \<Rightarrow> encoder option" where
  "encode_maybe_undersized self e =
     (let len = fmt_len self; src = to_ne_bytes (encoded_be self) in
      if len = 1 then write_sized len (overwrite (take 1 src)) e
      else if len = 2 then write_sized len (overwrite (take 2 src)) e
      else if len = 4 then write_sized len (overwrite (take 4 src)) e
      else if len = 8 then write_sized len (overwrite (take 8 src)) e
      else None)"

definition formatted_encode :: "formatted \<Rightarrow> encoder \<Rightarrow> encoder option" where
  "formatted_encode self e =
     (if remaining_capacity e \<ge> 8 then encode_oversized self e
      else encode_maybe_undersized self e)"

definition varint_encode :: "varint \<Rightarrow> encoder \<Rightarrow> encoder option" where
  "varint_encode self e = formatted_encode (formatted_new self) e"

definition varint_encoding_size :: "varint \<Rightarrow> nat" where
  "varint_encoding_size self = fmt_len (formatted_new self)"

definition varint_encode_updated :: "varint \<Rightarrow> varint \<Rightarrow> encoder \<Rightarrow> encoder option" where
  "varint_encode_updated self replacement e =
     encode_maybe_undersized (entry_format (entry_read self) replacement) e"

definition varint_decode :: "network_endian \<Rightarrow> u8 list \<Rightarrow> varint decoded" where
  "varint_decode ne buffer =
     rbind (peek_byte buffer 0) (\<lambda>header.
       let tag = drop_bit 6 header AND 0b11 in
       if tag = 0b00 then
         let value = header AND (2 ^ 6 - 1) in
         rbind (skip buffer 1) (\<lambda>buffer. Inr (ucast value, buffer))
       else if tag = 0b01 then
         rbind (decode_u16 ne buffer) (\<lambda>(value, buffer).
           Inr (ucast (value AND (2 ^ 14 - 1)), buffer))
       else if tag = 0b10 then
         rbind (decode_u32 ne buffer) (\<lambda>(value, buffer).
           Inr (ucast (value AND (2 ^ 30 - 1)), buffer))
       else
         rbind (decode_u64 ne buffer) (\<lambda>(value, buffer).
           Inr (value AND (2 ^ 62 - 1), buffer)))"

text \<open>The wire image of RFC 9000, section 16.\<close>

definition varint_len :: "varint \<Rightarrow> nat" where
  "varint_len v = (if v \<le> 63 then 1 else if v \<le> 16383 then 2 else if v \<le> 1073741823 then 4 else 8)"

definition varint_wire_tag :: "nat \<Rightarrow> u64" where
  "varint_wire_tag len = (if len = 1 then 0 else if len = 2 then 1 else if len = 4 then 2 else 3)"

definition varint_wire_sized :: "nat \<Rightarrow> varint \<Rightarrow> u8 list" where
  "varint_wire_sized len v = to_be_bytes len (v OR push_bit (8 * len - 2) (varint_wire_tag len))"

definition varint_wire :: "varint \<Rightarrow> u8 list" where
  "varint_wire v = varint_wire_sized (varint_len v) v"

section \<open>The table\<close>

lemma to_be_consts:
  "to_be 4611686018427387904 = 64"
  "to_be 9223372036854775808 = 128"
  "to_be 13835058055282163712 = 192"
  by code_simp+

lemma varint_range_mono:
  "x \<le> 63 \<Longrightarrow> x \<le> (16383 :: u64)"
  "x \<le> 63 \<Longrightarrow> x \<le> (1073741823 :: u64)"
  "x \<le> 16383 \<Longrightarrow> x \<le> (1073741823 :: u64)"
  by (erule order_trans, simp)+

lemma formatted_new_cases:
  "formatted_new x =
     (if x \<le> 63 then \<lparr>encoded_be = to_be (push_bit 56 x), fmt_len = 1\<rparr>
      else if x \<le> 16383 then \<lparr>encoded_be = to_be (push_bit 48 x) OR 64, fmt_len = 2\<rparr>
      else if x \<le> 1073741823 then \<lparr>encoded_be = to_be (push_bit 32 x) OR 128, fmt_len = 4\<rparr>
      else \<lparr>encoded_be = to_be x OR 192, fmt_len = 8\<rparr>)"
  by (simp add: formatted_new_def call_table_def to_be_consts varint_range_mono)

lemma read_optimized_cases:
  "read_optimized x =
     (if x \<le> 63 then
        \<lparr>two_bit = 0, two_bit_be = 0, entry_len = 1, usable_bits = 6, entry_shift = 56\<rparr>
      else if x \<le> 16383 then
        \<lparr>two_bit = 1, two_bit_be = 64, entry_len = 2, usable_bits = 14, entry_shift = 48\<rparr>
      else if x \<le> 1073741823 then
        \<lparr>two_bit = 2, two_bit_be = 128, entry_len = 4, usable_bits = 30, entry_shift = 32\<rparr>
      else \<lparr>two_bit = 3, two_bit_be = 192, entry_len = 8, usable_bits = 62, entry_shift = 0\<rparr>)"
  by (simp add: read_optimized_def call_table_def to_be_consts varint_range_mono)

lemma bit_swap_bytes:
  "bit (swap_bytes w) n \<longleftrightarrow> n < 64 \<and> bit w (8 * (7 - n div 8) + n mod 8)"
proof (cases "n < 64")
  case True
  then have "n div 8 < 8" by simp
  with True show ?thesis
    by (simp add: swap_bytes_def bit_from_le_bytes bit_simps)
next
  case False
  then show ?thesis using bit_imp_le_length [of "swap_bytes w" n] by auto
qed

lemma less_4_bits: "t < (4 :: u64) \<Longrightarrow> bit t n \<Longrightarrow> n < 2"
  using bit_less_power [of t 2 n] by (simp add: word_less_nat_alt)

text \<open>
  Shifting the value to the top, swapping the bytes, or-ing the tag into the low byte and reading
  the first \<open>len\<close> bytes in memory order is the big-endian image of value and tag.
\<close>

lemma formatted_bytes:
  assumes len: "0 < len" "len \<le> 8" and t: "t < 4"
  shows "take len (to_ne_bytes (to_be (push_bit (64 - 8 * len) v) OR push_bit 6 t)) =
         to_be_bytes len (v OR push_bit (8 * len - 2) t)"
proof (rule nth_equalityI)
  show "length (take len (to_ne_bytes (to_be (push_bit (64 - 8 * len) v) OR push_bit 6 t))) =
        length (to_be_bytes len (v OR push_bit (8 * len - 2) t))"
    using len by (simp add: to_ne_bytes_def)
next
  fix i
  assume "i < length (take len (to_ne_bytes (to_be (push_bit (64 - 8 * len) v) OR push_bit 6 t)))"
  then have i: "i < len" "i < 8" using len by (simp_all add: to_ne_bytes_def)
  show "take len (to_ne_bytes (to_be (push_bit (64 - 8 * len) v) OR push_bit 6 t)) ! i =
        to_be_bytes len (v OR push_bit (8 * len - 2) t) ! i"
  proof (rule bit_word_eqI)
    fix j
    assume "j < LENGTH(8)"
    then have j: "j < 8" by simp
    have div: "(8 * i + j) div 8 = i" "(8 * i + j) mod 8 = j" using j by simp_all
    have tag: "bit t (8 * i + j - 6) \<and> 6 \<le> 8 * i + j \<longleftrightarrow> i = 0 \<and> 6 \<le> j \<and> bit t (j - 6)"
      using less_4_bits [OF t, of "8 * i + j - 6"] by (cases i) auto
    have tag': "8 * len - 2 \<le> 8 * (len - Suc i) + j \<and> bit t (8 * (len - Suc i) + j - (8 * len - 2))
        \<longleftrightarrow> i = 0 \<and> 6 \<le> j \<and> bit t (j - 6)"
    proof (cases i)
      case 0
      then have "8 * (len - Suc i) + j - (8 * len - 2) = j - 6"
        and "8 * len - 2 \<le> 8 * (len - Suc i) + j \<longleftrightarrow> 6 \<le> j"
        using len by auto
      with 0 show ?thesis by auto
    next
      case (Suc k)
      then have "\<not> 8 * len - 2 \<le> 8 * (len - Suc i) + j" using len i j by auto
      with Suc show ?thesis by simp
    qed
    have v: "64 - 8 * len \<le> 8 * (7 - i) + j \<and> bit v (8 * (7 - i) + j - (64 - 8 * len))
        \<longleftrightarrow> bit v (8 * (len - Suc i) + j)"
    proof -
      have "8 * (7 - i) + j - (64 - 8 * len) = 8 * (len - Suc i) + j" and "64 - 8 * len \<le> 8 * (7 - i) + j"
        using len i by auto
      then show ?thesis by simp
    qed
    show "bit (take len (to_ne_bytes (to_be (push_bit (64 - 8 * len) v) OR push_bit 6 t)) ! i) j =
          bit (to_be_bytes len (v OR push_bit (8 * len - 2) t) ! i) j"
      using i j len div tag tag' v
      by (simp add: to_ne_bytes_def to_be_def bit_simps bit_swap_bytes) auto
  qed
qed


lemma varint_len_cases: "varint_len v = 1 \<or> varint_len v = 2 \<or> varint_len v = 4 \<or> varint_len v = 8"
  by (simp add: varint_len_def)

lemma varint_len_simps:
  "fmt_len (formatted_new v) = varint_len v"
  "entry_len (read_optimized v) = varint_len v"
  by (simp_all add: formatted_new_cases read_optimized_cases varint_len_def)

lemma wire_tag_less: "varint_wire_tag n < 4"
  by (simp add: varint_wire_tag_def)

lemma length_varint_wire_sized [simp]: "length (varint_wire_sized len v) = len"
  by (simp add: varint_wire_sized_def)

lemma length_varint_wire [simp]: "length (varint_wire v) = varint_len v"
  by (simp add: varint_wire_def)

text \<open>The store of both encoding routines starts with the wire image.\<close>

lemma entry_format_eq:
  "entry_format (read_optimized v) x =
     \<lparr>encoded_be = to_be (push_bit (64 - 8 * varint_len v) x) OR
        push_bit 6 (varint_wire_tag (varint_len v)), fmt_len = varint_len v\<rparr>"
  by (simp add: entry_format_def read_optimized_cases varint_len_def varint_wire_tag_def)

lemma formatted_new_eq:
  "formatted_new v = entry_format (read_optimized v) v"
  by (simp add: entry_format_def read_optimized_cases formatted_new_cases)

lemma entry_format_bytes:
  "take (varint_len v) (to_ne_bytes (encoded_be (entry_format (read_optimized v) x))) =
   varint_wire_sized (varint_len v) x"
proof -
  have "0 < varint_len v" "varint_len v \<le> 8" using varint_len_cases [of v] by auto
  then show ?thesis
    by (simp add: entry_format_eq varint_wire_sized_def formatted_bytes wire_tag_less)
qed

lemma encode_maybe_undersized_eq:
  "encode_maybe_undersized (entry_format (read_optimized v) x) =
     write_sized (varint_len v) (overwrite (varint_wire_sized (varint_len v) x))"
proof -
  let ?f = "entry_format (read_optimized v) x"
  have "encode_maybe_undersized ?f =
        write_sized (varint_len v) (overwrite (take (varint_len v) (to_ne_bytes (encoded_be ?f))))"
    using varint_len_cases [of v]
    by (auto simp: encode_maybe_undersized_def fun_eq_iff Let_def entry_format_eq)
  then show ?thesis by (simp add: entry_format_bytes)
qed

lemma encode_maybe_undersized_emits:
  "emits (encode_maybe_undersized (entry_format (read_optimized v) x))
     (varint_wire_sized (varint_len v) x)"
  unfolding encode_maybe_undersized_eq by (rule overwrite_emits) simp

text \<open>
  The oversized store agrees with the exact one on every encoder that has eight bytes left: the
  same bytes up to the new position, only the memory behind it differs.
\<close>

lemma encode_oversized_writes:
  assumes "encoder_wf e" and "8 \<le> remaining_capacity e"
  shows "\<exists>e'. encode_oversized (entry_format (read_optimized v) x) e = Some e' \<and>
           writes e (varint_wire_sized (varint_len v) x) e'"
proof (cases e)
  case (EncoderBuffer bytes position)
  let ?src = "to_ne_bytes (encoded_be (entry_format (read_optimized v) x))"
  have len: "length ?src = 8" "varint_len v \<le> 8"
    using varint_len_cases [of v] by (auto simp: to_ne_bytes_def)
  with assms EncoderBuffer entry_format_bytes [of v x] show ?thesis
    by (auto simp: encode_oversized_def remaining_capacity_def overwrite_def entry_format_eq)
next
  case (EncoderLenEstimator cap l)
  then show ?thesis by (simp add: encode_oversized_def entry_format_eq)
qed

lemma remaining_fits:
  assumes "encoder_wf e" and "n \<le> remaining_capacity e"
  shows "fits n e"
  using assms by (cases e) (auto simp: remaining_capacity_def)

lemma formatted_encode_emits:
  "emits (formatted_encode (entry_format (read_optimized v) x)) (varint_wire_sized (varint_len v) x)"
proof (rule emitsI)
  fix e
  assume wf: "encoder_wf e" and "fits (length (varint_wire_sized (varint_len v) x)) e"
  then show "\<exists>e'. formatted_encode (entry_format (read_optimized v) x) e = Some e' \<and>
      writes e (varint_wire_sized (varint_len v) x) e'"
    using encode_oversized_writes [OF wf] emitsD(1) [OF encode_maybe_undersized_emits wf]
    by (simp add: formatted_encode_def)
next
  fix e
  assume wf: "encoder_wf e" and nf: "\<not> fits (length (varint_wire_sized (varint_len v) x)) e"
  have "\<not> 8 \<le> remaining_capacity e"
  proof
    assume "8 \<le> remaining_capacity e"
    with varint_len_cases [of v] have "varint_len v \<le> remaining_capacity e" by auto
    with nf remaining_fits [OF wf] show False by simp
  qed
  with nf show "formatted_encode (entry_format (read_optimized v) x) e = None"
    using emitsD(2) [OF encode_maybe_undersized_emits wf, of v x] by (simp add: formatted_encode_def)
qed

lemma varint_encode_emits [emits_intros]: "emits (varint_encode v) (varint_wire v)"
  using formatted_encode_emits [of v v]
  by (simp add: varint_encode_def [abs_def] varint_wire_def formatted_new_eq)

section \<open>Decoding\<close>

lemma varint_max_less: "varint_valid v \<longleftrightarrow> unat v < 2 ^ 62"
  by (auto simp: varint_valid_def MAX_VARINT_VALUE_def word_le_nat_alt)

lemma varint_len_le_iff:
  "len \<in> {1, 2, 4, 8} \<Longrightarrow> varint_valid v \<Longrightarrow> varint_len v \<le> len \<longleftrightarrow> unat v < 2 ^ (8 * len - 2)"
  by (auto simp: varint_len_def varint_max_less word_le_nat_alt)

text \<open>The header byte carries the length of the whole integer.\<close>

lemma varint_wire_header:
  assumes "len \<in> {1, 2, 4, 8}" and "unat v < 2 ^ (8 * len - 2)"
  shows "drop_bit 6 (varint_wire_sized len v ! 0) AND 3 = ucast (varint_wire_tag len)"
proof (rule bit_word_eqI)
  fix j
  assume "j < LENGTH(8)"
  then have j: "j < 8" by simp
  have v: "\<not> bit v (8 * (len - Suc 0) + (6 + j))"
    using bit_less_power [OF assms(2), of "8 * (len - Suc 0) + (6 + j)"] assms(1) by auto
  have three: "bit (3 :: u8) j \<longleftrightarrow> j < 2"
    using bit_less_power [of "3::u8" 2 j] by (cases j; cases "j - 1") (auto simp: bit_numeral_rec)
  have tag: "bit (varint_wire_tag len) j \<Longrightarrow> j < 2"
    by (rule less_4_bits [OF wire_tag_less])
  have "8 * (len - Suc 0) + (6 + j) - (8 * len - 2) = j" "8 * len - 2 \<le> 8 * (len - Suc 0) + (6 + j)"
    "8 * (len - Suc 0) + (6 + j) < 64 \<longleftrightarrow> 8 * len + j < 66"
    using assms(1) by auto
  then show "bit (drop_bit 6 (varint_wire_sized len v ! 0) AND 3) j =
      bit (ucast (varint_wire_tag len) :: u8) j"
    using assms(1) v j three tag
    by (auto simp: varint_wire_sized_def bit_simps)
qed

lemma ucast_mask_or:
  fixes v t :: u64
  assumes "unat v < 2 ^ n" and "n < LENGTH('b)"
  shows "ucast ((ucast (v OR push_bit n t) :: 'b::len word) AND (2 ^ n - 1)) = v"
proof (rule bit_word_eqI)
  fix j
  assume "j < LENGTH(64)"
  then show "bit (ucast ((ucast (v OR push_bit n t) :: 'b word) AND (2 ^ n - 1)) :: u64) j = bit v j"
    using assms bit_less_power [OF assms(1), of j]
    by (auto simp: bit_simps mask_eq_exp_minus_1 [symmetric])
qed

lemma from_be_bytes_ucast:
  fixes w :: u64
  assumes "LENGTH('b) = 8 * n" and "n \<le> 8"
  shows "(from_be_bytes (to_be_bytes n w) :: 'b::len word) = ucast w"
proof (rule bit_word_eqI)
  fix j
  assume "j < LENGTH('b)"
  then show "bit (from_be_bytes (to_be_bytes n w) :: 'b word) j = bit (ucast w :: 'b word) j"
    using assms by (auto simp: from_be_bytes_def to_be_bytes_def bit_from_le_bytes bit_simps)
qed

lemma varint_decode_wire_sized:
  assumes ne: "network_endian_ok ne" and len: "len \<in> {1, 2, 4, 8}"
    and v: "unat v < 2 ^ (8 * len - 2)"
  shows "varint_decode ne (varint_wire_sized len v @ rest) = Inr (v, rest)"
proof -
  let ?w = "varint_wire_sized len v"
  have h: "peek_byte (?w @ rest) 0 = Inr (?w ! 0)"
    using len by (auto simp: peek_byte_def nth_append)
  note tag = varint_wire_header [OF len v]
  consider "len = 1" | "len = 2" | "len = 4" | "len = 8" using len by auto
  then show ?thesis
  proof cases
    case 1
    have "skip (?w @ rest) 1 = Inr rest" using 1 by (simp add: decode_simps)
    moreover have "ucast (?w ! 0 AND (2 ^ 6 - 1)) = v"
      using ucast_mask_or [of v 6 0, where 'b = 8] v 1
      by (simp add: varint_wire_sized_def varint_wire_tag_def)
    ultimately show ?thesis
      using h tag 1 by (simp add: varint_decode_def varint_wire_tag_def)
  next
    case 2
    with h tag v show ?thesis
      using ucast_mask_or [of v 14 1, where 'b = 16]
      by (simp add: varint_decode_def varint_wire_tag_def decode_simps ne varint_wire_sized_def
          from_be_bytes_ucast)
  next
    case 3
    with h tag v show ?thesis
      using ucast_mask_or [of v 30 2, where 'b = 32]
      by (simp add: varint_decode_def varint_wire_tag_def decode_simps ne varint_wire_sized_def
          from_be_bytes_ucast)
  next
    case 4
    with h tag v show ?thesis
      using ucast_mask_or [of v 62 3, where 'b = 64]
      by (simp add: varint_decode_def varint_wire_tag_def decode_simps ne varint_wire_sized_def
          from_be_bytes_ucast)
  qed
qed


lemma varint_valid_len_bound: "varint_valid v \<Longrightarrow> unat v < 2 ^ (8 * varint_len v - 2)"
  using varint_len_le_iff [of "varint_len v" v] varint_len_cases [of v] by auto

lemma varint_decode_wire:
  assumes "network_endian_ok ne" and "varint_valid v"
  shows "varint_decode ne (varint_wire v @ rest) = Inr (v, rest)"
  unfolding varint_wire_def
  by (rule varint_decode_wire_sized [OF assms(1) _ varint_valid_len_bound [OF assms(2)]])
     (use varint_len_cases [of v] in auto)

lemma varint_codec: "network_endian_ok ne \<Longrightarrow> codec varint_valid varint_encode varint_wire (varint_decode ne)"
  by unfold_locales (simp_all add: varint_encode_emits varint_decode_wire)

interpretation varint_be: codec varint_valid varint_encode varint_wire "varint_decode big_endian"
  by (rule varint_codec [OF big_endian_ok])

text \<open>Every decoded integer is in range, whatever the bytes are.\<close>

lemma unat_and_mask: "unat (w AND (2 ^ n - 1) :: 'a::len word) < 2 ^ n"
proof -
  have "w AND (2 ^ n - 1) = take_bit n w"
    by (simp add: take_bit_eq_mask mask_eq_exp_minus_1)
  then show ?thesis by (simp add: unsigned_take_bit_eq)
qed

lemma varint_decode_valid:
  assumes "varint_decode ne buffer = Inr (v, rest)"
  shows "varint_valid v"
proof -
  have a: "unat (ucast (a AND (2 ^ 6 - 1) :: u8) :: u64) < 2 ^ 62" for a
    using unat_and_mask [of a 6] by (simp add: unsigned_ucast_eq take_bit_nat_def)
  have b: "unat (ucast (a AND (2 ^ 14 - 1) :: u16) :: u64) < 2 ^ 62" for a
    using unat_and_mask [of a 14] by (simp add: unsigned_ucast_eq take_bit_nat_def)
  have c: "unat (ucast (a AND (2 ^ 30 - 1) :: u32) :: u64) < 2 ^ 62" for a
    using unat_and_mask [of a 30] by (simp add: unsigned_ucast_eq take_bit_nat_def)
  have d: "unat (a AND (2 ^ 62 - 1) :: u64) < 2 ^ 62" for a
    by (rule unat_and_mask)
  from assms show ?thesis
    using a b c d unfolding varint_max_less
    by (auto simp: varint_decode_def Let_def result_simps split: if_splits)
qed

lemma varint_decode_consumes: "consumes (varint_decode ne)"
  by (auto simp: consumes_def varint_decode_def Let_def result_simps skip_def decode_u16_def
      decode_u32_def decode_u64_def decode_slice_Inr split: if_splits)

lemma varint_decode_shorter:
  "varint_decode ne buffer = Inr (v, rest) \<Longrightarrow> length rest < length buffer"
  by (auto simp: varint_decode_def Let_def result_simps skip_def decode_u16_def
      decode_u32_def decode_u64_def decode_slice_Inr split: if_splits)

lemma varint_try_into_usize_eq [simp]: "varint_try_into_usize v = Some (unat v)"
  using unat_less_power [of v] by (simp add: varint_try_into_usize_def usize_max_def)

lemma varint_from_usize_Inr:
  "n < 2 ^ 62 \<Longrightarrow> varint_from_usize n = Inr (word_of_nat n)"
  by (simp add: varint_from_usize_def varint_new_def MAX_VARINT_VALUE_def word_less_nat_alt
      unat_of_nat take_bit_nat_eq_self_iff)

section \<open>Arithmetic\<close>

lemma varint_new_Inr [unat_simps]: "varint_new v = Inr w \<longleftrightarrow> varint_valid v \<and> w = v"
  by (auto simp: varint_new_def varint_valid_def)

lemma varint_checked_add_Some [unat_simps]:
  "varint_checked_add a b = Some c \<longleftrightarrow> unat a + unat b < 2 ^ 62 \<and> unat c = unat a + unat b"
proof -
  have "varint_checked_add a b = Some c \<longleftrightarrow> (\<exists>d. checked_add a b = Some d \<and> unat d < 2 ^ 62 \<and> c = d)"
    unfolding varint_max_less [symmetric]
    by (auto simp: varint_checked_add_def bind_eq_Some_conv result_ok_eq_Some varint_new_Inr)
  then show ?thesis by (auto simp: checked_add_Some)
qed

lemma varint_checked_add_None:
  "varint_checked_add a b = None \<longleftrightarrow> 2 ^ 62 \<le> unat a + unat b"
proof (cases "unat a + unat b < 2 ^ 62")
  case True
  then have "varint_checked_add a b = Some (a + b)"
    by (simp add: varint_checked_add_Some unat_add_no_wrap)
  with True show ?thesis by simp
next
  case False
  then show ?thesis
    using varint_checked_add_Some [of a b] by (cases "varint_checked_add a b") auto
qed

lemma unat_varint_saturating_add [unat_simps]:
  "unat (varint_saturating_add a b) = min (unat a + unat b) (2 ^ 62 - 1)"
proof -
  have "varint_valid (saturating_add a b) \<longleftrightarrow> unat a + unat b < 2 ^ 62"
    by (auto simp: varint_max_less unat_saturating_add)
  then show ?thesis
    by (auto simp: varint_saturating_add_def varint_new_def varint_valid_def unat_saturating_add
        MAX_VARINT_VALUE_def min_def)
qed

lemma varint_valid_saturating_add: "varint_valid (varint_saturating_add a b)"
  by (simp add: varint_max_less unat_varint_saturating_add min_def)


section \<open>Properties\<close>

lemma varint_encoding_size_eq: "varint_encoding_size v = varint_len v"
  by (simp add: varint_encoding_size_def varint_len_simps)

text \<open>
  C24. Encoding a variable-length integer into a buffer with room for it succeeds, advances the
  write position by exactly \<open>encoding_size\<close>, and decoding the written bytes gives the integer back
  and leaves nothing, for every integer up to \<open>2^62 - 1\<close> and whatever the buffer held before.
\<close>

theorem varint_round_trip:
  assumes "network_endian_ok ne" and "varint_valid v" and "varint_encoding_size v \<le> length buf"
  shows "\<exists>buf'. varint_encode v (EncoderBuffer buf 0) =
             Some (EncoderBuffer buf' (varint_encoding_size v)) \<and>
           varint_decode ne (take (varint_encoding_size v) buf') = Inr (v, [])"
proof -
  note c = varint_codec [OF assms(1)]
  have l: "length (varint_wire v) \<le> length buf" using assms(3) by (simp add: varint_encoding_size_eq)
  from codec.encode_total [OF c assms(2) l] obtain buf' where
    buf': "varint_encode v (EncoderBuffer buf 0) = Some (EncoderBuffer buf' (varint_len v))"
    by auto
  from codec.round_trip [OF c assms(2) this] buf' show ?thesis
    by (auto simp: varint_encoding_size_eq)
qed

theorem varint_round_trip_witness:
  "\<exists>buf'. varint_encode 151288809941952652 (EncoderBuffer (replicate 9 255) 0) =
       Some (EncoderBuffer buf' 8) \<and>
     varint_decode big_endian (take 8 buf') = Inr (151288809941952652, [])"
proof -
  have v: "varint_valid 151288809941952652" "varint_encoding_size 151288809941952652 = 8"
    by (simp_all add: varint_valid_def MAX_VARINT_VALUE_def varint_encoding_size_eq varint_len_def)
  show ?thesis
    using varint_round_trip [OF big_endian_ok v(1), of "replicate 9 255"] v(2) by simp
qed

text \<open>
  C34. The branch-free table lookup \<open>read_optimized\<close> gives the entry of the RFC 9000 table for
  every valid integer (the debug assertion of \<open>Entry::read\<close>), and \<open>Formatted::new\<close> is that entry
  applied to the value.
\<close>

theorem read_optimized_eq_rfc:
  assumes "varint_valid x"
  shows "read_rfc x = Some (read_optimized x) \<and> formatted_new x = entry_format (entry_read x) x"
  using assms
  by (simp add: read_rfc_def read_optimized_cases to_be_consts formatted_new_eq entry_read_def
      varint_valid_def MAX_VARINT_VALUE_def)

theorem read_optimized_eq_rfc_witness:
  "read_rfc 494878333 = Some (read_optimized 494878333) \<and>
   formatted_new 494878333 = entry_format (entry_read 494878333) 494878333"
  by (rule read_optimized_eq_rfc) (simp add: varint_valid_def MAX_VARINT_VALUE_def)

text \<open>
  C35. A placeholder integer can be overwritten in place. For a replacement that needs no more bytes
  than the placeholder (the source asserts it in debug builds), \<open>encode_updated\<close> at position \<open>p\<close>
  panics exactly when the placeholder's length does not fit behind \<open>p\<close>. Otherwise it advances by
  exactly the placeholder's length, changes no byte before \<open>p\<close> and none after the placeholder, and
  decoding from \<open>p\<close> gives the replacement and leaves whatever followed the placeholder.
\<close>

theorem varint_encode_updated_replaces:
  assumes "network_endian_ok ne" and "varint_valid v" and "varint_valid x"
    and "varint_encoding_size x \<le> varint_encoding_size v"
  shows "if p + varint_encoding_size v \<le> length buf
         then \<exists>bs. varint_encode_updated v x (EncoderBuffer buf p) =
                  Some (EncoderBuffer (take p buf @ bs @ drop (p + varint_encoding_size v) buf)
                    (p + varint_encoding_size v)) \<and>
                length bs = varint_encoding_size v \<and>
                varint_decode ne (bs @ drop (p + varint_encoding_size v) buf) =
                  Inr (x, drop (p + varint_encoding_size v) buf)
         else varint_encode_updated v x (EncoderBuffer buf p) = None"
proof -
  let ?n = "varint_len v" and ?bs = "varint_wire_sized (varint_len v) x"
  have upd: "varint_encode_updated v x (EncoderBuffer buf p) =
      (if p + ?n \<le> length buf then Some (EncoderBuffer (take p buf @ ?bs @ drop (p + ?n) buf) (p + ?n))
       else None)"
    using varint_len_cases [of v]
    by (auto simp: varint_encode_updated_def entry_read_def encode_maybe_undersized_eq overwrite_def
        remaining_capacity_def ac_simps)
  have "unat x < 2 ^ (8 * ?n - 2)"
    using assms(3,4) varint_len_le_iff [of ?n x] varint_len_cases [of v]
    by (auto simp: varint_encoding_size_eq)
  then have "varint_decode ne (?bs @ rest) = Inr (x, rest)" for rest
    using varint_len_cases [of v] by (intro varint_decode_wire_sized assms(1)) auto
  then show ?thesis unfolding varint_encoding_size_eq upd by simp
qed

theorem varint_encode_updated_replaces_witness:
  "varint_encode_updated 16383 5 (EncoderBuffer [7, 7, 7, 9] 1) = Some (EncoderBuffer [7, 64, 5, 9] 3) \<and>
   varint_decode big_endian [64, 5, 9] = Inr (5, [9]) \<and>
   varint_encode_updated 16383 5 (EncoderBuffer [7, 7, 7, 9] 3) = None"
proof -
  have e: "varint_encode_updated 16383 5 (EncoderBuffer [7, 7, 7, 9] 1) =
      Some (EncoderBuffer [7, 64, 5, 9] 3)"
    by code_simp
  have v: "varint_valid 16383" "varint_valid 5"
    "varint_encoding_size 5 \<le> varint_encoding_size 16383" and n: "varint_encoding_size 16383 = 2"
    by (simp_all add: varint_valid_def MAX_VARINT_VALUE_def varint_encoding_size_eq varint_len_def)
  note replaces = varint_encode_updated_replaces [OF big_endian_ok v, unfolded n]
  from replaces [of 1 "[7, 7, 7, 9]"] have "varint_decode big_endian [64, 5, 9] = Inr (5, [9])"
    unfolding e by (auto simp: append_eq_Cons_conv)
  with e replaces [of 3 "[7, 7, 7, 9]"] show ?thesis by simp
qed

end
