(* ===== verification/PacketNumber.thy ===== *)
theory PacketNumber
  imports VarInt
begin

unbundle bit_operations_syntax

text \<open>
  Packet numbers: \<^verbatim>\<open>quic/s2n-quic-core/src/packet/number/\<close>. A \<open>PacketNumber\<close> packs the number
  space into the two high bits of a \<^typ>\<open>u64\<close>; a \<open>TruncatedPacketNumber\<close> is the one to four low
  bytes that travel in a packet header. \<open>derive_truncation_range\<close> picks the length at the sender,
  \<open>decode_packet_number\<close> recovers the number at the receiver.
\<close>

section \<open>Packet number spaces\<close>

datatype packet_number_space = Initial | Handshake | ApplicationData

fun as_tag :: "packet_number_space \<Rightarrow> u8" where
  "as_tag Initial = 1"
| "as_tag Handshake = 2"
| "as_tag ApplicationData = 3"

text \<open>Release build: a tag that names no space is read as \<open>Initial\<close>.\<close>

definition from_tag :: "u8 \<Rightarrow> packet_number_space" where
  "from_tag tag = (if tag = 1 then Initial else if tag = 2 then Handshake
     else if tag = 3 then ApplicationData else Initial)"

section \<open>Packet numbers\<close>

type_synonym packet_number = u64

definition PACKET_SPACE_SHIFT :: nat where
  "PACKET_SPACE_SHIFT = 8 * 8 - 2"

definition PACKET_NUMBER_MASK :: u64 where
  "PACKET_NUMBER_MASK = drop_bit 2 (- 1)"

definition pn_from_varint :: "varint \<Rightarrow> packet_number_space \<Rightarrow> packet_number" where
  "pn_from_varint value space = push_bit PACKET_SPACE_SHIFT (ucast (as_tag space)) OR value"

definition pn_space :: "packet_number \<Rightarrow> packet_number_space" where
  "pn_space self = from_tag (ucast (drop_bit PACKET_SPACE_SHIFT self))"

definition pn_as_u64 :: "packet_number \<Rightarrow> u64" where
  "pn_as_u64 self = self AND PACKET_NUMBER_MASK"

definition pn_as_varint :: "packet_number \<Rightarrow> varint" where
  "pn_as_varint packet_number = pn_as_u64 packet_number"

definition pn_next :: "packet_number \<Rightarrow> packet_number option" where
  "pn_next self = Option.bind (varint_checked_add (pn_as_varint self) 1)
     (\<lambda>value. Some (pn_from_varint value (pn_space self)))"

definition pn_prev :: "packet_number \<Rightarrow> packet_number option" where
  "pn_prev self = Option.bind (varint_checked_sub (pn_as_varint self) 1)
     (\<lambda>value. Some (pn_from_varint value (pn_space self)))"

definition pn_checked_distance :: "packet_number \<Rightarrow> packet_number \<Rightarrow> u64 option" where
  "pn_checked_distance self rhs = checked_sub (pn_as_u64 self) (pn_as_u64 rhs)"

section \<open>Lengths and truncated packet numbers\<close>

datatype packet_number_len_value = LenU8 | LenU16 | LenU24 | LenU32

record packet_number_len =
  pnl_space :: packet_number_space
  pnl_value :: packet_number_len_value

text \<open>The discriminant of the enum, \<open>self as u8\<close>.\<close>

fun len_value_tag :: "packet_number_len_value \<Rightarrow> u8" where
  "len_value_tag LenU8 = 0"
| "len_value_tag LenU16 = 1"
| "len_value_tag LenU24 = 2"
| "len_value_tag LenU32 = 3"

definition into_packet_tag_mask :: "packet_number_len_value \<Rightarrow> u8" where
  "into_packet_tag_mask self = len_value_tag self"

definition bytesize :: "packet_number_len_value \<Rightarrow> nat" where
  "bytesize self = unat (len_value_tag self) + 1"

definition bitsize :: "packet_number_len_value \<Rightarrow> nat" where
  "bitsize self = bytesize self * 8"

text \<open>After masking, the last arm (\<open>unreachable!\<close>) cannot be taken.\<close>

definition len_value_from_packet_tag :: "u8 \<Rightarrow> packet_number_len_value option" where
  "len_value_from_packet_tag tag =
     (let t = tag AND 0b11 in
      if t = 0 then Some LenU8 else if t = 1 then Some LenU16 else if t = 2 then Some LenU24
      else if t = 3 then Some LenU32 else None)"

definition len_value_from_varint :: "varint \<Rightarrow> packet_number_len_value option" where
  "len_value_from_varint value =
     (if value \<le> push_bit 8 1 - 1 then Some LenU8
      else if value \<le> push_bit 16 1 - 1 then Some LenU16
      else if value \<le> push_bit 24 1 - 1 then Some LenU24
      else if value \<le> push_bit 32 1 - 1 then Some LenU32
      else None)"

definition len_from_varint :: "varint \<Rightarrow> packet_number_space \<Rightarrow> packet_number_len option" where
  "len_from_varint value space =
     Option.bind (len_value_from_varint value) (\<lambda>v. Some \<lparr>pnl_space = space, pnl_value = v\<rparr>)"

datatype truncated_packet_number_value =
    TruncatedU8 u8
  | TruncatedU16 u16
  | TruncatedU24 u32
  | TruncatedU32 u32

record truncated_packet_number =
  tpn_space :: packet_number_space
  tpn_value :: truncated_packet_number_value

fun tpn_into_u64 :: "truncated_packet_number_value \<Rightarrow> u64" where
  "tpn_into_u64 (TruncatedU8 value) = ucast value"
| "tpn_into_u64 (TruncatedU16 value) = ucast value"
| "tpn_into_u64 (TruncatedU24 value) = ucast value"
| "tpn_into_u64 (TruncatedU32 value) = ucast value"

fun tpn_len :: "truncated_packet_number_value \<Rightarrow> packet_number_len_value" where
  "tpn_len (TruncatedU8 _) = LenU8"
| "tpn_len (TruncatedU16 _) = LenU16"
| "tpn_len (TruncatedU24 _) = LenU24"
| "tpn_len (TruncatedU32 _) = LenU32"

fun truncate_value :: "packet_number_len_value \<Rightarrow> varint \<Rightarrow> truncated_packet_number_value" where
  "truncate_value LenU8 value = TruncatedU8 (ucast value)"
| "truncate_value LenU16 value = TruncatedU16 (ucast value)"
| "truncate_value LenU24 value = TruncatedU24 (u24_new_truncated (ucast value))"
| "truncate_value LenU32 value = TruncatedU32 (ucast value)"

definition truncate_packet_number :: "packet_number_len \<Rightarrow> varint \<Rightarrow> truncated_packet_number" where
  "truncate_packet_number self value =
     \<lparr>tpn_space = pnl_space self, tpn_value = truncate_value (pnl_value self) value\<rparr>"

definition derive_truncation_range ::
    "packet_number \<Rightarrow> packet_number \<Rightarrow> packet_number_len option" where
  "derive_truncation_range largest_acknowledged_packet_number packet_number =
     (let space = pn_space packet_number in
      Option.bind (Option.bind (Option.bind
        (checked_sub (pn_as_u64 packet_number) (pn_as_u64 largest_acknowledged_packet_number))
        (\<lambda>value. checked_mul value 2))
        (\<lambda>value. result_ok (varint_new value)))
        (\<lambda>value. len_from_varint value space))"

definition pn_truncate :: "packet_number \<Rightarrow> packet_number \<Rightarrow> truncated_packet_number option" where
  "pn_truncate self largest_acknowledged_packet_number =
     Option.bind (derive_truncation_range largest_acknowledged_packet_number self)
       (\<lambda>len. Some (truncate_packet_number len (pn_as_varint self)))"






section \<open>Ranges of packet numbers\<close>

record packet_number_range =
  pnr_start :: packet_number
  pnr_end :: packet_number
  pnr_exhausted :: bool

text \<open>\<open>PacketNumberRange::new\<close>; \<open>None\<close> is the failing \<open>assert!\<close>.\<close>

definition pnr_new :: "packet_number \<Rightarrow> packet_number \<Rightarrow> packet_number_range option" where
  "pnr_new start end' =
     (if start \<le> end' then Some \<lparr>pnr_start = start, pnr_end = end', pnr_exhausted = False\<rparr>
      else None)"

definition pnr_contains :: "packet_number_range \<Rightarrow> packet_number \<Rightarrow> bool" where
  "pnr_contains self packet_number \<longleftrightarrow> pnr_start self \<le> packet_number \<and> packet_number \<le> pnr_end self"

definition pnr_next :: "packet_number_range \<Rightarrow> packet_number option \<times> packet_number_range" where
  "pnr_next self =
     (if \<not> pnr_exhausted self \<and> pnr_start self \<le> pnr_end self then
        let current = pnr_start self in
        (Some current,
         case pn_next current of
           Some next \<Rightarrow> self\<lparr>pnr_start := next\<rparr>
         | None \<Rightarrow> self\<lparr>pnr_exhausted := True\<rparr>)
      else (None, self\<lparr>pnr_exhausted := True\<rparr>))"

definition pnr_next_back :: "packet_number_range \<Rightarrow> packet_number option \<times> packet_number_range" where
  "pnr_next_back self =
     (if \<not> pnr_exhausted self \<and> pnr_start self \<le> pnr_end self then
        let current = pnr_end self in
        (Some current,
         case pn_prev current of
           Some prev \<Rightarrow>
             self\<lparr>pnr_end := prev, pnr_exhausted := pnr_start self > prev\<rparr>
         | None \<Rightarrow> self\<lparr>pnr_exhausted := True\<rparr>)
      else (None, self\<lparr>pnr_exhausted := True\<rparr>))"

section \<open>Packing\<close>

text \<open>\<open>pn_in s p\<close>: \<open>p\<close> is a packet number of space \<open>s\<close>.\<close>

definition pn_in :: "packet_number_space \<Rightarrow> packet_number \<Rightarrow> bool" where
  "pn_in s p \<longleftrightarrow> unat p div 2 ^ 62 = unat (as_tag s)"

abbreviation pn_val :: "packet_number \<Rightarrow> nat" where
  "pn_val p \<equiv> unat (pn_as_u64 p)"

lemma pn_val_mod: "pn_val p = unat p mod 2 ^ 62"
proof -
  have "PACKET_NUMBER_MASK = mask 62"
    by (simp add: PACKET_NUMBER_MASK_def mask_eq_exp_minus_1)
  then have "pn_as_u64 p = take_bit 62 p"
    by (simp only: pn_as_u64_def take_bit_eq_mask)
  then show ?thesis
    by (simp only: unsigned_take_bit_eq take_bit_nat_def)
qed

lemma pn_val_less [simp]: "pn_val p < 2 ^ 62"
  by (simp add: pn_val_mod)

lemma pn_as_u64_valid [simp]: "varint_valid (pn_as_u64 p)" "varint_valid (pn_as_varint p)"
  by (simp_all only: varint_max_less pn_as_varint_def pn_val_less)

lemma as_tag_range: "0 < unat (as_tag s)" "unat (as_tag s) < 4"
  by (cases s; simp)+

lemma unat_pn_from_varint:
  assumes "varint_valid v"
  shows "unat (pn_from_varint v s) = unat (as_tag s) * 2 ^ 62 + unat v"
proof -
  let ?t = "push_bit 62 (ucast (as_tag s)) :: u64"
  have "?t OR v = ?t + v"
    by (rule or_eq_add)
       (use bit_less_power [of v 62] assms in \<open>force simp: varint_max_less bit_simps\<close>)
  moreover have "unat ?t = unat (as_tag s) * 2 ^ 62"
    by (cases s) simp_all
  ultimately show ?thesis
    using assms as_tag_range [of s]
    by (simp add: pn_from_varint_def PACKET_SPACE_SHIFT_def varint_max_less unat_word_ariths)
qed

lemma from_tag_as_tag [simp]: "from_tag (as_tag s) = s"
  by (cases s) (simp_all add: from_tag_def)

lemma pn_space_in: "pn_in s p \<Longrightarrow> pn_space p = s"
proof -
  assume "pn_in s p"
  then have "unat (drop_bit 62 p) = unat (as_tag s)"
    by (simp add: pn_in_def drop_bit_eq_div unat_div)
  then have "ucast (drop_bit 62 p) = as_tag s"
    using as_tag_range [of s]
    by (simp add: word_unat_eq_iff unsigned_ucast_eq take_bit_nat_def)
  then show "pn_space p = s" by (simp add: pn_space_def PACKET_SPACE_SHIFT_def)
qed

lemma pn_from_varint_in [simp]: "varint_valid v \<Longrightarrow> pn_in s (pn_from_varint v s)"
  by (simp add: pn_in_def unat_pn_from_varint varint_max_less)

lemma pn_space_from_varint [simp]: "varint_valid v \<Longrightarrow> pn_space (pn_from_varint v s) = s"
  by (simp add: pn_space_in)

lemma pn_as_u64_from_varint [simp]: "varint_valid v \<Longrightarrow> pn_as_u64 (pn_from_varint v s) = v"
  by (rule word_unat_eq_iff [THEN iffD2])
     (simp only: pn_val_mod unat_pn_from_varint varint_max_less mod_mult_self3 mod_less)

lemma pn_unat_eq: "pn_in s p \<Longrightarrow> unat p = unat (as_tag s) * 2 ^ 62 + pn_val p"
  using div_mult_mod_eq [of "unat p" "2 ^ 62"] by (simp add: pn_in_def pn_val_mod)

lemma pn_le_iff: "pn_in s p \<Longrightarrow> pn_in s q \<Longrightarrow> p \<le> q \<longleftrightarrow> pn_val p \<le> pn_val q"
  by (simp add: word_le_nat_alt pn_unat_eq)

lemma pn_less_iff: "pn_in s p \<Longrightarrow> pn_in s q \<Longrightarrow> p < q \<longleftrightarrow> pn_val p < pn_val q"
  by (simp add: word_less_nat_alt pn_unat_eq)

lemma pn_eq_iff: "pn_in s p \<Longrightarrow> pn_in s q \<Longrightarrow> p = q \<longleftrightarrow> pn_val p = pn_val q"
  by (auto simp: word_unat_eq_iff pn_unat_eq)

lemma pn_from_varint_as_varint [simp]: "pn_in s p \<Longrightarrow> pn_from_varint (pn_as_u64 p) s = p"
  by (simp add: pn_eq_iff [of s])

lemma pn_next_Some:
  assumes "pn_in s p"
  shows "pn_next p = Some q \<longleftrightarrow> pn_in s q \<and> pn_val q = pn_val p + 1"
proof -
  have eq: "pn_next p = Some q \<longleftrightarrow> (\<exists>v. varint_checked_add (pn_as_u64 p) 1 = Some v \<and> q = pn_from_varint v s)"
    using assms by (auto simp: pn_next_def pn_as_varint_def bind_eq_Some_conv pn_space_in)
  show ?thesis
  proof
    assume "pn_next p = Some q"
    then show "pn_in s q \<and> pn_val q = pn_val p + 1"
      unfolding eq by (auto simp: varint_checked_add_Some varint_max_less)
  next
    assume q: "pn_in s q \<and> pn_val q = pn_val p + 1"
    then have "varint_checked_add (pn_as_u64 p) 1 = Some (pn_as_u64 q)"
      using pn_val_less [of q] by (simp add: varint_checked_add_Some del: pn_val_less)
    with q show "pn_next p = Some q" unfolding eq by (intro exI [of _ "pn_as_u64 q"]) simp
  qed
qed

lemma pn_next_None: "pn_in s p \<Longrightarrow> pn_next p = None \<longleftrightarrow> pn_val p = 2 ^ 62 - 1"
  using pn_val_less [of p]
  by (auto simp: pn_next_def pn_as_varint_def varint_checked_add_None bind_eq_None_conv)

lemma pn_prev_Some:
  assumes "pn_in s p"
  shows "pn_prev p = Some q \<longleftrightarrow> pn_in s q \<and> pn_val p = pn_val q + 1"
proof -
  have eq: "pn_prev p = Some q \<longleftrightarrow> (\<exists>v. checked_sub (pn_as_u64 p) 1 = Some v \<and> q = pn_from_varint v s)"
    using assms by (auto simp: pn_prev_def pn_as_varint_def varint_checked_sub_def
        bind_eq_Some_conv pn_space_in)
  show ?thesis
  proof
    assume "pn_prev p = Some q"
    then obtain v where v: "unat v = pn_val p - 1" "1 \<le> pn_val p" "q = pn_from_varint v s"
      unfolding eq by (auto simp: checked_sub_Some)
    then have "varint_valid v" using pn_val_less [of p] by (simp add: varint_max_less)
    with v show "pn_in s q \<and> pn_val p = pn_val q + 1" by simp
  next
    assume q: "pn_in s q \<and> pn_val p = pn_val q + 1"
    then have "checked_sub (pn_as_u64 p) 1 = Some (pn_as_u64 q)" by (simp add: checked_sub_Some)
    with q show "pn_prev p = Some q" unfolding eq by (intro exI [of _ "pn_as_u64 q"]) simp
  qed
qed

lemma pn_prev_None: "pn_in s p \<Longrightarrow> pn_prev p = None \<longleftrightarrow> pn_val p = 0"
  by (auto simp: pn_prev_def pn_as_varint_def varint_checked_sub_def checked_sub_None
      bind_eq_None_conv)


section \<open>Truncation and expansion\<close>

lemma bytesize_simps [simp]:
  "bytesize LenU8 = 1" "bytesize LenU16 = 2" "bytesize LenU24 = 3" "bytesize LenU32 = 4"
  by (simp_all add: bytesize_def)

lemma bitsize_simps [simp]:
  "bitsize LenU8 = 8" "bitsize LenU16 = 16" "bitsize LenU24 = 24" "bitsize LenU32 = 32"
  by (simp_all add: bitsize_def bytesize_def)


lemma tpn_len_truncate [simp]: "tpn_len (truncate_value l v) = l"
  by (cases l) simp_all

lemma u24_take_bit: "u24_new_truncated v = take_bit 24 v"
  by (simp add: u24_new_truncated_def take_bit_eq_mask mask_eq_exp_minus_1)

lemma tpn_into_u64_truncate: "tpn_into_u64 (truncate_value l v) = take_bit (bitsize l) v"
proof (cases l)
  case LenU24
  have "ucast (take_bit 24 (ucast v :: u32)) = take_bit 24 (v :: u64)"
    by (rule bit_word_eqI) (auto simp: bit_simps)
  with LenU24 show ?thesis by (simp add: u24_take_bit)
qed (auto intro!: bit_word_eqI simp: bit_simps)

lemma derive_truncation_range_Some:
  assumes "derive_truncation_range la p = Some len"
  shows "pnl_space len = pn_space p \<and> pn_val la \<le> pn_val p \<and>
         2 * (pn_val p - pn_val la) < 2 ^ bitsize (pnl_value len)"
proof -
  from assms obtain d m where d: "checked_sub (pn_as_u64 p) (pn_as_u64 la) = Some d"
    and m: "checked_mul d 2 = Some m" and l: "len_from_varint m (pn_space p) = Some len"
    by (auto simp: derive_truncation_range_def Let_def bind_eq_Some_conv result_ok_eq_Some varint_new_Inr)
  from d have "unat d = pn_val p - pn_val la" "pn_val la \<le> pn_val p"
    by (auto simp: checked_sub_Some)
  moreover from m have "unat m = 2 * unat d"
    by (auto simp: checked_mul_def unat_mult_no_wrap split: if_splits)
  moreover from l have "unat m < 2 ^ bitsize (pnl_value len)" "pnl_space len = pn_space p"
    by (auto simp: len_from_varint_def len_value_from_varint_def word_le_nat_alt bind_eq_Some_conv
        split: if_splits)
  ultimately show ?thesis by simp
qed










lemma pn_truncate_le:
  "pn_truncate p la = Some t \<Longrightarrow> pn_val la \<le> pn_val p"
  using derive_truncation_range_Some by (auto simp: pn_truncate_def bind_eq_Some_conv)

section \<open>The wire form\<close>

definition tpn_wf :: "truncated_packet_number_value \<Rightarrow> bool" where
  "tpn_wf v \<longleftrightarrow> (case v of TruncatedU24 w \<Rightarrow> w < 2 ^ 24 | _ \<Rightarrow> True)"


lemma truncate_value_wf [simp]: "tpn_wf (truncate_value l v)"
proof (cases l)
  case LenU24
  then show ?thesis
    by (simp add: tpn_wf_def u24_take_bit unsigned_take_bit_eq take_bit_nat_def word_less_nat_alt)
qed (simp_all add: tpn_wf_def)



section \<open>Iteration over a range\<close>

text \<open>Both directions of the iterator keep the two ends in one space.\<close>

lemma iterate_range:
  assumes "pn_in s a" "pn_in s b" "pn_val a \<le> pn_val b" "pn_val b - pn_val a + 1 < fuel"
  shows "\<exists>ps. iterate pnr_next fuel \<lparr>pnr_start = a, pnr_end = b, pnr_exhausted = False\<rparr> = Some ps \<and>
              map pn_val ps = [pn_val a ..< pn_val b + 1] \<and> list_all (pn_in s) ps"
  using assms
proof (induction fuel arbitrary: a)
  case (Suc fuel)
  let ?r = "\<lparr>pnr_start = a, pnr_end = b, pnr_exhausted = False\<rparr>"
  have le: "a \<le> b" using Suc.prems by (simp add: pn_le_iff [of s])
  obtain fuel' where fuel': "fuel = Suc fuel'" using Suc.prems by (cases fuel) auto
  show ?case
  proof (cases "pn_next a")
    case None
    then have "pn_val b = pn_val a"
      using pn_next_None [OF Suc.prems(1)] Suc.prems pn_val_less [of b] by (simp del: pn_val_less)
    with None le Suc.prems fuel' show ?thesis
      by (simp add: pnr_next_def)
  next
    case (Some a')
    then have a': "pn_in s a'" "pn_val a' = pn_val a + 1"
      using pn_next_Some [OF Suc.prems(1)] by auto
    show ?thesis
    proof (cases "pn_val a = pn_val b")
      case True
      with a' Suc.prems have "\<not> a' \<le> b" by (simp add: pn_le_iff [of s])
      with Some le True Suc.prems fuel' show ?thesis by (simp add: pnr_next_def)
    next
      case False
      with Suc.prems a' have "pn_val a' \<le> pn_val b" "pn_val b - pn_val a' + 1 < fuel" by auto
      with Suc.IH [OF a'(1) Suc.prems(2)] Some le a' Suc.prems show ?thesis
        by (auto simp: pnr_next_def upt_conv_Cons)
    qed
  qed
qed simp

lemma iterate_range_back:
  assumes "pn_in s a" "pn_in s b" "pn_val a \<le> pn_val b" "pn_val b - pn_val a + 1 < fuel"
  shows "\<exists>ps. iterate pnr_next_back fuel \<lparr>pnr_start = a, pnr_end = b, pnr_exhausted = False\<rparr> = Some ps \<and>
              map pn_val ps = rev [pn_val a ..< pn_val b + 1] \<and> list_all (pn_in s) ps"
  using assms
proof (induction fuel arbitrary: b)
  case (Suc fuel)
  let ?r = "\<lparr>pnr_start = a, pnr_end = b, pnr_exhausted = False\<rparr>"
  have le: "a \<le> b" using Suc.prems by (simp add: pn_le_iff [of s])
  obtain fuel' where fuel': "fuel = Suc fuel'" using Suc.prems by (cases fuel) auto
  show ?case
  proof (cases "pn_prev b")
    case None
    then have "pn_val b = 0"
      using pn_prev_None [OF Suc.prems(2)] by simp
    with None le Suc.prems fuel' show ?thesis
      by (simp add: pnr_next_back_def)
  next
    case (Some b')
    then have b': "pn_in s b'" "pn_val b = pn_val b' + 1"
      using pn_prev_Some [OF Suc.prems(2)] by auto
    show ?thesis
    proof (cases "pn_val a = pn_val b")
      case True
      with b' Suc.prems have "b' < a" by (simp add: pn_less_iff [of s])
      with Some le True Suc.prems fuel' show ?thesis by (simp add: pnr_next_back_def)
    next
      case False
      with Suc.prems b' have "pn_val a \<le> pn_val b'" "pn_val b' - pn_val a + 1 < fuel" "\<not> b' < a"
        by (auto simp: pn_less_iff [of s])
      with Suc.IH [OF Suc.prems(1) b'(1)] Some le b' Suc.prems show ?thesis
        by (auto simp: pnr_next_back_def)
    qed
  qed
qed simp


section \<open>Properties\<close>

lemma len_value_from_varint_Some:
  "len_value_from_varint v = Some l \<longleftrightarrow>
     unat v < 2 ^ bitsize l \<and> (\<forall>l'. unat v < 2 ^ bitsize l' \<longrightarrow> bitsize l \<le> bitsize l')"
proof -
  have all: "(\<forall>l'. P l') \<longleftrightarrow> P LenU8 \<and> P LenU16 \<and> P LenU24 \<and> P LenU32" for P
    by (metis packet_number_len_value.exhaust)
  show ?thesis
    by (cases l) (auto simp: all len_value_from_varint_def word_le_nat_alt)
qed

lemma len_value_from_varint_None: "len_value_from_varint v = None \<longleftrightarrow> 2 ^ 32 \<le> unat v"
  by (auto simp: len_value_from_varint_def word_le_nat_alt)

lemma derive_truncation_range_eq:
  assumes "pn_val la \<le> pn_val p" and "2 * (pn_val p - pn_val la) < 2 ^ 62"
  shows "derive_truncation_range la p =
           len_from_varint (of_nat (2 * (pn_val p - pn_val la))) (pn_space p)"
proof -
  define d where "d = pn_as_u64 p - pn_as_u64 la"
  have d: "checked_sub (pn_as_u64 p) (pn_as_u64 la) = Some d" "unat d = pn_val p - pn_val la"
    using assms by (simp_all add: d_def checked_sub_Some unat_sub_no_wrap word_le_nat_alt)
  then have m: "checked_mul d 2 = Some (d * 2)" "unat (d * 2) = 2 * (pn_val p - pn_val la)"
    using assms by (simp_all add: checked_mul_def unat_mult_no_wrap)
  then have "varint_new (d * 2) = Inr (d * 2)" "of_nat (2 * (pn_val p - pn_val la)) = d * 2"
    using assms(2) by (simp_all add: varint_new_Inr varint_max_less m(2) flip: m(2))
  with d m show ?thesis by (simp add: derive_truncation_range_def)
qed



text \<open>
  C36. The length the sender picks is the shortest that covers more than twice the distance to the
  largest acknowledged packet number (RFC 9000, section 17.1), and truncation fails exactly when
  the packet number is behind the acknowledged one or no four-byte length suffices.
\<close>

theorem pn_truncate_shortest:
  assumes "pn_in s p"
  shows "(pn_truncate p la = None \<longleftrightarrow> pn_val p < pn_val la \<or> 2 ^ 32 \<le> 2 * (pn_val p - pn_val la)) \<and>
         (\<forall>t. pn_truncate p la = Some t \<longrightarrow>
            tpn_space t = s \<and>
            tpn_into_u64 (tpn_value t) = take_bit (bitsize (tpn_len (tpn_value t))) (pn_as_u64 p) \<and>
            2 * (pn_val p - pn_val la) < 2 ^ bitsize (tpn_len (tpn_value t)) \<and>
            (\<forall>l. 2 * (pn_val p - pn_val la) < 2 ^ bitsize l \<longrightarrow>
                 bitsize (tpn_len (tpn_value t)) \<le> bitsize l))"
proof (cases "pn_val la \<le> pn_val p \<and> 2 * (pn_val p - pn_val la) < 2 ^ 62")
  case True
  let ?v = "of_nat (2 * (pn_val p - pn_val la)) :: u64"
  have v: "unat ?v = 2 * (pn_val p - pn_val la)"
    using True by (intro unat_of_nat_no_wrap) simp
  have "pn_truncate p la = map_option (\<lambda>l. truncate_packet_number \<lparr>pnl_space = s, pnl_value = l\<rparr>
          (pn_as_u64 p)) (len_value_from_varint ?v)"
    using True assms by (cases "len_value_from_varint ?v")
      (simp_all add: pn_truncate_def derive_truncation_range_eq len_from_varint_def pn_space_in pn_as_varint_def)
  with v True show ?thesis
    by (auto simp: truncate_packet_number_def tpn_into_u64_truncate len_value_from_varint_None
        len_value_from_varint_Some)
next
  case False
  have "pn_truncate p la = None"
  proof (rule ccontr)
    assume "\<not> ?thesis"
    then obtain len where "derive_truncation_range la p = Some len"
      by (cases "derive_truncation_range la p") (auto simp: pn_truncate_def)
    from derive_truncation_range_Some [OF this] False have "\<not> 2 ^ bitsize (pnl_value len) \<le> (2 ^ 62 :: nat)"
      by simp
    then show False by (cases "pnl_value len") simp_all
  qed
  with False show ?thesis by auto
qed

theorem pn_truncate_shortest_witness:
  "pn_truncate (pn_from_varint 5 Handshake) (pn_from_varint 6 Handshake) = None"
proof -
  have v: "varint_valid 5" "varint_valid 6"
    by (simp_all add: varint_valid_def MAX_VARINT_VALUE_def)
  show ?thesis
    using pn_truncate_shortest [OF pn_from_varint_in [OF v(1), of Handshake],
        of "pn_from_varint 6 Handshake"] v by simp
qed

text \<open>
  C37. Iterating over a packet number range, from either end, ends and visits exactly the numbers
  from \<open>start\<close> to \<open>end\<close> inclusive, once each and in order, also when the range reaches the largest
  or the smallest packet number of the space.
\<close>

theorem packet_number_range_iterates:
  assumes "pn_in s a" "pn_in s b" and "pnr_new a b = Some r" and "pn_val b - pn_val a + 1 < fuel"
  shows "(\<exists>ps. iterate pnr_next fuel r = Some ps \<and> list_all (pn_in s) ps \<and>
               map pn_val ps = [pn_val a ..< pn_val b + 1]) \<and>
         (\<exists>ps. iterate pnr_next_back fuel r = Some ps \<and> list_all (pn_in s) ps \<and>
               map pn_val ps = rev [pn_val a ..< pn_val b + 1])"
proof -
  from assms(3) have "r = \<lparr>pnr_start = a, pnr_end = b, pnr_exhausted = False\<rparr>" "pn_val a \<le> pn_val b"
    using assms(1,2) by (auto simp: pnr_new_def pn_le_iff split: if_splits)
  then show ?thesis
    using iterate_range [of s a b fuel] iterate_range_back [of s a b fuel] assms by auto
qed

theorem packet_number_range_iterates_witness:
  "\<exists>ps. iterate pnr_next 4 \<lparr>pnr_start = pn_from_varint 4611686018427387902 Initial,
        pnr_end = pn_from_varint 4611686018427387903 Initial, pnr_exhausted = False\<rparr> = Some ps \<and>
      map pn_val ps = [4611686018427387902, 4611686018427387903]"
proof -
  let ?a = "pn_from_varint 4611686018427387902 Initial"
  let ?b = "pn_from_varint 4611686018427387903 Initial"
  have v: "varint_valid 4611686018427387902" "varint_valid 4611686018427387903"
    by (simp_all add: varint_valid_def MAX_VARINT_VALUE_def)
  have r: "pnr_new ?a ?b = Some \<lparr>pnr_start = ?a, pnr_end = ?b, pnr_exhausted = False\<rparr>"
    using v by (simp add: pnr_new_def pn_le_iff [of Initial])
  show ?thesis
    using packet_number_range_iterates [OF pn_from_varint_in [OF v(1)] pn_from_varint_in [OF v(2)] r, of 4] v
    by (auto simp: upt_rec)
qed

end
