(* ===== verification/SlidingWindow.thy ===== *)
theory SlidingWindow
  imports PacketNumber
begin

unbundle bit_operations_syntax

text \<open>
  Duplicate detection: \<^verbatim>\<open>quic/s2n-quic-core/src/packet/number/sliding_window.rs\<close>. The window
  is a 128-bit field left of the highest packet number seen. The abstract state is the set of
  accepted packet numbers; every operation is shown to implement the decision that this set gives,
  and the iterator over evicted entries is shown to list exactly the numbers slid past.
\<close>

section \<open>Definitions\<close>

record sliding_window =
  sw_window :: u128
  sw_right_edge :: "packet_number option"

datatype sliding_window_error = Duplicate | TooOld

definition WINDOW_WIDTH :: u64 where
  "WINDOW_WIDTH = 1 + 16 * 8"

datatype window_position =
    PosLeft
  | PosRight u64
  | PosRightEdge
  | PosWithin u64
  | PosEmpty

record evicted_set =
  ev_window :: u128
  ev_right_edge :: packet_number

definition sliding_window_default :: sliding_window where
  "sliding_window_default = \<lparr>sw_window = 0, sw_right_edge = None\<rparr>"

definition evicted_set_default :: evicted_set where
  "evicted_set_default = \<lparr>ev_window = 0, ev_right_edge = pn_from_varint 0 Initial\<rparr>"

text \<open>\<open>None\<close> is the failing \<open>expect\<close>.\<close>

definition sw_window_position :: "sliding_window \<Rightarrow> packet_number \<Rightarrow> window_position option" where
  "sw_window_position self packet_number =
     (case sw_right_edge self of
        None \<Rightarrow> Some PosEmpty
      | Some right_edge \<Rightarrow>
          (case pn_checked_distance right_edge packet_number of
             Some delta \<Rightarrow>
               if delta = 0 then Some PosRightEdge
               else if delta \<ge> WINDOW_WIDTH then Some PosLeft
               else Some (PosWithin delta)
           | None \<Rightarrow> map_option PosRight (pn_checked_distance packet_number right_edge)))"

definition sw_check :: "sliding_window \<Rightarrow> packet_number \<Rightarrow> (sliding_window_error + unit) option" where
  "sw_check self packet_number =
     map_option (\<lambda>pos. case pos of
         PosLeft \<Rightarrow> Inl TooOld
       | PosRightEdge \<Rightarrow> Inl Duplicate
       | PosRight _ \<Rightarrow> Inr ()
       | PosEmpty \<Rightarrow> Inr ()
       | PosWithin delta \<Rightarrow>
           let mask = wrapping_shl 1 (unat (delta - 1)) in
           if sw_window self AND mask \<noteq> 0 then Inl Duplicate else Inr ())
       (sw_window_position self packet_number)"

text \<open>The entries shifted out and the new window, for a packet \<open>delta\<close> right of the edge.\<close>

definition slide :: "u128 \<Rightarrow> u64 \<Rightarrow> u128 \<times> u128" where
  "slide window delta =
     (if delta < WINDOW_WIDTH then
        let removed_mask = (if delta = 128 then - 1 else NOT (wrapping_shr (- 1) (unat delta)));
            removed = NOT window AND removed_mask;
            window = unwrap_or 0 (checked_shl window (unat delta));
            window = window OR wrapping_shl 1 (unat (delta - 1))
        in (removed, window)
      else (NOT window, 0))"

text \<open>
  \<open>insert_with_evicted_inner\<close>, which in a release build is the whole of \<open>insert_with_evicted\<close>.
  \<open>None\<close> is a panic: the \<open>expect\<close> of the position or the \<open>assert!\<close> on the removed entries.
\<close>

definition insert_with_evicted ::
    "sliding_window \<Rightarrow> packet_number
     \<Rightarrow> ((sliding_window_error + evicted_set) \<times> sliding_window) option" where
  "insert_with_evicted self packet_number =
     Option.bind (sw_window_position self packet_number) (\<lambda>pos. case pos of
         PosLeft \<Rightarrow> Some (Inl TooOld, self)
       | PosRightEdge \<Rightarrow> Some (Inl Duplicate, self)
       | PosRight delta \<Rightarrow>
           (let (removed, window) = slide (sw_window self) delta
            in case sw_right_edge self of
                 Some prev_right_edge \<Rightarrow>
                   Some (Inr \<lparr>ev_window = removed, ev_right_edge = prev_right_edge\<rparr>,
                         \<lparr>sw_window = window, sw_right_edge = Some packet_number\<rparr>)
               | None \<Rightarrow>
                   if removed = 0 then
                     Some (Inr evicted_set_default,
                           \<lparr>sw_window = window, sw_right_edge = Some packet_number\<rparr>)
                   else None)
       | PosWithin delta \<Rightarrow>
           let mask = wrapping_shl 1 (unat (delta - 1));
               duplicate = (sw_window self AND mask \<noteq> 0);
               self = self\<lparr>sw_window := sw_window self OR mask\<rparr>
           in Some (if duplicate then Inl Duplicate else Inr evicted_set_default, self)
       | PosEmpty \<Rightarrow>
           Some (Inr evicted_set_default, self\<lparr>sw_right_edge := Some packet_number\<rparr>))"

definition sw_insert ::
    "sliding_window \<Rightarrow> packet_number \<Rightarrow> ((sliding_window_error + unit) \<times> sliding_window) option" where
  "sw_insert self packet_number =
     map_option (\<lambda>(res, self). (map_sum id (\<lambda>_. ()) res, self))
       (insert_with_evicted self packet_number)"

lemma shift_out_top_bit:
  fixes w :: "'a::len word"
  assumes "w \<noteq> 0" and "k = leading_zeros w + 1"
  shows "card {i. bit (push_bit k w) i} < card {i. bit w i}"
proof -
  have fin: "finite {i. bit v i}" for v :: "'a word"
    by (rule finite_subset [of _ "{..<LENGTH('a)}"]) (auto dest: bit_imp_le_length)
  let ?top = "LENGTH('a) - k"
  have top: "bit w ?top" "0 < k" "k \<le> LENGTH('a)"
    using leading_zeros_bit(1,2) [OF assms(1)] assms(2) by simp_all
  have "(\<lambda>i. i - k) ` {i. bit (push_bit k w) i} \<subseteq> {i. bit w i} - {?top}"
    using top by (auto simp: bit_simps)
  moreover have "inj_on (\<lambda>i. i - k) {i. bit (push_bit k w) i}"
    by (auto simp: inj_on_def bit_simps)
  ultimately have "card {i. bit (push_bit k w) i} \<le> card ({i. bit w i} - {?top})"
    by (metis card_image card_mono fin finite_Diff)
  also have "\<dots> < card {i. bit w i}"
    using top fin by (intro psubset_card_mono) auto
  finally show ?thesis .
qed

lemma shift_window:
  fixes w :: u128
  assumes "w \<noteq> 0"
  shows "(if leading_zeros w + 1 = 128 then 0 else wrapping_shl w (leading_zeros w + 1)) =
         push_bit (leading_zeros w + 1) w"
proof -
  have "leading_zeros w < 128" using leading_zeros_bit(1) [OF assms] by simp
  then show ?thesis
    using leading_zeros_bit(3) [OF assms]
    by (cases "leading_zeros w = 127")
       (auto simp: wrapping_shl_def bit_simps simp del: push_bit_Suc intro!: bit_word_eqI)
qed

function evicted_next :: "evicted_set \<Rightarrow> packet_number option \<times> evicted_set" where
  "evicted_next self =
     (if ev_window self = 0 then (None, self)
      else
        let shift = leading_zeros (ev_window self) + 1;
            right_edge = pn_from_varint
              (varint_add (pn_as_varint (ev_right_edge self)) (of_nat shift))
              (pn_space (ev_right_edge self));
            window = (if shift = 128 then 0 else wrapping_shl (ev_window self) shift);
            self = \<lparr>ev_window = window, ev_right_edge = right_edge\<rparr>
        in case varint_checked_sub (pn_as_varint right_edge) WINDOW_WIDTH of
             Some left_edge \<Rightarrow> (Some (pn_from_varint left_edge (pn_space right_edge)), self)
           | None \<Rightarrow> evicted_next self)"
  by pat_completeness auto

termination
proof (relation "measure (\<lambda>self. card {i. bit (ev_window self) i})")
  fix self :: evicted_set and shift right_edge window self'
  assume w: "ev_window self \<noteq> 0" and "shift = leading_zeros (ev_window self) + 1"
    and "window = (if shift = 128 then 0 else wrapping_shl (ev_window self) shift)"
    and self': "self' = \<lparr>ev_window = window, ev_right_edge = right_edge\<rparr>"
  then have "window = push_bit (leading_zeros (ev_window self) + 1) (ev_window self)"
    using shift_window [OF w] by (simp only:)
  then show "(self', self) \<in> measure (\<lambda>self. card {i. bit (ev_window self) i})"
    using shift_out_top_bit [OF w refl] self' by (simp del: push_bit_Suc)
qed simp

declare evicted_next.simps [simp del]


section \<open>The abstract decision\<close>

text \<open>
  \<open>sw_spec A n\<close> is what the documentation promises when \<open>A\<close> is the set of accepted packet numbers:
  too old at a distance of the window width, otherwise a duplicate exactly when accepted before.
\<close>

definition sw_spec :: "nat set \<Rightarrow> nat \<Rightarrow> sliding_window_error + unit" where
  "sw_spec A n =
     (if A \<noteq> {} \<and> n + 129 \<le> Max A then Inl TooOld
      else if n \<in> A then Inl Duplicate else Inr ())"

text \<open>\<open>sw_rel s sw A\<close>: the window holds what it should know of the accepted numbers \<open>A\<close> of space \<open>s\<close>.\<close>

definition sw_rel :: "packet_number_space \<Rightarrow> sliding_window \<Rightarrow> nat set \<Rightarrow> bool" where
  "sw_rel s sw A \<longleftrightarrow> finite A \<and>
     (case sw_right_edge sw of
        None \<Rightarrow> A = {} \<and> sw_window sw = 0
      | Some r \<Rightarrow> pn_in s r \<and> A \<noteq> {} \<and> Max A = pn_val r \<and>
          (\<forall>i<128. bit (sw_window sw) i \<longleftrightarrow> i < pn_val r \<and> pn_val r - 1 - i \<in> A))"

lemma sw_rel_default: "sw_rel s sliding_window_default {}"
  by (simp add: sw_rel_def sliding_window_default_def)

lemma sw_window_position_None:
  "sw_right_edge sw = None \<Longrightarrow> sw_window_position sw p = Some PosEmpty"
  by (simp add: sw_window_position_def)

lemma sw_window_position_Some:
  assumes "sw_right_edge sw = Some r"
  shows "\<exists>d. sw_window_position sw p =
      Some (if pn_val p = pn_val r then PosRightEdge
            else if pn_val r < pn_val p then PosRight d
            else if pn_val p + 129 \<le> pn_val r then PosLeft
            else PosWithin d) \<and>
      unat d = (if pn_val r < pn_val p then pn_val p - pn_val r else pn_val r - pn_val p)"
proof (cases "pn_val r < pn_val p")
  case True
  then show ?thesis using assms
    by (auto simp: sw_window_position_def pn_checked_distance_def checked_sub_def word_le_nat_alt
        unat_sub_no_wrap word_less_nat_alt)
next
  case False
  then show ?thesis using assms
    by (intro exI [of _ "pn_as_u64 r - pn_as_u64 p"]) (auto simp: sw_window_position_def pn_checked_distance_def checked_sub_def word_le_nat_alt
        unat_sub_no_wrap WINDOW_WIDTH_def word_unat_eq_iff)
qed

lemma mask_test:
  fixes w :: u128 and d :: u64
  assumes "0 < unat d" "unat d \<le> 128"
  shows "w AND wrapping_shl 1 (unat (d - 1)) \<noteq> 0 \<longleftrightarrow> bit w (unat d - 1)"
    "bit (w OR wrapping_shl 1 (unat (d - 1))) i \<longleftrightarrow> bit w i \<or> i = unat d - 1"
    "bit (wrapping_shl 1 (unat (d - 1)) :: u128) i \<longleftrightarrow> i = unat d - 1"
proof -
  have d: "unat (d - 1) = unat d - 1" using assms by (simp add: unat_sub_no_wrap word_le_nat_alt)
  have b: "bit (wrapping_shl 1 (unat (d - 1)) :: u128) i \<longleftrightarrow> i = unat d - 1" for i
    using assms by (auto simp: wrapping_shl_def d bit_simps simp del: push_bit_of_1)
  then show "bit (w OR wrapping_shl 1 (unat (d - 1))) i \<longleftrightarrow> bit w i \<or> i = unat d - 1"
    "bit (wrapping_shl 1 (unat (d - 1)) :: u128) i \<longleftrightarrow> i = unat d - 1"
    by (simp_all add: bit_simps)
  show "w AND wrapping_shl 1 (unat (d - 1)) \<noteq> 0 \<longleftrightarrow> bit w (unat d - 1)"
  proof
    assume "w AND wrapping_shl 1 (unat (d - 1)) \<noteq> 0"
    then obtain i where "bit (w AND wrapping_shl 1 (unat (d - 1))) i"
      using bit_word_eqI [of "w AND wrapping_shl 1 (unat (d - 1))" 0] by auto
    then show "bit w (unat d - 1)" by (auto simp: bit_and_iff b)
  next
    assume "bit w (unat d - 1)"
    then have "bit (w AND wrapping_shl 1 (unat (d - 1))) (unat d - 1)" by (simp add: bit_and_iff b)
    then show "w AND wrapping_shl 1 (unat (d - 1)) \<noteq> 0" by auto
  qed
qed


lemma slide_bits:
  assumes "slide w d = (removed, w')" and "0 < unat d" and i: "i < 128"
  shows "bit removed i \<longleftrightarrow> \<not> bit w i \<and> 128 \<le> i + unat d"
    "bit w' i \<longleftrightarrow> unat d \<le> i \<and> bit w (i - unat d) \<or> unat d = i + 1"
proof -
  have lt: "d < WINDOW_WIDTH \<longleftrightarrow> unat d < 129" "d = 128 \<longleftrightarrow> unat d = 128"
    by (simp_all add: word_less_nat_alt WINDOW_WIDTH_def word_unat_eq_iff)
  show "bit removed i \<longleftrightarrow> \<not> bit w i \<and> 128 \<le> i + unat d"
    using assms(1) i
    by (auto simp: slide_def lt Let_def bit_simps wrapping_shr_def split: if_splits)
  show "bit w' i \<longleftrightarrow> unat d \<le> i \<and> bit w (i - unat d) \<or> unat d = i + 1"
  proof (cases "unat d \<le> 128")
    case True
    then have "w' = unwrap_or 0 (checked_shl w (unat d)) OR wrapping_shl 1 (unat (d - 1))"
      using assms(1) by (simp add: slide_def lt Let_def)
    with True assms(2) i show ?thesis
      by (auto simp: mask_test(3) checked_shl_def bit_simps simp del: push_bit_Suc)
  next
    case False
    then have "w' = 0" using assms(1) by (simp add: slide_def lt)
    with False i show ?thesis by simp
  qed
qed

section \<open>The decision is the abstract one\<close>

lemma sw_spec_pos:
  assumes "finite A" "A \<noteq> {}"
  shows "Max A < n \<Longrightarrow> sw_spec A n = Inr ()"
    "n + 129 \<le> Max A \<Longrightarrow> sw_spec A n = Inl TooOld"
    "n = Max A \<Longrightarrow> sw_spec A n = Inl Duplicate"
    "n \<le> Max A \<Longrightarrow> \<not> n + 129 \<le> Max A \<Longrightarrow> sw_spec A n = (if n \<in> A then Inl Duplicate else Inr ())"
  using assms Max_ge [OF assms(1), of n] Max_in [OF assms]
  by (auto simp: sw_spec_def simp del: Max_less_iff Max_ge_iff) (metis Max_ge leD)

lemma sw_rel_within:
  assumes "sw_rel s sw A" "sw_right_edge sw = Some r"
    and "n < pn_val r" "\<not> n + 129 \<le> pn_val r"
  shows "bit (sw_window sw) (pn_val r - n - 1) \<longleftrightarrow> n \<in> A"
  using assms by (auto simp: sw_rel_def)

lemma sw_check_spec:
  assumes "sw_rel s sw A" and "pn_in s p"
  shows "sw_check sw p = Some (sw_spec A (pn_val p))"
proof (cases "sw_right_edge sw")
  case None
  with assms show ?thesis
    by (simp add: sw_check_def sw_window_position_None sw_rel_def sw_spec_def)
next
  case (Some r)
  then have A: "finite A" "A \<noteq> {}" "Max A = pn_val r" using assms by (simp_all add: sw_rel_def)
  obtain d where d: "sw_window_position sw p =
      Some (if pn_val p = pn_val r then PosRightEdge
            else if pn_val r < pn_val p then PosRight d
            else if pn_val p + 129 \<le> pn_val r then PosLeft
            else PosWithin d)"
      "unat d = (if pn_val r < pn_val p then pn_val p - pn_val r else pn_val r - pn_val p)"
    using sw_window_position_Some [OF Some] by blast
  show ?thesis
    using d sw_spec_pos [OF A(1,2), of "pn_val p"] A(3) sw_rel_within [OF assms(1) Some, of "pn_val p"]
    by (auto simp: sw_check_def mask_test)
qed

definition ev_set :: "evicted_set \<Rightarrow> nat set" where
  "ev_set es = {n. \<exists>i<128. bit (ev_window es) i \<and> n + 1 + i = pn_val (ev_right_edge es)}"

definition ev_ok :: "packet_number_space \<Rightarrow> evicted_set \<Rightarrow> bool" where
  "ev_ok s es \<longleftrightarrow> (ev_window es = 0 \<or> pn_in s (ev_right_edge es)) \<and>
     (\<forall>i. bit (ev_window es) i \<longrightarrow> pn_val (ev_right_edge es) + 128 < 2 ^ 62 + i)"

text \<open>What an accepted insertion of \<open>n\<close> slides past: known to be missing before, too old after.\<close>

definition slid_past :: "nat set \<Rightarrow> nat \<Rightarrow> nat set" where
  "slid_past A n = {m. A \<noteq> {} \<and> m < Max A \<and> sw_spec A m = Inr () \<and>
                       sw_spec (insert n A) m = Inl TooOld}"

lemma ev_default [simp]: "ev_ok s evicted_set_default" "ev_set evicted_set_default = {}"
  by (simp_all add: ev_ok_def ev_set_def evicted_set_default_def)

lemma slid_past_within: "finite A \<Longrightarrow> n \<le> Max A \<Longrightarrow> slid_past A n = {}"
  by (cases "A = {}") (simp_all add: slid_past_def sw_spec_def max_def)


text \<open>Sliding to the right of the edge \<open>r\<close>: the new window and the evicted entries.\<close>

lemma sw_rel_slide:
  assumes rel: "sw_rel s sw A" and r: "sw_right_edge sw = Some r" and p: "pn_in s p" "pn_val r < pn_val p"
    and d: "unat d = pn_val p - pn_val r" and sl: "slide (sw_window sw) d = (removed, w')"
  shows "sw_rel s \<lparr>sw_window = w', sw_right_edge = Some p\<rparr> (insert (pn_val p) A)"
proof -
  have A: "finite A" "A \<noteq> {}" "Max A = pn_val r" using rel r by (simp_all add: sw_rel_def)
  have in_A: "m \<in> A \<Longrightarrow> m \<le> pn_val r" for m using A Max_ge [of A m] by simp
  have r_in: "pn_val r \<in> A" using A Max_in by metis
  have "bit w' i \<longleftrightarrow> i < pn_val p \<and> pn_val p - 1 - i \<in> insert (pn_val p) A" if i: "i < 128" for i
  proof -
    have w: "bit (sw_window sw) (i - unat d) \<longleftrightarrow> i - unat d < pn_val r \<and> pn_val r - 1 - (i - unat d) \<in> A"
      using rel r i by (simp add: sw_rel_def)
    consider "i + 1 < unat d" | "unat d = i + 1" | "unat d \<le> i" by linarith
    then show ?thesis
    proof cases
      case 1
      then have "pn_val r < pn_val p - 1 - i" using d p by simp
      with in_A have "pn_val p - 1 - i \<notin> A" by (meson leD)
      with 1 p slide_bits(2) [OF sl _ i] d show ?thesis by auto
    next
      case 2
      then have "pn_val p - 1 - i = pn_val r" using d p by simp
      with 2 p r_in slide_bits(2) [OF sl _ i] d show ?thesis by simp
    next
      case 3
      then have "pn_val p - 1 - i = pn_val r - 1 - (i - unat d)" "i - unat d < pn_val r \<longleftrightarrow> i < pn_val p"
        using d p by auto
      with 3 p slide_bits(2) [OF sl _ i] d w show ?thesis by auto
    qed
  qed
  moreover have "Max (insert (pn_val p) A) = pn_val p" using A p by simp
  ultimately show ?thesis using A p by (simp add: sw_rel_def)
qed

lemma ev_set_slide:
  assumes rel: "sw_rel s sw A" and r: "sw_right_edge sw = Some r" and p: "pn_in s p" "pn_val r < pn_val p"
    and d: "unat d = pn_val p - pn_val r" and sl: "slide (sw_window sw) d = (removed, w')"
  shows "ev_set \<lparr>ev_window = removed, ev_right_edge = r\<rparr> = slid_past A (pn_val p)"
    "ev_ok s \<lparr>ev_window = removed, ev_right_edge = r\<rparr>"
proof -
  have A: "finite A" "A \<noteq> {}" "Max A = pn_val r" "Max (insert (pn_val p) A) = pn_val p"
    using rel r p by (simp_all add: sw_rel_def)
  note rem = slide_bits(1) [OF sl]
  show "ev_set \<lparr>ev_window = removed, ev_right_edge = r\<rparr> = slid_past A (pn_val p)"
  proof (rule set_eqI)
    fix m
    have "m \<in> ev_set \<lparr>ev_window = removed, ev_right_edge = r\<rparr> \<longleftrightarrow>
          m < pn_val r \<and> \<not> m + 129 \<le> pn_val r \<and> bit removed (pn_val r - m - 1)"
    proof -
      have "(m + 1 + i = pn_val r) = (m < pn_val r \<and> i = pn_val r - m - 1)" for i by auto
      then show ?thesis by (auto simp: ev_set_def)
    qed
    also have "\<dots> \<longleftrightarrow> m < pn_val r \<and> \<not> m + 129 \<le> pn_val r \<and> m \<notin> A \<and> m + 129 \<le> pn_val p"
    proof (cases "m < pn_val r \<and> \<not> m + 129 \<le> pn_val r")
      case True
      then have "pn_val r - m - 1 < 128" by linarith
      with True show ?thesis
        using rem [of "pn_val r - m - 1"] sw_rel_within [OF rel r, of m] p d by auto
    qed auto
    also have "\<dots> \<longleftrightarrow> m \<in> slid_past A (pn_val p)"
      using A p by (auto simp: slid_past_def sw_spec_def)
    finally show "m \<in> ev_set \<lparr>ev_window = removed, ev_right_edge = r\<rparr> \<longleftrightarrow> m \<in> slid_past A (pn_val p)" .
  qed
  have "pn_val r + 128 < 2 ^ 62 + i" if "bit removed i" for i
  proof -
    have "128 \<le> i + unat d" using rem [of i] that bit_imp_le_length [OF that] d p by simp
    then show ?thesis using d p pn_val_less [of p] by linarith
  qed
  moreover have "pn_in s r" using rel r by (simp add: sw_rel_def)
  ultimately show "ev_ok s \<lparr>ev_window = removed, ev_right_edge = r\<rparr>"
    by (simp add: ev_ok_def)
qed


lemma insert_with_evicted_spec:
  assumes rel: "sw_rel s sw A" and p: "pn_in s p"
  shows "\<exists>res sw'. insert_with_evicted sw p = Some (res, sw') \<and>
    (case sw_spec A (pn_val p) of
       Inl e \<Rightarrow> res = Inl e \<and> sw' = sw
     | Inr _ \<Rightarrow> \<exists>es. res = Inr es \<and> sw_rel s sw' (insert (pn_val p) A) \<and> ev_ok s es \<and>
                  ev_set es = slid_past A (pn_val p))"
proof (cases "sw_right_edge sw")
  case None
  then have A: "A = {}" "sw_window sw = 0" using rel by (simp_all add: sw_rel_def)
  with None p show ?thesis
    by (auto simp: insert_with_evicted_def sw_window_position_None sw_spec_def sw_rel_def slid_past_def)
next
  case (Some r)
  then have A: "finite A" "A \<noteq> {}" "Max A = pn_val r" using rel by (simp_all add: sw_rel_def)
  obtain d where d: "sw_window_position sw p =
      Some (if pn_val p = pn_val r then PosRightEdge
            else if pn_val r < pn_val p then PosRight d
            else if pn_val p + 129 \<le> pn_val r then PosLeft
            else PosWithin d)"
      "unat d = (if pn_val r < pn_val p then pn_val p - pn_val r else pn_val r - pn_val p)"
    using sw_window_position_Some [OF Some] by blast
  note spec = sw_spec_pos [OF A(1,2), of "pn_val p", unfolded A(3)]
  consider "pn_val p = pn_val r" | "pn_val r < pn_val p" | "pn_val p + 129 \<le> pn_val r" |
    "pn_val p < pn_val r" "\<not> pn_val p + 129 \<le> pn_val r" by linarith
  then show ?thesis
  proof cases
    case 2
    obtain removed w' where sl: "slide (sw_window sw) d = (removed, w')" by fastforce
    from 2 d(2) have d': "unat d = pn_val p - pn_val r" by simp
    show ?thesis
      using 2 d(1) spec sl Some sw_rel_slide [OF rel Some p 2 d' sl] ev_set_slide [OF rel Some p 2 d' sl]
      by (simp add: insert_with_evicted_def)
  next
    case 4
    let ?w = "sw_window sw OR wrapping_shl 1 (unat (d - 1))"
    have dup: "sw_window sw AND wrapping_shl 1 (unat (d - 1)) \<noteq> 0 \<longleftrightarrow> pn_val p \<in> A"
      using mask_test(1) [of d] d(2) 4 sw_rel_within [OF rel Some 4] by simp
    have bits: "bit ?w i \<longleftrightarrow> bit (sw_window sw) i \<or> i = pn_val r - pn_val p - 1" for i
      using mask_test(2) [of d] d(2) 4 by simp
    have same: "?w = sw_window sw" if "pn_val p \<in> A"
      using that sw_rel_within [OF rel Some 4] bits by (auto intro: bit_word_eqI)
    have "sw_rel s (sw\<lparr>sw_window := ?w\<rparr>) (insert (pn_val p) A)"
      using rel Some bits 4 A by (auto simp: sw_rel_def max_def)
    then show ?thesis
      using 4 d(1) spec dup same slid_past_within [OF A(1), of "pn_val p"] A(3)
      by (auto simp: insert_with_evicted_def Let_def)
  qed (use d(1) spec in \<open>simp_all add: insert_with_evicted_def\<close>)
qed

section \<open>Iterating over the evicted entries\<close>

lemma evicted_next_step:
  assumes ok: "ev_ok s es" and w: "ev_window es \<noteq> 0"
  defines "k \<equiv> leading_zeros (ev_window es) + 1"
  defines "R \<equiv> pn_from_varint (varint_add (pn_as_varint (ev_right_edge es)) (of_nat k)) (pn_space (ev_right_edge es))"
  defines "es' \<equiv> \<lparr>ev_window = push_bit k (ev_window es), ev_right_edge = R\<rparr>"
  shows "pn_in s R" "pn_val R = pn_val (ev_right_edge es) + k" "ev_ok s es'"
    "ev_set es' = ev_set es - {m. m + 129 = pn_val R}"
    "\<And>m. m \<in> ev_set es' \<Longrightarrow> pn_val R < m + 129" "0 < k" "k \<le> 128" "bit (ev_window es) (128 - k)"
proof -
  show k: "0 < k" "k \<le> 128" and top: "bit (ev_window es) (128 - k)"
    using leading_zeros_bit [OF w] by (simp_all add: k_def)
  have R0: "pn_in s (ev_right_edge es)" using ok w by (simp add: ev_ok_def)
  have lt: "pn_val (ev_right_edge es) + 128 < 2 ^ 62 + (128 - k)" using ok top unfolding ev_ok_def by blast
  have "unat (of_nat k :: u64) = k" using k by (intro unat_of_nat_no_wrap) simp
  then have v: "unat (varint_add (pn_as_varint (ev_right_edge es)) (of_nat k)) = pn_val (ev_right_edge es) + k"
    using lt k by (simp add: varint_add_def pn_as_varint_def unat_add_no_wrap)
  then have valid: "varint_valid (varint_add (pn_as_varint (ev_right_edge es)) (of_nat k))"
    using lt k by (simp add: varint_max_less)
  show R: "pn_in s R" "pn_val R = pn_val (ev_right_edge es) + k"
    using valid v R0 by (simp_all add: R_def pn_space_in)
  have le_top: "i \<le> 128 - k" if "bit (ev_window es) i" for i
    using leading_zeros_bit(3) [OF w that] by (simp add: k_def)
  have bits: "bit (push_bit k (ev_window es)) i \<longleftrightarrow> k \<le> i \<and> i < 128 \<and> bit (ev_window es) (i - k)" for i
    by (auto simp: bit_simps)
  show "ev_ok s es'"
    using R ok bits by (auto simp: ev_ok_def es'_def)
  show "ev_set es' = ev_set es - {m. m + 129 = pn_val R}"
  proof (rule set_eqI)
    fix m
    have "m \<in> ev_set es' \<longleftrightarrow> (\<exists>j. bit (ev_window es) j \<and> j + k < 128 \<and> m + 1 + j = pn_val (ev_right_edge es))"
    proof
      assume "m \<in> ev_set es'"
      then obtain i where "i < 128" "k \<le> i" "bit (ev_window es) (i - k)" "m + 1 + i = pn_val (ev_right_edge es) + k"
        by (auto simp: ev_set_def es'_def R bits)
      then show "\<exists>j. bit (ev_window es) j \<and> j + k < 128 \<and> m + 1 + j = pn_val (ev_right_edge es)"
        by (intro exI [of _ "i - k"]) auto
    next
      assume "\<exists>j. bit (ev_window es) j \<and> j + k < 128 \<and> m + 1 + j = pn_val (ev_right_edge es)"
      then obtain j where "bit (ev_window es) j" "j + k < 128" "m + 1 + j = pn_val (ev_right_edge es)" by auto
      then show "m \<in> ev_set es'"
        by (auto simp: ev_set_def es'_def R bits intro!: exI [of _ "j + k"])
    qed
    also have "\<dots> \<longleftrightarrow> m \<in> ev_set es - {m. m + 129 = pn_val R}"
    proof -
      have "j < 128 \<and> (j + k < 128 \<longleftrightarrow> m + 129 \<noteq> pn_val R)"
        if "bit (ev_window es) j" "m + 1 + j = pn_val (ev_right_edge es)" for j
        using le_top [OF that(1)] that(2) k R(2) by linarith
      then show ?thesis by (auto simp: ev_set_def)
    qed
    finally show "m \<in> ev_set es' \<longleftrightarrow> m \<in> ev_set es - {m. m + 129 = pn_val R}" .
  qed
  show "pn_val R < m + 129" if "m \<in> ev_set es'" for m
    using that by (auto simp: ev_set_def es'_def)
qed


lemma evicted_next_spec:
  assumes "ev_ok s es"
  shows "(ev_set es = {} \<longrightarrow> fst (evicted_next es) = None) \<and>
         (ev_set es \<noteq> {} \<longrightarrow> (\<exists>p es'. evicted_next es = (Some p, es') \<and> pn_in s p \<and>
            pn_val p = Min (ev_set es) \<and> ev_ok s es' \<and> ev_set es' = ev_set es - {pn_val p}))"
  using assms
proof (induction es rule: evicted_next.induct)
  case (1 es)
  show ?case
  proof (cases "ev_window es = 0")
    case True
    then show ?thesis by (simp add: evicted_next.simps ev_set_def)
  next
    case False
    define k where "k = leading_zeros (ev_window es) + 1"
    define R where "R = pn_from_varint (varint_add (pn_as_varint (ev_right_edge es)) (of_nat k)) (pn_space (ev_right_edge es))"
    define es' where "es' = \<lparr>ev_window = push_bit k (ev_window es), ev_right_edge = R\<rparr>"
    note step = evicted_next_step [OF 1(2) False, folded k_def, folded R_def, folded es'_def]
    have win: "(if k = 128 then 0 else wrapping_shl (ev_window es) k) = push_bit k (ev_window es)"
      unfolding k_def by (rule shift_window [OF False])
    have unfold: "evicted_next es = (case varint_checked_sub (pn_as_varint R) WINDOW_WIDTH of
             Some left_edge \<Rightarrow> (Some (pn_from_varint left_edge (pn_space R)), es')
           | None \<Rightarrow> evicted_next es')"
      by (subst evicted_next.simps)
         (simp only: False if_False Let_def win es'_def R_def flip: k_def)
    have sp: "pn_space R = s" using step(1) by (rule pn_space_in)
    show ?thesis
    proof (cases "129 \<le> pn_val R")
      case True
      then obtain v where v: "varint_checked_sub (pn_as_varint R) WINDOW_WIDTH = Some v" "unat v = pn_val R - 129"
        by (auto simp: varint_checked_sub_def checked_sub_def pn_as_varint_def WINDOW_WIDTH_def
            word_le_nat_alt unat_sub_no_wrap)
      have valid: "varint_valid v" using v pn_val_less [of R] by (simp add: varint_max_less del: pn_val_less)
      let ?p = "pn_from_varint v s"
      have p: "pn_in s ?p" "pn_val ?p + 129 = pn_val R" using valid v True by simp_all
      have mem: "pn_val ?p \<in> ev_set es"
        using step(2,6-8) p by (auto simp: ev_set_def intro!: exI [of _ "128 - k"])
      have least: "pn_val ?p \<le> m" if "m \<in> ev_set es" for m
      proof (cases "m + 129 = pn_val R")
        case True
        with p show ?thesis by simp
      next
        case False
        with that have "m \<in> ev_set es'" unfolding step(4) by simp
        from step(5) [OF this] p show ?thesis by simp
      qed
      have fin: "finite (ev_set es)"
        by (rule finite_subset [of _ "{..<pn_val (ev_right_edge es)}"]) (auto simp: ev_set_def)
      have "Min (ev_set es) = pn_val ?p" by (rule Min_eqI [OF fin least mem])
      moreover have "ev_set es' = ev_set es - {pn_val ?p}" unfolding step(4) using p by auto
      ultimately show ?thesis using mem p step(3) unfold v sp by auto
    next
      case F: False
      then have none: "varint_checked_sub (pn_as_varint R) WINDOW_WIDTH = None"
        by (simp add: varint_checked_sub_def checked_sub_def pn_as_varint_def WINDOW_WIDTH_def word_le_nat_alt)
      have "ev_set es' = ev_set es" using step(4) F by auto
      with 1(1) [OF False k_def R_def win [symmetric] es'_def none step(3)] none unfold
      show ?thesis by simp
    qed
  qed
qed


lemma iterate_evicted:
  assumes "ev_ok s es" and "card (ev_set es) < fuel"
  shows "\<exists>ps. iterate evicted_next fuel es = Some ps \<and> list_all (pn_in s) ps \<and>
              map pn_val ps = sorted_list_of_set (ev_set es)"
  using assms
proof (induction fuel arbitrary: es)
  case (Suc fuel)
  note spec = evicted_next_spec [OF Suc.prems(1)]
  have fin: "finite (ev_set es)"
    by (rule finite_subset [of _ "{..<pn_val (ev_right_edge es)}"]) (auto simp: ev_set_def)
  show ?case
  proof (cases "ev_set es = {}")
    case True
    with spec show ?thesis by (cases "evicted_next es") simp
  next
    case False
    with spec obtain p es' where n: "evicted_next es = (Some p, es')" "pn_in s p"
      "pn_val p = Min (ev_set es)" "ev_ok s es'" "ev_set es' = ev_set es - {pn_val p}"
      by auto
    have "card (ev_set es') < card (ev_set es)"
      unfolding n(3,5) by (rule card_Diff1_less [OF fin Min_in [OF fin False]])
    with Suc.IH [OF n(4)] Suc.prems(2) obtain ps where
      "iterate evicted_next fuel es' = Some ps" "list_all (pn_in s) ps"
      "map pn_val ps = sorted_list_of_set (ev_set es')" by auto
    with n show ?thesis
      by (simp add: sorted_list_of_set_nonempty [OF fin False])
  qed
qed simp

lemma card_ev_set: "card (ev_set es) \<le> 128"
proof -
  have "ev_set es \<subseteq> (\<lambda>i. pn_val (ev_right_edge es) - 1 - i) ` {..<128}"
    by (force simp: ev_set_def image_def)
  then have "card (ev_set es) \<le> card {..<128::nat}"
    by (rule surj_card_le [OF finite_lessThan])
  then show ?thesis by simp
qed

section \<open>Sequences of insertions\<close>

text \<open>The decisions for a sequence of received packet numbers, and their abstract counterpart.\<close>

fun sw_run ::
    "sliding_window \<Rightarrow> packet_number list \<Rightarrow> ((sliding_window_error + unit) list \<times> sliding_window) option" where
  "sw_run sw [] = Some ([], sw)"
| "sw_run sw (p # ps) =
     Option.bind (sw_insert sw p) (\<lambda>(res, sw).
       map_option (\<lambda>(rs, sw). (res # rs, sw)) (sw_run sw ps))"

fun spec_run :: "nat set \<Rightarrow> nat list \<Rightarrow> (sliding_window_error + unit) list \<times> nat set" where
  "spec_run A [] = ([], A)"
| "spec_run A (n # ns) =
     (let res = sw_spec A n; A' = (if is_ok res then insert n A else A); (rs, B) = spec_run A' ns
      in (res # rs, B))"

lemma sw_insert_spec:
  assumes "sw_rel s sw A" "pn_in s p"
  shows "\<exists>sw'. sw_insert sw p = Some (sw_spec A (pn_val p), sw') \<and>
     (is_ok (sw_spec A (pn_val p)) \<longrightarrow> sw_rel s sw' (insert (pn_val p) A)) \<and>
     (\<not> is_ok (sw_spec A (pn_val p)) \<longrightarrow> sw' = sw)"
  using insert_with_evicted_spec [OF assms]
  by (cases "sw_spec A (pn_val p)") (auto simp: sw_insert_def is_ok_def)

lemma sw_run_spec:
  assumes "sw_rel s sw A" "list_all (pn_in s) ps"
  shows "\<exists>sw'. sw_run sw ps = Some (fst (spec_run A (map pn_val ps)), sw') \<and>
               sw_rel s sw' (snd (spec_run A (map pn_val ps)))"
  using assms
proof (induction ps arbitrary: sw A)
  case (Cons p ps)
  then obtain sw' where sw': "sw_insert sw p = Some (sw_spec A (pn_val p), sw')"
    "sw_rel s sw' (if is_ok (sw_spec A (pn_val p)) then insert (pn_val p) A else A)"
    using sw_insert_spec [of s sw A p] by auto
  from Cons.IH [OF sw'(2)] Cons.prems sw'(1) show ?case
    by (auto simp: Let_def split_beta)
qed simp


fun accepted :: "nat list \<Rightarrow> (sliding_window_error + unit) list \<Rightarrow> nat list" where
  "accepted (n # ns) (r # rs) = (if is_ok r then n # accepted ns rs else accepted ns rs)"
| "accepted _ _ = []"

lemma spec_run_accepted:
  "distinct (accepted ns (fst (spec_run A ns))) \<and> set (accepted ns (fst (spec_run A ns))) \<inter> A = {}"
proof (induction ns arbitrary: A)
  case (Cons n ns)
  have "n \<notin> A" if "is_ok (sw_spec A n)"
    using that by (auto simp: sw_spec_def is_ok_def split: if_splits)
  with Cons.IH [of "insert n A"] Cons.IH [of A] show ?case
    by (auto simp: Let_def split_beta)
qed simp

section \<open>Properties\<close>

text \<open>
  C10. Replay protection. For every sequence of packet numbers of one space, starting with the empty
  window, no insertion panics; each is decided as the set of numbers accepted so far demands (too
  old at 129 or more below the highest, otherwise a duplicate exactly when accepted before), and no
  number is accepted twice.
\<close>

theorem sliding_window_no_replay:
  assumes "list_all (pn_in s) ps"
  shows "\<exists>rs sw. sw_run sliding_window_default ps = Some (rs, sw) \<and>
           rs = fst (spec_run {} (map pn_val ps)) \<and>
           distinct (accepted (map pn_val ps) rs)"
  using sw_run_spec [OF sw_rel_default assms] spec_run_accepted [of "map pn_val ps" "{}"]
  by auto

theorem sliding_window_no_replay_witness:
  "\<exists>rs sw. sw_run sliding_window_default (map (\<lambda>v. pn_from_varint v Initial) [7, 200, 199, 200, 7])
       = Some (rs, sw) \<and> rs = [Inr (), Inr (), Inr (), Inl Duplicate, Inl TooOld]"
proof -
  have v: "varint_valid 7" "varint_valid 199" "varint_valid 200"
    by (simp_all add: varint_valid_def MAX_VARINT_VALUE_def)
  show ?thesis
    using sliding_window_no_replay [of Initial "map (\<lambda>v. pn_from_varint v Initial) [7, 200, 199, 200, 7]"] v
    by (auto simp: sw_spec_def is_ok_def Let_def split: if_splits)
qed

text \<open>
  C31. Evicted entries. In every state the window can reach, an accepted insertion returns an
  iterator that ends and lists, in increasing order, exactly the numbers left of the old right edge
  that \<open>check\<close> would have accepted before the insertion and rejects as too old after it.
\<close>

theorem insert_with_evicted_exact:
  assumes "list_all (pn_in s) ps" and "pn_in s p"
    and "sw_run sliding_window_default ps = Some (rs, sw)" and "sw_right_edge sw = Some r"
    and "insert_with_evicted sw p = Some (Inr es, sw')"
  shows "\<exists>qs. iterate evicted_next 129 es = Some qs \<and> sorted_wrt (<) (map pn_val qs) \<and> list_all (pn_in s) qs \<and>
     (\<forall>q. pn_in s q \<longrightarrow>
        (q \<in> set qs \<longleftrightarrow> q < r \<and> sw_check sw q = Some (Inr ()) \<and> sw_check sw' q = Some (Inl TooOld)))"
proof -
  obtain A where rel: "sw_rel s sw A" using sw_run_spec [OF sw_rel_default assms(1)] assms(3) by auto
  have A: "A \<noteq> {}" "Max A = pn_val r" "pn_in s r" using rel assms(4) by (simp_all add: sw_rel_def)
  from insert_with_evicted_spec [OF rel assms(2)] assms(5)
  have es: "sw_rel s sw' (insert (pn_val p) A)" "ev_ok s es" "ev_set es = slid_past A (pn_val p)"
    by (auto split: sum.splits)
  obtain qs where qs: "iterate evicted_next 129 es = Some qs" "list_all (pn_in s) qs"
      "map pn_val qs = sorted_list_of_set (ev_set es)"
    using iterate_evicted [OF es(2), of 129] card_ev_set [of es] by auto
  have fin: "finite (ev_set es)"
    by (rule finite_subset [of _ "{..<pn_val (ev_right_edge es)}"]) (auto simp: ev_set_def)
  have "q \<in> set qs \<longleftrightarrow> pn_val q \<in> ev_set es" if "pn_in s q" for q
  proof -
    have "pn_val q \<in> ev_set es \<longleftrightarrow> pn_val q \<in> pn_val ` set qs"
      by (metis fin qs(3) set_map set_sorted_list_of_set)
    then show ?thesis using qs(2) that pn_eq_iff [of s q]
      by (metis (no_types, lifting) image_iff list_all_iff)
  qed
  then have "q \<in> set qs \<longleftrightarrow> q < r \<and> sw_check sw q = Some (Inr ()) \<and> sw_check sw' q = Some (Inl TooOld)"
    if "pn_in s q" for q
    using that A es sw_check_spec [OF rel that] sw_check_spec [OF es(1) that]
    by (auto simp: slid_past_def pn_less_iff [of s])
  moreover have "sorted_wrt (<) (map pn_val qs)"
    unfolding qs(3) by (rule strict_sorted_list_of_set)
  ultimately show ?thesis using qs(1,2) by blast
qed

theorem insert_with_evicted_exact_witness:
  "\<exists>qs. iterate evicted_next 129 \<lparr>ev_window = - 1, ev_right_edge = pn_from_varint 1 Initial\<rparr> = Some qs \<and>
     pn_from_varint 0 Initial \<in> set qs"
proof -
  let ?n = "\<lambda>v. pn_from_varint v Initial"
  have v: "varint_valid 0" "varint_valid 1" "varint_valid 200"
    by (simp_all add: varint_valid_def MAX_VARINT_VALUE_def)
  have run: "sw_run sliding_window_default [?n 1] = Some ([Inr ()], \<lparr>sw_window = 0, sw_right_edge = Some (?n 1)\<rparr>)"
    by (simp add: sw_insert_def insert_with_evicted_def sw_window_position_def sliding_window_default_def)
  have ins: "insert_with_evicted \<lparr>sw_window = 0, sw_right_edge = Some (?n 1)\<rparr> (?n 200) =
      Some (Inr \<lparr>ev_window = - 1, ev_right_edge = ?n 1\<rparr>, \<lparr>sw_window = 0, sw_right_edge = Some (?n 200)\<rparr>)"
    using v by (simp add: insert_with_evicted_def sw_window_position_def pn_checked_distance_def
        checked_sub_def slide_def WINDOW_WIDTH_def word_le_nat_alt)
  have "?n 0 < ?n 1" using v by (simp add: pn_less_iff [of Initial])
  moreover have "sw_check \<lparr>sw_window = 0, sw_right_edge = Some (?n 1)\<rparr> (?n 0) = Some (Inr ())"
    "sw_check \<lparr>sw_window = 0, sw_right_edge = Some (?n 200)\<rparr> (?n 0) = Some (Inl TooOld)"
    using v by (simp_all add: sw_check_def sw_window_position_def pn_checked_distance_def
        checked_sub_def WINDOW_WIDTH_def word_le_nat_alt)
  ultimately show ?thesis
    using insert_with_evicted_exact [OF _ pn_from_varint_in [OF v(3)] run _ ins, of "?n 1"] v by auto
qed

end
