(* ===== verification/AckFrame.thy ===== *)
theory AckFrame
  imports VarInt
begin

unbundle bit_operations_syntax

text \<open>
  The ECN field of the IP header (\<^verbatim>\<open>quic/s2n-quic-core/src/inet/ecn.rs\<close>) and the ACK frame
  (\<^verbatim>\<open>quic/s2n-quic-core/src/frame/ack.rs\<close>): the ranges, from the largest down, as alternating range
  lengths and gaps, and the ECN counts. A decoded frame keeps the bytes of the ranges and iterates
  over them on demand.
\<close>

section \<open>ECN\<close>

datatype explicit_congestion_notification = NotEct | Ect1 | Ect0 | Ce

text \<open>After masking, the last arm (\<open>unreachable!\<close>) cannot be taken.\<close>

definition ecn_new :: "u8 \<Rightarrow> explicit_congestion_notification option" where
  "ecn_new ecn_field =
     (let e = ecn_field AND 0b11 in
      if e = 0b00 then Some NotEct else if e = 0b01 then Some Ect1 else if e = 0b10 then Some Ect0
      else if e = 0b11 then Some Ce else None)"

definition congestion_experienced :: "explicit_congestion_notification \<Rightarrow> bool" where
  "congestion_experienced self \<longleftrightarrow> self = Ce"

definition using_ecn :: "explicit_congestion_notification \<Rightarrow> bool" where
  "using_ecn self \<longleftrightarrow> self \<noteq> NotEct"

record ecn_counts =
  ect_0_count :: varint
  ect_1_count :: varint
  ce_count :: varint

definition ecn_counts_default :: ecn_counts where
  "ecn_counts_default = \<lparr>ect_0_count = 0, ect_1_count = 0, ce_count = 0\<rparr>"

fun ecn_increment :: "explicit_congestion_notification \<Rightarrow> ecn_counts \<Rightarrow> ecn_counts" where
  "ecn_increment Ect0 self = self\<lparr>ect_0_count := varint_saturating_add (ect_0_count self) 1\<rparr>"
| "ecn_increment Ect1 self = self\<lparr>ect_1_count := varint_saturating_add (ect_1_count self) 1\<rparr>"
| "ecn_increment Ce self = self\<lparr>ce_count := varint_saturating_add (ce_count self) 1\<rparr>"
| "ecn_increment NotEct self = self"

definition ecn_as_option :: "ecn_counts \<Rightarrow> ecn_counts option" where
  "ecn_as_option self = (if self = ecn_counts_default then None else Some self)"

definition ecn_counts_max :: "ecn_counts \<Rightarrow> ecn_counts \<Rightarrow> ecn_counts" where
  "ecn_counts_max self other =
     \<lparr>ect_0_count = max (ect_0_count self) (ect_0_count other),
      ect_1_count = max (ect_1_count self) (ect_1_count other),
      ce_count = max (ce_count self) (ce_count other)\<rparr>"

definition ecn_sub_assign :: "ecn_counts \<Rightarrow> ecn_counts \<Rightarrow> ecn_counts" where
  "ecn_sub_assign self rhs =
     \<lparr>ect_0_count = varint_saturating_sub (ect_0_count self) (ect_0_count rhs),
      ect_1_count = varint_saturating_sub (ect_1_count self) (ect_1_count rhs),
      ce_count = varint_saturating_sub (ce_count self) (ce_count rhs)\<rparr>"

definition ecn_checked_sub :: "ecn_counts \<Rightarrow> ecn_counts \<Rightarrow> ecn_counts option" where
  "ecn_checked_sub self rhs =
     Option.bind (varint_checked_sub (ect_0_count self) (ect_0_count rhs)) (\<lambda>e0.
     Option.bind (varint_checked_sub (ect_1_count self) (ect_1_count rhs)) (\<lambda>e1.
     Option.bind (varint_checked_sub (ce_count self) (ce_count rhs)) (\<lambda>ce.
     Some \<lparr>ect_0_count = e0, ect_1_count = e1, ce_count = ce\<rparr>)))"

definition ecn_counts_decode :: "network_endian \<Rightarrow> u8 list \<Rightarrow> ecn_counts decoded" where
  "ecn_counts_decode ne buffer =
     rbind (varint_decode ne buffer) (\<lambda>(e0, buffer).
     rbind (varint_decode ne buffer) (\<lambda>(e1, buffer).
     rbind (varint_decode ne buffer) (\<lambda>(ce, buffer).
     Inr (\<lparr>ect_0_count = e0, ect_1_count = e1, ce_count = ce\<rparr>, buffer))))"

definition ecn_counts_encode :: "ecn_counts \<Rightarrow> encoder \<Rightarrow> encoder option" where
  "ecn_counts_encode self =
     enc_seq [varint_encode (ect_0_count self), varint_encode (ect_1_count self), varint_encode (ce_count self)]"

section \<open>The ACK frame\<close>

text \<open>
  \<open>'r\<close> is what implements the trait \<open>AckRanges\<close>; an implementation is the list of the inclusive
  ranges that its iterator yields.
\<close>

record 'r ack_frame =
  ack_delay :: varint
  ack_ranges :: 'r
  ack_ecn_counts :: "ecn_counts option"

definition ACK_TAG :: u8 where "ACK_TAG = 0x02"
definition ACK_W_ECN_TAG :: u8 where "ACK_W_ECN_TAG = 0x03"

definition ack_tag :: "'r ack_frame \<Rightarrow> u8" where
  "ack_tag self = (if ack_ecn_counts self \<noteq> None then ACK_W_ECN_TAG else ACK_TAG)"

type_synonym ack_range = "varint \<times> varint"

text \<open>The default \<open>largest_acknowledged\<close> of the trait; no range at all is a panic.\<close>

definition largest_acknowledged :: "ack_range list \<Rightarrow> varint option" where
  "largest_acknowledged ranges = (case ranges of [] \<Rightarrow> None | (start, end') # _ \<Rightarrow> Some end')"

definition encode_ack_range :: "ack_range \<Rightarrow> varint \<Rightarrow> encoder \<Rightarrow> (varint \<times> encoder) option" where
  "encode_ack_range rng smallest buffer =
     (let (start, end') = rng;
          gap = varint_sub (varint_sub smallest end') 2;
          ack_range = varint_sub end' start in
      map_option (\<lambda>buffer. (start, buffer)) (enc_seq [varint_encode gap, varint_encode ack_range] buffer))"

fun encode_ack_ranges :: "varint \<Rightarrow> ack_range list \<Rightarrow> encoder \<Rightarrow> encoder option" where
  "encode_ack_ranges smallest [] buffer = Some buffer"
| "encode_ack_ranges smallest (rng # iter) buffer =
     Option.bind (encode_ack_range rng smallest buffer) (\<lambda>(smallest, buffer).
     encode_ack_ranges smallest iter buffer)"

definition ack_encode :: "('r \<Rightarrow> ack_range list) \<Rightarrow> 'r ack_frame \<Rightarrow> encoder \<Rightarrow> encoder option" where
  "ack_encode ranges self buffer =
     Option.bind (encode_u8 (ack_tag self) buffer) (\<lambda>buffer.
     case ranges (ack_ranges self) of
       [] \<Rightarrow> None
     | (smallest, largest) # iter \<Rightarrow>
         let first_ack_range = varint_sub largest smallest in
         Option.bind (result_ok (varint_from_usize (length iter))) (\<lambda>ack_range_count.
         enc_seq [varint_encode largest, varint_encode (ack_delay self), varint_encode ack_range_count,
                  varint_encode first_ack_range, encode_ack_ranges smallest iter,
                  encode_option ecn_counts_encode (ack_ecn_counts self)] buffer))"

text \<open>\<open>AckRangesDecoder\<close> and \<open>AckRangesIter\<close> have the same three fields.\<close>

record ack_ranges_decoder =
  ard_largest_acknowledged :: varint
  ard_ack_range_count :: varint
  ard_range_buffer :: "u8 list"

text \<open>
  \<open>AckRangesIter::next\<close>. Only the count has been stored when a later step gives up with \<open>?\<close>.
\<close>

definition ack_ranges_next ::
    "network_endian \<Rightarrow> ack_ranges_decoder \<Rightarrow> ack_range option \<times> ack_ranges_decoder" where
  "ack_ranges_next ne self =
     (case varint_checked_sub (ard_ack_range_count self) 1 of
        None \<Rightarrow> (None, self)
      | Some ack_range_count \<Rightarrow>
          let self = self\<lparr>ard_ack_range_count := ack_range_count\<rparr>;
              largest = ard_largest_acknowledged self in
          case varint_decode ne (ard_range_buffer self) of
            Inl _ \<Rightarrow> (None, self)
          | Inr (ack_range, buffer) \<Rightarrow>
              (case varint_checked_sub largest ack_range of
                 None \<Rightarrow> (None, self)
               | Some start \<Rightarrow>
                   if ard_ack_range_count self \<noteq> 0 then
                     (case varint_decode ne buffer of
                        Inl _ \<Rightarrow> (None, self)
                      | Inr (gap, buffer) \<Rightarrow>
                          (case Option.bind (varint_checked_sub start gap) (\<lambda>v. varint_checked_sub v 2) of
                             None \<Rightarrow> (None, self)
                           | Some next_largest \<Rightarrow>
                               (Some (start, largest),
                                self\<lparr>ard_largest_acknowledged := next_largest, ard_range_buffer := buffer\<rparr>)))
                   else (Some (start, largest), self\<lparr>ard_range_buffer := buffer\<rparr>)))"

text \<open>\<open>for _ in 0..*ack_range_count { iter.next().ok_or(ACK_RANGE_DECODING_ERROR)?; }\<close>\<close>

fun ack_ranges_validate ::
    "network_endian \<Rightarrow> nat \<Rightarrow> ack_ranges_decoder \<Rightarrow> decoder_error + ack_ranges_decoder" where
  "ack_ranges_validate ne 0 iter = Inr iter"
| "ack_ranges_validate ne (Suc n) iter =
     (case ack_ranges_next ne iter of
        (None, _) \<Rightarrow> Inl (InvariantViolation ''invalid ACK ranges'')
      | (Some _, iter) \<Rightarrow> ack_ranges_validate ne n iter)"

definition ack_ranges_decode :: "network_endian \<Rightarrow> varint \<Rightarrow> u8 list \<Rightarrow> ack_ranges_decoder decoded" where
  "ack_ranges_decode ne largest buffer =
     rbind (varint_decode ne buffer) (\<lambda>(ack_range_count, buffer).
     rbind (ok_or (InvariantViolation ''invalid ACK ranges'') (varint_checked_add ack_range_count 1))
       (\<lambda>ack_range_count.
     rbind (ack_ranges_validate ne (unat ack_range_count)
              \<lparr>ard_largest_acknowledged = largest, ard_ack_range_count = ack_range_count,
               ard_range_buffer = buffer\<rparr>) (\<lambda>iter.
     rbind (decode_slice buffer (length buffer - length (ard_range_buffer iter)))
       (\<lambda>(range_buffer, remaining).
     Inr (\<lparr>ard_largest_acknowledged = largest, ard_ack_range_count = ack_range_count,
            ard_range_buffer = range_buffer\<rparr>, remaining)))))"

definition ack_decode :: "network_endian \<Rightarrow> u8 \<Rightarrow> u8 list \<Rightarrow> ack_ranges_decoder ack_frame decoded" where
  "ack_decode ne tag buffer =
     rbind (varint_decode ne buffer) (\<lambda>(largest, buffer).
     rbind (varint_decode ne buffer) (\<lambda>(delay, buffer).
     rbind (ack_ranges_decode ne largest buffer) (\<lambda>(ranges, buffer).
     rbind (if tag = ACK_W_ECN_TAG
            then rbind (ecn_counts_decode ne buffer) (\<lambda>(counts, buffer). Inr (Some counts, buffer))
            else Inr (None, buffer)) (\<lambda>(counts, buffer).
     Inr (\<lparr>ack_delay = delay, ack_ranges = ranges, ack_ecn_counts = counts\<rparr>, buffer)))))"

text \<open>The ranges of a decoded frame, as a caller that exhausts the iterator sees them.\<close>

definition decoder_ack_ranges :: "network_endian \<Rightarrow> ack_ranges_decoder \<Rightarrow> ack_range list option" where
  "decoder_ack_ranges ne self =
     iterate (ack_ranges_next ne) (unat (ard_ack_range_count self) + 1) self"

section \<open>The wire image of the ranges\<close>

text \<open>
  Ranges as an ACK frame can express them: non-empty ranges of packet numbers in descending order,
  with at least one packet number between two of them.
\<close>

definition ack_range_ok :: "ack_range \<Rightarrow> bool" where
  "ack_range_ok r \<longleftrightarrow> varint_valid (snd r) \<and> unat (fst r) \<le> unat (snd r)"

definition descending :: "ack_range \<Rightarrow> ack_range \<Rightarrow> bool" where
  "descending r r' \<longleftrightarrow> unat (snd r') + 1 < unat (fst r)"

definition ack_ranges_ok :: "ack_range list \<Rightarrow> bool" where
  "ack_ranges_ok rs \<longleftrightarrow> list_all ack_range_ok rs \<and> sorted_wrt descending rs"

definition ecn_counts_valid :: "ecn_counts \<Rightarrow> bool" where
  "ecn_counts_valid c \<longleftrightarrow> varint_valid (ect_0_count c) \<and> varint_valid (ect_1_count c) \<and> varint_valid (ce_count c)"

definition ecn_counts_wire :: "ecn_counts \<Rightarrow> u8 list" where
  "ecn_counts_wire c = varint_wire (ect_0_count c) @ varint_wire (ect_1_count c) @ varint_wire (ce_count c)"

fun ack_ranges_wire :: "varint \<Rightarrow> ack_range list \<Rightarrow> u8 list" where
  "ack_ranges_wire smallest [] = []"
| "ack_ranges_wire smallest ((start, end') # rs) =
     varint_wire (smallest - end' - 2) @ varint_wire (end' - start) @ ack_ranges_wire start rs"

definition ack_wire_body :: "varint \<Rightarrow> ack_range list \<Rightarrow> ecn_counts option \<Rightarrow> u8 list" where
  "ack_wire_body delay rs counts =
     (case rs of [] \<Rightarrow> [] | (start, end') # rs \<Rightarrow>
        varint_wire end' @ varint_wire delay @ varint_wire (word_of_nat (length rs)) @
        varint_wire (end' - start) @ ack_ranges_wire start rs @
        (case counts of None \<Rightarrow> [] | Some c \<Rightarrow> ecn_counts_wire c))"

lemma ecn_counts_codec: "network_endian_ok ne \<Longrightarrow>
    codec ecn_counts_valid ecn_counts_encode ecn_counts_wire (ecn_counts_decode ne)"
proof
  fix v
  show "emits (ecn_counts_encode v) (ecn_counts_wire v)"
    using enc_seq_Cons_emits [OF varint_encode_emits enc_seq_Cons_emits [OF varint_encode_emits
        enc_seq_Cons_emits [OF varint_encode_emits enc_seq_Nil_emits]]]
    by (simp add: ecn_counts_encode_def ecn_counts_wire_def)
next
  fix v rest
  assume "network_endian_ok ne" "ecn_counts_valid v"
  then show "ecn_counts_decode ne (ecn_counts_wire v @ rest) = Inr (v, rest)"
    by (simp add: ecn_counts_decode_def ecn_counts_wire_def ecn_counts_valid_def varint_decode_wire)
qed

lemma enc_seq_fun: "enc_seq [] = Some" "enc_seq (f # fs) = enc_then f (enc_seq fs)"
  by (simp_all add: fun_eq_iff)

lemma encode_ack_ranges_emits [emits_intros]:
  "emits (encode_ack_ranges smallest rs) (ack_ranges_wire smallest rs)"
proof (induction rs arbitrary: smallest)
  case Nil
  have "encode_ack_ranges smallest [] = enc_seq []" by (simp add: fun_eq_iff)
  then show ?case using enc_seq_Nil_emits by (simp only: ack_ranges_wire.simps)
next
  case (Cons r rs)
  obtain s e where r: "r = (s, e)" by (cases r)
  have "encode_ack_ranges smallest (r # rs) =
      enc_seq [varint_encode (smallest - e - 2), varint_encode (e - s), encode_ack_ranges s rs]"
  proof
    fix b
    show "encode_ack_ranges smallest (r # rs) b =
      enc_seq [varint_encode (smallest - e - 2), varint_encode (e - s), encode_ack_ranges s rs] b"
      by (cases "varint_encode (smallest - e - 2) b"; cases "Option.bind (varint_encode (smallest - e - 2) b) (varint_encode (e - s))")
         (auto simp: r encode_ack_range_def enc_seq_fun enc_then_def varint_sub_def Let_def simp del: enc_seq.simps)
  qed
  then show ?case
    using enc_seq_Cons_emits [OF varint_encode_emits enc_seq_Cons_emits [OF varint_encode_emits
        enc_seq_Cons_emits [OF Cons.IH [of s] enc_seq_Nil_emits]], of "smallest - e - 2" "e - s"]
    by (simp only: r ack_ranges_wire.simps append_Nil2)
qed

lemma ack_ranges_next_wire:
  assumes ne: "network_endian_ok ne" and ok: "ack_ranges_ok ((s, e) # rs)" and n: "length rs + 1 < 2 ^ 62"
  shows "ack_ranges_next ne \<lparr>ard_largest_acknowledged = e, ard_ack_range_count = word_of_nat (length rs + 1),
      ard_range_buffer = varint_wire (e - s) @ ack_ranges_wire s rs @ rest\<rparr> =
    (Some (s, e), case rs of
       [] \<Rightarrow> \<lparr>ard_largest_acknowledged = e, ard_ack_range_count = 0, ard_range_buffer = rest\<rparr>
     | (s', e') # rs' \<Rightarrow> \<lparr>ard_largest_acknowledged = e', ard_ack_range_count = word_of_nat (length rs),
         ard_range_buffer = varint_wire (e' - s') @ ack_ranges_wire s' rs' @ rest\<rparr>)"
proof -
  have v: "varint_valid (e - s)" "s \<le> e" "e - (e - s) = s"
    using ok by (auto simp: ack_ranges_ok_def ack_range_ok_def varint_max_less word_le_nat_alt unat_sub_no_wrap)
  have c: "varint_checked_sub (word_of_nat (length rs + 1)) 1 = Some (word_of_nat (length rs) :: varint)"
    using n unat_of_nat_no_wrap [of "length rs + 1", where 'a = 64]
    by (simp add: varint_checked_sub_def checked_sub_def word_le_nat_alt)
  have sub: "varint_checked_sub e (e - s) = Some s"
    using v by (simp add: varint_checked_sub_def checked_sub_def word_le_nat_alt unat_sub_no_wrap)
  show ?thesis
  proof (cases rs)
    case Nil
    then show ?thesis using c sub v(1) ne by (simp add: ack_ranges_next_def varint_decode_wire Let_def)
  next
    case (Cons r rs')
    obtain s' e' where r: "r = (s', e')" by (cases r)
    have d: "unat e' + 1 < unat s" "unat s < 2 ^ 62"
      using ok v by (auto simp: Cons r ack_ranges_ok_def descending_def ack_range_ok_def varint_max_less word_le_nat_alt)
    then have le: "e' \<le> s" "2 \<le> s - e'" by (simp_all add: word_le_nat_alt unat_sub_no_wrap)
    have gap: "varint_valid (s - e' - 2)"
      using d le by (simp add: varint_max_less unat_sub_no_wrap word_le_nat_alt)
    have nz: "(word_of_nat (length rs) :: varint) \<noteq> 0"
    proof
      assume z: "(word_of_nat (length rs) :: varint) = 0"
      have "unat (word_of_nat (length rs) :: varint) = length rs"
        using n by (intro unat_of_nat_no_wrap) simp
      with z Cons show False by auto
    qed
    have g2: "Option.bind (varint_checked_sub s (s - e' - 2)) (\<lambda>v. varint_checked_sub v 2) = Some e'"
      using d le unat_add_no_wrap [of e' 2]
      by (simp add: varint_checked_sub_def checked_sub_def word_le_nat_alt unat_sub_no_wrap)
    show ?thesis
      using c sub v(1) ne gap nz g2 by (simp add: Cons r ack_ranges_next_def varint_decode_wire Let_def)
  qed
qed

lemma ack_ranges_walk_wire:
  assumes "network_endian_ok ne" "ack_ranges_ok ((s, e) # rs)" "length rs + 1 < 2 ^ 62"
  shows "(\<exists>largest. ack_ranges_validate ne (length rs + 1) \<lparr>ard_largest_acknowledged = e,
      ard_ack_range_count = word_of_nat (length rs + 1),
      ard_range_buffer = varint_wire (e - s) @ ack_ranges_wire s rs @ rest\<rparr> =
    Inr \<lparr>ard_largest_acknowledged = largest, ard_ack_range_count = 0, ard_range_buffer = rest\<rparr>) \<and>
    iterate (ack_ranges_next ne) (length rs + 2) \<lparr>ard_largest_acknowledged = e,
      ard_ack_range_count = word_of_nat (length rs + 1),
      ard_range_buffer = varint_wire (e - s) @ ack_ranges_wire s rs @ rest\<rparr> = Some ((s, e) # rs)"
  using assms
proof (induction rs arbitrary: s e)
  case Nil
  have stop: "ack_ranges_next ne \<lparr>ard_largest_acknowledged = e, ard_ack_range_count = 0, ard_range_buffer = rest\<rparr> =
      (None, \<lparr>ard_largest_acknowledged = e, ard_ack_range_count = 0, ard_range_buffer = rest\<rparr>)"
    by (simp add: ack_ranges_next_def varint_checked_sub_def checked_sub_def)
  show ?case
    using ack_ranges_next_wire [OF Nil.prems, of rest] stop by (simp add: numeral_2_eq_2)
next
  case (Cons r rs)
  obtain s' e' where r: "r = (s', e')" by (cases r)
  have ok: "ack_ranges_ok ((s', e') # rs)" "length rs + 1 < 2 ^ 62"
    using Cons.prems(2,3) by (auto simp: r ack_ranges_ok_def)
  note step = ack_ranges_next_wire [OF Cons.prems, of rest, unfolded r list.case prod.case]
  have len: "length (r # rs) + 1 = Suc (length rs + 1)" "length (r # rs) + 2 = Suc (length rs + 2)" by auto
  from Cons.IH [OF Cons.prems(1) ok] step show ?case
    unfolding len(2) unfolding len iterate.simps(2) ack_ranges_validate.simps(2)
    unfolding len [symmetric] r by (simp del: of_nat_Suc of_nat_add iterate.simps(2) ack_ranges_wire.simps)
qed

section \<open>The frame on the wire\<close>

definition ack_frame_ok :: "('r \<Rightarrow> ack_range list) \<Rightarrow> 'r ack_frame \<Rightarrow> bool" where
  "ack_frame_ok ranges f \<longleftrightarrow>
     ranges (ack_ranges f) \<noteq> [] \<and> ack_ranges_ok (ranges (ack_ranges f)) \<and>
     length (ranges (ack_ranges f)) < 2 ^ 62 \<and> varint_valid (ack_delay f) \<and>
     (case ack_ecn_counts f of None \<Rightarrow> True | Some c \<Rightarrow> ecn_counts_valid c)"

definition ack_wire :: "('r \<Rightarrow> ack_range list) \<Rightarrow> 'r ack_frame \<Rightarrow> u8 list" where
  "ack_wire ranges f = ack_wire_body (ack_delay f) (ranges (ack_ranges f)) (ack_ecn_counts f)"

lemma ack_encode_emits:
  assumes "network_endian_ok ne" "ack_frame_ok ranges f"
  shows "emits (ack_encode ranges f) (ack_tag f # ack_wire ranges f)"
proof -
  obtain s e rs where rs: "ranges (ack_ranges f) = (s, e) # rs"
    using assms(2) by (cases "ranges (ack_ranges f)") (auto simp: ack_frame_ok_def)
  have len: "varint_from_usize (length rs) = Inr (word_of_nat (length rs))"
    using assms(2) rs by (intro varint_from_usize_Inr) (simp add: ack_frame_ok_def)
  have eq: "ack_encode ranges f = enc_seq [encode_u8 (ack_tag f), varint_encode e, varint_encode (ack_delay f),
      varint_encode (word_of_nat (length rs)), varint_encode (e - s), encode_ack_ranges s rs,
      encode_option ecn_counts_encode (ack_ecn_counts f)]"
    by (rule ext) (simp add: ack_encode_def rs len varint_sub_def enc_seq_fun enc_then_def [abs_def] del: enc_seq.simps)
  have "emits (encode_option ecn_counts_encode (ack_ecn_counts f))
      (case ack_ecn_counts f of None \<Rightarrow> [] | Some c \<Rightarrow> ecn_counts_wire c)"
    using assms codec.enc_emits [OF ecn_counts_codec [OF assms(1)]]
    by (intro encode_option_emits) (auto simp: ack_frame_ok_def)
  from enc_seq_Cons_emits [OF encode_u8_emits enc_seq_Cons_emits [OF varint_encode_emits
        enc_seq_Cons_emits [OF varint_encode_emits enc_seq_Cons_emits [OF varint_encode_emits
        enc_seq_Cons_emits [OF varint_encode_emits enc_seq_Cons_emits [OF encode_ack_ranges_emits
        enc_seq_Cons_emits [OF this enc_seq_Nil_emits]]]]]]]
  show ?thesis unfolding eq by (simp only: ack_wire_def ack_wire_body_def rs list.case prod.case append_Nil2 append_Cons append_Nil)
qed

lemma ack_ranges_decode_wire:
  assumes ne: "network_endian_ok ne" and ok: "ack_ranges_ok ((s, e) # rs)" and n: "length rs + 1 < 2 ^ 62"
  shows "\<exists>d. ack_ranges_decode ne e (varint_wire (word_of_nat (length rs)) @ varint_wire (e - s) @
        ack_ranges_wire s rs @ rest) = Inr (d, rest) \<and>
      decoder_ack_ranges ne d = Some ((s, e) # rs) \<and> ard_largest_acknowledged d = e"
proof -
  define body where "body = varint_wire (e - s) @ ack_ranges_wire s rs"
  define d where "d = (\<lambda>b. \<lparr>ard_largest_acknowledged = e,
      ard_ack_range_count = word_of_nat (length rs + 1) :: varint, ard_range_buffer = b :: u8 list\<rparr>)"
  have u: "unat (word_of_nat (length rs) :: varint) = length rs"
    "unat (word_of_nat (length rs + 1) :: varint) = length rs + 1"
    using n by (simp_all add: unat_of_nat_no_wrap del: of_nat_add of_nat_Suc)
  have c: "varint_valid (word_of_nat (length rs))"
    "varint_checked_add (word_of_nat (length rs)) 1 = Some (word_of_nat (length rs + 1))"
    using n u by (simp_all add: varint_max_less varint_checked_add_Some del: of_nat_add of_nat_Suc)
  obtain l where val: "ack_ranges_validate ne (length rs + 1) (d (body @ rest)) =
      Inr \<lparr>ard_largest_acknowledged = l, ard_ack_range_count = 0, ard_range_buffer = rest\<rparr>"
    using ack_ranges_walk_wire [OF ne ok n, of rest] by (auto simp only: d_def body_def append_assoc)
  have "ack_ranges_decode ne e (varint_wire (word_of_nat (length rs)) @ body @ rest) = Inr (d body, rest)"
    unfolding ack_ranges_decode_def varint_decode_wire [OF ne c(1)] rbind_simps prod.case c(2) ok_or_simps u(2)
      val [unfolded d_def] d_def
    by (simp add: decode_slice_append)
  moreover have "decoder_ack_ranges ne (d body) = Some ((s, e) # rs)"
    using ack_ranges_walk_wire [OF ne ok n, of "[]"] u(2)
    by (simp add: decoder_ack_ranges_def d_def body_def del: iterate.simps of_nat_Suc of_nat_add)
  ultimately show ?thesis by (auto simp: body_def d_def)
qed

lemma ack_decode_wire:
  assumes ne: "network_endian_ok ne" and ok: "ack_frame_ok ranges f"
  shows "\<exists>f'. ack_decode ne (ack_tag f) (ack_wire ranges f @ rest) = Inr (f', rest) \<and>
    ack_delay f' = ack_delay f \<and> ack_ecn_counts f' = ack_ecn_counts f \<and>
    decoder_ack_ranges ne (ack_ranges f') = Some (ranges (ack_ranges f)) \<and>
    largest_acknowledged (ranges (ack_ranges f)) = Some (ard_largest_acknowledged (ack_ranges f'))"
proof -
  obtain s e rs where rs: "ranges (ack_ranges f) = (s, e) # rs"
    using ok by (cases "ranges (ack_ranges f)") (auto simp: ack_frame_ok_def)
  have r: "ack_ranges_ok ((s, e) # rs)" "length rs + 1 < 2 ^ 62" "varint_valid e" "varint_valid (ack_delay f)"
    using ok rs by (auto simp: ack_frame_ok_def ack_ranges_ok_def ack_range_ok_def)
  let ?ecn = "case ack_ecn_counts f of None \<Rightarrow> [] | Some c \<Rightarrow> ecn_counts_wire c"
  from ack_ranges_decode_wire [OF ne r(1,2), of "?ecn @ rest"] obtain d where
    "ack_ranges_decode ne e (varint_wire (word_of_nat (length rs)) @ varint_wire (e - s) @
       ack_ranges_wire s rs @ ?ecn @ rest) = Inr (d, ?ecn @ rest)"
    "decoder_ack_ranges ne d = Some ((s, e) # rs)" "ard_largest_acknowledged d = e" by blast
  moreover have "ecn_counts_decode ne (ecn_counts_wire c @ rest) = Inr (c, rest)" if "ack_ecn_counts f = Some c" for c
    using that ok codec.dec_wire [OF ecn_counts_codec [OF ne]] by (simp add: ack_frame_ok_def)
  ultimately show ?thesis
    using r by (cases "ack_ecn_counts f")
      (auto simp: ack_decode_def ack_wire_def ack_wire_body_def rs varint_decode_wire ne ack_tag_def
        ACK_TAG_def ACK_W_ECN_TAG_def largest_acknowledged_def)
qed

section \<open>Frames from the network\<close>

text \<open>A varint is decoded from its own bytes alone, so it is read alike before any other bytes.\<close>

lemma varint_decode_stable:
  assumes "varint_decode ne buffer = Inr (v, rest)"
  obtains read where "buffer = read @ rest" "read \<noteq> []" "\<And>rest'. varint_decode ne (read @ rest') = Inr (v, rest')"
proof -
  obtain read where read: "buffer = read @ rest"
    using assms consumesD [OF varint_decode_consumes] by blast
  have "read \<noteq> []" using varint_decode_shorter [OF assms] read by auto
  then obtain b bs where b: "read = b # bs" by (cases read) auto
  have "varint_decode ne (read @ rest') = Inr (v, rest')" for rest'
  proof -
    define tag where "tag = drop_bit 6 b AND 3"
    show ?thesis
      using assms unfolding read b varint_decode_def
      by (cases "tag = 0"; cases "tag = 1"; cases "tag = 2")
         (auto simp: peek_byte_def Let_def tag_def [symmetric] result_simps skip_def decode_u16_def decode_u32_def
           decode_u64_def decode_slice_Inr)
  qed
  with read \<open>read \<noteq> []\<close> that show thesis by blast
qed

lemma ack_ranges_next_Some:
  assumes "ack_ranges_next ne it = (Some (s, e), it')"
  obtains read where "ard_range_buffer it = read @ ard_range_buffer it'"
    "\<And>rest. ack_ranges_next ne (it\<lparr>ard_range_buffer := read @ rest\<rparr>) = (Some (s, e), it'\<lparr>ard_range_buffer := rest\<rparr>)"
    "e = ard_largest_acknowledged it" "unat s \<le> unat e" "unat (ard_ack_range_count it) = Suc (unat (ard_ack_range_count it'))"
    "ard_ack_range_count it' \<noteq> 0 \<Longrightarrow> unat (ard_largest_acknowledged it') + 1 < unat s"
proof -
  obtain c where c: "varint_checked_sub (ard_ack_range_count it) 1 = Some c"
    using assms by (cases "varint_checked_sub (ard_ack_range_count it) 1") (simp_all add: ack_ranges_next_def)
  obtain ar buf where d: "varint_decode ne (ard_range_buffer it) = Inr (ar, buf)"
    using assms c by (cases "varint_decode ne (ard_range_buffer it)") (auto simp add: ack_ranges_next_def)
  obtain s' where s': "varint_checked_sub (ard_largest_acknowledged it) ar = Some s'"
    using assms c d by (cases "varint_checked_sub (ard_largest_acknowledged it) ar") (simp_all add: ack_ranges_next_def)
  obtain r1 where r1: "ard_range_buffer it = r1 @ buf" "\<And>rest. varint_decode ne (r1 @ rest) = Inr (ar, rest)"
    by (rule varint_decode_stable [OF d]) blast
  have cnt: "unat (ard_ack_range_count it) = Suc (unat c)" "unat s' \<le> unat (ard_largest_acknowledged it)"
    using c s' by (auto simp: varint_checked_sub_def checked_sub_Some)
  show thesis
  proof (cases "c = 0")
    case True
    with assms c d s' have "it' = it\<lparr>ard_ack_range_count := c, ard_range_buffer := buf\<rparr>"
      "s = s'" "e = ard_largest_acknowledged it"
      by (simp_all add: ack_ranges_next_def)
    with True c r1 s' cnt show thesis by (intro that [of r1]) (simp_all add: ack_ranges_next_def)
  next
    case False
    obtain gap buf' where g1: "varint_decode ne buf = Inr (gap, buf')"
      using assms c d s' False by (cases "varint_decode ne buf") (auto simp add: ack_ranges_next_def)
    obtain l where g2: "Option.bind (varint_checked_sub s' gap) (\<lambda>v. varint_checked_sub v 2) = Some l"
      using assms c d s' False g1
      by (cases "Option.bind (varint_checked_sub s' gap) (\<lambda>v. varint_checked_sub v 2)") (simp_all add: ack_ranges_next_def)
    have g: "varint_decode ne buf = Inr (gap, buf')"
      "Option.bind (varint_checked_sub s gap) (\<lambda>v. varint_checked_sub v 2) = Some l"
      "it' = it\<lparr>ard_ack_range_count := c, ard_largest_acknowledged := l, ard_range_buffer := buf'\<rparr>"
      "s = s'" "e = ard_largest_acknowledged it"
      using assms c d s' False g1 g2 by (simp_all add: ack_ranges_next_def)
    obtain r2 where r2: "buf = r2 @ buf'" "\<And>rest. varint_decode ne (r2 @ rest) = Inr (gap, rest)"
      by (rule varint_decode_stable [OF g(1)]) blast
    have "unat l + 1 < unat s"
      using g(2) by (auto simp: bind_eq_Some_conv varint_checked_sub_def checked_sub_Some)
    with False c r1 r2 s' g cnt show thesis
      by (intro that [of "r1 @ r2"]) (simp_all add: ack_ranges_next_def)
  qed
qed

lemma ack_ranges_validate_ok:
  assumes "ack_ranges_validate ne n it = Inr it'" "unat (ard_ack_range_count it) = n"
    and "varint_valid (ard_largest_acknowledged it)"
  shows "\<exists>rs read. ard_range_buffer it = read @ ard_range_buffer it' \<and> length rs = n \<and> ack_ranges_ok rs \<and>
    iterate (ack_ranges_next ne) (Suc n) (it\<lparr>ard_range_buffer := read\<rparr>) = Some rs \<and>
    (rs \<noteq> [] \<longrightarrow> snd (hd rs) = ard_largest_acknowledged it)"
  using assms
proof (induction n arbitrary: it)
  case 0
  then have "ard_ack_range_count it = 0" by (simp add: unat_eq_0)
  with 0 show ?case
    by (auto simp: ack_ranges_next_def varint_checked_sub_def checked_sub_def ack_ranges_ok_def intro!: exI [of _ "[]"])
next
  case (Suc n)
  then obtain s e it1 where n1: "ack_ranges_next ne it = (Some (s, e), it1)"
    and v: "ack_ranges_validate ne n it1 = Inr it'"
    by (auto split: prod.splits option.splits)
  from n1 obtain r1 where r1: "ard_range_buffer it = r1 @ ard_range_buffer it1"
    "\<And>rest. ack_ranges_next ne (it\<lparr>ard_range_buffer := r1 @ rest\<rparr>) = (Some (s, e), it1\<lparr>ard_range_buffer := rest\<rparr>)"
    "e = ard_largest_acknowledged it" "unat s \<le> unat e" "unat (ard_ack_range_count it) = Suc (unat (ard_ack_range_count it1))"
    "ard_ack_range_count it1 \<noteq> 0 \<Longrightarrow> unat (ard_largest_acknowledged it1) + 1 < unat s"
    by (rule ack_ranges_next_Some) blast
  have n: "unat (ard_ack_range_count it1) = n" using r1(5) Suc.prems(2) by simp
  show ?case
  proof (cases n)
    case 0
    then have "ard_ack_range_count it1 = 0" using n by (simp add: unat_eq_0)
    then have "ack_ranges_next ne (it1\<lparr>ard_range_buffer := []\<rparr>) = (None, it1\<lparr>ard_range_buffer := []\<rparr>)"
      by (simp add: ack_ranges_next_def varint_checked_sub_def checked_sub_def)
    with 0 v r1 r1(2) [of "[]"] Suc.prems(3) show ?thesis
      by (intro exI [of _ "[(s, e)]"] exI [of _ r1]) (simp add: ack_ranges_ok_def ack_range_ok_def)
  next
    case (Suc m)
    then have "ard_ack_range_count it1 \<noteq> 0" using n by auto
    then have gap: "unat (ard_largest_acknowledged it1) + 1 < unat s" by (rule r1(6))
    then have "varint_valid (ard_largest_acknowledged it1)"
      using r1(3,4) Suc.prems(3) by (simp add: varint_max_less)
    from Suc.IH [OF v n this] obtain rs r2 where rs: "ard_range_buffer it1 = r2 @ ard_range_buffer it'"
      "length rs = n" "ack_ranges_ok rs" "iterate (ack_ranges_next ne) (Suc n) (it1\<lparr>ard_range_buffer := r2\<rparr>) = Some rs"
      "rs \<noteq> [] \<longrightarrow> snd (hd rs) = ard_largest_acknowledged it1" by blast
    obtain t ts where t: "rs = t # ts" "snd t = ard_largest_acknowledged it1"
      using rs(2,5) Suc by (cases rs) auto
    have "descending (s, e) t'" if "t' \<in> set rs" for t'
      using that rs(3) gap t by (fastforce simp: descending_def ack_ranges_ok_def ack_range_ok_def list_all_iff)
    then have "ack_ranges_ok ((s, e) # rs)"
      using rs(3) r1(3,4) Suc.prems(3) by (simp add: ack_ranges_ok_def ack_range_ok_def)
    moreover have "iterate (ack_ranges_next ne) (Suc (Suc n)) (it\<lparr>ard_range_buffer := r1 @ r2\<rparr>) = Some ((s, e) # rs)"
      unfolding iterate.simps(2) [of _ "Suc n"] r1(2) prod.case option.case rs(4) by simp
    ultimately show ?thesis
      using r1(1,3) rs(1,2) by (intro exI [of _ "(s, e) # rs"] exI [of _ "r1 @ r2"]) simp
  qed
qed

lemma varint_decode_small:
  assumes "b < 64"
  shows "varint_decode ne (b # rest) = Inr (ucast b, rest)"
proof -
  have b: "take_bit 6 b = b" using assms
    by (simp add: word_unat_eq_iff unsigned_take_bit_eq take_bit_nat_eq_self_iff word_less_nat_alt)
  then have "drop_bit 6 b = 0" by (metis drop_bit_take_bit diff_self_eq_0 take_bit_0)
  moreover have "b AND 63 = b" using b by (simp add: take_bit_eq_mask mask_eq_exp_minus_1)
  ultimately show ?thesis
    using skip_append [of "[b]" 1 rest] by (simp add: varint_decode_def peek_byte_def Let_def)
qed

lemma ack_decode_ok:
  assumes "ack_decode ne tag buffer = Inr (f, rest)"
  obtains rs where "decoder_ack_ranges ne (ack_ranges f) = Some rs" "rs \<noteq> []" "ack_ranges_ok rs"
    "length rs = unat (ard_ack_range_count (ack_ranges f))" "length rs < 2 ^ 62"
    "largest_acknowledged rs = Some (ard_largest_acknowledged (ack_ranges f))"
proof -
  obtain l b b1 rn b2 where l: "varint_decode ne buffer = Inr (l, b)"
    and rn: "ack_ranges_decode ne l b1 = Inr (rn, b2)" "ack_ranges f = rn"
    using assms by (auto simp: ack_decode_def result_simps split: if_splits)
  obtain n b3 c it where n: "varint_checked_add n 1 = Some c"
    and it: "ack_ranges_validate ne (unat c) \<lparr>ard_largest_acknowledged = l, ard_ack_range_count = c,
      ard_range_buffer = b3\<rparr> = Inr it"
    and sl: "decode_slice b3 (length b3 - length (ard_range_buffer it)) = Inr (ard_range_buffer rn, b2)"
    and rn': "ard_largest_acknowledged rn = l" "ard_ack_range_count rn = c"
    using rn(1) by (auto simp: ack_ranges_decode_def result_simps)
  from ack_ranges_validate_ok [OF it] varint_decode_valid [OF l] obtain rs read where
    rs: "b3 = read @ ard_range_buffer it" "length rs = unat c" "ack_ranges_ok rs"
      "iterate (ack_ranges_next ne) (Suc (unat c)) \<lparr>ard_largest_acknowledged = l, ard_ack_range_count = c,
         ard_range_buffer = read\<rparr> = Some rs" "rs \<noteq> [] \<longrightarrow> snd (hd rs) = l"
    by auto
  have "rn = \<lparr>ard_largest_acknowledged = l, ard_ack_range_count = c, ard_range_buffer = read\<rparr>"
    using sl rn' rs(1) by (auto simp: decode_slice_Inr)
  moreover have "rs \<noteq> []" "length rs < 2 ^ 62" using n rs(2) by (auto simp: varint_checked_add_Some)
  ultimately show thesis
    using rs(2-5) rn(2) by (intro that [of rs])
      (auto simp: decoder_ack_ranges_def largest_acknowledged_def split: list.splits)
qed

section \<open>Properties\<close>

text \<open>
  C14. Whatever bytes arrive, an ACK frame that is accepted has at least one range; iterating over
  its ranges ends after exactly the announced number of them, every range is a non-empty range of
  valid packet numbers, the ranges descend with a gap between two of them, and the first one ends
  at the largest acknowledged number. No packet number underflows.
\<close>

theorem ack_decode_ranges:
  assumes "ack_decode ne tag buffer = Inr (f, rest)"
  shows "\<exists>rs. decoder_ack_ranges ne (ack_ranges f) = Some rs \<and> rs \<noteq> [] \<and> ack_ranges_ok rs \<and>
    length rs = unat (ard_ack_range_count (ack_ranges f)) \<and>
    largest_acknowledged rs = Some (ard_largest_acknowledged (ack_ranges f))"
  using assms by (rule ack_decode_ok) blast

lemma example_ack_decode:
  "ack_decode big_endian ACK_TAG [10, 0, 1, 2, 3, 1] =
     Inr (\<lparr>ack_delay = 0, ack_ranges = \<lparr>ard_largest_acknowledged = 10, ard_ack_range_count = 2,
       ard_range_buffer = [2, 3, 1]\<rparr>, ack_ecn_counts = None\<rparr>, [])"
proof -
  let ?it = "\<lambda>l c b. \<lparr>ard_largest_acknowledged = l, ard_ack_range_count = c, ard_range_buffer = b\<rparr>"
  have 1: "ack_ranges_next big_endian (?it 10 2 [2, 3, 1]) = (Some (8, 10), ?it 3 1 [1])"
    by (simp add: ack_ranges_next_def varint_decode_small varint_checked_sub_def checked_sub_def)
  have 2: "ack_ranges_next big_endian (?it 3 1 [1]) = (Some (2, 3), ?it 3 0 [])"
    by (simp add: ack_ranges_next_def varint_decode_small varint_checked_sub_def checked_sub_def)
  have 3: "varint_checked_add 1 1 = Some 2" by (simp add: varint_checked_add_Some)
  have 4: "ack_ranges_validate big_endian 2 (?it 10 2 [2, 3, 1]) = Inr (?it 3 0 [])"
    by (simp add: numeral_2_eq_2 1 [unfolded numeral_2_eq_2] 2)
  have "ack_ranges_decode big_endian 10 [1, 2, 3, 1] = Inr (?it 10 2 [2, 3, 1], [])"
    unfolding ack_ranges_decode_def
    by (simp add: varint_decode_small 3 4 decode_slice_def ensure_len_def)
  then show ?thesis
    by (simp add: ack_decode_def varint_decode_small ACK_TAG_def ACK_W_ECN_TAG_def)
qed

theorem ack_decode_ranges_witness:
  "\<exists>rs. decoder_ack_ranges big_endian \<lparr>ard_largest_acknowledged = 10, ard_ack_range_count = 2,
       ard_range_buffer = [2, 3, 1]\<rparr> = Some rs \<and> length rs = 2 \<and> ack_ranges_ok rs"
  using ack_decode_ranges [OF example_ack_decode] by auto

end
