(* ===== verification/StreamId.thy ===== *)
theory StreamId
  imports VarInt
begin

unbundle bit_operations_syntax

text \<open>
  Stream identifiers and stream states: \<^verbatim>\<open>quic/s2n-quic-core/src/stream/\<close> (\<^verbatim>\<open>id.rs\<close>, \<^verbatim>\<open>iter.rs\<close>,
  \<^verbatim>\<open>type_.rs\<close>, \<^verbatim>\<open>state/send.rs\<close>, \<^verbatim>\<open>state/recv.rs\<close>), the endpoint type of \<^verbatim>\<open>endpoint/mod.rs\<close> and the
  transition macro of \<^verbatim>\<open>state.rs\<close>. The two state machines are shown to accept exactly the histories of
  events that a condition on the earlier events permits, and so a bounded number of them.
\<close>

section \<open>Stream identifiers\<close>

datatype endpoint_type = Client | Server

definition peer_type :: "endpoint_type \<Rightarrow> endpoint_type" where
  "peer_type self = (case self of Client \<Rightarrow> Server | Server \<Rightarrow> Client)"

datatype stream_type = Bidirectional | Unidirectional

type_synonym stream_id = varint

definition stream_initial :: "endpoint_type \<Rightarrow> stream_type \<Rightarrow> stream_id" where
  "stream_initial initiator stream_type =
     (case (stream_type = Bidirectional, initiator = Client) of
        (True, True) \<Rightarrow> 0
      | (True, False) \<Rightarrow> 1
      | (False, True) \<Rightarrow> 2
      | (False, False) \<Rightarrow> 3)"

definition stream_nth :: "endpoint_type \<Rightarrow> stream_type \<Rightarrow> u64 \<Rightarrow> stream_id option" where
  "stream_nth initiator stream_type n =
     Option.bind (checked_mul n 4) (\<lambda>n.
     Option.bind (checked_add n (stream_initial initiator stream_type)) (\<lambda>n.
     result_ok (varint_new n)))"

definition next_of_type :: "stream_id \<Rightarrow> stream_id option" where
  "next_of_type self = varint_checked_add self 4"

definition stream_initiator :: "stream_id \<Rightarrow> endpoint_type" where
  "stream_initiator self = (if self AND 0x01 = 0 then Client else Server)"

definition stream_type_of :: "stream_id \<Rightarrow> stream_type" where
  "stream_type_of self = (if self AND 0x02 = 0 then Bidirectional else Unidirectional)"

record stream_iter =
  si_start_stream_id :: stream_id
  si_max_stream_id :: stream_id
  si_finished :: bool

definition stream_iter_new :: "stream_id \<Rightarrow> stream_id \<Rightarrow> stream_iter" where
  "stream_iter_new start_stream_id max_stream_id =
     \<lparr>si_start_stream_id = start_stream_id, si_max_stream_id = max_stream_id, si_finished = False\<rparr>"

text \<open>\<open>Iterator::next\<close>; the outer \<open>None\<close> is the panic of \<open>expect\<close>.\<close>

definition stream_iter_next :: "stream_iter \<Rightarrow> (stream_id option \<times> stream_iter) option" where
  "stream_iter_next self =
     (if si_finished self then Some (None, self)
      else if si_start_stream_id self < si_max_stream_id self then
        (let ret = si_start_stream_id self in
         map_option (\<lambda>next. (Some ret, self\<lparr>si_start_stream_id := next\<rparr>))
           (next_of_type (si_start_stream_id self)))
      else if si_start_stream_id self = si_max_stream_id self then
        Some (Some (si_start_stream_id self), self\<lparr>si_finished := True\<rparr>)
      else Some (None, self\<lparr>si_finished := True\<rparr>))"

text \<open>The loop of a caller; \<open>None\<close> for a panic or when the fuel runs out.\<close>

fun stream_iterate :: "nat \<Rightarrow> stream_iter \<Rightarrow> stream_id list option" where
  "stream_iterate 0 it = None"
| "stream_iterate (Suc fuel) it =
     (case stream_iter_next it of
        None \<Rightarrow> None
      | Some (None, _) \<Rightarrow> Some []
      | Some (Some sid, it) \<Rightarrow> map_option ((#) sid) (stream_iterate fuel it))"

section \<open>State machines\<close>

datatype 's state_error = NoOp 's | InvalidTransition 's string

text \<open>
  The macro \<open>transition!\<close>: the first rule whose states contain the current one fires; otherwise the
  state is kept, and the error is \<open>NoOp\<close> if there is a single rule and its target is the state.
\<close>

fun transition_build ::
    "'s list \<Rightarrow> string \<Rightarrow> 's \<Rightarrow> ('s list \<times> 's) list \<Rightarrow> ('s state_error + unit) \<times> 's" where
  "transition_build targets event state [] =
     (if length targets = 1 \<and> targets ! 0 = state then (Inl (NoOp state), state)
      else (Inl (InvalidTransition state event), state))"
| "transition_build targets event state ((valid, target) # remaining) =
     (if state \<in> set valid then (Inr (), target)
      else transition_build (targets @ [target]) event state remaining)"

definition transition :: "string \<Rightarrow> ('s list \<times> 's) list \<Rightarrow> 's \<Rightarrow> ('s state_error + unit) \<times> 's" where
  "transition event rules state = transition_build [] event state rules"

datatype sender = Ready | Send | DataSent | DataRecvd | ResetQueued | ResetSent | ResetRecvd

datatype sender_event =
  OnSendStream | OnSendFin | OnRecvAllAcks | OnQueueReset | OnSendReset | OnRecvResetAck

fun sender_on :: "sender_event \<Rightarrow> sender \<Rightarrow> (sender state_error + unit) \<times> sender" where
  "sender_on OnSendStream = transition ''on_send_stream'' [([Ready], Send)]"
| "sender_on OnSendFin = transition ''on_send_fin'' [([Ready, Send], DataSent)]"
| "sender_on OnRecvAllAcks = transition ''on_recv_all_acks'' [([DataSent, ResetQueued], DataRecvd)]"
| "sender_on OnQueueReset = transition ''on_queue_reset'' [([Ready, Send, DataSent], ResetQueued)]"
| "sender_on OnSendReset =
     transition ''on_send_reset'' [([Ready, Send, DataSent, ResetQueued], ResetSent)]"
| "sender_on OnRecvResetAck = transition ''on_recv_reset_ack'' [([ResetSent], ResetRecvd)]"

definition sender_is_terminal :: "sender \<Rightarrow> bool" where
  "sender_is_terminal self \<longleftrightarrow> self = DataRecvd \<or> self = ResetRecvd"

datatype receiver = Recv | SizeKnown | RDataRecvd | RDataRead | RResetRecvd | RResetRead

datatype receiver_event = OnReceiveFin | OnReceiveAllData | OnAppReadAllData | OnReset | OnAppReadReset

fun receiver_on :: "receiver_event \<Rightarrow> receiver \<Rightarrow> (receiver state_error + unit) \<times> receiver" where
  "receiver_on OnReceiveFin = transition ''on_receive_fin'' [([Recv], SizeKnown)]"
| "receiver_on OnReceiveAllData = transition ''on_receive_all_data'' [([SizeKnown], RDataRecvd)]"
| "receiver_on OnAppReadAllData = transition ''on_app_read_all_data'' [([RDataRecvd], RDataRead)]"
| "receiver_on OnReset = transition ''on_reset'' [([Recv, SizeKnown], RResetRecvd)]"
| "receiver_on OnAppReadReset = transition ''on_app_read_reset'' [([RResetRecvd], RResetRead)]"

definition receiver_is_terminal :: "receiver \<Rightarrow> bool" where
  "receiver_is_terminal self \<longleftrightarrow> self = RDataRead \<or> self = RResetRead"

section \<open>Identifiers of a type\<close>

lemma unat_and_1: "unat (v AND 1 :: u64) = unat v mod 2"
  using unat_mod [of v 2] by (simp add: and_one_eq)

lemma unat_and_2: "(v AND 2 :: u64) = 0 \<longleftrightarrow> (unat v div 2) mod 2 = 0"
proof -
  have "(v AND 2 :: u64) = 0 \<longleftrightarrow> \<not> bit v 1"
    using bit_iff_and_push_bit_not_eq_0 [of v 1] by simp
  also have "\<dots> \<longleftrightarrow> (unat v div 2) mod 2 = 0"
  proof -
    have "bit v 1 \<longleftrightarrow> bit (unat v) 1" by (simp add: bit_simps)
    then show ?thesis by (simp add: bit_iff_odd even_iff_mod_2_eq_zero del: bit_unsigned_iff)
  qed
  finally show ?thesis .
qed

lemma stream_kind:
  "stream_initiator v = i \<and> stream_type_of v = t \<longleftrightarrow> unat v mod 4 = unat (stream_initial i t)"
proof -
  have "(v AND 1 = 0) = (unat v mod 2 = 0)" using unat_and_1 [of v] by (simp add: unat_eq_0 [symmetric])
  moreover have "unat v mod 4 = unat v mod 2 + 2 * (unat v div 2 mod 2)"
    using mod_mult2_eq [of "unat v" 2 2] by simp
  ultimately show ?thesis
    by (cases i; cases t)
       (auto simp: stream_initiator_def stream_type_of_def unat_and_2 stream_initial_def)
qed

lemma unat_stream_initial: "unat (stream_initial i t) < 4"
  by (simp add: stream_initial_def split: bool.splits)

lemma stream_nth_Some:
  "stream_nth i t n = Some sid \<longleftrightarrow>
     4 * unat n + unat (stream_initial i t) < 2 ^ 62 \<and> unat sid = 4 * unat n + unat (stream_initial i t)"
proof (cases "4 * unat n + unat (stream_initial i t) < 2 ^ 62")
  case True
  then have mul: "checked_mul n 4 = Some (n * 4)" "unat (n * 4) = 4 * unat n"
    by (simp_all add: checked_mul_def unat_mult_no_wrap)
  with True have "checked_add (n * 4) (stream_initial i t) = Some (n * 4 + stream_initial i t)"
    "unat (n * 4 + stream_initial i t) = 4 * unat n + unat (stream_initial i t)"
    by (simp_all add: checked_add_def unat_add_no_wrap)
  with True mul show ?thesis
    by (auto simp: word_unat_eq_iff stream_nth_def result_ok_eq_Some varint_new_Inr varint_max_less)
next
  case False
  then show ?thesis
    by (auto simp: stream_nth_def bind_eq_Some_conv result_ok_eq_Some varint_new_Inr varint_max_less
        checked_add_Some checked_mul_def unat_mult_no_wrap split: if_splits)
qed

text \<open>The iterator, started \<open>4 * k\<close> below the maximum.\<close>

lemma stream_iterate_spec:
  assumes "varint_valid m" "unat m = unat v + 4 * k"
  shows "\<exists>ids. stream_iterate (k + 2) (stream_iter_new v m) = Some ids \<and>
    map unat ids = map (\<lambda>j. unat v + 4 * j) [0..<Suc k]"
  using assms(2)
proof (induction k arbitrary: v)
  case 0
  then have "v = m" by (simp add: word_unat_eq_iff)
  then show ?case by (simp add: numeral_2_eq_2 stream_iter_next_def stream_iter_new_def)
next
  case (Suc k)
  have m: "unat m < 2 ^ 62" using assms(1) by (simp add: varint_max_less)
  then have "unat v + unat (4 :: u64) < 2 ^ 62" using Suc.prems by simp
  then obtain w where w: "next_of_type v = Some w" "unat w = unat v + 4"
    using varint_checked_add_None [of v 4] varint_checked_add_Some [of v 4]
    by (cases "next_of_type v") (auto simp: next_of_type_def)
  have lt: "v < m" using Suc.prems by (simp add: word_less_nat_alt)
  have "unat m = unat w + 4 * k" using w(2) Suc.prems by simp
  from Suc.IH [OF this] obtain ids where ids: "stream_iterate (k + 2) (stream_iter_new w m) = Some ids"
    "map unat ids = map (\<lambda>j. unat w + 4 * j) [0..<Suc k]" by blast
  have "stream_iterate (Suc k + 2) (stream_iter_new v m) = Some (v # ids)"
    using w(1) lt ids(1) by (simp add: stream_iter_next_def stream_iter_new_def)
  moreover have "map (\<lambda>j. unat v + 4 * j) [0..<Suc (Suc k)] = unat v # map (\<lambda>j. unat w + 4 * j) [0..<Suc k]"
    unfolding upt_conv_Cons [OF zero_less_Suc] map_Suc_upt [symmetric] by (simp add: w(2) del: upt_Suc)
  ultimately show ?case using ids(2) by simp
qed

section \<open>Histories of events\<close>

text \<open>
  When an event may happen, by the events \<open>h\<close> that happened before. For a sender, from the comments
  on RFC 9000, section 3.1: a STREAM frame opens the stream, at most one FIN ends its data, a reset may
  be queued and sent until it was sent or everything was acknowledged, and only a reset that was sent
  is acknowledged. All data counts as acknowledged only after a FIN or, which the comments do not
  show, after a reset was queued. For a receiver, section 3.2 without the optional transitions.
\<close>

fun sender_may :: "sender_event set \<Rightarrow> sender_event \<Rightarrow> bool" where
  "sender_may h OnSendStream \<longleftrightarrow> h = {}"
| "sender_may h OnSendFin \<longleftrightarrow> h \<subseteq> {OnSendStream}"
| "sender_may h OnQueueReset \<longleftrightarrow> h \<subseteq> {OnSendStream, OnSendFin}"
| "sender_may h OnSendReset \<longleftrightarrow> h \<subseteq> {OnSendStream, OnSendFin, OnQueueReset}"
| "sender_may h OnRecvAllAcks \<longleftrightarrow>
     (OnSendFin \<in> h \<or> OnQueueReset \<in> h) \<and> OnSendReset \<notin> h \<and> OnRecvAllAcks \<notin> h"
| "sender_may h OnRecvResetAck \<longleftrightarrow> OnSendReset \<in> h \<and> OnRecvResetAck \<notin> h"

fun receiver_may :: "receiver_event set \<Rightarrow> receiver_event \<Rightarrow> bool" where
  "receiver_may h OnReceiveFin \<longleftrightarrow> h = {}"
| "receiver_may h OnReceiveAllData \<longleftrightarrow> h = {OnReceiveFin}"
| "receiver_may h OnAppReadAllData \<longleftrightarrow> OnReceiveAllData \<in> h \<and> OnAppReadAllData \<notin> h"
| "receiver_may h OnReset \<longleftrightarrow> h \<subseteq> {OnReceiveFin}"
| "receiver_may h OnAppReadReset \<longleftrightarrow> OnReset \<in> h \<and> OnAppReadReset \<notin> h"

text \<open>The state that stands for a history, and which histories there are.\<close>

definition sender_state_of :: "sender_event set \<Rightarrow> sender" where
  "sender_state_of h =
     (if OnRecvResetAck \<in> h then ResetRecvd else if OnRecvAllAcks \<in> h then DataRecvd
      else if OnSendReset \<in> h then ResetSent else if OnQueueReset \<in> h then ResetQueued
      else if OnSendFin \<in> h then DataSent else if OnSendStream \<in> h then Send else Ready)"

definition receiver_state_of :: "receiver_event set \<Rightarrow> receiver" where
  "receiver_state_of h =
     (if OnAppReadReset \<in> h then RResetRead else if OnReset \<in> h then RResetRecvd
      else if OnAppReadAllData \<in> h then RDataRead else if OnReceiveAllData \<in> h then RDataRecvd
      else if OnReceiveFin \<in> h then SizeKnown else Recv)"

definition sender_history :: "sender_event set \<Rightarrow> bool" where
  "sender_history h \<longleftrightarrow> (OnRecvResetAck \<in> h \<longrightarrow> OnSendReset \<in> h) \<and>
     (OnRecvAllAcks \<in> h \<longrightarrow> OnSendReset \<notin> h \<and> (OnSendFin \<in> h \<or> OnQueueReset \<in> h))"

definition receiver_history :: "receiver_event set \<Rightarrow> bool" where
  "receiver_history h \<longleftrightarrow> (OnAppReadAllData \<in> h \<longrightarrow> OnReceiveAllData \<in> h) \<and>
     (OnReceiveAllData \<in> h \<longrightarrow> OnReceiveFin \<in> h \<and> OnReset \<notin> h) \<and> (OnAppReadReset \<in> h \<longrightarrow> OnReset \<in> h)"

text \<open>A sequence of events: those that are accepted, in order, and the final state.\<close>

fun run_events :: "('e \<Rightarrow> 's \<Rightarrow> ('s state_error + unit) \<times> 's) \<Rightarrow> 'e list \<Rightarrow> 's \<Rightarrow> 'e list \<times> 's" where
  "run_events on [] s = ([], s)"
| "run_events on (e # es) s =
     (let (r, s') = on e s; (acc, s'') = run_events on es s' in (if is_ok r then e # acc else acc, s''))"

locale event_machine =
  fixes on :: "'e \<Rightarrow> 's \<Rightarrow> ('s state_error + unit) \<times> 's"
    and may :: "'e set \<Rightarrow> 'e \<Rightarrow> bool"
    and state_of :: "'e set \<Rightarrow> 's"
    and history :: "'e set \<Rightarrow> bool"
  assumes history_empty: "history {}"
    and history_insert: "history h \<Longrightarrow> may h e \<Longrightarrow> e \<notin> h \<and> history (insert e h)"
    and on_may: "history h \<Longrightarrow> may h e \<Longrightarrow> on e (state_of h) = (Inr (), state_of (insert e h))"
    and on_may_not: "history h \<Longrightarrow> \<not> may h e \<Longrightarrow> \<exists>err. on e (state_of h) = (Inl err, state_of h)"
begin

lemma on_ok: "history h \<Longrightarrow> is_ok (fst (on e (state_of h))) \<longleftrightarrow> may h e"
  using on_may [of h e] on_may_not [of h e] by (cases "may h e") (auto simp: is_ok_def)

lemma run_from:
  assumes "history h"
  shows "case run_events on es (state_of h) of (acc, s) \<Rightarrow>
    history (h \<union> set acc) \<and> s = state_of (h \<union> set acc) \<and> distinct acc \<and> h \<inter> set acc = {} \<and>
    (\<forall>i<length acc. may (h \<union> set (take i acc)) (acc ! i))"
  using assms
proof (induction es arbitrary: h)
  case (Cons e es)
  show ?case
  proof (cases "may h e")
    case True
    obtain acc s where run: "run_events on es (state_of (insert e h)) = (acc, s)" by fastforce
    have "may (h \<union> set (take i (e # acc))) ((e # acc) ! i)"
      if "i < length (e # acc)" "\<forall>i<length acc. may (insert e h \<union> set (take i acc)) (acc ! i)" for i
      using that True by (cases i) simp_all
    then show ?thesis
      using Cons.IH [of "insert e h"] history_insert [OF Cons.prems True] on_may [OF Cons.prems True]
      by (simp add: run is_ok_def)
  next
    case False
    obtain acc s where run: "run_events on es (state_of h) = (acc, s)" by fastforce
    from on_may_not [OF Cons.prems False] Cons.IH [OF Cons.prems] run show ?thesis
      by (auto simp: is_ok_def)
  qed
qed simp

lemma run_history:
  assumes "run_events on es (state_of {}) = (acc, s)"
  shows "history (set acc)" "s = state_of (set acc)" "distinct acc"
    "\<forall>i<length acc. may (set (take i acc)) (acc ! i)"
    "is_ok (fst (on e s)) \<longleftrightarrow> may (set acc) e" "\<not> is_ok (fst (on e s)) \<Longrightarrow> snd (on e s) = s"
proof -
  show run: "history (set acc)" "s = state_of (set acc)" "distinct acc"
    "\<forall>i<length acc. may (set (take i acc)) (acc ! i)"
    using run_from [OF history_empty, of es] assms by simp_all
  show ok: "is_ok (fst (on e s)) \<longleftrightarrow> may (set acc) e" unfolding run(2) by (rule on_ok [OF run(1)])
  show "\<not> is_ok (fst (on e s)) \<Longrightarrow> snd (on e s) = s"
    using ok on_may_not [OF run(1), of e] by (auto simp: run(2))
qed

end

lemmas sender_history_simps = transition_def sender_state_of_def sender_history_def

lemmas receiver_history_simps = transition_def receiver_state_of_def receiver_history_def

lemma sender_event_sets:
  "(\<forall>e. P e) \<longleftrightarrow> P OnSendStream \<and> P OnSendFin \<and> P OnRecvAllAcks \<and> P OnQueueReset \<and> P OnSendReset \<and>
     P OnRecvResetAck"
  "h = {} \<longleftrightarrow> OnSendStream \<notin> h \<and> OnSendFin \<notin> h \<and> OnRecvAllAcks \<notin> h \<and>
     OnQueueReset \<notin> h \<and> OnSendReset \<notin> h \<and> OnRecvResetAck \<notin> h"
  "h \<subseteq> h' \<longleftrightarrow> (OnSendStream \<in> h \<longrightarrow> OnSendStream \<in> h') \<and>
     (OnSendFin \<in> h \<longrightarrow> OnSendFin \<in> h') \<and>
     (OnRecvAllAcks \<in> h \<longrightarrow> OnRecvAllAcks \<in> h') \<and>
     (OnQueueReset \<in> h \<longrightarrow> OnQueueReset \<in> h') \<and>
     (OnSendReset \<in> h \<longrightarrow> OnSendReset \<in> h') \<and>
     (OnRecvResetAck \<in> h \<longrightarrow> OnRecvResetAck \<in> h')"
proof -
  show all: "(\<forall>e. P e) \<longleftrightarrow> P OnSendStream \<and> P OnSendFin \<and> P OnRecvAllAcks \<and> P OnQueueReset \<and> P OnSendReset \<and>
     P OnRecvResetAck" for P
    by (metis sender_event.exhaust)
  show "h = {} \<longleftrightarrow> OnSendStream \<notin> h \<and> OnSendFin \<notin> h \<and> OnRecvAllAcks \<notin> h \<and>
     OnQueueReset \<notin> h \<and> OnSendReset \<notin> h \<and> OnRecvResetAck \<notin> h"
    using all [of "\<lambda>e. e \<notin> h"] by auto
  show "h \<subseteq> h' \<longleftrightarrow> (OnSendStream \<in> h \<longrightarrow> OnSendStream \<in> h') \<and>
     (OnSendFin \<in> h \<longrightarrow> OnSendFin \<in> h') \<and>
     (OnRecvAllAcks \<in> h \<longrightarrow> OnRecvAllAcks \<in> h') \<and>
     (OnQueueReset \<in> h \<longrightarrow> OnQueueReset \<in> h') \<and>
     (OnSendReset \<in> h \<longrightarrow> OnSendReset \<in> h') \<and>
     (OnRecvResetAck \<in> h \<longrightarrow> OnRecvResetAck \<in> h')"
    using all [of "\<lambda>e. e \<in> h \<longrightarrow> e \<in> h'"] by (simp add: subset_iff)
qed

lemma receiver_event_sets:
  "(\<forall>e. P e) \<longleftrightarrow> P OnReceiveFin \<and> P OnReceiveAllData \<and> P OnAppReadAllData \<and> P OnReset \<and>
     P OnAppReadReset"
  "h = h' \<longleftrightarrow> (OnReceiveFin \<in> h \<longleftrightarrow> OnReceiveFin \<in> h') \<and>
     (OnReceiveAllData \<in> h \<longleftrightarrow> OnReceiveAllData \<in> h') \<and>
     (OnAppReadAllData \<in> h \<longleftrightarrow> OnAppReadAllData \<in> h') \<and>
     (OnReset \<in> h \<longleftrightarrow> OnReset \<in> h') \<and>
     (OnAppReadReset \<in> h \<longleftrightarrow> OnAppReadReset \<in> h')"
  "h \<subseteq> h' \<longleftrightarrow> (OnReceiveFin \<in> h \<longrightarrow> OnReceiveFin \<in> h') \<and>
     (OnReceiveAllData \<in> h \<longrightarrow> OnReceiveAllData \<in> h') \<and>
     (OnAppReadAllData \<in> h \<longrightarrow> OnAppReadAllData \<in> h') \<and>
     (OnReset \<in> h \<longrightarrow> OnReset \<in> h') \<and>
     (OnAppReadReset \<in> h \<longrightarrow> OnAppReadReset \<in> h')"
proof -
  show all: "(\<forall>e. P e) \<longleftrightarrow> P OnReceiveFin \<and> P OnReceiveAllData \<and> P OnAppReadAllData \<and> P OnReset \<and>
     P OnAppReadReset" for P
    by (metis receiver_event.exhaust)
  show "h = h' \<longleftrightarrow> (OnReceiveFin \<in> h \<longleftrightarrow> OnReceiveFin \<in> h') \<and>
     (OnReceiveAllData \<in> h \<longleftrightarrow> OnReceiveAllData \<in> h') \<and>
     (OnAppReadAllData \<in> h \<longleftrightarrow> OnAppReadAllData \<in> h') \<and>
     (OnReset \<in> h \<longleftrightarrow> OnReset \<in> h') \<and>
     (OnAppReadReset \<in> h \<longleftrightarrow> OnAppReadReset \<in> h')"
    using all [of "\<lambda>e. e \<in> h \<longleftrightarrow> e \<in> h'"] by (simp add: set_eq_iff)
  show "h \<subseteq> h' \<longleftrightarrow> (OnReceiveFin \<in> h \<longrightarrow> OnReceiveFin \<in> h') \<and>
     (OnReceiveAllData \<in> h \<longrightarrow> OnReceiveAllData \<in> h') \<and>
     (OnAppReadAllData \<in> h \<longrightarrow> OnAppReadAllData \<in> h') \<and>
     (OnReset \<in> h \<longrightarrow> OnReset \<in> h') \<and>
     (OnAppReadReset \<in> h \<longrightarrow> OnAppReadReset \<in> h')"
    using all [of "\<lambda>e. e \<in> h \<longrightarrow> e \<in> h'"] by (simp add: subset_iff)
qed

interpretation sender: event_machine sender_on sender_may sender_state_of sender_history
proof
  fix h e
  show "sender_history {}" by (simp add: sender_history_def)
  show "sender_history h \<Longrightarrow> sender_may h e \<Longrightarrow> e \<notin> h \<and> sender_history (insert e h)"
    by (cases e) (auto simp: sender_history_def)
  show "sender_history h \<Longrightarrow> sender_may h e \<Longrightarrow> sender_on e (sender_state_of h) = (Inr (), sender_state_of (insert e h))"
    by (cases e) (auto simp: sender_history_simps)
  show "sender_history h \<Longrightarrow> \<not> sender_may h e \<Longrightarrow> \<exists>err. sender_on e (sender_state_of h) = (Inl err, sender_state_of h)"
    by (cases e) (auto simp: sender_history_simps sender_event_sets(2,3))
qed

interpretation receiver: event_machine receiver_on receiver_may receiver_state_of receiver_history
proof
  fix h e
  show "receiver_history {}" by (simp add: receiver_history_def)
  show "receiver_history h \<Longrightarrow> receiver_may h e \<Longrightarrow> e \<notin> h \<and> receiver_history (insert e h)"
    by (cases e) (auto simp: receiver_history_def)
  show "receiver_history h \<Longrightarrow> receiver_may h e \<Longrightarrow> receiver_on e (receiver_state_of h) = (Inr (), receiver_state_of (insert e h))"
    by (cases e) (auto simp: receiver_history_simps)
  show "receiver_history h \<Longrightarrow> \<not> receiver_may h e \<Longrightarrow> \<exists>err. receiver_on e (receiver_state_of h) = (Inl err, receiver_state_of h)"
    by (cases e) (auto simp: receiver_history_simps receiver_event_sets(2,3))
qed

lemma sender_history_card: "sender_history h \<Longrightarrow> card h \<le> 5"
proof -
  assume "sender_history h"
  then have "h \<subseteq> {OnSendStream, OnSendFin, OnQueueReset, OnSendReset, OnRecvResetAck} \<or>
      h \<subseteq> {OnSendStream, OnSendFin, OnQueueReset, OnRecvAllAcks}"
    unfolding sender_history_def sender_event_sets(3) by auto
  then show ?thesis by (auto dest: card_mono [rotated])
qed

lemma receiver_history_card: "receiver_history h \<Longrightarrow> card h \<le> 3"
proof -
  assume "receiver_history h"
  then have "h \<subseteq> {OnReceiveFin, OnReceiveAllData, OnAppReadAllData} \<or> h \<subseteq> {OnReceiveFin, OnReset, OnAppReadReset}"
    unfolding receiver_history_def receiver_event_sets(3) by auto
  then show ?thesis by (auto dest: card_mono [rotated])
qed

lemma sender_terminal_iff:
  "sender_history h \<Longrightarrow> sender_is_terminal (sender_state_of h) \<longleftrightarrow> (\<forall>e. \<not> sender_may h e)"
  unfolding sender_event_sets(1)
  by (auto simp: sender_is_terminal_def sender_state_of_def sender_history_def sender_event_sets(2,3))

lemma receiver_terminal_iff:
  "receiver_history h \<Longrightarrow> receiver_is_terminal (receiver_state_of h) \<longleftrightarrow> (\<forall>e. \<not> receiver_may h e)"
  unfolding receiver_event_sets(1)
  by (auto simp: receiver_is_terminal_def receiver_state_of_def receiver_history_def receiver_event_sets(2,3))

lemma option_eqI: "(\<And>w. a = Some w \<longleftrightarrow> b = Some w) \<Longrightarrow> a = b"
  by (cases a; cases b) auto

section \<open>Properties\<close>

text \<open>
  C28. Numbering of streams. \<open>nth\<close> fails exactly when the identifier would not be a valid one;
  otherwise it has the initiator and the type asked for, its number is the \<open>n\<close>-th of that kind,
  and \<open>next_of_type\<close> goes to the identifier of the next index, failing exactly when that one does
  not exist.
\<close>

theorem stream_id_numbering:
  "case stream_nth i t n of
     None \<Rightarrow> 2 ^ 62 \<le> 4 * unat n + unat (stream_initial i t)
   | Some sid \<Rightarrow> unat sid = 4 * unat n + unat (stream_initial i t) \<and>
       stream_initiator sid = i \<and> stream_type_of sid = t \<and> next_of_type sid = stream_nth i t (n + 1)"
proof (cases "stream_nth i t n")
  case None
  have "\<not> 4 * unat n + unat (stream_initial i t) < 2 ^ 62"
  proof
    assume lt: "4 * unat n + unat (stream_initial i t) < 2 ^ 62"
    then have "unat (of_nat (4 * unat n + unat (stream_initial i t)) :: u64) = 4 * unat n + unat (stream_initial i t)"
      by (intro unat_of_nat_no_wrap) simp
    with lt have "stream_nth i t n = Some (of_nat (4 * unat n + unat (stream_initial i t)))"
      unfolding stream_nth_Some by blast
    with None show False by simp
  qed
  with None show ?thesis by simp
next
  case (Some sid)
  then have sid: "4 * unat n + unat (stream_initial i t) < 2 ^ 62" "unat sid = 4 * unat n + unat (stream_initial i t)"
    using stream_nth_Some [of i t n sid] by blast+
  have "unat sid mod 4 = unat (stream_initial i t)"
    unfolding sid(2) using unat_stream_initial [of i t] by simp
  then have kind: "stream_initiator sid = i \<and> stream_type_of sid = t" by (simp only: stream_kind)
  have n1: "unat (n + 1) = unat n + 1" using sid(1) by (simp add: unat_add_no_wrap)
  have "next_of_type sid = stream_nth i t (n + 1)"
  proof (rule option_eqI)
    fix w
    show "next_of_type sid = Some w \<longleftrightarrow> stream_nth i t (n + 1) = Some w"
      unfolding next_of_type_def varint_checked_add_Some stream_nth_Some n1 sid(2) by auto
  qed
  with Some sid(2) kind show ?thesis by (simp only: option.case)
qed

text \<open>
  C29. Iterating over the streams of one kind from one identifier to another never panics, ends, and
  yields exactly the identifiers of that kind in between, ascending, both ends included.
\<close>

theorem stream_iter_enumerates:
  assumes "varint_valid hi" "lo \<le> hi" "stream_initiator lo = stream_initiator hi" "stream_type_of lo = stream_type_of hi"
  shows "\<exists>ids. stream_iterate ((unat hi - unat lo) div 4 + 2) (stream_iter_new lo hi) = Some ids \<and>
    sorted (map unat ids) \<and> distinct ids \<and>
    set ids = {v. lo \<le> v \<and> v \<le> hi \<and> stream_initiator v = stream_initiator lo \<and> stream_type_of v = stream_type_of lo}"
proof -
  let ?k = "(unat hi - unat lo) div 4"
  have le: "unat lo \<le> unat hi" using assms(2) by (simp add: word_le_nat_alt)
  have mods: "unat v mod 4 = unat lo mod 4 \<longleftrightarrow> stream_initiator v = stream_initiator lo \<and> stream_type_of v = stream_type_of lo" for v
    using stream_kind [of v "stream_initiator lo" "stream_type_of lo"] stream_kind [of lo "stream_initiator lo" "stream_type_of lo"]
    by auto
  have "unat hi mod 4 = unat lo mod 4" unfolding mods using assms(3,4) by simp
  then have hi: "unat hi = unat lo + 4 * ?k"
    using le by (metis add.commute dvd_mult_div_cancel le_add_diff_inverse2 mod_eq_dvd_iff_nat)
  from stream_iterate_spec [OF assms(1) hi] obtain ids where
    ids: "stream_iterate (?k + 2) (stream_iter_new lo hi) = Some ids"
      "map unat ids = map (\<lambda>j. unat lo + 4 * j) [0..<Suc ?k]" by blast
  have in_ids: "v \<in> set ids \<longleftrightarrow> (\<exists>j\<le>?k. unat v = unat lo + 4 * j)" for v
  proof -
    have "v \<in> set ids \<longleftrightarrow> unat v \<in> set (map unat ids)" by (simp add: image_iff word_unat_eq_iff [symmetric])
    then show ?thesis unfolding ids(2) by (auto simp: less_Suc_eq_le)
  qed
  have range: "(\<exists>j\<le>?k. unat v = unat lo + 4 * j) \<longleftrightarrow> lo \<le> v \<and> v \<le> hi \<and> unat v mod 4 = unat lo mod 4" for v
  proof
    assume "\<exists>j\<le>?k. unat v = unat lo + 4 * j"
    then obtain j where "j \<le> ?k" "unat v = unat lo + 4 * j" by blast
    then show "lo \<le> v \<and> v \<le> hi \<and> unat v mod 4 = unat lo mod 4" using hi by (simp add: word_le_nat_alt)
  next
    assume v: "lo \<le> v \<and> v \<le> hi \<and> unat v mod 4 = unat lo mod 4"
    then have "4 dvd unat v - unat lo" using mod_eq_dvd_iff_nat [of "unat lo" "unat v" 4] by (simp add: word_le_nat_alt)
    with v show "\<exists>j\<le>?k. unat v = unat lo + 4 * j"
      by (intro exI [of _ "(unat v - unat lo) div 4"]) (auto simp: word_le_nat_alt div_le_mono)
  qed
  have "sorted (map unat ids)" "distinct (map unat ids)"
    unfolding ids(2) by (auto simp: sorted_iff_nth_mono distinct_map inj_on_def simp del: upt_Suc)
  then show ?thesis
    using ids(1) in_ids range by (auto simp: mods distinct_map)
qed

theorem stream_iter_enumerates_witness:
  "\<exists>ids. stream_iterate 4 (stream_iter_new 3 11) = Some ids \<and> 7 \<in> set ids \<and> 8 \<notin> set ids"
proof -
  have h: "varint_valid 11" "(3 :: varint) \<le> 11" "stream_initiator 3 = stream_initiator 11"
    "stream_type_of 3 = stream_type_of 11"
    by (simp_all add: varint_valid_def MAX_VARINT_VALUE_def stream_initiator_def stream_type_of_def)
  have k: "(7 :: varint) AND 1 = 1" "(7 :: varint) AND 2 = 2" "(8 :: varint) AND 1 = 0" "(3 :: varint) AND 1 = 1"
    "(3 :: varint) AND 2 = 2" by simp_all
  have n: "(unat (11 :: varint) - unat (3 :: varint)) div 4 + 2 = 4" by simp
  from stream_iter_enumerates [OF h] obtain ids where
    ids: "stream_iterate 4 (stream_iter_new 3 11) = Some ids"
      "set ids = {v. 3 \<le> v \<and> v \<le> 11 \<and> stream_initiator v = stream_initiator 3 \<and> stream_type_of v = stream_type_of 3}"
    unfolding n by blast
  show ?thesis
    using ids(1) by (intro exI [of _ ids]) (simp add: ids(2) stream_initiator_def stream_type_of_def k)
qed

text \<open>
  C30. Histories of a stream. However events arrive, the events that a sender or a receiver accepts
  are exactly those that the events accepted before them permit: no data after a FIN or a reset, all
  data acknowledged only after a FIN or a queued reset and never after a sent one, a reset acknowledged
  only after it was sent, data read only after the size and then all data were received, nothing twice.
  An event that is refused changes nothing. So a sender accepts at most five events and a receiver at
  most three, and \<open>is_terminal\<close> tells exactly when no event can be accepted any more.
\<close>

theorem stream_state_histories:
  "(case run_events sender_on es Ready of (acc, s) \<Rightarrow>
      distinct acc \<and> length acc \<le> 5 \<and> (\<forall>i<length acc. sender_may (set (take i acc)) (acc ! i)) \<and>
      (\<forall>e. is_ok (fst (sender_on e s)) \<longleftrightarrow> sender_may (set acc) e) \<and>
      (\<forall>e. is_ok (fst (sender_on e s)) \<or> snd (sender_on e s) = s) \<and>
      (sender_is_terminal s \<longleftrightarrow> (\<forall>e. \<not> sender_may (set acc) e))) \<and>
   (case run_events receiver_on es' Recv of (acc, s) \<Rightarrow>
      distinct acc \<and> length acc \<le> 3 \<and> (\<forall>i<length acc. receiver_may (set (take i acc)) (acc ! i)) \<and>
      (\<forall>e. is_ok (fst (receiver_on e s)) \<longleftrightarrow> receiver_may (set acc) e) \<and>
      (\<forall>e. is_ok (fst (receiver_on e s)) \<or> snd (receiver_on e s) = s) \<and>
      (receiver_is_terminal s \<longleftrightarrow> (\<forall>e. \<not> receiver_may (set acc) e)))"
proof -
  obtain acc s acc' s' where run: "run_events sender_on es Ready = (acc, s)" "run_events receiver_on es' Recv = (acc', s')"
    by fastforce
  have init: "sender_state_of {} = Ready" "receiver_state_of {} = Recv"
    by (simp_all add: sender_state_of_def receiver_state_of_def)
  note snd' = sender.run_history [unfolded init, OF run(1)] and rcv = receiver.run_history [unfolded init, OF run(2)]
  show ?thesis
    unfolding run prod.case
    using snd' rcv sender_history_card [OF snd'(1)] receiver_history_card [OF rcv(1)]
      sender_terminal_iff [OF snd'(1)] receiver_terminal_iff [OF rcv(1)]
    by (simp add: distinct_card) blast
qed

text \<open>A FIN, a STREAM frame that is refused, a queued reset, all acknowledgements, a reset that is refused.\<close>

theorem stream_state_histories_witness:
  "run_events sender_on [OnSendFin, OnSendStream, OnQueueReset, OnRecvAllAcks, OnSendReset] Ready =
     ([OnSendFin, OnQueueReset, OnRecvAllAcks], DataRecvd) \<and>
   run_events receiver_on [OnReceiveAllData, OnReset, OnReceiveFin] Recv = ([OnReset], RResetRecvd) \<and>
   sender_may {OnSendFin, OnQueueReset} OnRecvAllAcks \<and> \<not> sender_may {OnSendFin, OnQueueReset, OnRecvAllAcks} OnSendReset \<and>
   receiver_may {OnReset} OnAppReadReset"
proof -
  have run: "run_events sender_on [OnSendFin, OnSendStream, OnQueueReset, OnRecvAllAcks, OnSendReset] Ready =
      ([OnSendFin, OnQueueReset, OnRecvAllAcks], DataRecvd)"
    "run_events receiver_on [OnReceiveAllData, OnReset, OnReceiveFin] Recv = ([OnReset], RResetRecvd)"
    by (simp_all add: transition_def is_ok_def)
  note histories = stream_state_histories [of "[OnSendFin, OnSendStream, OnQueueReset, OnRecvAllAcks, OnSendReset]"
      "[OnReceiveAllData, OnReset, OnReceiveFin]", unfolded run prod.case]
  have "sender_may (set (take 2 [OnSendFin, OnQueueReset, OnRecvAllAcks])) ([OnSendFin, OnQueueReset, OnRecvAllAcks] ! 2)"
    "\<not> sender_may (set [OnSendFin, OnQueueReset, OnRecvAllAcks]) OnSendReset"
    "receiver_may (set [OnReset]) OnAppReadReset"
    using histories by (simp_all add: sender_is_terminal_def transition_def is_ok_def)
  with run show ?thesis by (simp only: list.set) (simp add: numeral_2_eq_2)
qed

end
