(* ===== verification/Frames.thy ===== *)
theory Frames
  imports AckFrame StreamId
begin

unbundle bit_operations_syntax

text \<open>
  The frames of \<^verbatim>\<open>quic/s2n-quic-core/src/frame/\<close>: a constructor of \<open>frame\<close> per frame type, the
  encoder and the decoder of each, and the dispatch on the tag in the macro \<open>frames!\<close> of \<^verbatim>\<open>mod.rs\<close>.
  Payloads are byte lists; an ACK frame is generic in what provides its ranges, as in the code.

  An \<open>expect\<close> on the length of a slice that was just decoded with that length cannot fail, and is
  not written out.
\<close>

section \<open>Frame types\<close>

record reset_stream =
  rs_stream_id :: varint
  rs_application_error_code :: varint
  rs_final_size :: varint

record stop_sending =
  ss_stream_id :: varint
  ss_application_error_code :: varint

record crypto_frame =
  cf_offset :: varint
  cf_data :: "u8 list"

record stream_frame =
  sf_stream_id :: varint
  sf_offset :: varint
  sf_is_last_frame :: bool
  sf_is_fin :: bool
  sf_data :: "u8 list"

record max_stream_data =
  msd_stream_id :: varint
  msd_maximum_stream_data :: varint

record max_streams =
  ms_stream_type :: stream_type
  ms_maximum_streams :: varint

record stream_data_blocked =
  sdb_stream_id :: varint
  sdb_stream_data_limit :: varint

record streams_blocked =
  sb_stream_type :: stream_type
  sb_stream_limit :: varint

record new_connection_id =
  nci_sequence_number :: varint
  nci_retire_prior_to :: varint
  nci_connection_id :: "u8 list"
  nci_stateless_reset_token :: "u8 list"

record connection_close =
  cc_error_code :: varint
  cc_frame_type :: "varint option"
  cc_reason :: "u8 list option"

record datagram =
  dg_is_last_frame :: bool
  dg_data :: "u8 list"

text \<open>Frames with a single field carry it as the argument of their constructor.\<close>

datatype 'r frame =
    Padding nat
  | Ping
  | Ack "'r ack_frame"
  | ResetStream reset_stream
  | StopSending stop_sending
  | Crypto crypto_frame
  | NewToken "u8 list"
  | Stream stream_frame
  | MaxData varint
  | MaxStreamData max_stream_data
  | MaxStreams max_streams
  | DataBlocked varint
  | StreamDataBlocked stream_data_blocked
  | StreamsBlocked streams_blocked
  | NewConnectionId new_connection_id
  | RetireConnectionId varint
  | PathChallenge "u8 list"
  | PathResponse "u8 list"
  | ConnectionClose connection_close
  | HandshakeDone
  | Datagram datagram
  | DcStatelessResetTokens "u8 list list"
  | MtuProbingComplete u16

section \<open>Helpers of the codec\<close>

text \<open>\<open>encode_with_len_prefix::<VarInt, _>\<close> and \<open>::<u8, _>\<close> of a byte slice; their decoders.\<close>

definition encode_bytes_varint_len :: "u8 list \<Rightarrow> encoder \<Rightarrow> encoder option" where
  "encode_bytes_varint_len bs =
     encode_with_len_prefix (\<lambda>n. result_ok (varint_from_usize n)) varint_encode (write_slice bs)"

definition encode_bytes_u8_len :: "u8 list \<Rightarrow> encoder \<Rightarrow> encoder option" where
  "encode_bytes_u8_len bs =
     encode_with_len_prefix (\<lambda>n. if n < 2 ^ 8 then Some (word_of_nat n) else None) encode_u8 (write_slice bs)"

definition decode_bytes_varint_len :: "network_endian \<Rightarrow> u8 list \<Rightarrow> u8 list decoded" where
  "decode_bytes_varint_len ne = decode_slice_with_len_prefix (varint_decode ne) varint_try_into_usize"

text \<open>\<open>decode_with_len_prefix::<VarInt, Data>\<close> where \<open>Data\<close> takes all bytes.\<close>

definition decode_data_varint_len :: "network_endian \<Rightarrow> u8 list \<Rightarrow> u8 list decoded" where
  "decode_data_varint_len ne = decode_with_len_prefix (varint_decode ne) varint_try_into_usize decode_rest"

text \<open>The data of a frame that has no length and ends with the packet.\<close>

definition decode_data_to_end :: "u8 list \<Rightarrow> u8 list decoded" where
  "decode_data_to_end buffer =
     rbind (decode_slice buffer (length buffer)) (\<lambda>(data, buffer).
     rbind (decode_rest data) (\<lambda>(data, remaining).
     rbind (ensure_empty remaining) (\<lambda>_. Inr (data, buffer))))"

text \<open>The field lists of \<open>simple_frame_codec!\<close>.\<close>

definition decode_varint2 :: "network_endian \<Rightarrow> u8 list \<Rightarrow> (varint \<times> varint) decoded" where
  "decode_varint2 ne buffer =
     rbind (varint_decode ne buffer) (\<lambda>(a, buffer).
     rbind (varint_decode ne buffer) (\<lambda>(b, buffer). Inr ((a, b), buffer)))"

definition decode_varint3 :: "network_endian \<Rightarrow> u8 list \<Rightarrow> (varint \<times> varint \<times> varint) decoded" where
  "decode_varint3 ne buffer =
     rbind (varint_decode ne buffer) (\<lambda>(a, buffer).
     rbind (decode_varint2 ne buffer) (\<lambda>(b, buffer). Inr ((a, b), buffer)))"

section \<open>Tags\<close>

definition STREAM_TAG :: u8 where "STREAM_TAG = 0x08"
definition OFF_BIT :: u8 where "OFF_BIT = 0x04"
definition STREAM_LEN_BIT :: u8 where "STREAM_LEN_BIT = 0x02"
definition FIN_BIT :: u8 where "FIN_BIT = 0x01"
definition DATAGRAM_TAG :: u8 where "DATAGRAM_TAG = 0x30"
definition DATAGRAM_LEN_BIT :: u8 where "DATAGRAM_LEN_BIT = 0x01"
definition DC_STATELESS_RESET_TOKENS_TAG :: varint where "DC_STATELESS_RESET_TOKENS_TAG = 0xdc0000"
definition MTU_PROBING_COMPLETE_TAG :: varint where "MTU_PROBING_COMPLETE_TAG = 0xdc0002"

definition stream_tag :: "stream_frame \<Rightarrow> u8" where
  "stream_tag self =
     (let tag = STREAM_TAG;
          tag = (if sf_offset self \<noteq> 0 then tag OR OFF_BIT else tag);
          tag = (if \<not> sf_is_last_frame self then tag OR STREAM_LEN_BIT else tag)
      in if sf_is_fin self then tag OR FIN_BIT else tag)"

definition max_streams_tag :: "max_streams \<Rightarrow> u8" where
  "max_streams_tag self = (case ms_stream_type self of Bidirectional \<Rightarrow> 0x12 | Unidirectional \<Rightarrow> 0x13)"

definition streams_blocked_tag :: "streams_blocked \<Rightarrow> u8" where
  "streams_blocked_tag self = (case sb_stream_type self of Bidirectional \<Rightarrow> 0x16 | Unidirectional \<Rightarrow> 0x17)"

definition connection_close_tag :: "connection_close \<Rightarrow> u8" where
  "connection_close_tag self = (if cc_frame_type self \<noteq> None then 0x1c else 0x1d)"

definition datagram_tag :: "datagram \<Rightarrow> u8" where
  "datagram_tag self =
     (if \<not> dg_is_last_frame self then DATAGRAM_TAG OR DATAGRAM_LEN_BIT else DATAGRAM_TAG)"

section \<open>Decoders\<close>

text \<open>The loop that counts padding; the tag itself was already read.\<close>

fun padding_run :: "u8 list \<Rightarrow> nat" where
  "padding_run [] = 0"
| "padding_run (b # bs) = (if b = 0x00 then Suc (padding_run bs) else 0)"

definition padding_decode :: "u8 list \<Rightarrow> nat decoded" where
  "padding_decode buffer =
     (let length = padding_run buffer in
      rbind (skip buffer length) (\<lambda>buffer. Inr (length + 1, buffer)))"

definition reset_stream_decode :: "network_endian \<Rightarrow> u8 list \<Rightarrow> reset_stream decoded" where
  "reset_stream_decode ne buffer =
     rbind (decode_varint3 ne buffer) (\<lambda>((a, b, c), buffer).
     Inr (\<lparr>rs_stream_id = a, rs_application_error_code = b, rs_final_size = c\<rparr>, buffer))"

definition stop_sending_decode :: "network_endian \<Rightarrow> u8 list \<Rightarrow> stop_sending decoded" where
  "stop_sending_decode ne buffer =
     rbind (decode_varint2 ne buffer) (\<lambda>((a, b), buffer).
     Inr (\<lparr>ss_stream_id = a, ss_application_error_code = b\<rparr>, buffer))"

definition crypto_decode :: "network_endian \<Rightarrow> u8 list \<Rightarrow> crypto_frame decoded" where
  "crypto_decode ne buffer =
     rbind (varint_decode ne buffer) (\<lambda>(offset, buffer).
     rbind (decode_data_varint_len ne buffer) (\<lambda>(data, buffer).
     Inr (\<lparr>cf_offset = offset, cf_data = data\<rparr>, buffer)))"

definition new_token_decode :: "network_endian \<Rightarrow> u8 list \<Rightarrow> u8 list decoded" where
  "new_token_decode ne buffer =
     rbind (decode_bytes_varint_len ne buffer) (\<lambda>(token, buffer).
     ensure (token \<noteq> []) (InvariantViolation ''empty Token field'') (Inr (token, buffer)))"

definition stream_decode :: "network_endian \<Rightarrow> u8 \<Rightarrow> u8 list \<Rightarrow> stream_frame decoded" where
  "stream_decode ne tag buffer =
     (let has_offset = (tag AND OFF_BIT = OFF_BIT);
          is_last_frame = (tag AND STREAM_LEN_BIT \<noteq> STREAM_LEN_BIT);
          is_fin = (tag AND FIN_BIT = FIN_BIT) in
      rbind (varint_decode ne buffer) (\<lambda>(stream_id, buffer).
      rbind (if has_offset then varint_decode ne buffer else Inr (0, buffer)) (\<lambda>(offset, buffer).
      rbind (if \<not> is_last_frame then decode_data_varint_len ne buffer else decode_data_to_end buffer)
        (\<lambda>(data, buffer).
      Inr (\<lparr>sf_stream_id = stream_id, sf_offset = offset, sf_is_last_frame = is_last_frame,
             sf_is_fin = is_fin, sf_data = data\<rparr>, buffer)))))"

definition max_stream_data_decode :: "network_endian \<Rightarrow> u8 list \<Rightarrow> max_stream_data decoded" where
  "max_stream_data_decode ne buffer =
     rbind (decode_varint2 ne buffer) (\<lambda>((a, b), buffer).
     Inr (\<lparr>msd_stream_id = a, msd_maximum_stream_data = b\<rparr>, buffer))"

definition max_streams_decode :: "network_endian \<Rightarrow> u8 \<Rightarrow> u8 list \<Rightarrow> max_streams decoded" where
  "max_streams_decode ne tag buffer =
     (let stream_type = (if 0x12 = tag then Bidirectional else Unidirectional) in
      rbind (varint_decode ne buffer) (\<lambda>(maximum_streams, buffer).
      ensure (maximum_streams \<le> 2 ^ 60) (InvariantViolation ''maximum streams cannot exceed 2^60'')
        (Inr (\<lparr>ms_stream_type = stream_type, ms_maximum_streams = maximum_streams\<rparr>, buffer))))"

definition stream_data_blocked_decode :: "network_endian \<Rightarrow> u8 list \<Rightarrow> stream_data_blocked decoded" where
  "stream_data_blocked_decode ne buffer =
     rbind (decode_varint2 ne buffer) (\<lambda>((a, b), buffer).
     Inr (\<lparr>sdb_stream_id = a, sdb_stream_data_limit = b\<rparr>, buffer))"

definition streams_blocked_decode :: "network_endian \<Rightarrow> u8 \<Rightarrow> u8 list \<Rightarrow> streams_blocked decoded" where
  "streams_blocked_decode ne tag buffer =
     (let stream_type = (if 0x16 = tag then Bidirectional else Unidirectional) in
      rbind (varint_decode ne buffer) (\<lambda>(stream_limit, buffer).
      ensure (stream_limit \<le> 2 ^ 60) (InvariantViolation ''maximum streams cannot exceed 2^60'')
        (Inr (\<lparr>sb_stream_type = stream_type, sb_stream_limit = stream_limit\<rparr>, buffer))))"

definition STATELESS_RESET_TOKEN_LEN :: nat where
  "STATELESS_RESET_TOKEN_LEN = 16"

definition new_connection_id_decode :: "network_endian \<Rightarrow> u8 list \<Rightarrow> new_connection_id decoded" where
  "new_connection_id_decode ne buffer =
     rbind (varint_decode ne buffer) (\<lambda>(sequence_number, buffer).
     rbind (varint_decode ne buffer) (\<lambda>(retire_prior_to, buffer).
     ensure (retire_prior_to \<le> sequence_number) (InvariantViolation ''invalid retire prior to value'')
     (rbind (decode_u8 buffer) (\<lambda>(connection_id_len, buffer).
     ensure (1 \<le> connection_id_len \<and> connection_id_len \<le> 20) (InvariantViolation ''invalid connection id length'')
     (rbind (decode_slice buffer (unat connection_id_len)) (\<lambda>(connection_id, buffer).
     rbind (decode_slice buffer STATELESS_RESET_TOKEN_LEN) (\<lambda>(stateless_reset_token, buffer).
     Inr (\<lparr>nci_sequence_number = sequence_number, nci_retire_prior_to = retire_prior_to,
            nci_connection_id = connection_id, nci_stateless_reset_token = stateless_reset_token\<rparr>, buffer))))))))"

definition DATA_LEN :: nat where
  "DATA_LEN = 8"

definition path_challenge_decode :: "u8 list \<Rightarrow> u8 list decoded" where
  "path_challenge_decode buffer = decode_slice buffer DATA_LEN"

text \<open>\<open>PathResponse\<close> decodes a \<open>PathChallenge\<close> and converts it.\<close>

definition path_response_decode :: "u8 list \<Rightarrow> u8 list decoded" where
  "path_response_decode buffer = path_challenge_decode buffer"

definition connection_close_decode :: "network_endian \<Rightarrow> u8 \<Rightarrow> u8 list \<Rightarrow> connection_close decoded" where
  "connection_close_decode ne tag buffer =
     rbind (varint_decode ne buffer) (\<lambda>(error_code, buffer).
     rbind (if tag = 0x1c
            then rbind (varint_decode ne buffer) (\<lambda>(frame_type, buffer). Inr (Some frame_type, buffer))
            else Inr (None, buffer)) (\<lambda>(frame_type, buffer).
     rbind (decode_bytes_varint_len ne buffer) (\<lambda>(reason, buffer).
     let reason = (if reason = [] then None else Some reason) in
     Inr (\<lparr>cc_error_code = error_code, cc_frame_type = frame_type, cc_reason = reason\<rparr>, buffer))))"

definition datagram_decode :: "network_endian \<Rightarrow> u8 \<Rightarrow> u8 list \<Rightarrow> datagram decoded" where
  "datagram_decode ne tag buffer =
     (let is_last_frame = (tag AND DATAGRAM_LEN_BIT \<noteq> DATAGRAM_LEN_BIT) in
      rbind (if \<not> is_last_frame then decode_data_varint_len ne buffer else decode_data_to_end buffer)
        (\<lambda>(data, buffer).
      Inr (\<lparr>dg_is_last_frame = is_last_frame, dg_data = data\<rparr>, buffer)))"

text \<open>
  The conversions of the \<open>zerocopy\<close> crate between a byte slice and a slice of tokens, a parameter.
  Documented behaviour: \<open>ref_from_prefix_with_elems\<close> views a prefix of exactly the requested number
  of elements, or fails if the slice is too short; \<open>as_bytes\<close> is the memory of the elements.
\<close>

record zerocopy =
  ref_from_prefix_with_elems :: "u8 list \<Rightarrow> nat \<Rightarrow> (u8 list list \<times> u8 list) option"
  tokens_as_bytes :: "u8 list list \<Rightarrow> u8 list"

definition MAX_STATELESS_RESET_TOKEN_COUNT :: nat where
  "MAX_STATELESS_RESET_TOKEN_COUNT = 4092"

definition dc_tokens_decode :: "network_endian \<Rightarrow> zerocopy \<Rightarrow> u8 list \<Rightarrow> u8 list list decoded" where
  "dc_tokens_decode ne zc buffer =
     rbind (varint_decode ne buffer) (\<lambda>(count, buffer).
     ensure (count > 0) (InvariantViolation ''at least one stateless token must be supplied'')
     (ensure (unat count \<le> MAX_STATELESS_RESET_TOKEN_COUNT) (InvariantViolation ''too many stateless reset tokens'')
     (ok_or (InvariantViolation ''invalid encoding'') (ref_from_prefix_with_elems zc buffer (unat count)))))"

definition mtu_probing_complete_decode :: "network_endian \<Rightarrow> u8 list \<Rightarrow> u16 decoded" where
  "mtu_probing_complete_decode ne buffer = decode_u16 ne buffer"

section \<open>Dispatch on the tag\<close>

text \<open>\<open>decode_parameterized\<close> followed by the handler of \<open>BasicFrameDecoder\<close>, which wraps the frame.\<close>

definition decode_into :: "('a \<Rightarrow> 'f) \<Rightarrow> 'a decoded \<Rightarrow> 'f decoded" where
  "decode_into wrap r = rbind r (\<lambda>(frame, buffer). Inr (wrap frame, buffer))"

definition handle_extension_frame ::
    "network_endian \<Rightarrow> zerocopy \<Rightarrow> u8 list \<Rightarrow> ack_ranges_decoder frame decoded" where
  "handle_extension_frame ne zc buffer =
     rbind (varint_decode ne buffer) (\<lambda>(tag, buffer).
       if tag = DC_STATELESS_RESET_TOKENS_TAG then
         decode_into DcStatelessResetTokens (dc_tokens_decode ne zc buffer)
       else if tag = MTU_PROBING_COMPLETE_TAG then
         decode_into MtuProbingComplete (mtu_probing_complete_decode ne buffer)
       else Inl (InvariantViolation ''invalid frame''))"

text \<open>The arm of a one-byte tag: skip the tag, decode the frame with it, wrap it.\<close>

definition tag_arm :: "network_endian \<Rightarrow> u8 \<Rightarrow> (u8 list \<Rightarrow> ack_ranges_decoder frame decoded) option" where
  "tag_arm ne tag =
     (if tag = 0x00 then Some (\<lambda>buffer. decode_into Padding (padding_decode buffer))
      else if tag = 0x01 then Some (\<lambda>buffer. Inr (Ping, buffer))
      else if tag \<in> {0x02, 0x03} then Some (\<lambda>buffer. decode_into Ack (ack_decode ne tag buffer))
      else if tag = 0x04 then Some (\<lambda>buffer. decode_into ResetStream (reset_stream_decode ne buffer))
      else if tag = 0x05 then Some (\<lambda>buffer. decode_into StopSending (stop_sending_decode ne buffer))
      else if tag = 0x06 then Some (\<lambda>buffer. decode_into Crypto (crypto_decode ne buffer))
      else if tag = 0x07 then Some (\<lambda>buffer. decode_into NewToken (new_token_decode ne buffer))
      else if 0x08 \<le> tag \<and> tag \<le> 0x0f then Some (\<lambda>buffer. decode_into Stream (stream_decode ne tag buffer))
      else if tag = 0x10 then Some (\<lambda>buffer. decode_into MaxData (varint_decode ne buffer))
      else if tag = 0x11 then Some (\<lambda>buffer. decode_into MaxStreamData (max_stream_data_decode ne buffer))
      else if tag \<in> {0x12, 0x13} then Some (\<lambda>buffer. decode_into MaxStreams (max_streams_decode ne tag buffer))
      else if tag = 0x14 then Some (\<lambda>buffer. decode_into DataBlocked (varint_decode ne buffer))
      else if tag = 0x15 then Some (\<lambda>buffer. decode_into StreamDataBlocked (stream_data_blocked_decode ne buffer))
      else if tag \<in> {0x16, 0x17} then Some (\<lambda>buffer. decode_into StreamsBlocked (streams_blocked_decode ne tag buffer))
      else if tag = 0x18 then Some (\<lambda>buffer. decode_into NewConnectionId (new_connection_id_decode ne buffer))
      else if tag = 0x19 then Some (\<lambda>buffer. decode_into RetireConnectionId (varint_decode ne buffer))
      else if tag = 0x1a then Some (\<lambda>buffer. decode_into PathChallenge (path_challenge_decode buffer))
      else if tag = 0x1b then Some (\<lambda>buffer. decode_into PathResponse (path_response_decode buffer))
      else if tag \<in> {0x1c, 0x1d} then Some (\<lambda>buffer. decode_into ConnectionClose (connection_close_decode ne tag buffer))
      else if tag = 0x1e then Some (\<lambda>buffer. Inr (HandshakeDone, buffer))
      else if tag \<in> {0x30, 0x31} then Some (\<lambda>buffer. decode_into Datagram (datagram_decode ne tag buffer))
      else None)"

definition decode_frame :: "network_endian \<Rightarrow> zerocopy \<Rightarrow> u8 list \<Rightarrow> ack_ranges_decoder frame decoded" where
  "decode_frame ne zc buffer =
     rbind (peek_byte buffer 0) (\<lambda>tag.
       if 0b01000000 \<le> tag then handle_extension_frame ne zc buffer
       else case tag_arm ne tag of
           Some arm \<Rightarrow> rbind (skip buffer 1) arm
         | None \<Rightarrow> handle_extension_frame ne zc buffer)"

section \<open>Encoders\<close>

definition padding_encode :: "nat \<Rightarrow> encoder \<Rightarrow> encoder option" where
  "padding_encode len = write_repeated len 0"

definition reset_stream_encode :: "reset_stream \<Rightarrow> encoder \<Rightarrow> encoder option" where
  "reset_stream_encode self = enc_seq [encode_u8 0x04, varint_encode (rs_stream_id self),
     varint_encode (rs_application_error_code self), varint_encode (rs_final_size self)]"

definition stop_sending_encode :: "stop_sending \<Rightarrow> encoder \<Rightarrow> encoder option" where
  "stop_sending_encode self = enc_seq [encode_u8 0x05, varint_encode (ss_stream_id self),
     varint_encode (ss_application_error_code self)]"

definition crypto_encode :: "crypto_frame \<Rightarrow> encoder \<Rightarrow> encoder option" where
  "crypto_encode self = enc_seq [encode_u8 0x06, varint_encode (cf_offset self),
     encode_bytes_varint_len (cf_data self)]"

definition new_token_encode :: "u8 list \<Rightarrow> encoder \<Rightarrow> encoder option" where
  "new_token_encode token = enc_seq [encode_u8 0x07, encode_bytes_varint_len token]"

definition stream_encode :: "stream_frame \<Rightarrow> encoder \<Rightarrow> encoder option" where
  "stream_encode self = enc_seq [encode_u8 (stream_tag self), varint_encode (sf_stream_id self),
     encode_option varint_encode (if sf_offset self \<noteq> 0 then Some (sf_offset self) else None),
     if sf_is_last_frame self then write_slice (sf_data self) else encode_bytes_varint_len (sf_data self)]"

definition max_stream_data_encode :: "max_stream_data \<Rightarrow> encoder \<Rightarrow> encoder option" where
  "max_stream_data_encode self = enc_seq [encode_u8 0x11, varint_encode (msd_stream_id self),
     varint_encode (msd_maximum_stream_data self)]"

definition max_streams_encode :: "max_streams \<Rightarrow> encoder \<Rightarrow> encoder option" where
  "max_streams_encode self = enc_seq [encode_u8 (max_streams_tag self), varint_encode (ms_maximum_streams self)]"

definition stream_data_blocked_encode :: "stream_data_blocked \<Rightarrow> encoder \<Rightarrow> encoder option" where
  "stream_data_blocked_encode self = enc_seq [encode_u8 0x15, varint_encode (sdb_stream_id self),
     varint_encode (sdb_stream_data_limit self)]"

definition streams_blocked_encode :: "streams_blocked \<Rightarrow> encoder \<Rightarrow> encoder option" where
  "streams_blocked_encode self = enc_seq [encode_u8 (streams_blocked_tag self), varint_encode (sb_stream_limit self)]"

definition new_connection_id_encode :: "new_connection_id \<Rightarrow> encoder \<Rightarrow> encoder option" where
  "new_connection_id_encode self = enc_seq [encode_u8 0x18, varint_encode (nci_sequence_number self),
     varint_encode (nci_retire_prior_to self), encode_bytes_u8_len (nci_connection_id self),
     write_slice (nci_stateless_reset_token self)]"

definition path_challenge_encode :: "u8 list \<Rightarrow> encoder \<Rightarrow> encoder option" where
  "path_challenge_encode data = enc_seq [encode_u8 0x1a, write_slice data]"

definition path_response_encode :: "u8 list \<Rightarrow> encoder \<Rightarrow> encoder option" where
  "path_response_encode data = enc_seq [encode_u8 0x1b, write_slice data]"

definition connection_close_encode :: "connection_close \<Rightarrow> encoder \<Rightarrow> encoder option" where
  "connection_close_encode self = enc_seq [encode_u8 (connection_close_tag self), varint_encode (cc_error_code self),
     encode_option varint_encode (cc_frame_type self),
     case cc_reason self of Some reason \<Rightarrow> encode_bytes_varint_len reason | None \<Rightarrow> encode_u8 0]"

definition datagram_encode :: "datagram \<Rightarrow> encoder \<Rightarrow> encoder option" where
  "datagram_encode self = enc_seq [encode_u8 (datagram_tag self),
     if dg_is_last_frame self then write_slice (dg_data self) else encode_bytes_varint_len (dg_data self)]"

text \<open>The count is converted with an \<open>expect\<close> before anything after the tag is written.\<close>

definition dc_tokens_encode :: "zerocopy \<Rightarrow> u8 list list \<Rightarrow> encoder \<Rightarrow> encoder option" where
  "dc_tokens_encode zc tokens = enc_then (varint_encode DC_STATELESS_RESET_TOKENS_TAG) (\<lambda>buffer.
     Option.bind (result_ok (varint_from_usize (length tokens))) (\<lambda>count.
     enc_seq [varint_encode count, write_slice (tokens_as_bytes zc tokens)] buffer))"

definition mtu_probing_complete_encode :: "network_endian \<Rightarrow> u16 \<Rightarrow> encoder \<Rightarrow> encoder option" where
  "mtu_probing_complete_encode ne mtu = enc_seq [varint_encode MTU_PROBING_COMPLETE_TAG, encode_u16 ne mtu]"

text \<open>
  The data of a frame is a byte slice, written into the buffer. An encoder that is asked to write an
  owned \<open>Bytes\<close> may keep it aside instead and write it at the next flush: \<open>scatter_write_bytes\<close>.
\<close>

fun frame_encode ::
    "network_endian \<Rightarrow> zerocopy \<Rightarrow> ('r \<Rightarrow> ack_range list) \<Rightarrow> 'r frame \<Rightarrow> encoder \<Rightarrow> encoder option" where
  "frame_encode ne zc ranges (Padding n) = padding_encode n"
| "frame_encode ne zc ranges Ping = encode_u8 0x01"
| "frame_encode ne zc ranges (Ack f) = ack_encode ranges f"
| "frame_encode ne zc ranges (ResetStream f) = reset_stream_encode f"
| "frame_encode ne zc ranges (StopSending f) = stop_sending_encode f"
| "frame_encode ne zc ranges (Crypto f) = crypto_encode f"
| "frame_encode ne zc ranges (NewToken t) = new_token_encode t"
| "frame_encode ne zc ranges (Stream f) = stream_encode f"
| "frame_encode ne zc ranges (MaxData v) = enc_seq [encode_u8 0x10, varint_encode v]"
| "frame_encode ne zc ranges (MaxStreamData f) = max_stream_data_encode f"
| "frame_encode ne zc ranges (MaxStreams f) = max_streams_encode f"
| "frame_encode ne zc ranges (DataBlocked v) = enc_seq [encode_u8 0x14, varint_encode v]"
| "frame_encode ne zc ranges (StreamDataBlocked f) = stream_data_blocked_encode f"
| "frame_encode ne zc ranges (StreamsBlocked f) = streams_blocked_encode f"
| "frame_encode ne zc ranges (NewConnectionId f) = new_connection_id_encode f"
| "frame_encode ne zc ranges (RetireConnectionId v) = enc_seq [encode_u8 0x19, varint_encode v]"
| "frame_encode ne zc ranges (PathChallenge d) = path_challenge_encode d"
| "frame_encode ne zc ranges (PathResponse d) = path_response_encode d"
| "frame_encode ne zc ranges (ConnectionClose f) = connection_close_encode f"
| "frame_encode ne zc ranges HandshakeDone = encode_u8 0x1e"
| "frame_encode ne zc ranges (Datagram f) = datagram_encode f"
| "frame_encode ne zc ranges (DcStatelessResetTokens ts) = dc_tokens_encode zc ts"
| "frame_encode ne zc ranges (MtuProbingComplete mtu) = mtu_probing_complete_encode ne mtu"

section \<open>Fitting a frame into a packet\<close>

text \<open>\<open>try_fit\<close> of CRYPTO and STREAM frames; \<open>None\<close> is \<open>FitError\<close>. The data is given by its length.\<close>

definition crypto_try_fit :: "varint \<Rightarrow> nat \<Rightarrow> nat \<Rightarrow> nat option" where
  "crypto_try_fit offset data_len cap =
     (let fixed_len = 1 + varint_encoding_size offset in
      Option.bind (checked_sub_nat cap fixed_len) (\<lambda>remaining.
      let max_data_len = min remaining data_len in
      Option.bind (result_ok (varint_from_usize max_data_len)) (\<lambda>len_prefix.
      Option.bind (checked_sub_nat remaining (varint_encoding_size len_prefix)) (\<lambda>prefixed_data_len.
      Some (min prefixed_data_len data_len)))))"

text \<open>The result and the new \<open>is_last_frame\<close>.\<close>

definition stream_try_fit :: "varint \<Rightarrow> varint \<Rightarrow> bool \<Rightarrow> nat \<Rightarrow> nat \<Rightarrow> nat option \<times> bool" where
  "stream_try_fit stream_id offset is_last_frame data_len cap =
     (let fixed_len = 1 + varint_encoding_size stream_id;
          fixed_len = (if offset \<noteq> 0 then fixed_len + varint_encoding_size offset else fixed_len) in
      case checked_sub_nat cap fixed_len of
        None \<Rightarrow> (None, is_last_frame)
      | Some remaining \<Rightarrow>
          let max_data_len = min remaining data_len in
          if max_data_len = remaining then (Some max_data_len, True)
          else
            (Option.bind (result_ok (varint_from_usize max_data_len)) (\<lambda>len_prefix.
             Option.bind (checked_sub_nat remaining (varint_encoding_size len_prefix)) (\<lambda>prefixed_data_len.
             Some (min prefixed_data_len data_len))), False))"

text \<open>The hand-written size of a STREAM frame; \<open>None\<close> is the \<open>unwrap\<close> of a length that is no varint.\<close>

definition stream_encoding_size :: "stream_frame \<Rightarrow> nat option" where
  "stream_encoding_size self =
     (let len = 1 + varint_encoding_size (sf_stream_id self);
          len = (if sf_offset self \<noteq> 0 then len + varint_encoding_size (sf_offset self) else len);
          data_len = length (sf_data self);
          len = len + data_len in
      if \<not> sf_is_last_frame self then
        Option.bind (result_ok (varint_from_usize data_len)) (\<lambda>l. Some (len + varint_encoding_size l))
      else Some len)"

section \<open>Classification\<close>

datatype ack_elicitation = NonEliciting | Eliciting

fun ack_elicitation_or :: "ack_elicitation \<Rightarrow> ack_elicitation \<Rightarrow> ack_elicitation" where
  "ack_elicitation_or Eliciting _ = Eliciting"
| "ack_elicitation_or _ Eliciting = Eliciting"
| "ack_elicitation_or _ _ = NonEliciting"

definition frame_ack_elicitation :: "'r frame \<Rightarrow> ack_elicitation" where
  "frame_ack_elicitation f =
     (case f of Ack _ \<Rightarrow> NonEliciting | ConnectionClose _ \<Rightarrow> NonEliciting | Padding _ \<Rightarrow> NonEliciting
      | _ \<Rightarrow> Eliciting)"

definition frame_is_congestion_controlled :: "'r frame \<Rightarrow> bool" where
  "frame_is_congestion_controlled f = (case f of Ack _ \<Rightarrow> False | Padding _ \<Rightarrow> False | _ \<Rightarrow> True)"

datatype probe = NonProbing | Probing

fun probe_or :: "probe \<Rightarrow> probe \<Rightarrow> probe" where
  "probe_or Probing Probing = Probing"
| "probe_or _ _ = NonProbing"

definition frame_path_validation :: "'r frame \<Rightarrow> probe" where
  "frame_path_validation f =
     (case f of NewConnectionId _ \<Rightarrow> Probing | Padding _ \<Rightarrow> Probing | PathChallenge _ \<Rightarrow> Probing
      | PathResponse _ \<Rightarrow> Probing | _ \<Rightarrow> NonProbing)"

end
