(* ===== verification/FrameCodec.thy ===== *)
theory FrameCodec
  imports Frames
begin

unbundle bit_operations_syntax

text \<open>
  Encoding and decoding of frames: the wire image of every frame, that the encoders write it, that
  the decoder reads it back whatever follows, and that every frame the decoder accepts meets the
  constraints of the protocol.
\<close>

section \<open>The wire image\<close>

definition zerocopy_ok :: "zerocopy \<Rightarrow> bool" where
  "zerocopy_ok zc \<longleftrightarrow>
     (\<forall>ts. tokens_as_bytes zc ts = concat ts) \<and>
     (\<forall>buf n. if n * STATELESS_RESET_TOKEN_LEN \<le> length buf
        then \<exists>ts. ref_from_prefix_with_elems zc buf n = Some (ts, drop (n * STATELESS_RESET_TOKEN_LEN) buf) \<and>
               length ts = n \<and> list_all (\<lambda>t. length t = STATELESS_RESET_TOKEN_LEN) ts \<and>
               concat ts = take (n * STATELESS_RESET_TOKEN_LEN) buf
        else ref_from_prefix_with_elems zc buf n = None)"

definition bytes_wire :: "u8 list \<Rightarrow> u8 list" where
  "bytes_wire bs = varint_wire (word_of_nat (length bs)) @ bs"

fun frame_wire :: "('r \<Rightarrow> ack_range list) \<Rightarrow> 'r frame \<Rightarrow> u8 list" where
  "frame_wire ranges (Padding n) = replicate n 0"
| "frame_wire ranges Ping = [0x01]"
| "frame_wire ranges (Ack f) = ack_tag f # ack_wire ranges f"
| "frame_wire ranges (ResetStream f) = 0x04 # varint_wire (rs_stream_id f) @
     varint_wire (rs_application_error_code f) @ varint_wire (rs_final_size f)"
| "frame_wire ranges (StopSending f) = 0x05 # varint_wire (ss_stream_id f) @ varint_wire (ss_application_error_code f)"
| "frame_wire ranges (Crypto f) = 0x06 # varint_wire (cf_offset f) @ bytes_wire (cf_data f)"
| "frame_wire ranges (NewToken t) = 0x07 # bytes_wire t"
| "frame_wire ranges (Stream f) = stream_tag f # varint_wire (sf_stream_id f) @
     (if sf_offset f \<noteq> 0 then varint_wire (sf_offset f) else []) @
     (if sf_is_last_frame f then sf_data f else bytes_wire (sf_data f))"
| "frame_wire ranges (MaxData v) = 0x10 # varint_wire v"
| "frame_wire ranges (MaxStreamData f) = 0x11 # varint_wire (msd_stream_id f) @ varint_wire (msd_maximum_stream_data f)"
| "frame_wire ranges (MaxStreams f) = max_streams_tag f # varint_wire (ms_maximum_streams f)"
| "frame_wire ranges (DataBlocked v) = 0x14 # varint_wire v"
| "frame_wire ranges (StreamDataBlocked f) = 0x15 # varint_wire (sdb_stream_id f) @ varint_wire (sdb_stream_data_limit f)"
| "frame_wire ranges (StreamsBlocked f) = streams_blocked_tag f # varint_wire (sb_stream_limit f)"
| "frame_wire ranges (NewConnectionId f) = 0x18 # varint_wire (nci_sequence_number f) @
     varint_wire (nci_retire_prior_to f) @ word_of_nat (length (nci_connection_id f)) # nci_connection_id f @
     nci_stateless_reset_token f"
| "frame_wire ranges (RetireConnectionId v) = 0x19 # varint_wire v"
| "frame_wire ranges (PathChallenge d) = 0x1a # d"
| "frame_wire ranges (PathResponse d) = 0x1b # d"
| "frame_wire ranges (ConnectionClose f) = connection_close_tag f # varint_wire (cc_error_code f) @
     (case cc_frame_type f of None \<Rightarrow> [] | Some t \<Rightarrow> varint_wire t) @
     (case cc_reason f of None \<Rightarrow> [0] | Some r \<Rightarrow> bytes_wire r)"
| "frame_wire ranges HandshakeDone = [0x1e]"
| "frame_wire ranges (Datagram f) = datagram_tag f # (if dg_is_last_frame f then dg_data f else bytes_wire (dg_data f))"
| "frame_wire ranges (DcStatelessResetTokens ts) = varint_wire DC_STATELESS_RESET_TOKENS_TAG @
     varint_wire (word_of_nat (length ts)) @ concat ts"
| "frame_wire ranges (MtuProbingComplete mtu) = varint_wire MTU_PROBING_COMPLETE_TAG @ to_be_bytes 2 mtu"

fun frame_ok :: "('r \<Rightarrow> ack_range list) \<Rightarrow> 'r frame \<Rightarrow> bool" where
  "frame_ok ranges (Padding n) \<longleftrightarrow> 0 < n"
| "frame_ok ranges Ping \<longleftrightarrow> True"
| "frame_ok ranges (Ack f) \<longleftrightarrow> ack_frame_ok ranges f"
| "frame_ok ranges (ResetStream f) \<longleftrightarrow> varint_valid (rs_stream_id f) \<and>
     varint_valid (rs_application_error_code f) \<and> varint_valid (rs_final_size f)"
| "frame_ok ranges (StopSending f) \<longleftrightarrow> varint_valid (ss_stream_id f) \<and> varint_valid (ss_application_error_code f)"
| "frame_ok ranges (Crypto f) \<longleftrightarrow> varint_valid (cf_offset f) \<and> length (cf_data f) < 2 ^ 62"
| "frame_ok ranges (NewToken t) \<longleftrightarrow> t \<noteq> [] \<and> length t < 2 ^ 62"
| "frame_ok ranges (Stream f) \<longleftrightarrow> varint_valid (sf_stream_id f) \<and> varint_valid (sf_offset f) \<and>
     length (sf_data f) < 2 ^ 62"
| "frame_ok ranges (MaxData v) \<longleftrightarrow> varint_valid v"
| "frame_ok ranges (MaxStreamData f) \<longleftrightarrow> varint_valid (msd_stream_id f) \<and> varint_valid (msd_maximum_stream_data f)"
| "frame_ok ranges (MaxStreams f) \<longleftrightarrow> unat (ms_maximum_streams f) \<le> 2 ^ 60"
| "frame_ok ranges (DataBlocked v) \<longleftrightarrow> varint_valid v"
| "frame_ok ranges (StreamDataBlocked f) \<longleftrightarrow> varint_valid (sdb_stream_id f) \<and> varint_valid (sdb_stream_data_limit f)"
| "frame_ok ranges (StreamsBlocked f) \<longleftrightarrow> unat (sb_stream_limit f) \<le> 2 ^ 60"
| "frame_ok ranges (NewConnectionId f) \<longleftrightarrow> varint_valid (nci_sequence_number f) \<and>
     nci_retire_prior_to f \<le> nci_sequence_number f \<and>
     1 \<le> length (nci_connection_id f) \<and> length (nci_connection_id f) \<le> 20 \<and>
     length (nci_stateless_reset_token f) = STATELESS_RESET_TOKEN_LEN"
| "frame_ok ranges (RetireConnectionId v) \<longleftrightarrow> varint_valid v"
| "frame_ok ranges (PathChallenge d) \<longleftrightarrow> length d = DATA_LEN"
| "frame_ok ranges (PathResponse d) \<longleftrightarrow> length d = DATA_LEN"
| "frame_ok ranges (ConnectionClose f) \<longleftrightarrow> varint_valid (cc_error_code f) \<and>
     (case cc_frame_type f of None \<Rightarrow> True | Some t \<Rightarrow> varint_valid t) \<and>
     (case cc_reason f of None \<Rightarrow> True | Some r \<Rightarrow> r \<noteq> [] \<and> length r < 2 ^ 62)"
| "frame_ok ranges HandshakeDone \<longleftrightarrow> True"
| "frame_ok ranges (Datagram f) \<longleftrightarrow> length (dg_data f) < 2 ^ 62"
| "frame_ok ranges (DcStatelessResetTokens ts) \<longleftrightarrow> 0 < length ts \<and> length ts \<le> MAX_STATELESS_RESET_TOKEN_COUNT \<and>
     list_all (\<lambda>t. length t = STATELESS_RESET_TOKEN_LEN) ts"
| "frame_ok ranges (MtuProbingComplete mtu) \<longleftrightarrow> True"

text \<open>
  What may follow a frame in a packet: nothing after a frame without length, anything but more
  padding after padding (adjacent padding is one frame), everything else after other frames.
\<close>

fun frame_followed_by :: "'r frame \<Rightarrow> u8 list \<Rightarrow> bool" where
  "frame_followed_by (Padding n) rest \<longleftrightarrow> rest = [] \<or> hd rest \<noteq> 0"
| "frame_followed_by (Stream f) rest \<longleftrightarrow> sf_is_last_frame f \<longrightarrow> rest = []"
| "frame_followed_by (Datagram f) rest \<longleftrightarrow> dg_is_last_frame f \<longrightarrow> rest = []"
| "frame_followed_by _ rest \<longleftrightarrow> True"

text \<open>A frame with its ACK ranges spelled out, to compare frames with different providers of ranges.\<close>

fun frame_view :: "('r \<Rightarrow> ack_range list) \<Rightarrow> 'r frame \<Rightarrow> ack_range list frame" where
  "frame_view ranges (Padding n) = Padding n"
| "frame_view ranges Ping = Ping"
| "frame_view ranges (Ack f) = Ack \<lparr>ack_delay = ack_delay f, ack_ranges = ranges (ack_ranges f),
     ack_ecn_counts = ack_ecn_counts f\<rparr>"
| "frame_view ranges (ResetStream f) = ResetStream f"
| "frame_view ranges (StopSending f) = StopSending f"
| "frame_view ranges (Crypto f) = Crypto f"
| "frame_view ranges (NewToken t) = NewToken t"
| "frame_view ranges (Stream f) = Stream f"
| "frame_view ranges (MaxData v) = MaxData v"
| "frame_view ranges (MaxStreamData f) = MaxStreamData f"
| "frame_view ranges (MaxStreams f) = MaxStreams f"
| "frame_view ranges (DataBlocked v) = DataBlocked v"
| "frame_view ranges (StreamDataBlocked f) = StreamDataBlocked f"
| "frame_view ranges (StreamsBlocked f) = StreamsBlocked f"
| "frame_view ranges (NewConnectionId f) = NewConnectionId f"
| "frame_view ranges (RetireConnectionId v) = RetireConnectionId v"
| "frame_view ranges (PathChallenge d) = PathChallenge d"
| "frame_view ranges (PathResponse d) = PathResponse d"
| "frame_view ranges (ConnectionClose f) = ConnectionClose f"
| "frame_view ranges HandshakeDone = HandshakeDone"
| "frame_view ranges (Datagram f) = Datagram f"
| "frame_view ranges (DcStatelessResetTokens ts) = DcStatelessResetTokens ts"
| "frame_view ranges (MtuProbingComplete mtu) = MtuProbingComplete mtu"

section \<open>Encoding\<close>

lemma emits_eq: "emits f bs \<Longrightarrow> bs = bs' \<Longrightarrow> emits f bs'"
  by simp

lemma encode_bytes_varint_len_emits [emits_intros]:
  assumes "length bs < 2 ^ 62"
  shows "emits (encode_bytes_varint_len bs) (bytes_wire bs)"
  unfolding encode_bytes_varint_len_def bytes_wire_def
  by (rule encode_with_len_prefix_emits [OF write_slice_emits _ varint_encode_emits])
     (simp add: varint_from_usize_Inr [OF assms])

lemma encode_bytes_u8_len_emits [emits_intros]:
  assumes "length bs < 2 ^ 8"
  shows "emits (encode_bytes_u8_len bs) (word_of_nat (length bs) # bs)"
  using encode_with_len_prefix_emits [OF write_slice_emits, of "\<lambda>n. if n < 2 ^ 8 then Some (word_of_nat n) else None" bs
      "word_of_nat (length bs) :: u8" encode_u8, OF _ encode_u8_emits] assms
  by (simp add: encode_bytes_u8_len_def)

lemma encode_bytes_choice_emits [emits_intros]:
  assumes "length bs < 2 ^ 62"
  shows "emits (if b then write_slice bs else encode_bytes_varint_len bs) (if b then bs else bytes_wire bs)"
  using encode_bytes_varint_len_emits [OF assms] write_slice_emits by simp

lemma fixed_frames_emit:
  "emits (reset_stream_encode a) (frame_wire ranges (ResetStream a))"
  "emits (stop_sending_encode b) (frame_wire ranges (StopSending b))"
  "emits (enc_seq [encode_u8 0x10, varint_encode v]) (frame_wire ranges (MaxData v))"
  "emits (max_stream_data_encode d) (frame_wire ranges (MaxStreamData d))"
  "emits (max_streams_encode e) (frame_wire ranges (MaxStreams e))"
  "emits (enc_seq [encode_u8 0x14, varint_encode v]) (frame_wire ranges (DataBlocked v))"
  "emits (stream_data_blocked_encode g) (frame_wire ranges (StreamDataBlocked g))"
  "emits (streams_blocked_encode h) (frame_wire ranges (StreamsBlocked h))"
  "emits (enc_seq [encode_u8 0x19, varint_encode v]) (frame_wire ranges (RetireConnectionId v))"
  "emits (path_challenge_encode j) (frame_wire ranges (PathChallenge j))"
  "emits (path_response_encode j) (frame_wire ranges (PathResponse j))"
  unfolding reset_stream_encode_def stop_sending_encode_def max_stream_data_encode_def max_streams_encode_def
    stream_data_blocked_encode_def streams_blocked_encode_def path_challenge_encode_def path_response_encode_def
  by (rule emits_eq, (rule emits_intros)+, simp; fail)+

lemma sized_frames_emit:
  "frame_ok ranges (Crypto a) \<Longrightarrow> emits (crypto_encode a) (frame_wire ranges (Crypto a))"
  "frame_ok ranges (NewToken b) \<Longrightarrow> emits (new_token_encode b) (frame_wire ranges (NewToken b))"
  "frame_ok ranges (Stream c) \<Longrightarrow> emits (stream_encode c) (frame_wire ranges (Stream c))"
  "frame_ok ranges (NewConnectionId d) \<Longrightarrow> emits (new_connection_id_encode d) (frame_wire ranges (NewConnectionId d))"
  "frame_ok ranges (Datagram e) \<Longrightarrow> emits (datagram_encode e) (frame_wire ranges (Datagram e))"
  unfolding crypto_encode_def new_token_encode_def stream_encode_def new_connection_id_encode_def datagram_encode_def
  by (rule emits_eq, (rule emits_intros | (simp; fail))+; fail)+

lemma frame_encode_emits:
  assumes ne: "network_endian_ok ne" and zc: "zerocopy_ok zc" and ok: "frame_ok ranges f"
  shows "emits (frame_encode ne zc ranges f) (frame_wire ranges f)"
proof (cases f)
  case (ConnectionClose c)
  have "emits (case cc_reason c of Some reason \<Rightarrow> encode_bytes_varint_len reason | None \<Rightarrow> encode_u8 0)
      (case cc_reason c of None \<Rightarrow> [0] | Some r \<Rightarrow> bytes_wire r)"
    using ok ConnectionClose by (cases "cc_reason c") (auto intro!: emits_intros)
  then show ?thesis
    unfolding ConnectionClose frame_encode.simps connection_close_encode_def
    by (rule emits_eq [OF enc_seq_Cons_emits [OF encode_u8_emits enc_seq_Cons_emits [OF varint_encode_emits
      enc_seq_Cons_emits [OF encode_option_emits [OF varint_encode_emits] enc_seq_Cons_emits [OF _ enc_seq_Nil_emits]]]]]) simp
next
  case (DcStatelessResetTokens ts)
  have len: "varint_from_usize (length ts) = Inr (word_of_nat (length ts))"
    using ok DcStatelessResetTokens by (intro varint_from_usize_Inr) (simp add: MAX_STATELESS_RESET_TOKEN_COUNT_def)
  have "dc_tokens_encode zc ts = enc_then (varint_encode DC_STATELESS_RESET_TOKENS_TAG)
      (enc_seq [varint_encode (word_of_nat (length ts)), write_slice (concat ts)])"
    using zc by (simp add: dc_tokens_encode_def len zerocopy_ok_def enc_seq_fun del: enc_seq.simps)
  then show ?thesis
    using enc_then_emits [OF varint_encode_emits enc_seq_Cons_emits [OF varint_encode_emits
      enc_seq_Cons_emits [OF write_slice_emits enc_seq_Nil_emits]]]
    by (simp add: DcStatelessResetTokens)
next
  case (Ack a)
  then show ?thesis using ack_encode_emits [OF ne, of ranges a] ok by simp
next
  case (Padding n)
  then show ?thesis by (simp add: padding_encode_def write_repeated_emits)
next
  case (MtuProbingComplete mtu)
  show ?thesis
    unfolding MtuProbingComplete frame_encode.simps mtu_probing_complete_encode_def
    by (rule emits_eq, (rule emits_intros ne)+) simp
qed (use ok fixed_frames_emit [of _ ranges] sized_frames_emit [of ranges] in
    \<open>simp_all only: frame_encode.simps, simp_all add: emits_intros\<close>)

section \<open>Decoding\<close>

lemma bytes_wire_len:
  assumes "length bs < 2 ^ 62"
  shows "varint_valid (word_of_nat (length bs))" "unat (word_of_nat (length bs) :: varint) = length bs"
  using assms by (simp_all add: varint_max_less unat_of_nat_no_wrap)

lemma decode_bytes_varint_len_wire [decode_simps]:
  "network_endian_ok ne \<Longrightarrow> length bs < 2 ^ 62 \<Longrightarrow> decode_bytes_varint_len ne (bytes_wire bs @ rest) = Inr (bs, rest)"
  using decode_slice_with_len_prefix_append [of "varint_decode ne" "varint_wire (word_of_nat (length bs))" bs rest
      "word_of_nat (length bs)" varint_try_into_usize]
  by (simp add: decode_bytes_varint_len_def bytes_wire_def varint_decode_wire bytes_wire_len)

lemma decode_data_varint_len_wire [decode_simps]:
  "network_endian_ok ne \<Longrightarrow> length bs < 2 ^ 62 \<Longrightarrow> decode_data_varint_len ne (bytes_wire bs @ rest) = Inr (bs, rest)"
  using decode_bytes_varint_len_wire [of ne bs rest]
  by (simp add: decode_data_varint_len_def decode_with_len_prefix_def decode_bytes_varint_len_def decode_rest_eq
      ensure_empty_def)

lemma decode_data_to_end_eq [decode_simps]: "decode_data_to_end bs = Inr (bs, [])"
  by (simp add: decode_data_to_end_def decode_rest_eq ensure_empty_def decode_slice_def ensure_len_def)

lemma padding_run_replicate:
  "rest = [] \<or> hd rest \<noteq> 0 \<Longrightarrow> padding_run (replicate n 0 @ rest) = n"
proof (induction n)
  case 0
  then show ?case by (cases rest) auto
qed simp

text \<open>The \<open>expect\<close> of the padding decoder: the counted bytes are there.\<close>

lemma padding_skip: "skip buffer (padding_run buffer) = Inr (drop (padding_run buffer) buffer)"
proof -
  have "padding_run buffer \<le> length buffer" by (induction buffer) auto
  then show ?thesis by (simp add: skip_def decode_slice_def ensure_len_def)
qed

lemma decode_frame_tag:
  assumes "tag < 0x40" "tag_arm ne tag = Some arm"
  shows "decode_frame ne zc (tag # buffer) = arm buffer"
  using assms skip_append [of "[tag]" 1 buffer]
  by (auto simp: decode_frame_def peek_byte_def dest: leD)

lemma stream_tag_bits:
  "stream_tag f < 0x40" "0x08 \<le> stream_tag f" "stream_tag f \<le> 0x0f"
  "stream_tag f AND OFF_BIT = OFF_BIT \<longleftrightarrow> sf_offset f \<noteq> 0"
  "stream_tag f AND STREAM_LEN_BIT = STREAM_LEN_BIT \<longleftrightarrow> \<not> sf_is_last_frame f"
  "stream_tag f AND FIN_BIT = FIN_BIT \<longleftrightarrow> sf_is_fin f"
  by (cases "sf_offset f = 0"; cases "sf_is_last_frame f"; cases "sf_is_fin f";
      simp add: stream_tag_def STREAM_TAG_def OFF_BIT_def STREAM_LEN_BIT_def FIN_BIT_def)+

lemma stream_tag_arm: "tag_arm ne (stream_tag f) = Some (\<lambda>buffer. decode_into Stream (stream_decode ne (stream_tag f) buffer))"
proof -
  have "stream_tag f \<notin> {0, 1, 2, 3, 4, 5, 6, 7}" using stream_tag_bits(2) [of f] by (auto simp: word_le_nat_alt)
  with stream_tag_bits(2,3) [of f] show ?thesis by (simp add: tag_arm_def)
qed

lemma stream_decode_wire:
  assumes "network_endian_ok ne" "frame_ok ranges (Stream f)" "frame_followed_by (Stream f) rest"
  shows "decode_frame ne zc (frame_wire ranges (Stream f) @ rest) = Inr (Stream f, rest)"
  using assms
  by (simp add: decode_frame_tag [OF stream_tag_bits(1) stream_tag_arm] decode_into_def stream_decode_def
      stream_tag_bits varint_decode_wire Let_def decode_simps)

lemma small_tags:
  "max_streams_tag a < 0x40" "streams_blocked_tag b < 0x40" "connection_close_tag c < 0x40" "datagram_tag d < 0x40"
  "ack_tag f < 0x40"
  by (simp_all add: max_streams_tag_def streams_blocked_tag_def connection_close_tag_def datagram_tag_def
      DATAGRAM_TAG_def DATAGRAM_LEN_BIT_def ack_tag_def ACK_TAG_def ACK_W_ECN_TAG_def split: stream_type.splits)

lemma tag_arms:
  "tag_arm ne (max_streams_tag a) = Some (\<lambda>buffer. decode_into MaxStreams (max_streams_decode ne (max_streams_tag a) buffer))"
  "tag_arm ne (streams_blocked_tag b) =
     Some (\<lambda>buffer. decode_into StreamsBlocked (streams_blocked_decode ne (streams_blocked_tag b) buffer))"
  "tag_arm ne (connection_close_tag c) =
     Some (\<lambda>buffer. decode_into ConnectionClose (connection_close_decode ne (connection_close_tag c) buffer))"
  "tag_arm ne (datagram_tag d) = Some (\<lambda>buffer. decode_into Datagram (datagram_decode ne (datagram_tag d) buffer))"
  "tag_arm ne (ack_tag f) = Some (\<lambda>buffer. decode_into Ack (ack_decode ne (ack_tag f) buffer))"
  by (cases "ms_stream_type a", simp_all add: max_streams_tag_def tag_arm_def)
     (cases "sb_stream_type b", simp_all add: streams_blocked_tag_def tag_arm_def,
      simp_all add: connection_close_tag_def datagram_tag_def tag_arm_def
        DATAGRAM_TAG_def DATAGRAM_LEN_BIT_def ack_tag_def ACK_TAG_def ACK_W_ECN_TAG_def)

lemma extension_tags:
  "varint_valid DC_STATELESS_RESET_TOKENS_TAG" "varint_valid MTU_PROBING_COMPLETE_TAG"
  "varint_wire DC_STATELESS_RESET_TOKENS_TAG = [0x80, 0xdc, 0, 0]"
  "varint_wire MTU_PROBING_COMPLETE_TAG = [0x80, 0xdc, 0, 2]"
proof -
  have upt: "[0..<4] = [0, 1, 2, 3 :: nat]" by (simp add: upt_rec)
  show "varint_valid DC_STATELESS_RESET_TOKENS_TAG" "varint_valid MTU_PROBING_COMPLETE_TAG"
    "varint_wire DC_STATELESS_RESET_TOKENS_TAG = [0x80, 0xdc, 0, 0]"
    "varint_wire MTU_PROBING_COMPLETE_TAG = [0x80, 0xdc, 0, 2]"
    by (simp_all add: DC_STATELESS_RESET_TOKENS_TAG_def MTU_PROBING_COMPLETE_TAG_def varint_valid_def
        MAX_VARINT_VALUE_def varint_wire_def varint_len_def varint_wire_sized_def varint_wire_tag_def
        to_be_bytes_def to_le_bytes_def upt word_unat_eq_iff unsigned_ucast_eq unsigned_drop_bit_eq
        take_bit_eq_mod drop_bit_eq_div)
qed

lemma zerocopy_prefix:
  assumes "zerocopy_ok zc" "list_all (\<lambda>t. length t = STATELESS_RESET_TOKEN_LEN) ts"
  shows "ref_from_prefix_with_elems zc (concat ts @ rest) (length ts) = Some (ts, rest)"
proof -
  have len: "length (concat ts) = length ts * STATELESS_RESET_TOKEN_LEN"
    using assms(2) by (induction ts) auto
  then obtain us where us: "ref_from_prefix_with_elems zc (concat ts @ rest) (length ts) = Some (us, rest)"
    "length us = length ts" "list_all (\<lambda>t. length t = STATELESS_RESET_TOKEN_LEN) us" "concat us = concat ts"
    using assms(1) by (auto simp: zerocopy_ok_def dest!: spec [of _ "concat ts @ rest"] spec [of _ "length ts"])
  have "us = ts"
    using us(2-4) assms(2)
  proof (induction us ts rule: list_induct2)
    case (Cons u us t ts)
    then have "u @ concat us = t @ concat ts" "length u = length t" by simp_all
    then have "u = t" "concat us = concat ts" by simp_all
    with Cons show ?case by simp
  qed simp
  with us(1) show ?thesis by simp
qed

lemma extension_decode_wire:
  assumes ne: "network_endian_ok ne"
  shows "zerocopy_ok zc \<Longrightarrow> frame_ok ranges (DcStatelessResetTokens ts) \<Longrightarrow>
      decode_frame ne zc (frame_wire ranges (DcStatelessResetTokens ts) @ rest) = Inr (DcStatelessResetTokens ts, rest)"
    and "decode_frame ne zc (frame_wire ranges (MtuProbingComplete mtu) @ rest) = Inr (MtuProbingComplete mtu, rest)"
proof -
  have ext: "decode_frame ne zc (varint_wire v @ b) = handle_extension_frame ne zc (varint_wire v @ b)"
    if "v = DC_STATELESS_RESET_TOKENS_TAG \<or> v = MTU_PROBING_COMPLETE_TAG" for v b
    using that extension_tags(3,4) by (elim disjE) (simp_all add: decode_frame_def peek_byte_def del: append_is_Nil_conv)
  show "decode_frame ne zc (frame_wire ranges (DcStatelessResetTokens ts) @ rest) = Inr (DcStatelessResetTokens ts, rest)"
    if "zerocopy_ok zc" "frame_ok ranges (DcStatelessResetTokens ts)"
  proof -
    have n: "length ts < 2 ^ 62" "0 < length ts" "length ts \<le> 4092"
      using that(2) by (simp_all add: MAX_STATELESS_RESET_TOKEN_COUNT_def)
    have v: "varint_valid (word_of_nat (length ts))" "unat (word_of_nat (length ts) :: varint) = length ts"
      using n(1) by (simp_all add: varint_max_less unat_of_nat_no_wrap)
    then have pos: "(0 :: varint) < word_of_nat (length ts)" using n(2) by (simp add: word_less_nat_alt)
    show ?thesis
      using that v pos n ext [of DC_STATELESS_RESET_TOKENS_TAG] zerocopy_prefix [OF that(1), of ts rest]
      by (simp add: handle_extension_frame_def varint_decode_wire [OF ne] extension_tags(1) dc_tokens_decode_def
          decode_into_def MAX_STATELESS_RESET_TOKEN_COUNT_def)
  qed
  show "decode_frame ne zc (frame_wire ranges (MtuProbingComplete mtu) @ rest) = Inr (MtuProbingComplete mtu, rest)"
    using ext [of MTU_PROBING_COMPLETE_TAG]
    by (simp add: handle_extension_frame_def varint_decode_wire [OF ne] extension_tags(2) decode_into_def
        mtu_probing_complete_decode_def decode_u16_append [OF ne] from_be_bytes_to_be_bytes)
      (simp add: MTU_PROBING_COMPLETE_TAG_def DC_STATELESS_RESET_TOKENS_TAG_def)
qed

lemma const_tag_arms:
  "tag_arm ne 0 = Some (\<lambda>buffer. decode_into Padding (padding_decode buffer))"
  "tag_arm ne 1 = Some (\<lambda>buffer. Inr (Ping, buffer))"
  "tag_arm ne 4 = Some (\<lambda>buffer. decode_into ResetStream (reset_stream_decode ne buffer))"
  "tag_arm ne 5 = Some (\<lambda>buffer. decode_into StopSending (stop_sending_decode ne buffer))"
  "tag_arm ne 6 = Some (\<lambda>buffer. decode_into Crypto (crypto_decode ne buffer))"
  "tag_arm ne 7 = Some (\<lambda>buffer. decode_into NewToken (new_token_decode ne buffer))"
  "tag_arm ne 16 = Some (\<lambda>buffer. decode_into MaxData (varint_decode ne buffer))"
  "tag_arm ne 17 = Some (\<lambda>buffer. decode_into MaxStreamData (max_stream_data_decode ne buffer))"
  "tag_arm ne 20 = Some (\<lambda>buffer. decode_into DataBlocked (varint_decode ne buffer))"
  "tag_arm ne 21 = Some (\<lambda>buffer. decode_into StreamDataBlocked (stream_data_blocked_decode ne buffer))"
  "tag_arm ne 24 = Some (\<lambda>buffer. decode_into NewConnectionId (new_connection_id_decode ne buffer))"
  "tag_arm ne 25 = Some (\<lambda>buffer. decode_into RetireConnectionId (varint_decode ne buffer))"
  "tag_arm ne 26 = Some (\<lambda>buffer. decode_into PathChallenge (path_challenge_decode buffer))"
  "tag_arm ne 27 = Some (\<lambda>buffer. decode_into PathResponse (path_response_decode buffer))"
  "tag_arm ne 30 = Some (\<lambda>buffer. Inr (HandshakeDone, buffer))"
  by (simp_all add: tag_arm_def)

lemmas const_tags_decode = const_tag_arms [THEN decode_frame_tag [rotated], simplified]
lemmas computed_tags_decode =
  tag_arms(1) [THEN decode_frame_tag [OF small_tags(1)]]
  tag_arms(2) [THEN decode_frame_tag [OF small_tags(2)]]
  tag_arms(3) [THEN decode_frame_tag [OF small_tags(3)]]
  tag_arms(4) [THEN decode_frame_tag [OF small_tags(4)]]
  tag_arms(5) [THEN decode_frame_tag [OF small_tags(5)]]

lemma fixed_frames_decode:
  assumes ne: "network_endian_ok ne" and ok: "frame_ok ranges f"
    and f: "case f of ResetStream _ \<Rightarrow> True | StopSending _ \<Rightarrow> True | MaxData _ \<Rightarrow> True | MaxStreamData _ \<Rightarrow> True
      | DataBlocked _ \<Rightarrow> True | StreamDataBlocked _ \<Rightarrow> True | RetireConnectionId _ \<Rightarrow> True
      | Ping \<Rightarrow> True | HandshakeDone \<Rightarrow> True | PathChallenge _ \<Rightarrow> True | PathResponse _ \<Rightarrow> True | _ \<Rightarrow> False"
  shows "\<exists>f'. decode_frame ne zc (frame_wire ranges f @ rest) = Inr (f', rest) \<and> frame_view rn f' = frame_view ranges f"
  using ok f
  by (cases f) (simp_all add: const_tags_decode decode_into_def reset_stream_decode_def stop_sending_decode_def
      max_stream_data_decode_def stream_data_blocked_decode_def decode_varint2_def decode_varint3_def
      path_challenge_decode_def path_response_decode_def varint_decode_wire [OF ne] decode_slice_append)

lemma checked_frames_decode:
  assumes ne: "network_endian_ok ne" and ok: "frame_ok ranges f"
    and f: "case f of MaxStreams _ \<Rightarrow> True | StreamsBlocked _ \<Rightarrow> True | Crypto _ \<Rightarrow> True | NewToken _ \<Rightarrow> True
      | _ \<Rightarrow> False"
  shows "\<exists>f'. decode_frame ne zc (frame_wire ranges f @ rest) = Inr (f', rest) \<and> frame_view rn f' = frame_view ranges f"
  using f
proof (cases f)
  case (MaxStreams m)
  then have "varint_valid (ms_maximum_streams m)" "ms_maximum_streams m \<le> 2 ^ 60"
    using ok by (auto simp: varint_max_less word_le_nat_alt)
  then show ?thesis
    unfolding MaxStreams by (cases "ms_stream_type m")
      (simp_all add: computed_tags_decode decode_into_def max_streams_decode_def varint_decode_wire [OF ne],
       simp_all add: max_streams_tag_def)
next
  case (StreamsBlocked m)
  then have "varint_valid (sb_stream_limit m)" "sb_stream_limit m \<le> 2 ^ 60"
    using ok by (auto simp: varint_max_less word_le_nat_alt)
  then show ?thesis
    unfolding StreamsBlocked by (cases "sb_stream_type m")
      (simp_all add: computed_tags_decode decode_into_def streams_blocked_decode_def varint_decode_wire [OF ne],
       simp_all add: streams_blocked_tag_def)
qed (use ok decode_data_varint_len_wire [OF ne] decode_bytes_varint_len_wire [OF ne] in
    \<open>simp_all add: const_tags_decode decode_into_def crypto_decode_def new_token_decode_def varint_decode_wire [OF ne]\<close>)

lemma new_connection_id_decode_wire:
  assumes ne: "network_endian_ok ne" and ok: "frame_ok ranges (NewConnectionId c)"
  shows "decode_frame ne zc (frame_wire ranges (NewConnectionId c) @ rest) = Inr (NewConnectionId c, rest)"
proof -
  have v: "varint_valid (nci_sequence_number c)" "varint_valid (nci_retire_prior_to c)"
    "nci_retire_prior_to c \<le> nci_sequence_number c"
    using ok by (auto simp: varint_valid_def)
  have u: "unat (word_of_nat (length (nci_connection_id c)) :: u8) = length (nci_connection_id c)"
    using ok by (intro unat_of_nat_no_wrap) simp
  then have l: "(1 :: u8) \<le> word_of_nat (length (nci_connection_id c))" "word_of_nat (length (nci_connection_id c)) \<le> (20 :: u8)"
    using ok by (simp_all add: word_le_nat_alt)
  show ?thesis
    using ok l u v by (simp add: const_tags_decode decode_into_def new_connection_id_decode_def varint_decode_wire [OF ne]
        decode_u8_Cons decode_slice_append)
qed

lemma connection_close_decode_wire:
  assumes ne: "network_endian_ok ne" and ok: "frame_ok ranges (ConnectionClose c)"
  shows "decode_frame ne zc (frame_wire ranges (ConnectionClose c) @ rest) = Inr (ConnectionClose c, rest)"
proof -
  have r: "decode_bytes_varint_len ne ((case cc_reason c of None \<Rightarrow> [0] | Some r \<Rightarrow> bytes_wire r) @ rest) =
      Inr (case cc_reason c of None \<Rightarrow> [] | Some r \<Rightarrow> r, rest)"
  proof (cases "cc_reason c")
    case None
    then show ?thesis
      by (simp add: decode_bytes_varint_len_def decode_slice_with_len_prefix_def varint_decode_small
          decode_slice_def ensure_len_def)
  next
    case (Some r)
    then show ?thesis using ok decode_bytes_varint_len_wire [OF ne, of r rest] by simp
  qed
  have "Some r = cc_reason c \<Longrightarrow> r \<noteq> []" for r using ok by (auto split: option.splits)
  then have e: "(if (case cc_reason c of None \<Rightarrow> [] | Some r \<Rightarrow> r) = [] then None
      else Some (case cc_reason c of None \<Rightarrow> [] | Some r \<Rightarrow> r)) = cc_reason c"
    by (cases "cc_reason c") auto
  show ?thesis
    using ok r e
    by (cases "cc_frame_type c")
       (simp_all add: computed_tags_decode decode_into_def connection_close_decode_def varint_decode_wire [OF ne] Let_def,
        simp_all add: connection_close_tag_def)
qed

lemma datagram_decode_wire:
  assumes ne: "network_endian_ok ne" and ok: "frame_ok ranges (Datagram d)" "frame_followed_by (Datagram d) rest"
  shows "decode_frame ne zc (frame_wire ranges (Datagram d) @ rest) = Inr (Datagram d, rest)"
proof -
  have "datagram_tag d AND DATAGRAM_LEN_BIT = DATAGRAM_LEN_BIT \<longleftrightarrow> \<not> dg_is_last_frame d"
    by (simp add: datagram_tag_def DATAGRAM_TAG_def DATAGRAM_LEN_BIT_def)
  then show ?thesis
    using ok decode_data_varint_len_wire [OF ne, of "dg_data d" rest]
    by (cases "dg_is_last_frame d")
       (simp_all add: computed_tags_decode decode_into_def datagram_decode_def Let_def decode_data_to_end_eq)
qed

lemma padding_decode_wire:
  assumes "0 < n" "rest = [] \<or> hd rest \<noteq> 0"
  shows "decode_frame ne zc (replicate n 0 @ rest) = Inr (Padding n, rest)"
proof -
  obtain m where n: "n = Suc m" using assms(1) by (cases n) auto
  show ?thesis
    unfolding n using padding_run_replicate [OF assms(2), of m] padding_skip [of "replicate m 0 @ rest"]
    by (simp add: const_tags_decode decode_into_def padding_decode_def Let_def)
qed

lemma frame_decode_wire:
  assumes ne: "network_endian_ok ne" and zc: "zerocopy_ok zc" and ok: "frame_ok ranges f" "frame_followed_by f rest"
  shows "\<exists>f'. decode_frame ne zc (frame_wire ranges f @ rest) = Inr (f', rest) \<and>
    frame_view (\<lambda>d. the (decoder_ack_ranges ne d)) f' = frame_view ranges f"
proof (cases f)
  case (Ack a)
  obtain a' where "ack_decode ne (ack_tag a) (ack_wire ranges a @ rest) = Inr (a', rest)"
    "ack_delay a' = ack_delay a" "ack_ecn_counts a' = ack_ecn_counts a"
    "decoder_ack_ranges ne (ack_ranges a') = Some (ranges (ack_ranges a))"
    using ack_decode_wire [OF ne, of ranges a rest] ok(1) Ack by auto
  then show ?thesis by (simp add: Ack computed_tags_decode decode_into_def)
next
  case (Stream x)
  then show ?thesis using stream_decode_wire [OF ne, of ranges x rest] ok by simp
next
  case (NewConnectionId x)
  then show ?thesis using new_connection_id_decode_wire [OF ne, of ranges x zc rest] ok by simp
next
  case (ConnectionClose x)
  then show ?thesis using connection_close_decode_wire [OF ne, of ranges x zc rest] ok by simp
next
  case (Datagram x)
  then show ?thesis using datagram_decode_wire [OF ne, of ranges x rest] ok by simp
next
  case (Padding n)
  then show ?thesis using padding_decode_wire [of n rest] ok by simp
next
  case (DcStatelessResetTokens ts)
  then show ?thesis using extension_decode_wire(1) [OF ne zc, of ranges ts rest] ok by simp
next
  case (MtuProbingComplete m)
  then show ?thesis using extension_decode_wire(2) [OF ne, of zc ranges m rest] by simp
qed (use fixed_frames_decode [OF ne ok(1)] checked_frames_decode [OF ne ok(1)] in simp_all)

section \<open>Frames from the network\<close>

named_theorems consumes_intros

lemma consumes_basic [consumes_intros]:
  "consumes (\<lambda>b. Inr (v, b))" "consumes (\<lambda>b. Inl e)" "consumes (varint_decode ne)"
  "consumes (\<lambda>b. decode_slice b n)" "consumes decode_u8" "consumes (decode_u16 ne)" "consumes decode_data_to_end"
  "consumes padding_decode"
  using varint_decode_consumes
  by (auto simp: consumes_def decode_slice_Inr decode_u8_def decode_u16_def result_simps decode_data_to_end_eq
      padding_decode_def Let_def padding_skip) (metis append_take_drop_id)

lemma consumes_rbind [consumes_intros]:
  assumes "consumes d" "\<And>v. consumes (g v)"
  shows "consumes (\<lambda>b. rbind (d b) (case_prod g))"
  using assms unfolding consumes_def by (auto simp: result_simps) (metis append_assoc)

lemma consumes_case_prod [consumes_intros]: "(\<And>a b. consumes (g a b)) \<Longrightarrow> consumes (case_prod g v)"
  by (cases v) simp

lemma consumes_ensure [consumes_intros]: "consumes d \<Longrightarrow> consumes (\<lambda>b. ensure c e (d b))"
  by (auto simp: consumes_def ensure_def)

lemma consumes_if [consumes_intros]: "consumes d \<Longrightarrow> consumes d' \<Longrightarrow> consumes (\<lambda>b. if c then d b else d' b)"
  by (cases c) auto

lemma consumes_rbind_ok_or [consumes_intros]:
  "(\<And>v. consumes (g v)) \<Longrightarrow> consumes (\<lambda>b. rbind (ok_or e x) (\<lambda>v. g v b))"
  by (cases x) (auto simp: consumes_def)

lemma consumes_into [consumes_intros]: "consumes d \<Longrightarrow> consumes (\<lambda>b. decode_into wrap (d b))"
  unfolding decode_into_def by (intro consumes_intros)

lemma consumes_len_prefix [consumes_intros]:
  "consumes (decode_bytes_varint_len ne)" "consumes (decode_data_varint_len ne)"
proof -
  show 1: "consumes (decode_bytes_varint_len ne)"
    unfolding decode_bytes_varint_len_def decode_slice_with_len_prefix_def by (intro consumes_intros)
  show "consumes (decode_data_varint_len ne)"
    using 1 unfolding consumes_def decode_data_varint_len_def decode_with_len_prefix_def decode_bytes_varint_len_def
    by (auto simp: result_simps)
qed

lemma ack_decode_consumes [consumes_intros]: "consumes (ack_decode ne tag)"
proof -
  have "consumes (ack_ranges_decode ne l)" for l
    by (auto simp: consumes_def ack_ranges_decode_def result_simps decode_slice_Inr dest!: consumesD [OF varint_decode_consumes])
  moreover have "consumes (ecn_counts_decode ne)" unfolding ecn_counts_decode_def by (intro consumes_intros)
  ultimately show ?thesis unfolding ack_decode_def by (intro consumes_intros)
qed

lemma frame_decoders_consume [consumes_intros]:
  "consumes (reset_stream_decode ne)" "consumes (stop_sending_decode ne)" "consumes (crypto_decode ne)"
  "consumes (new_token_decode ne)" "consumes (stream_decode ne tag)" "consumes (max_stream_data_decode ne)"
  "consumes (max_streams_decode ne tag)" "consumes (stream_data_blocked_decode ne)"
  "consumes (streams_blocked_decode ne tag)" "consumes (new_connection_id_decode ne)"
  "consumes path_challenge_decode" "consumes path_response_decode" "consumes (connection_close_decode ne tag)"
  "consumes (datagram_decode ne tag)"
  unfolding reset_stream_decode_def stop_sending_decode_def crypto_decode_def new_token_decode_def stream_decode_def
    max_stream_data_decode_def max_streams_decode_def stream_data_blocked_decode_def streams_blocked_decode_def
    new_connection_id_decode_def path_challenge_decode_def path_response_decode_def connection_close_decode_def
    datagram_decode_def decode_varint2_def decode_varint3_def Let_def
  by (intro consumes_intros)+

lemma tag_arm_consumes: "tag_arm ne tag = Some arm \<Longrightarrow> consumes arm"
  unfolding tag_arm_def by (auto intro!: consumes_intros split: if_splits)

lemma len_prefixed_short:
  "decode_bytes_varint_len ne b = Inr (d, rest) \<Longrightarrow> length d < 2 ^ 62"
  "decode_data_varint_len ne b = Inr (d, rest) \<Longrightarrow> length d < 2 ^ 62"
proof -
  show 1: "length d < 2 ^ 62" if "decode_bytes_varint_len ne b = Inr (d, rest)" for d rest
    using that varint_decode_valid [of ne b]
    by (auto simp: decode_bytes_varint_len_def decode_slice_with_len_prefix_def result_simps decode_slice_Inr
        varint_max_less)
  show "decode_data_varint_len ne b = Inr (d, rest) \<Longrightarrow> length d < 2 ^ 62"
    using 1 by (auto simp: decode_data_varint_len_def decode_with_len_prefix_def decode_bytes_varint_len_def
        result_simps decode_rest_eq)
qed

lemmas decoded_ok_dests = varint_decode_valid len_prefixed_short

lemma fixed_decoders_ok:
  "reset_stream_decode ne b = Inr (v1, r) \<Longrightarrow> frame_ok rn (ResetStream v1)"
  "stop_sending_decode ne b = Inr (v2, r) \<Longrightarrow> frame_ok rn (StopSending v2)"
  "varint_decode ne b = Inr (v, r) \<Longrightarrow> frame_ok rn (MaxData v) \<and> frame_ok rn (DataBlocked v) \<and> frame_ok rn (RetireConnectionId v)"
  "max_stream_data_decode ne b = Inr (v3, r) \<Longrightarrow> frame_ok rn (MaxStreamData v3)"
  "stream_data_blocked_decode ne b = Inr (v4, r) \<Longrightarrow> frame_ok rn (StreamDataBlocked v4)"
  "path_challenge_decode b = Inr (v5, r) \<Longrightarrow> frame_ok rn (PathChallenge v5)"
  "path_response_decode b = Inr (v5, r) \<Longrightarrow> frame_ok rn (PathResponse v5)"
  "padding_decode b = Inr (n, r) \<Longrightarrow> frame_ok rn (Padding n)"
  by (auto simp: reset_stream_decode_def stop_sending_decode_def max_stream_data_decode_def decode_varint2_def
      decode_varint3_def stream_data_blocked_decode_def path_challenge_decode_def path_response_decode_def
      padding_decode_def Let_def result_simps decode_slice_Inr dest: decoded_ok_dests)

lemma checked_decoders_ok:
  "crypto_decode ne b = Inr (v1, r) \<Longrightarrow> frame_ok rn (Crypto v1)"
  "new_token_decode ne b = Inr (v2, r) \<Longrightarrow> frame_ok rn (NewToken v2)"
  "max_streams_decode ne tag b = Inr (v3, r) \<Longrightarrow> frame_ok rn (MaxStreams v3)"
  "streams_blocked_decode ne tag b = Inr (v4, r) \<Longrightarrow> frame_ok rn (StreamsBlocked v4)"
  "new_connection_id_decode ne b = Inr (v5, r) \<Longrightarrow> frame_ok rn (NewConnectionId v5)"
  "connection_close_decode ne tag b = Inr (v6, r) \<Longrightarrow> frame_ok rn (ConnectionClose v6)"
  by (auto simp: crypto_decode_def new_token_decode_def max_streams_decode_def streams_blocked_decode_def
      new_connection_id_decode_def connection_close_decode_def Let_def result_simps decode_slice_Inr
      word_le_nat_alt ensure_def split: if_splits dest: decoded_ok_dests)

lemma data_decoders_ok:
  assumes "length b < 2 ^ 62"
  shows "stream_decode ne tag b = Inr (v1, r) \<Longrightarrow> frame_ok rn (Stream v1)"
    and "datagram_decode ne tag b = Inr (v2, r) \<Longrightarrow> frame_ok rn (Datagram v2)"
proof -
  show "frame_ok rn (Stream v1)" if dec: "stream_decode ne tag b = Inr (v1, r)"
  proof -
    obtain b1 b2 where b1: "varint_decode ne b = Inr (sf_stream_id v1, b1)"
      and b2: "(if tag AND OFF_BIT = OFF_BIT then varint_decode ne b1 else Inr (0, b1)) = Inr (sf_offset v1, b2)"
      and d: "(if \<not> sf_is_last_frame v1 then decode_data_varint_len ne b2 else decode_data_to_end b2) = Inr (sf_data v1, r)"
      using dec unfolding stream_decode_def Let_def by (auto simp: result_simps simp del: if_split_asm split del: if_split)
    have "length b2 \<le> length b1" "varint_valid (sf_offset v1)"
      using b2 varint_decode_shorter [of ne b1] varint_decode_valid [of ne b1]
      by (auto simp: varint_valid_def split: if_splits)
    moreover have "length b1 < length b" using varint_decode_shorter [OF b1] .
    ultimately show ?thesis
      using d assms varint_decode_valid [OF b1]
      by (auto simp: decode_data_to_end_eq split: if_splits dest: len_prefixed_short)
  qed
  show "datagram_decode ne tag b = Inr (v2, r) \<Longrightarrow> frame_ok rn (Datagram v2)"
    using assms by (auto simp: datagram_decode_def Let_def result_simps decode_data_to_end_eq split: if_splits
        dest: len_prefixed_short)
qed

lemma ack_decoder_ok:
  assumes "ack_decode ne tag b = Inr (f, r)"
  shows "frame_ok (\<lambda>d. the (decoder_ack_ranges ne d)) (Ack f)"
proof -
  obtain rs where rs: "decoder_ack_ranges ne (ack_ranges f) = Some rs" "rs \<noteq> []" "ack_ranges_ok rs" "length rs < 2 ^ 62"
    using assms by (rule ack_decode_ok)
  have "varint_valid (ack_delay f)" "case ack_ecn_counts f of None \<Rightarrow> True | Some c \<Rightarrow> ecn_counts_valid c"
    using assms by (auto simp: ack_decode_def ecn_counts_decode_def ecn_counts_valid_def result_simps
        split: if_splits dest: varint_decode_valid)
  with rs show ?thesis by (simp add: ack_frame_ok_def)
qed

lemma extension_decoder_ok:
  assumes "zerocopy_ok zc" "handle_extension_frame ne zc b = Inr (f, r)"
  shows "frame_ok rn f \<and> (\<exists>read. read \<noteq> [] \<and> b = read @ r)"
proof -
  obtain t b1 where t: "varint_decode ne b = Inr (t, b1)"
    and d: "(if t = DC_STATELESS_RESET_TOKENS_TAG then decode_into DcStatelessResetTokens (dc_tokens_decode ne zc b1)
       else if t = MTU_PROBING_COMPLETE_TAG then decode_into MtuProbingComplete (mtu_probing_complete_decode ne b1)
       else Inl (InvariantViolation ''invalid frame'')) = Inr (f, r)"
    using assms(2) by (auto simp: handle_extension_frame_def result_simps)
  obtain r1 where r1: "b = r1 @ b1" "r1 \<noteq> []" by (rule varint_decode_stable [OF t]) blast
  have "frame_ok rn f \<and> (\<exists>read. b1 = read @ r)"
  proof (cases "t = DC_STATELESS_RESET_TOKENS_TAG")
    case True
    then obtain n b2 ts where n: "varint_decode ne b1 = Inr (n, b2)" "0 < n" "unat n \<le> MAX_STATELESS_RESET_TOKEN_COUNT"
      "ref_from_prefix_with_elems zc b2 (unat n) = Some (ts, r)" "f = DcStatelessResetTokens ts"
      using d by (auto simp: decode_into_def dc_tokens_decode_def result_simps)
    have le: "unat n * STATELESS_RESET_TOKEN_LEN \<le> length b2"
      using assms(1) n(4) by (auto simp: zerocopy_ok_def dest!: spec [of _ b2] spec [of _ "unat n"] split: if_splits)
    then have "r = drop (unat n * STATELESS_RESET_TOKEN_LEN) b2" "length ts = unat n"
      "list_all (\<lambda>t. length t = STATELESS_RESET_TOKEN_LEN) ts"
      using assms(1) n(4) by (auto simp: zerocopy_ok_def dest!: spec [of _ b2] spec [of _ "unat n"])
    moreover obtain r2 where "b1 = r2 @ b2" by (rule varint_decode_stable [OF n(1)]) blast
    ultimately show ?thesis
      using n(2,3,5) by (auto simp: word_less_nat_alt) (metis append_assoc append_take_drop_id)
  next
    case False
    then show ?thesis
      using d consumesD [OF consumes_basic(6), of ne b1]
      by (auto simp: decode_into_def mtu_probing_complete_decode_def result_simps split: if_splits)
  qed
  then obtain r2 where "frame_ok rn f" "b1 = r2 @ r" by blast
  with r1 have "frame_ok rn f" "r1 @ r2 \<noteq> []" "b = (r1 @ r2) @ r" by simp_all
  then show ?thesis by blast
qed

lemma tag_arm_ok:
  assumes "tag_arm ne tag = Some arm" "arm b = Inr (f, r)" "length b < 2 ^ 62"
  shows "frame_ok (\<lambda>d. the (decoder_ack_ranges ne d)) f"
  using assms(1,2) unfolding tag_arm_def decode_into_def
  by (auto simp: result_simps split: if_splits
      dest: fixed_decoders_ok checked_decoders_ok data_decoders_ok [OF assms(3)] ack_decoder_ok
      simp del: frame_ok.simps) (simp_all add: frame_ok.simps)

lemma decode_frame_cases:
  assumes "decode_frame ne zc buffer = Inr (f, rest)"
  obtains (tag) tag b arm where "buffer = tag # b" "tag_arm ne tag = Some arm" "arm b = Inr (f, rest)"
    | (extension) "handle_extension_frame ne zc buffer = Inr (f, rest)"
proof (cases buffer)
  case Nil
  with assms show thesis by (simp add: decode_frame_def peek_byte_def)
next
  case (Cons tag b)
  with assms skip_append [of "[tag]" 1 b] that show thesis
    by (auto simp: decode_frame_def peek_byte_def split: if_splits option.splits)
qed

lemma decode_frame_ok:
  assumes zc: "zerocopy_ok zc" and dec: "decode_frame ne zc buffer = Inr (f, rest)" and len: "length buffer < 2 ^ 62"
  shows "frame_ok (\<lambda>d. the (decoder_ack_ranges ne d)) f \<and> (\<exists>read. read \<noteq> [] \<and> buffer = read @ rest)"
  using dec
proof (cases rule: decode_frame_cases)
  case (tag t b arm)
  obtain read where "b = read @ rest" using consumesD [OF tag_arm_consumes [OF tag(2)] tag(3)] by blast
  moreover have "frame_ok (\<lambda>d. the (decoder_ack_ranges ne d)) f"
    by (rule tag_arm_ok [OF tag(2,3)]) (use len tag(1) in simp)
  ultimately show ?thesis using tag(1) by (intro conjI exI [of _ "t # read"]) simp_all
next
  case extension
  then show ?thesis by (rule extension_decoder_ok [OF zc])
qed

section \<open>Fitting\<close>

lemma varint_len_of_nat:
  "n < 2 ^ 62 \<Longrightarrow> varint_len (word_of_nat n) = (if n \<le> 63 then 1 else if n \<le> 16383 then 2 else if n \<le> 1073741823 then 4 else 8)"
  by (simp add: varint_len_def word_le_nat_alt unat_of_nat_no_wrap)

definition stream_header_len :: "varint \<Rightarrow> varint \<Rightarrow> nat" where
  "stream_header_len stream_id offset = 1 + varint_len stream_id + (if offset \<noteq> 0 then varint_len offset else 0)"

lemma stream_encoding_size_eq:
  assumes "length (sf_data f) < 2 ^ 62"
  shows "stream_encoding_size f = Some (stream_header_len (sf_stream_id f) (sf_offset f) +
      (if sf_is_last_frame f then 0 else varint_len (word_of_nat (length (sf_data f)))) + length (sf_data f))"
  using varint_from_usize_Inr [OF assms]
  by (simp add: stream_encoding_size_def stream_header_len_def varint_encoding_size_eq Let_def)

lemma stream_encoding_size_real:
  assumes "varint_valid (sf_stream_id f)" "varint_valid (sf_offset f)" "length (sf_data f) < 2 ^ 62"
  shows "encoding_size (stream_encode f) = stream_encoding_size f"
  using emits_encoding_size [OF sized_frames_emit(3) [of "\<lambda>_. []" f]] assms
  by (simp add: stream_encoding_size_eq stream_header_len_def bytes_wire_def)

lemma crypto_encoding_size:
  assumes "varint_valid (cf_offset f)" "length (cf_data f) < 2 ^ 62"
  shows "encoding_size (crypto_encode f) =
      Some (1 + varint_len (cf_offset f) + varint_len (word_of_nat (length (cf_data f))) + length (cf_data f))"
  using emits_encoding_size [OF sized_frames_emit(1) [of "\<lambda>_. []" f]] assms by (simp add: bytes_wire_def)

lemma stream_try_fit_eq:
  assumes "cap < 2 ^ 62"
  shows "stream_try_fit stream_id offset is_last data_len cap =
    (if cap < stream_header_len stream_id offset then (None, is_last)
     else let remaining = cap - stream_header_len stream_id offset in
       if remaining \<le> data_len then (Some remaining, True)
       else (Some (min (remaining - varint_len (word_of_nat data_len)) data_len), False))"
proof -
  define h where "h = stream_header_len stream_id offset"
  have fit: "stream_try_fit stream_id offset is_last data_len cap = (case checked_sub_nat cap h of
      None \<Rightarrow> (None, is_last)
    | Some r \<Rightarrow> if min r data_len = r then (Some (min r data_len), True)
        else (Option.bind (result_ok (varint_from_usize (min r data_len))) (\<lambda>l.
          Option.bind (checked_sub_nat r (varint_len l)) (\<lambda>n. Some (min n data_len))), False))"
    by (cases "offset = 0")
       (simp_all add: stream_try_fit_def h_def stream_header_len_def varint_encoding_size_eq Let_def split: option.split)
  have "varint_len (word_of_nat data_len) \<le> cap - h" "varint_from_usize data_len = Inr (word_of_nat data_len)"
    if "data_len < cap - h"
    using that assms by (auto simp: varint_len_of_nat varint_from_usize_Inr)
  then show ?thesis
    unfolding fit h_def [symmetric] by (auto simp: checked_sub_nat_def Let_def min_def not_le)
qed

lemma crypto_try_fit_eq:
  assumes "cap < 2 ^ 62"
  shows "crypto_try_fit offset data_len cap =
    (if cap < 2 + varint_len offset then None
     else let remaining = cap - (1 + varint_len offset) in
       Some (min (remaining - varint_len (word_of_nat (min remaining data_len))) data_len))"
proof (cases "cap < 1 + varint_len offset")
  case True
  then show ?thesis by (simp add: crypto_try_fit_def varint_encoding_size_eq checked_sub_nat_def Let_def)
next
  case False
  define r where "r = cap - (1 + varint_len offset)"
  have m: "min r data_len < 2 ^ 62" and r: "cap < 2 + varint_len offset \<longleftrightarrow> r = 0"
    and sub: "checked_sub_nat cap (1 + varint_len offset) = Some r"
    using assms False by (auto simp: r_def checked_sub_nat_def)
  have "varint_len (word_of_nat (min r data_len)) \<le> r \<longleftrightarrow> r \<noteq> 0"
    unfolding varint_len_of_nat [OF m] by (auto split: if_splits)
  then show ?thesis
    unfolding crypto_try_fit_def varint_encoding_size_eq Let_def sub r r_def [symmetric]
    by (auto simp: varint_from_usize_Inr [OF m] checked_sub_nat_def)
qed

lemma varint_len_close:
  assumes "n \<le> m" "m \<le> n + 8" "m < 2 ^ 62"
  shows "varint_len (word_of_nat n) \<le> varint_len (word_of_nat m)"
    "varint_len (word_of_nat m) \<le> varint_len (word_of_nat n) + 4"
proof -
  have "n < 2 ^ 62" using assms by simp
  then show "varint_len (word_of_nat n) \<le> varint_len (word_of_nat m)"
    "varint_len (word_of_nat m) \<le> varint_len (word_of_nat n) + 4"
    using assms by (auto simp: varint_len_of_nat)
qed

section \<open>Properties\<close>

text \<open>
  C6. Every frame that meets the constraints of the protocol survives the wire. Its encoder needs
  a fixed number of bytes, succeeds at any position of any buffer with that room and touches
  nothing before the position; the decoder reads the frame back from the written bytes, followed by
  whatever may follow that frame in a packet, and leaves exactly that. ACK ranges are compared as
  the sequences the two providers of ranges iterate over.
\<close>

theorem frame_round_trip:
  assumes "network_endian_ok ne" and "zerocopy_ok zc" and "frame_ok ranges f"
  shows "\<exists>n. encoding_size (frame_encode ne zc ranges f) = Some n \<and>
    (\<forall>buf p. p + n \<le> length buf \<longrightarrow>
      (\<exists>buf'. frame_encode ne zc ranges f (EncoderBuffer buf p) = Some (EncoderBuffer buf' (p + n)) \<and>
        length buf' = length buf \<and> take p buf' = take p buf \<and>
        (\<forall>rest. frame_followed_by f rest \<longrightarrow>
          (\<exists>f'. decode_frame ne zc (drop p (take (p + n) buf') @ rest) = Inr (f', rest) \<and>
            frame_view (\<lambda>d. the (decoder_ack_ranges ne d)) f' = frame_view ranges f))))"
proof (rule exI [of _ "length (frame_wire ranges f)"], intro conjI allI impI)
  let ?bs = "frame_wire ranges f"
  have emits: "emits (frame_encode ne zc ranges f) ?bs" by (rule frame_encode_emits [OF assms])
  show "encoding_size (frame_encode ne zc ranges f) = Some (length ?bs)" by (rule emits_encoding_size [OF emits])
  fix buf :: "u8 list" and p
  assume fit: "p + length ?bs \<le> length buf"
  then obtain buf' where buf': "frame_encode ne zc ranges f (EncoderBuffer buf p) = Some (EncoderBuffer buf' (p + length ?bs))"
    "length buf' = length buf" "take (p + length ?bs) buf' = take p buf @ ?bs"
    using emitsD(1) [OF emits, of "EncoderBuffer buf p"] by auto
  have "take p buf' = take p buf" using arg_cong [OF buf'(3), of "take p"] fit by simp
  moreover have "drop p (take (p + length ?bs) buf') = ?bs" using buf'(3) fit by simp
  ultimately show "\<exists>buf'. frame_encode ne zc ranges f (EncoderBuffer buf p) = Some (EncoderBuffer buf' (p + length ?bs)) \<and>
      length buf' = length buf \<and> take p buf' = take p buf \<and> (\<forall>rest. frame_followed_by f rest \<longrightarrow>
        (\<exists>f'. decode_frame ne zc (drop p (take (p + length ?bs) buf') @ rest) = Inr (f', rest) \<and>
          frame_view (\<lambda>d. the (decoder_ack_ranges ne d)) f' = frame_view ranges f))"
    using buf'(1,2) frame_decode_wire [OF assms] by auto
qed

text \<open>An instance of the zerocopy interface: elements of the prefix by their size.\<close>

fun token_chunks :: "nat \<Rightarrow> u8 list \<Rightarrow> u8 list list" where
  "token_chunks 0 bs = []"
| "token_chunks (Suc n) bs = take 16 bs # token_chunks n (drop 16 bs)"

definition zerocopy_chunks :: zerocopy where
  "zerocopy_chunks = \<lparr>ref_from_prefix_with_elems = (\<lambda>bs n.
       if n * 16 \<le> length bs then Some (token_chunks n bs, drop (n * 16) bs) else None),
     tokens_as_bytes = concat\<rparr>"

lemma zerocopy_chunks_ok: "zerocopy_ok zerocopy_chunks"
proof -
  have "length (token_chunks n bs) = n \<and> list_all (\<lambda>t. length t = 16) (token_chunks n bs) \<and>
      concat (token_chunks n bs) = take (n * 16) bs" if "n * 16 \<le> length bs" for n bs
    using that by (induction n arbitrary: bs) (auto simp: take_add)
  then show ?thesis by (simp add: zerocopy_ok_def zerocopy_chunks_def STATELESS_RESET_TOKEN_LEN_def)
qed

theorem frame_round_trip_witness:
  "\<exists>buf' f'. frame_encode big_endian zerocopy_chunks (\<lambda>rs. rs)
      (Ack \<lparr>ack_delay = 7, ack_ranges = [(10, 20), (1, 5)], ack_ecn_counts = None\<rparr>) (EncoderBuffer (replicate 9 255) 2) =
      Some (EncoderBuffer buf' 9) \<and>
    decode_frame big_endian zerocopy_chunks (drop 2 (take 9 buf') @ [1]) = Inr (f', [1]) \<and>
    frame_view (\<lambda>d. the (decoder_ack_ranges big_endian d)) f' =
      Ack \<lparr>ack_delay = 7, ack_ranges = [(10, 20), (1, 5)], ack_ecn_counts = None\<rparr>"
proof -
  let ?f = "Ack \<lparr>ack_delay = 7, ack_ranges = [(10, 20), (1, 5)] :: ack_range list, ack_ecn_counts = None\<rparr>"
  have ok: "frame_ok (\<lambda>rs. rs) ?f"
    by (simp add: ack_frame_ok_def ack_ranges_ok_def ack_range_ok_def descending_def varint_valid_def MAX_VARINT_VALUE_def)
  have "encoding_size (frame_encode big_endian zerocopy_chunks (\<lambda>rs. rs) ?f) = Some 7"
    using emits_encoding_size [OF frame_encode_emits [OF big_endian_ok zerocopy_chunks_ok ok]]
    by (simp add: ack_wire_def ack_wire_body_def varint_len_def)
  then obtain buf' where "frame_encode big_endian zerocopy_chunks (\<lambda>rs. rs) ?f (EncoderBuffer (replicate 9 255) 2) =
      Some (EncoderBuffer buf' 9)"
    and "\<forall>rest. frame_followed_by ?f rest \<longrightarrow> (\<exists>f'. decode_frame big_endian zerocopy_chunks (drop 2 (take 9 buf') @ rest) =
      Inr (f', rest) \<and> frame_view (\<lambda>d. the (decoder_ack_ranges big_endian d)) f' = frame_view (\<lambda>rs. rs) ?f)"
    using frame_round_trip [OF big_endian_ok zerocopy_chunks_ok ok]
    by (elim exE conjE allE [where x = "replicate 9 255 :: u8 list"] allE [where x = "2 :: nat"]) auto
  then show ?thesis by (elim allE [where x = "[1 :: u8]"]) auto
qed

text \<open>
  C12. Whatever bytes arrive, a frame that is accepted meets the constraints of the protocol (every
  integer below \<open>2^62\<close>, stream limits up to \<open>2^60\<close>, \<open>retire_prior_to\<close> not above the sequence
  number, connection IDs of 1 to 20 bytes, non-empty tokens and reasons, valid ACK ranges), and the
  decoder consumed at least one byte and kept the rest as it was: a loop over a packet's frames ends.
\<close>

theorem decode_frame_valid:
  assumes "zerocopy_ok zc" and "decode_frame ne zc buffer = Inr (f, rest)" and "length buffer < 2 ^ 62"
  shows "frame_ok (\<lambda>d. the (decoder_ack_ranges ne d)) f \<and> (\<exists>read. read \<noteq> [] \<and> buffer = read @ rest)"
  using assms by (rule decode_frame_ok)

theorem decode_frame_valid_witness:
  "frame_ok (\<lambda>d. the (decoder_ack_ranges big_endian d)) (MaxStreams \<lparr>ms_stream_type = Unidirectional, ms_maximum_streams = 9\<rparr>) \<and>
   (\<exists>read. read \<noteq> [] \<and> [0x13, 9, 1] = read @ [1 :: u8])"
proof -
  have "tag_arm big_endian 0x13 = Some (\<lambda>buffer. decode_into MaxStreams (max_streams_decode big_endian 0x13 buffer))"
    by (simp add: tag_arm_def)
  from decode_frame_tag [OF _ this, of zerocopy_chunks "[9, 1]"]
  have "decode_frame big_endian zerocopy_chunks [0x13, 9, 1] =
      Inr (MaxStreams \<lparr>ms_stream_type = Unidirectional, ms_maximum_streams = 9\<rparr>, [1])"
    by (simp add: decode_into_def max_streams_decode_def varint_decode_small ensure_def)
  from decode_frame_valid [OF zerocopy_chunks_ok this] show ?thesis by simp
qed

text \<open>
  C26. \<open>Stream::try_fit\<close>: the frame is rejected only if not even its header fits. Otherwise the
  frame with the returned number of bytes of its data never exceeds the capacity, a frame without
  length fills it exactly, and if data is left behind at most four bytes stay unused. The
  hand-written \<open>encoding_size\<close> of the result is the number of bytes its encoder writes.
\<close>

theorem stream_try_fit_fits:
  assumes "varint_valid (sf_stream_id f)" and "varint_valid (sf_offset f)" and "cap < 2 ^ 62"
    and "stream_try_fit (sf_stream_id f) (sf_offset f) (sf_is_last_frame f) (length (sf_data f)) cap = (res, is_last)"
  shows "case res of
      None \<Rightarrow> \<exists>len. stream_encoding_size (f\<lparr>sf_is_last_frame := True, sf_data := []\<rparr>) = Some len \<and> cap < len
    | Some n \<Rightarrow> let g = f\<lparr>sf_is_last_frame := is_last, sf_data := take n (sf_data f)\<rparr> in
        n \<le> length (sf_data f) \<and>
        (\<exists>len. encoding_size (stream_encode g) = Some len \<and> stream_encoding_size g = Some len \<and> len \<le> cap \<and>
          (is_last \<longrightarrow> len = cap) \<and> (n < length (sf_data f) \<longrightarrow> cap \<le> len + 4))"
proof (cases res)
  case None
  with assms(3,4) show ?thesis
    by (auto simp: stream_try_fit_eq stream_encoding_size_eq Let_def split: if_splits)
next
  case (Some n)
  let ?h = "stream_header_len (sf_stream_id f) (sf_offset f)"
  let ?g = "f\<lparr>sf_is_last_frame := is_last, sf_data := take n (sf_data f)\<rparr>"
  have h: "?h \<le> cap" and n: "if cap - ?h \<le> length (sf_data f) then n = cap - ?h \<and> is_last
      else n = min (cap - ?h - varint_len (word_of_nat (length (sf_data f)))) (length (sf_data f)) \<and> \<not> is_last"
    using assms(3,4) Some by (auto simp: stream_try_fit_eq Let_def split: if_splits)
  have le: "n \<le> length (sf_data f)" "n < 2 ^ 62" using n assms(3) by (auto split: if_splits)
  have size: "stream_encoding_size ?g = Some (?h + (if is_last then 0 else varint_len (word_of_nat n)) + n)"
    "encoding_size (stream_encode ?g) = stream_encoding_size ?g"
    using stream_encoding_size_eq [of ?g] stream_encoding_size_real [of ?g] assms(1,2) le by (simp_all add: min_absorb2)
  have "?h + varint_len (word_of_nat n) + n \<le> cap \<and> (n < length (sf_data f) \<longrightarrow> cap \<le> ?h + varint_len (word_of_nat n) + n + 4)"
    if "\<not> is_last"
  proof -
    have l: "length (sf_data f) < cap - ?h" "length (sf_data f) < 2 ^ 62"
      "n = min (cap - ?h - varint_len (word_of_nat (length (sf_data f)))) (length (sf_data f))"
      using n that assms(3) by (auto split: if_splits)
    have "varint_len (word_of_nat (length (sf_data f)) :: varint) \<le> 8"
      using varint_len_cases [of "word_of_nat (length (sf_data f))"] by auto
    moreover from this have "varint_len (word_of_nat n) \<le> varint_len (word_of_nat (length (sf_data f)))"
      "varint_len (word_of_nat (length (sf_data f))) \<le> varint_len (word_of_nat n) + 4"
      using varint_len_close [OF le(1) _ l(2)] l(1,3) by auto
    moreover have "varint_len (word_of_nat (length (sf_data f))) \<le> cap - ?h"
      using l(1) by (auto simp: varint_len_of_nat [OF l(2)])
    ultimately show ?thesis using l(1,3) h by (auto simp: min_def split: if_splits)
  qed
  with Some n h le size show ?thesis by (auto simp: Let_def split: if_splits)
qed

theorem stream_try_fit_fits_witness:
  "let g = \<lparr>sf_stream_id = 4, sf_offset = 0, sf_is_last_frame = True, sf_is_fin = True, sf_data = [1, 2, 3]\<rparr> in
     stream_encoding_size g = Some 5 \<and> encoding_size (stream_encode g) = Some 5"
proof -
  let ?f = "\<lparr>sf_stream_id = 4, sf_offset = 0, sf_is_last_frame = False, sf_is_fin = True, sf_data = [1, 2, 3, 4]\<rparr>"
  have fit: "stream_try_fit (sf_stream_id ?f) (sf_offset ?f) (sf_is_last_frame ?f) (length (sf_data ?f)) 5 = (Some 3, True)"
    by (simp add: stream_try_fit_eq stream_header_len_def varint_len_def Let_def)
  have "varint_valid (sf_stream_id ?f)" "varint_valid (sf_offset ?f)" "(5::nat) < 2 ^ 62"
    by (simp_all add: varint_valid_def MAX_VARINT_VALUE_def)
  from stream_try_fit_fits [OF this fit] show ?thesis by (auto simp: Let_def)
qed

text \<open>
  C27. \<open>Crypto::try_fit\<close>: the frame is rejected only if its header and the length of no data do not
  fit. Otherwise the frame with the returned number of bytes never exceeds the capacity, and if data
  is left behind at most four bytes stay unused.
\<close>

theorem crypto_try_fit_fits:
  assumes "varint_valid (cf_offset f)" and "cap < 2 ^ 62"
  shows "case crypto_try_fit (cf_offset f) (length (cf_data f)) cap of
      None \<Rightarrow> \<exists>len. encoding_size (crypto_encode (f\<lparr>cf_data := []\<rparr>)) = Some len \<and> cap < len
    | Some n \<Rightarrow> n \<le> length (cf_data f) \<and>
        (\<exists>len. encoding_size (crypto_encode (f\<lparr>cf_data := take n (cf_data f)\<rparr>)) = Some len \<and> len \<le> cap \<and>
          (n < length (cf_data f) \<longrightarrow> cap \<le> len + 4))"
proof (cases "cap < 2 + varint_len (cf_offset f)")
  case True
  with assms show ?thesis
    by (simp add: crypto_try_fit_eq crypto_encoding_size varint_len_of_nat [of 0, simplified])
next
  case False
  define r where "r = cap - (1 + varint_len (cf_offset f))"
  define m where "m = min r (length (cf_data f))"
  define n where "n = min (r - varint_len (word_of_nat m)) (length (cf_data f))"
  have fit: "crypto_try_fit (cf_offset f) (length (cf_data f)) cap = Some n"
    using False assms(2) by (simp add: crypto_try_fit_eq Let_def r_def m_def n_def)
  have m: "m < 2 ^ 62" "varint_len (word_of_nat m) \<le> 8" "varint_len (word_of_nat m) \<le> r"
    using assms(2) False varint_len_cases [of "word_of_nat m"] varint_len_of_nat [of m]
    by (auto simp: m_def r_def)
  have n: "n \<le> m" "m \<le> n + 8" "n \<le> length (cf_data f)" "n < 2 ^ 62" using m by (auto simp: n_def m_def)
  note c = varint_len_close [OF n(1,2) m(1)]
  have "1 + varint_len (cf_offset f) + varint_len (word_of_nat n) + n \<le> cap"
    using c(1) m False by (auto simp: n_def r_def)
  moreover have "n < length (cf_data f) \<longrightarrow> cap \<le> 1 + varint_len (cf_offset f) + varint_len (word_of_nat n) + n + 4"
    using c(2) m(3) False by (auto simp: n_def r_def)
  ultimately show ?thesis
    using n crypto_encoding_size [of "f\<lparr>cf_data := take n (cf_data f)\<rparr>"] assms(1) by (simp add: fit min_absorb2)
qed

theorem crypto_try_fit_fits_witness:
  "case crypto_try_fit 0 4 5 of None \<Rightarrow> False | Some n \<Rightarrow> n \<le> 4 \<and>
     (\<exists>len. encoding_size (crypto_encode \<lparr>cf_offset = 0, cf_data = take n [1, 2, 3, 4]\<rparr>) = Some len \<and> len \<le> 5)"
proof -
  have "crypto_try_fit 0 4 5 = Some 2" "length [1, 2, 3, 4 :: u8] = 4"
    by (simp_all add: crypto_try_fit_eq varint_len_of_nat [of 0, simplified] varint_len_def)
  with crypto_try_fit_fits [of "\<lparr>cf_offset = 0, cf_data = [1, 2, 3, 4]\<rparr>" 5] show ?thesis
    by (simp add: varint_valid_def MAX_VARINT_VALUE_def del: list.size) blast
qed

end
