(* ===== verification/Time.thy ===== *)
theory Time
  imports Prelude
begin

text \<open>
  Points in time and timers: \<^verbatim>\<open>quic/s2n-quic-core/src/time/timestamp.rs\<close> and \<^verbatim>\<open>timer.rs\<close>.

  A \<open>Duration\<close> of the standard library is its number of nanoseconds; its operators panic when the
  result is not representable, which is \<open>None\<close>. A \<open>Timestamp\<close> is the non-zero number of
  microseconds since the epoch of the clock.
\<close>

section \<open>Durations\<close>

type_synonym duration = nat

definition DURATION_MAX :: duration where
  "DURATION_MAX = (2 ^ 64 - 1) * 10 ^ 9 + 999999999"

definition duration_checked_add :: "duration \<Rightarrow> duration \<Rightarrow> duration option" where
  "duration_checked_add a b = (if a + b \<le> DURATION_MAX then Some (a + b) else None)"

definition duration_checked_sub :: "duration \<Rightarrow> duration \<Rightarrow> duration option" where
  "duration_checked_sub a b = (if b \<le> a then Some (a - b) else None)"

definition duration_checked_mul :: "duration \<Rightarrow> u32 \<Rightarrow> duration option" where
  "duration_checked_mul a n = (if a * unat n \<le> DURATION_MAX then Some (a * unat n) else None)"

definition duration_from_micros :: "u64 \<Rightarrow> duration" where
  "duration_from_micros n = unat n * 1000"

definition duration_from_millis :: "u64 \<Rightarrow> duration" where
  "duration_from_millis n = unat n * 1000000"

definition duration_as_micros :: "duration \<Rightarrow> nat" where
  "duration_as_micros d = d div 1000"

definition duration_as_millis :: "duration \<Rightarrow> nat" where
  "duration_as_millis d = d div 1000000"

section \<open>Timestamps\<close>

definition K_GRANULARITY :: duration where
  "K_GRANULARITY = duration_from_millis 1"

type_synonym timestamp = u64

definition ONE_MICROSECOND :: u64 where
  "ONE_MICROSECOND = 1"

definition ts_from_duration_impl :: "duration \<Rightarrow> timestamp" where
  "ts_from_duration_impl d =
     (let micros = word_of_nat (duration_as_micros d) in if micros = 0 then ONE_MICROSECOND else micros)"

definition ts_as_duration_impl :: "timestamp \<Rightarrow> duration" where
  "ts_as_duration_impl self = duration_from_micros self"

definition ts_checked_add :: "timestamp \<Rightarrow> duration \<Rightarrow> timestamp option" where
  "ts_checked_add self d = map_option ts_from_duration_impl (duration_checked_add (ts_as_duration_impl self) d)"

definition ts_checked_sub :: "timestamp \<Rightarrow> duration \<Rightarrow> timestamp option" where
  "ts_checked_sub self d = map_option ts_from_duration_impl (duration_checked_sub (ts_as_duration_impl self) d)"

definition saturating_duration_since :: "timestamp \<Rightarrow> timestamp \<Rightarrow> duration" where
  "saturating_duration_since self earlier =
     unwrap_or 0 (map_option ts_as_duration_impl (ts_checked_sub self (ts_as_duration_impl earlier)))"

definition has_elapsed :: "timestamp \<Rightarrow> timestamp \<Rightarrow> bool" where
  "has_elapsed self now \<longleftrightarrow> self < now + word_of_nat (duration_as_micros K_GRANULARITY)"

text \<open>The operators \<open>Timestamp + Duration\<close>, \<open>Timestamp - Timestamp\<close> and \<open>Timestamp - Duration\<close>.\<close>

definition ts_add :: "timestamp \<Rightarrow> duration \<Rightarrow> timestamp option" where
  "ts_add self rhs = map_option ts_from_duration_impl (duration_checked_add (ts_as_duration_impl self) rhs)"

definition ts_sub :: "timestamp \<Rightarrow> timestamp \<Rightarrow> duration option" where
  "ts_sub self rhs = duration_checked_sub (ts_as_duration_impl self) (ts_as_duration_impl rhs)"

definition ts_sub_duration :: "timestamp \<Rightarrow> duration \<Rightarrow> timestamp option" where
  "ts_sub_duration self rhs = map_option ts_from_duration_impl (duration_checked_sub (ts_as_duration_impl self) rhs)"

section \<open>Timers\<close>

record timer =
  expiration :: "timestamp option"

definition timer_default :: timer where
  "timer_default = \<lparr>expiration = None\<rparr>"

definition timer_set :: "timestamp \<Rightarrow> timer \<Rightarrow> timer" where
  "timer_set time self = self\<lparr>expiration := Some time\<rparr>"

definition timer_cancel :: "timer \<Rightarrow> timer" where
  "timer_cancel self = self\<lparr>expiration := None\<rparr>"

definition timer_is_expired :: "timer \<Rightarrow> timestamp \<Rightarrow> bool" where
  "timer_is_expired self current_time =
     (case expiration self of Some timeout \<Rightarrow> has_elapsed timeout current_time | None \<Rightarrow> False)"

definition timer_is_armed :: "timer \<Rightarrow> bool" where
  "timer_is_armed self \<longleftrightarrow> expiration self \<noteq> None"

text \<open>\<open>Poll::Ready(())\<close> is \<open>True\<close>.\<close>

definition poll_expiration :: "timestamp \<Rightarrow> timer \<Rightarrow> bool \<times> timer" where
  "poll_expiration current_time self =
     (if timer_is_expired self current_time then (True, timer_cancel self) else (False, self))"

text \<open>The queries over the timers of a provider, which is the list of its timers.\<close>

fun earliest_on_timer :: "timestamp option \<Rightarrow> timer \<Rightarrow> timestamp option" where
  "earliest_on_timer a t =
     (case (a, expiration t) of
        (Some a, Some b) \<Rightarrow> Some (min a b)
      | (None, b) \<Rightarrow> b
      | (a, None) \<Rightarrow> a)"

definition next_expiration :: "timer list \<Rightarrow> timestamp option" where
  "next_expiration timers = foldl earliest_on_timer None timers"

definition armed_timer_count :: "timer list \<Rightarrow> nat" where
  "armed_timer_count timers = foldl (\<lambda>n t. if timer_is_armed t then n + 1 else n) 0 timers"

section \<open>Laws\<close>

named_theorems time_simps

lemma ts_as_duration_simps [time_simps]:
  "ts_as_duration_impl t = unat t * 1000" "duration_as_micros (n * 1000) = n" "duration_as_micros K_GRANULARITY = 1000"
  by (simp_all add: ts_as_duration_impl_def duration_from_micros_def duration_as_micros_def K_GRANULARITY_def
      duration_from_millis_def)

lemma ts_from_as_duration [simp]: "t \<noteq> 0 \<Longrightarrow> ts_from_duration_impl (unat t * 1000) = t"
  by (simp add: ts_from_duration_impl_def time_simps Let_def)

lemma ts_from_duration_nonzero [simp]: "ts_from_duration_impl d \<noteq> 0"
  by (simp add: ts_from_duration_impl_def ONE_MICROSECOND_def Let_def)

lemma unat_ts_from_duration:
  "d div 1000 < 2 ^ 64 \<Longrightarrow> unat (ts_from_duration_impl d) = max 1 (d div 1000)"
  by (auto simp: ts_from_duration_impl_def duration_as_micros_def ONE_MICROSECOND_def Let_def unat_of_nat_no_wrap
      word_unat_eq_iff simp del: word_of_nat_eq_0_iff)

lemma ts_duration_bound: "unat (t :: timestamp) * 1000 \<le> DURATION_MAX"
proof -
  have "unat t < 2 ^ 64" using unat_less_power [of t] by simp
  then show ?thesis by (simp add: DURATION_MAX_def)
qed

lemma unat_ts_add:
  assumes "unat t + d div 1000 < 2 ^ 64"
  obtains t' where "ts_add t d = Some t'" "unat t' = max 1 (unat t + d div 1000)"
proof -
  have "(unat t * 1000 + d) div 1000 = unat t + d div 1000" by simp
  moreover have "unat t * 1000 + d \<le> DURATION_MAX"
    using assms by (simp add: DURATION_MAX_def)
  ultimately show thesis
    using assms unat_ts_from_duration [of "unat t * 1000 + d"]
    by (intro that [of "ts_from_duration_impl (unat t * 1000 + d)"])
       (simp_all add: ts_add_def time_simps duration_checked_add_def)
qed

lemma unat_has_elapsed:
  assumes "unat now + 1000 < 2 ^ 64"
  shows "has_elapsed t now \<longleftrightarrow> unat t < unat now + 1000"
proof -
  have "unat (now + 1000) = unat now + 1000"
    using assms by (subst unat_add_no_wrap) simp_all
  then show ?thesis by (simp add: has_elapsed_def time_simps word_less_nat_alt)
qed

text \<open>
  \<open>saturating_duration_since\<close> goes through a \<open>Timestamp\<close>, which is never zero: between two equal
  timestamps a microsecond is reported.
\<close>

lemma saturating_duration_since_eq:
  "saturating_duration_since t e = (if t < e then 0 else if t = e then 1000 else unat t * 1000 - unat e * 1000)"
proof (cases "e \<le> t")
  case True
  then have le: "unat e \<le> unat t" by (simp add: word_le_nat_alt)
  have "(unat t * 1000 - unat e * 1000) div 1000 = unat t - unat e" by (simp flip: diff_mult_distrib)
  moreover have "unat t - unat e < 2 ^ 64" using unat_less_power [of t] by simp
  ultimately have "unat (ts_from_duration_impl (unat t * 1000 - unat e * 1000)) = max 1 (unat t - unat e)"
    by (simp add: unat_ts_from_duration)
  with True le show ?thesis
    by (auto simp: saturating_duration_since_def ts_checked_sub_def time_simps duration_checked_sub_def
        word_unat_eq_iff not_less diff_mult_distrib max_def)
next
  case False
  then have "unat t < unat e" by (simp add: word_le_nat_alt)
  with False show ?thesis
    by (simp add: saturating_duration_since_def ts_checked_sub_def time_simps duration_checked_sub_def)
qed

lemma saturating_duration_since_same: "saturating_duration_since t t = duration_from_micros 1"
  by (simp add: saturating_duration_since_eq duration_from_micros_def)

lemma next_expiration_eq:
  "next_expiration ts = (let E = {e. \<exists>t\<in>set ts. expiration t = Some e} in if E = {} then None else Some (Min E))"
proof (induction ts rule: rev_induct)
  case Nil
  then show ?case by (simp add: next_expiration_def)
next
  case (snoc t ts)
  let ?E = "\<lambda>ts. {e. \<exists>t\<in>set ts. expiration t = Some e}"
  have fin: "finite (?E ts)"
  proof -
    have "?E ts \<subseteq> (\<lambda>t. the (expiration t)) ` set ts" by force
    then show ?thesis by (rule finite_subset) simp
  qed
  have E: "?E (ts @ [t]) = ?E ts \<union> (case expiration t of None \<Rightarrow> {} | Some e \<Rightarrow> {e})"
    by (auto split: option.splits)
  show ?case
    using snoc.IH fin unfolding E Let_def
    by (cases "expiration t") (auto simp: next_expiration_def min.commute Let_def split: if_splits)
qed

section \<open>Properties\<close>

text \<open>
  C40. Timestamp arithmetic. Adding a duration within the range of the clock never panics; taking the
  difference back gives the duration in whole microseconds, subtracting the duration gives the
  original timestamp back. A timer set to that time is found expired exactly when the time lies less
  than one millisecond ahead of \<open>now\<close> or has passed: at one millisecond ahead it is not yet. It is then
  disarmed and does not expire again.
\<close>

theorem timestamp_timer_arithmetic:
  assumes "t \<noteq> 0" and "unat t + d div 1000 < 2 ^ 64" and "unat now + 1000 < 2 ^ 64"
  shows "\<exists>t'. ts_add t d = Some t' \<and> ts_sub t' t = Some (d div 1000 * 1000) \<and>
    ts_sub_duration t' (d div 1000 * 1000) = Some t \<and>
    (let (ready, timer) = poll_expiration now (timer_set t' timer_default) in
      (ready \<longleftrightarrow> unat t + d div 1000 < unat now + 1000) \<and> timer_is_armed timer = (\<not> ready) \<and>
      (ready \<longrightarrow> poll_expiration now timer = (False, timer)))"
proof -
  obtain t' where t': "ts_add t d = Some t'" "unat t' = max 1 (unat t + d div 1000)"
    by (rule unat_ts_add [OF assms(2)])
  have "unat t \<noteq> 0" using assms(1) by (simp add: unat_eq_0)
  with t'(2) have u: "unat t' = unat t + d div 1000" by simp
  have "ts_sub t' t = Some (d div 1000 * 1000)" "ts_sub_duration t' (d div 1000 * 1000) = Some t"
    using assms(1) by (simp_all add: ts_sub_def ts_sub_duration_def time_simps u duration_checked_sub_def
        add_mult_distrib)
  with t'(1) show ?thesis
    by (auto simp: poll_expiration_def timer_is_expired_def timer_set_def timer_cancel_def timer_is_armed_def
        unat_has_elapsed [OF assms(3)] u)
qed

theorem timestamp_timer_arithmetic_witness:
  "\<exists>t'. ts_add 5 2000500 = Some t' \<and> ts_sub t' 5 = Some 2000000 \<and>
     fst (poll_expiration 1500 (timer_set t' timer_default))"
  using timestamp_timer_arithmetic [of 5 2000500 1500] by (auto simp: case_prod_beta)

end
