(* ===== verification/Transmission.thy ===== *)
theory Transmission
  imports FrameCodec PacketNumber Time
begin

text \<open>
  Writing frames into packets: the constraints and interests of \<^verbatim>\<open>quic/s2n-quic-core/src/transmission/\<close>,
  the scatter buffer of \<^verbatim>\<open>common/s2n-codec/src/encoder/scatter.rs\<close> and the write context of
  \<^verbatim>\<open>quic/s2n-quic-transport/src/transmission/context.rs\<close>. Events published to subscribers are not
  modelled, and neither are the checks that run only with debug assertions.
\<close>

section \<open>Constraints and interests\<close>

datatype constraint = NoConstraint | RetransmissionOnly | CongestionLimited | AmplificationLimited

definition can_transmit :: "constraint \<Rightarrow> bool" where
  "can_transmit self \<longleftrightarrow> self = NoConstraint"

definition can_retransmit :: "constraint \<Rightarrow> bool" where
  "can_retransmit self \<longleftrightarrow> can_transmit self \<or> self = RetransmissionOnly"

datatype interest = NoInterest | NewData | LostData | Forced

fun interest_can_transmit :: "interest \<Rightarrow> constraint \<Rightarrow> bool" where
  "interest_can_transmit _ AmplificationLimited = False"
| "interest_can_transmit Forced _ = True"
| "interest_can_transmit LostData limit = can_retransmit limit"
| "interest_can_transmit NewData limit = can_transmit limit"
| "interest_can_transmit NoInterest _ = False"

text \<open>
  A query sees the interests of a provider one by one; \<open>Err(QueryBreak)\<close>, here \<open>True\<close>, ends it. The
  three queries: the strongest interest, whether a constraint lets any of them through, and whether
  there is any.
\<close>

fun interest_on_interest :: "interest \<Rightarrow> interest \<Rightarrow> bool \<times> interest" where
  "interest_on_interest self i =
     (if self = Forced \<or> i = Forced then (True, Forced)
      else if self = LostData \<or> i = LostData then (False, LostData)
      else if self = NewData \<or> i = NewData then (False, NewData)
      else (False, self))"

definition constraint_on_interest :: "constraint \<Rightarrow> interest \<Rightarrow> bool \<times> constraint" where
  "constraint_on_interest self i = (interest_can_transmit i self, self)"

definition has_interest_on_interest :: "unit \<Rightarrow> interest \<Rightarrow> bool \<times> unit" where
  "has_interest_on_interest self i = (i \<noteq> NoInterest, self)"

fun run_query :: "('q \<Rightarrow> interest \<Rightarrow> bool \<times> 'q) \<Rightarrow> 'q \<Rightarrow> interest list \<Rightarrow> bool \<times> 'q" where
  "run_query on q [] = (False, q)"
| "run_query on q (i # is) = (case on q i of (True, q) \<Rightarrow> (True, q) | (False, q) \<Rightarrow> run_query on q is)"

definition get_transmission_interest :: "interest list \<Rightarrow> interest" where
  "get_transmission_interest is = snd (run_query interest_on_interest NoInterest is)"

definition has_transmission_interest :: "interest list \<Rightarrow> bool" where
  "has_transmission_interest is = fst (run_query has_interest_on_interest () is)"

definition provider_can_transmit :: "interest list \<Rightarrow> constraint \<Rightarrow> bool" where
  "provider_can_transmit is c = fst (run_query constraint_on_interest c is)"

section \<open>The scatter buffer\<close>

text \<open>An encoder buffer, and bytes at its end whose copy is deferred.\<close>

record scatter =
  sc_inner :: encoder
  sc_extra :: "u8 list option"

definition scatter_new :: "encoder \<Rightarrow> scatter" where
  "scatter_new inner = \<lparr>sc_inner = inner, sc_extra = None\<rparr>"

definition scatter_flush :: "scatter \<Rightarrow> scatter option" where
  "scatter_flush self =
     (case sc_extra self of
        None \<Rightarrow> Some self
      | Some extra \<Rightarrow> map_option (\<lambda>inner. \<lparr>sc_inner = inner, sc_extra = None\<rparr>) (write_slice extra (sc_inner self)))"

text \<open>Every write but that of \<open>Bytes\<close> flushes, then writes to the inner buffer.\<close>

definition scatter_encode :: "(encoder \<Rightarrow> encoder option) \<Rightarrow> scatter \<Rightarrow> scatter option" where
  "scatter_encode f self =
     Option.bind (scatter_flush self) (\<lambda>self. map_option (\<lambda>inner. self\<lparr>sc_inner := inner\<rparr>) (f (sc_inner self)))"

definition scatter_write_bytes :: "u8 list \<Rightarrow> scatter \<Rightarrow> scatter option" where
  "scatter_write_bytes bytes self =
     Option.bind (scatter_flush self) (\<lambda>self.
       if length bytes \<le> remaining_capacity (sc_inner self) then Some (self\<lparr>sc_extra := Some bytes\<rparr>) else None)"

definition scatter_len :: "scatter \<Rightarrow> nat" where
  "scatter_len self = encoder_len (sc_inner self) + (case sc_extra self of None \<Rightarrow> 0 | Some extra \<Rightarrow> length extra)"

definition scatter_remaining :: "scatter \<Rightarrow> nat" where
  "scatter_remaining self = capacity (sc_inner self) - scatter_len self"

section \<open>The write context\<close>

datatype tx_mode = LossRecoveryProbing | MtuProbing | PathValidationOnly | NormalMode

record tx_context =
  tc_ack_elicitation :: ack_elicitation
  tc_is_congestion_controlled :: bool
  tc_buffer :: scatter
  tc_packet_number :: packet_number
  tc_constraint :: constraint
  tc_mode :: tx_mode
  tc_timestamp :: timestamp

text \<open>
  A frame that is too large for the rest of the packet is refused, which the caller learns from
  \<open>None\<close>; the outer \<open>None\<close> is a panic.
\<close>

definition write_frame_forced ::
    "network_endian \<Rightarrow> zerocopy \<Rightarrow> ('r \<Rightarrow> ack_range list) \<Rightarrow> 'r frame \<Rightarrow> tx_context \<Rightarrow>
     (packet_number option \<times> tx_context) option" where
  "write_frame_forced ne zc ranges frame self =
     Option.bind (encoding_size (frame_encode ne zc ranges frame)) (\<lambda>size.
     if size > scatter_remaining (tc_buffer self) then Some (None, self)
     else map_option (\<lambda>buffer.
         (Some (tc_packet_number self),
          self\<lparr>tc_buffer := buffer,
               tc_ack_elicitation := ack_elicitation_or (tc_ack_elicitation self) (frame_ack_elicitation frame),
               tc_is_congestion_controlled := (tc_is_congestion_controlled self \<or> frame_is_congestion_controlled frame)\<rparr>))
       (scatter_encode (frame_encode ne zc ranges frame) (tc_buffer self)))"

definition write_frame ::
    "network_endian \<Rightarrow> zerocopy \<Rightarrow> ('r \<Rightarrow> ack_range list) \<Rightarrow> 'r frame \<Rightarrow> tx_context \<Rightarrow>
     (packet_number option \<times> tx_context) option" where
  "write_frame ne zc ranges frame self = write_frame_forced ne zc ranges frame self"

text \<open>\<open>RetransmissionContext\<close> overrides the constraint of the context it wraps.\<close>

definition retransmission_context :: "tx_context \<Rightarrow> tx_context" where
  "retransmission_context self = self\<lparr>tc_constraint := RetransmissionOnly\<rparr>"

text \<open>Frames offered to a packet in order; the answers, and the context afterwards.\<close>

fun write_frames ::
    "network_endian \<Rightarrow> zerocopy \<Rightarrow> ('r \<Rightarrow> ack_range list) \<Rightarrow> 'r frame list \<Rightarrow> tx_context \<Rightarrow>
     ((packet_number option) list \<times> tx_context) option" where
  "write_frames ne zc ranges [] ctx = Some ([], ctx)"
| "write_frames ne zc ranges (f # fs) ctx =
     Option.bind (write_frame ne zc ranges f ctx) (\<lambda>(r, ctx).
     map_option (\<lambda>(rs, ctx). (r # rs, ctx)) (write_frames ne zc ranges fs ctx))"

section \<open>Interests\<close>

lemma run_query_simps:
  "snd (run_query interest_on_interest q is) =
     (if q = Forced \<or> Forced \<in> set is then Forced else if q = LostData \<or> LostData \<in> set is then LostData
      else if q = NewData \<or> NewData \<in> set is then NewData else NoInterest)"
  "fst (run_query has_interest_on_interest u is) \<longleftrightarrow> (\<exists>i\<in>set is. i \<noteq> NoInterest)"
  "fst (run_query constraint_on_interest c is) \<longleftrightarrow> (\<exists>i\<in>set is. interest_can_transmit i c)"
proof -
  show "snd (run_query interest_on_interest q is) =
     (if q = Forced \<or> Forced \<in> set is then Forced else if q = LostData \<or> LostData \<in> set is then LostData
      else if q = NewData \<or> NewData \<in> set is then NewData else NoInterest)"
  proof (induction "is" arbitrary: q)
    case Nil
    then show ?case by (cases q) auto
  next
    case (Cons i "is")
    then show ?case by (cases q; cases i) auto
  qed
  show "fst (run_query has_interest_on_interest u is) \<longleftrightarrow> (\<exists>i\<in>set is. i \<noteq> NoInterest)"
    by (induction "is") (auto simp: has_interest_on_interest_def split: bool.splits)
  show "fst (run_query constraint_on_interest c is) \<longleftrightarrow> (\<exists>i\<in>set is. interest_can_transmit i c)"
    by (induction "is") (auto simp: constraint_on_interest_def split: bool.splits)
qed

lemma transmission_interest_consistent:
  "provider_can_transmit is c \<longleftrightarrow> interest_can_transmit (get_transmission_interest is) c"
  "has_transmission_interest is \<longleftrightarrow> get_transmission_interest is \<noteq> NoInterest"
proof -
  have mono: "interest_can_transmit i c \<Longrightarrow> interest_can_transmit (get_transmission_interest is) c" if "i \<in> set is" for i
    unfolding get_transmission_interest_def run_query_simps
    by (cases i; cases c; insert that) (auto simp: can_retransmit_def can_transmit_def)
  have mem: "get_transmission_interest is = NoInterest \<or> get_transmission_interest is \<in> set is"
    unfolding get_transmission_interest_def run_query_simps by simp
  show "provider_can_transmit is c \<longleftrightarrow> interest_can_transmit (get_transmission_interest is) c"
    using mono mem unfolding provider_can_transmit_def run_query_simps
    by (cases c) (auto simp: can_retransmit_def can_transmit_def)
  show "has_transmission_interest is \<longleftrightarrow> get_transmission_interest is \<noteq> NoInterest"
    unfolding has_transmission_interest_def get_transmission_interest_def run_query_simps
    by (auto, (metis interest.exhaust)+)
qed

section \<open>Writing frames\<close>

text \<open>The bytes of a packet so far: those of the buffer and the deferred ones.\<close>

definition tx_payload :: "tx_context \<Rightarrow> u8 list" where
  "tx_payload ctx = (case sc_inner (tc_buffer ctx) of
     EncoderBuffer bytes position \<Rightarrow> take position bytes | _ \<Rightarrow> []) @
     (case sc_extra (tc_buffer ctx) of None \<Rightarrow> [] | Some extra \<Rightarrow> extra)"

definition tx_wf :: "tx_context \<Rightarrow> bool" where
  "tx_wf ctx \<longleftrightarrow> (\<exists>bytes position. sc_inner (tc_buffer ctx) = EncoderBuffer bytes position \<and>
     scatter_len (tc_buffer ctx) \<le> length bytes)"

definition tx_accepts :: "('r \<Rightarrow> ack_range list) \<Rightarrow> tx_context \<Rightarrow> 'r frame \<Rightarrow> bool" where
  "tx_accepts ranges ctx f \<longleftrightarrow> length (frame_wire ranges f) \<le> scatter_remaining (tc_buffer ctx)"

lemma scatter_flush_wf:
  assumes "sc_inner self = EncoderBuffer bytes position" "scatter_len self \<le> length bytes"
  shows "\<exists>bytes'. scatter_flush self = Some \<lparr>sc_inner = EncoderBuffer bytes' (scatter_len self), sc_extra = None\<rparr> \<and>
    length bytes' = length bytes \<and>
    take (scatter_len self) bytes' = take position bytes @ (case sc_extra self of None \<Rightarrow> [] | Some extra \<Rightarrow> extra)"
proof (cases "sc_extra self")
  case None
  then show ?thesis
    using assms by (cases self) (simp add: scatter_flush_def scatter_len_def)
next
  case (Some extra)
  then have "fits (length extra) (EncoderBuffer bytes position)" "encoder_wf (EncoderBuffer bytes position)"
    using assms by (simp_all add: scatter_len_def)
  with emitsD(1) [OF write_slice_emits [of extra]] obtain e' where
    "write_slice extra (EncoderBuffer bytes position) = Some e'" "writes (EncoderBuffer bytes position) extra e'" by blast
  with Some assms show ?thesis by (auto simp: scatter_flush_def scatter_len_def)
qed

lemma write_frame_spec:
  assumes ne: "network_endian_ok ne" and zc: "zerocopy_ok zc" and ok: "frame_ok ranges f" and wf: "tx_wf ctx"
  shows "if tx_accepts ranges ctx f then \<exists>ctx'. write_frame ne zc ranges f ctx = Some (Some (tc_packet_number ctx), ctx') \<and>
      tx_wf ctx' \<and> tx_payload ctx' = tx_payload ctx @ frame_wire ranges f \<and>
      tc_packet_number ctx' = tc_packet_number ctx \<and> tc_constraint ctx' = tc_constraint ctx \<and>
      tc_timestamp ctx' = tc_timestamp ctx \<and>
      scatter_remaining (tc_buffer ctx') = scatter_remaining (tc_buffer ctx) - length (frame_wire ranges f) \<and>
      tc_ack_elicitation ctx' = ack_elicitation_or (tc_ack_elicitation ctx) (frame_ack_elicitation f) \<and>
      tc_is_congestion_controlled ctx' = (tc_is_congestion_controlled ctx \<or> frame_is_congestion_controlled f)
    else write_frame ne zc ranges f ctx = Some (None, ctx)"
proof -
  note em = frame_encode_emits [OF ne zc ok]
  obtain bytes position where inner: "sc_inner (tc_buffer ctx) = EncoderBuffer bytes position"
    and len: "scatter_len (tc_buffer ctx) \<le> length bytes" using wf by (auto simp: tx_wf_def)
  obtain bytes' where fl: "scatter_flush (tc_buffer ctx) =
      Some \<lparr>sc_inner = EncoderBuffer bytes' (scatter_len (tc_buffer ctx)), sc_extra = None\<rparr>"
    "length bytes' = length bytes" "take (scatter_len (tc_buffer ctx)) bytes' = tx_payload ctx"
    using scatter_flush_wf [OF inner len] by (auto simp: tx_payload_def inner)
  have rem: "scatter_remaining (tc_buffer ctx) = length bytes - scatter_len (tc_buffer ctx)"
    by (simp add: scatter_remaining_def inner)
  show ?thesis
  proof (cases "tx_accepts ranges ctx f")
    case True
    then have "fits (length (frame_wire ranges f)) (EncoderBuffer bytes' (scatter_len (tc_buffer ctx)))"
      using rem len fl(2) by (simp add: tx_accepts_def)
    then obtain bytes'' where w: "frame_encode ne zc ranges f (EncoderBuffer bytes' (scatter_len (tc_buffer ctx))) =
        Some (EncoderBuffer bytes'' (scatter_len (tc_buffer ctx) + length (frame_wire ranges f)))"
      "length bytes'' = length bytes'" "scatter_len (tc_buffer ctx) + length (frame_wire ranges f) \<le> length bytes'"
      "take (scatter_len (tc_buffer ctx) + length (frame_wire ranges f)) bytes'' = tx_payload ctx @ frame_wire ranges f"
      using emitsD(1) [OF em, of "EncoderBuffer bytes' (scatter_len (tc_buffer ctx))"] len fl(2,3) by auto
    with True fl rem show ?thesis
      by (simp add: write_frame_def write_frame_forced_def emits_encoding_size [OF em] scatter_encode_def tx_accepts_def
          tx_wf_def tx_payload_def [where ctx = "tx_context.tc_buffer_update _ _"] scatter_len_def)
         (simp add: tx_payload_def scatter_remaining_def scatter_len_def)
  next
    case False
    then show ?thesis
      by (simp add: write_frame_def write_frame_forced_def emits_encoding_size [OF em] tx_accepts_def)
  qed
qed

section \<open>Properties\<close>

text \<open>The frames a receiver finds in a payload, compared by what their ACK ranges yield.\<close>

inductive decodes_to :: "network_endian \<Rightarrow> zerocopy \<Rightarrow> u8 list \<Rightarrow> ack_range list frame list \<Rightarrow> bool"
  for ne zc where
  decodes_nil: "decodes_to ne zc [] []"
| decodes_cons: "decode_frame ne zc buffer = Inr (f, rest) \<Longrightarrow> decodes_to ne zc rest fs \<Longrightarrow>
    decodes_to ne zc buffer (frame_view (\<lambda>d. the (decoder_ack_ranges ne d)) f # fs)"

text \<open>
  Which of the frames offered one after the other fit in the room that is left, and the frames sent
  then. A frame that is read to the end of the packet has to be the last one, and a run of padding
  must not be continued by the next frame.
\<close>

fun tx_fits :: "('r \<Rightarrow> ack_range list) \<Rightarrow> nat \<Rightarrow> 'r frame list \<Rightarrow> bool list" where
  "tx_fits ranges room [] = []"
| "tx_fits ranges room (f # fs) =
     (if length (frame_wire ranges f) \<le> room then True # tx_fits ranges (room - length (frame_wire ranges f)) fs
      else False # tx_fits ranges room fs)"

definition tx_sent :: "('r \<Rightarrow> ack_range list) \<Rightarrow> nat \<Rightarrow> 'r frame list \<Rightarrow> 'r frame list" where
  "tx_sent ranges room fs = map fst (filter snd (zip fs (tx_fits ranges room fs)))"

fun well_placed :: "('r \<Rightarrow> ack_range list) \<Rightarrow> 'r frame list \<Rightarrow> bool" where
  "well_placed ranges [] \<longleftrightarrow> True"
| "well_placed ranges (f # fs) \<longleftrightarrow>
     frame_followed_by f (concat (map (frame_wire ranges) fs)) \<and> well_placed ranges fs"

lemma tx_sent_simps [simp]:
  "tx_sent ranges room [] = []"
  "tx_sent ranges room (f # fs) =
     (if length (frame_wire ranges f) \<le> room then f # tx_sent ranges (room - length (frame_wire ranges f)) fs
      else tx_sent ranges room fs)"
  by (simp_all add: tx_sent_def)

lemma set_tx_sent: "set (tx_sent ranges room fs) \<subseteq> set fs"
  by (auto simp: tx_sent_def dest: set_zip_leftD)

lemma decodes_to_wire:
  assumes "network_endian_ok ne" "zerocopy_ok zc" "\<forall>f\<in>set fs. frame_ok ranges f" "well_placed ranges fs"
  shows "decodes_to ne zc (concat (map (frame_wire ranges) fs)) (map (frame_view ranges) fs)"
  using assms(3,4)
proof (induction fs)
  case Nil
  then show ?case by (simp add: decodes_nil)
next
  case (Cons f fs)
  from frame_decode_wire [OF assms(1,2), of ranges f] Cons.prems obtain f' where
    "decode_frame ne zc (frame_wire ranges f @ concat (map (frame_wire ranges) fs)) =
       Inr (f', concat (map (frame_wire ranges) fs))"
    "frame_view (\<lambda>d. the (decoder_ack_ranges ne d)) f' = frame_view ranges f" by fastforce
  with decodes_cons [of ne zc _ f'] Cons show ?case by simp
qed

lemma write_frames_spec:
  assumes ne: "network_endian_ok ne" and zc: "zerocopy_ok zc" and fs: "\<forall>f\<in>set fs. frame_ok ranges f" and wf: "tx_wf ctx"
    and room: "room = scatter_remaining (tc_buffer ctx)"
  obtains ctx' where
    "write_frames ne zc ranges fs ctx =
       Some (map (\<lambda>fits. if fits then Some (tc_packet_number ctx) else None) (tx_fits ranges room fs), ctx')"
    "tx_payload ctx' = tx_payload ctx @ concat (map (frame_wire ranges) (tx_sent ranges room fs))"
    "tc_ack_elicitation ctx' = Eliciting \<longleftrightarrow> tc_ack_elicitation ctx = Eliciting \<or>
       (\<exists>f\<in>set (tx_sent ranges room fs). frame_ack_elicitation f = Eliciting)"
    "tc_is_congestion_controlled ctx' \<longleftrightarrow> tc_is_congestion_controlled ctx \<or>
       (\<exists>f\<in>set (tx_sent ranges room fs). frame_is_congestion_controlled f)"
  using fs wf room
proof (induction fs arbitrary: ctx room thesis)
  case Nil
  then show ?case by simp
next
  case (Cons f fs)
  have or: "ack_elicitation_or a b = Eliciting \<longleftrightarrow> a = Eliciting \<or> b = Eliciting" for a b
    by (cases a; cases b) simp_all
  note spec = write_frame_spec [OF ne zc, of ranges f ctx]
  have fs: "\<forall>f\<in>set fs. frame_ok ranges f" using Cons.prems(2) by simp
  show ?case
  proof (cases "tx_accepts ranges ctx f")
    case True
    with spec Cons.prems(2,3) obtain ctx1 where ctx1: "write_frame ne zc ranges f ctx = Some (Some (tc_packet_number ctx), ctx1)"
      "tx_wf ctx1" "tx_payload ctx1 = tx_payload ctx @ frame_wire ranges f" "tc_packet_number ctx1 = tc_packet_number ctx"
      "scatter_remaining (tc_buffer ctx1) = scatter_remaining (tc_buffer ctx) - length (frame_wire ranges f)"
      "tc_ack_elicitation ctx1 = ack_elicitation_or (tc_ack_elicitation ctx) (frame_ack_elicitation f)"
      "tc_is_congestion_controlled ctx1 = (tc_is_congestion_controlled ctx \<or> frame_is_congestion_controlled f)" by auto
    have fits: "length (frame_wire ranges f) \<le> room" using True Cons.prems(4) by (simp add: tx_accepts_def)
    have room: "room - length (frame_wire ranges f) = scatter_remaining (tc_buffer ctx1)"
      using ctx1(5) Cons.prems(4) by simp
    obtain ctx' where ctx': "write_frames ne zc ranges fs ctx1 =
        Some (map (\<lambda>fits. if fits then Some (tc_packet_number ctx1) else None) (tx_fits ranges (room - length (frame_wire ranges f)) fs), ctx')"
      "tx_payload ctx' = tx_payload ctx1 @ concat (map (frame_wire ranges) (tx_sent ranges (room - length (frame_wire ranges f)) fs))"
      "tc_ack_elicitation ctx' = Eliciting \<longleftrightarrow> tc_ack_elicitation ctx1 = Eliciting \<or>
         (\<exists>f\<in>set (tx_sent ranges (room - length (frame_wire ranges f)) fs). frame_ack_elicitation f = Eliciting)"
      "tc_is_congestion_controlled ctx' \<longleftrightarrow> tc_is_congestion_controlled ctx1 \<or>
         (\<exists>f\<in>set (tx_sent ranges (room - length (frame_wire ranges f)) fs). frame_is_congestion_controlled f)"
      by (rule Cons.IH [OF _ fs ctx1(2) room])
    with ctx1 fits show ?thesis by (intro Cons.prems(1) [of ctx']) (auto simp: or)
  next
    case False
    with spec Cons.prems(2,3) have ctx1: "write_frame ne zc ranges f ctx = Some (None, ctx)" by simp
    have unfit: "\<not> length (frame_wire ranges f) \<le> room" using False Cons.prems(4) by (simp add: tx_accepts_def)
    obtain ctx' where ctx': "write_frames ne zc ranges fs ctx =
        Some (map (\<lambda>fits. if fits then Some (tc_packet_number ctx) else None) (tx_fits ranges room fs), ctx')"
      "tx_payload ctx' = tx_payload ctx @ concat (map (frame_wire ranges) (tx_sent ranges room fs))"
      "tc_ack_elicitation ctx' = Eliciting \<longleftrightarrow> tc_ack_elicitation ctx = Eliciting \<or>
         (\<exists>f\<in>set (tx_sent ranges room fs). frame_ack_elicitation f = Eliciting)"
      "tc_is_congestion_controlled ctx' \<longleftrightarrow> tc_is_congestion_controlled ctx \<or>
         (\<exists>f\<in>set (tx_sent ranges room fs). frame_is_congestion_controlled f)"
      by (rule Cons.IH [OF _ fs Cons.prems(3,4)])
    with ctx1 unfit show ?thesis by (intro Cons.prems(1) [of ctx']) simp_all
  qed
qed

text \<open>
  C25. Whatever valid frames are offered to an empty packet, nothing panics; a frame is written
  exactly if its encoding fits in the room that the frames before it left, and refusing one leaves
  no trace. The payload is exactly the encodings of the written frames. A receiver decodes it into
  those frames, in order, provided they are placed as the wire format requires: a STREAM or DATAGRAM
  frame without a length comes last, and padding is not followed by more padding. The packet counts
  as ack-eliciting, and as congestion controlled, exactly if one of the written frames is.
\<close>

theorem packet_payload_decodes:
  assumes "network_endian_ok ne" and "zerocopy_ok zc" and "tx_wf ctx" and "tx_payload ctx = []"
    and "tc_ack_elicitation ctx = NonEliciting" and "\<not> tc_is_congestion_controlled ctx"
    and "\<forall>f\<in>set fs. frame_ok ranges f"
  shows "let room = scatter_remaining (tc_buffer ctx); sent = tx_sent ranges room fs in
    \<exists>ctx'. write_frames ne zc ranges fs ctx =
      Some (map (\<lambda>fits. if fits then Some (tc_packet_number ctx) else None) (tx_fits ranges room fs), ctx') \<and>
    tx_payload ctx' = concat (map (frame_wire ranges) sent) \<and>
    (well_placed ranges sent \<longrightarrow> decodes_to ne zc (tx_payload ctx') (map (frame_view ranges) sent)) \<and>
    (tc_ack_elicitation ctx' = Eliciting \<longleftrightarrow> (\<exists>f\<in>set sent. frame_ack_elicitation f = Eliciting)) \<and>
    (tc_is_congestion_controlled ctx' \<longleftrightarrow> (\<exists>f\<in>set sent. frame_is_congestion_controlled f))"
proof -
  define room sent where "room = scatter_remaining (tc_buffer ctx)" and "sent = tx_sent ranges room fs"
  obtain ctx' where ctx': "write_frames ne zc ranges fs ctx =
      Some (map (\<lambda>fits. if fits then Some (tc_packet_number ctx) else None) (tx_fits ranges room fs), ctx')"
    "tx_payload ctx' = concat (map (frame_wire ranges) sent)"
    "tc_ack_elicitation ctx' = Eliciting \<longleftrightarrow> (\<exists>f\<in>set sent. frame_ack_elicitation f = Eliciting)"
    "tc_is_congestion_controlled ctx' \<longleftrightarrow> (\<exists>f\<in>set sent. frame_is_congestion_controlled f)"
    by (rule write_frames_spec [OF assms(1,2,7,3) room_def]) (use assms(4-6) in \<open>simp add: sent_def\<close>)
  have "\<forall>f\<in>set sent. frame_ok ranges f" using assms(7) set_tx_sent [of ranges room fs] by (auto simp: sent_def)
  then have "well_placed ranges sent \<longrightarrow> decodes_to ne zc (tx_payload ctx') (map (frame_view ranges) sent)"
    unfolding ctx'(2) using decodes_to_wire [OF assms(1,2)] by blast
  with ctx' show ?thesis unfolding Let_def room_def [symmetric] sent_def [symmetric] by blast
qed

definition example_context :: "nat \<Rightarrow> tx_context" where
  "example_context n = \<lparr>tc_ack_elicitation = NonEliciting, tc_is_congestion_controlled = False,
     tc_buffer = scatter_new (EncoderBuffer (replicate n 0) 0), tc_packet_number = pn_from_varint 3 ApplicationData,
     tc_constraint = NoConstraint, tc_mode = NormalMode, tc_timestamp = 1\<rparr>"

lemma example_context_simps [simp]:
  "tx_wf (example_context n)" "tx_payload (example_context n) = []"
  "tc_ack_elicitation (example_context n) = NonEliciting" "tc_is_congestion_controlled (example_context n) = False"
  by (simp_all add: example_context_def tx_wf_def tx_payload_def scatter_new_def scatter_len_def)

text \<open>Ten bytes of room: the STREAM frame without a length does not fit at first, a shorter one does.\<close>

abbreviation example_stream :: "u8 list \<Rightarrow> unit frame" where
  "example_stream data \<equiv> Stream \<lparr>sf_stream_id = 4, sf_offset = 0, sf_is_last_frame = True, sf_is_fin = False, sf_data = data\<rparr>"

theorem packet_payload_decodes_witness:
  "\<exists>ctx'. write_frames big_endian zerocopy_chunks (\<lambda>_. [])
        [MaxData 5, Padding 3, example_stream (replicate 9 1), example_stream [7, 7]] (example_context 10) =
      Some ([Some (pn_from_varint 3 ApplicationData), Some (pn_from_varint 3 ApplicationData), None,
        Some (pn_from_varint 3 ApplicationData)], ctx') \<and>
    decodes_to big_endian zerocopy_chunks (tx_payload ctx')
      (map (frame_view (\<lambda>_. [])) [MaxData 5, Padding 3, example_stream [7, 7]])"
proof -
  let ?fs = "[MaxData 5, Padding 3, example_stream (replicate 9 1), example_stream [7, 7]]"
  have ok: "\<forall>f\<in>set ?fs. frame_ok (\<lambda>_. []) f"
    by (auto simp: varint_valid_def MAX_VARINT_VALUE_def)
  have room: "scatter_remaining (tc_buffer (example_context 10)) = 10"
    by (simp add: example_context_def scatter_remaining_def scatter_new_def scatter_len_def)
  have fits: "tx_fits (\<lambda>_. []) 10 ?fs = [True, True, False, True]"
    "tx_sent (\<lambda>_. []) 10 ?fs = [MaxData 5, Padding 3, example_stream [7, 7]]"
    "well_placed (\<lambda>_. []) [MaxData 5, Padding 3, example_stream [7, 7]]"
    by (simp_all add: varint_len_def stream_tag_def STREAM_TAG_def)
  have pn: "tc_packet_number (example_context 10) = pn_from_varint 3 ApplicationData"
    by (simp add: example_context_def)
  from packet_payload_decodes [OF big_endian_ok zerocopy_chunks_ok example_context_simps(1-3) _ ok, of 10] show ?thesis
    unfolding Let_def room fits(1,2) pn list.map(2) if_True if_False using fits(3) by auto
qed

end
