(* ===== verification/Sync.thy ===== *)
theory Sync
  imports Transmission
begin

text \<open>
  Synchronising values to the peer: \<^verbatim>\<open>quic/s2n-quic-transport/src/sync/\<close>. A value is requested, put into
  a packet, and then acknowledged or lost with that packet. \<open>IncrementalValueSync\<close> is modelled for
  \<open>VarInt\<close>, the only type it is used with, \<open>PeriodicSync\<close> likewise. An \<open>ack::Set\<close> is the predicate
  \<open>contains\<close>; a \<open>ValueToFrameWriter\<close> is the function that writes a value into a write context.
\<close>

section \<open>Delivery states\<close>

record inflight_packet_info =
  ipi_packet_nr :: packet_number
  ipi_timestamp :: timestamp

record 't in_flight_delivery =
  ifd_value :: 't
  ifd_packet :: inflight_packet_info

datatype 't delivery_state =
    NotRequested
  | Requested 't
  | Lost 't
  | InFlight "'t in_flight_delivery"
  | Delivered 't
  | Cancelled "'t option"

type_synonym ack_set = "packet_number \<Rightarrow> bool"

type_synonym 't value_writer = "'t \<Rightarrow> stream_id \<Rightarrow> tx_context \<Rightarrow> (packet_number option \<times> tx_context) option"

datatype on_transmit_error = CouldNotWriteFrame | CouldNotAcquireEnoughSpace

fun delivery_cancel :: "'t delivery_state \<Rightarrow> 't delivery_state" where
  "delivery_cancel NotRequested = Cancelled None"
| "delivery_cancel (Requested v) = Cancelled (Some v)"
| "delivery_cancel (Lost v) = Cancelled (Some v)"
| "delivery_cancel (Delivered v) = Cancelled (Some v)"
| "delivery_cancel (InFlight d) = Cancelled (Some (ifd_value d))"
| "delivery_cancel (Cancelled v) = Cancelled v"

fun is_cancelled :: "'t delivery_state \<Rightarrow> bool" where
  "is_cancelled (Cancelled _) = True"
| "is_cancelled _ = False"

fun is_inflight :: "'t delivery_state \<Rightarrow> bool" where
  "is_inflight (InFlight _) = True"
| "is_inflight _ = False"

fun try_transmit :: "'t delivery_state \<Rightarrow> constraint \<Rightarrow> 't option" where
  "try_transmit (Requested v) c = (if can_transmit c then Some v else None)"
| "try_transmit (Lost v) c = (if can_retransmit c then Some v else None)"
| "try_transmit _ c = None"

fun delivery_interest :: "'t delivery_state \<Rightarrow> interest list" where
  "delivery_interest (Requested _) = [NewData]"
| "delivery_interest (Lost _) = [LostData]"
| "delivery_interest _ = []"

definition in_flight :: "'t \<Rightarrow> packet_number \<Rightarrow> tx_context \<Rightarrow> 't delivery_state" where
  "in_flight v packet_nr context = InFlight \<lparr>ifd_value = v,
     ifd_packet = \<lparr>ipi_packet_nr = packet_nr, ipi_timestamp = tc_timestamp context\<rparr>\<rparr>"

section \<open>IncrementalValueSync\<close>

record incremental_sync =
  inc_latest_value :: varint
  inc_value_ackd_up_to :: varint
  inc_threshold :: varint
  inc_delivery :: "varint delivery_state"

definition should_send_update :: "incremental_sync \<Rightarrow> bool" where
  "should_send_update self =
     (if is_cancelled (inc_delivery self) then False
      else if inc_latest_value self \<noteq> inc_value_ackd_up_to self then
        (case inc_delivery self of
           InFlight d \<Rightarrow> inc_threshold self \<le> varint_sub (inc_latest_value self) (ifd_value d)
         | _ \<Rightarrow> inc_threshold self \<le> varint_sub (inc_latest_value self) (inc_value_ackd_up_to self))
      else False)"

definition request_delivery_if_necessary :: "incremental_sync \<Rightarrow> incremental_sync" where
  "request_delivery_if_necessary self =
     (if should_send_update self then self\<lparr>inc_delivery := Requested (inc_latest_value self)\<rparr> else self)"

definition incremental_new :: "varint \<Rightarrow> varint \<Rightarrow> varint \<Rightarrow> incremental_sync" where
  "incremental_new latest_value value_ackd_up_to threshold =
     request_delivery_if_necessary \<lparr>inc_latest_value = latest_value, inc_value_ackd_up_to = value_ackd_up_to,
       inc_threshold = threshold, inc_delivery = NotRequested\<rparr>"

definition update_latest_value :: "varint \<Rightarrow> incremental_sync \<Rightarrow> incremental_sync" where
  "update_latest_value v self = request_delivery_if_necessary (self\<lparr>inc_latest_value := v\<rparr>)"

definition incremental_stop_sync :: "incremental_sync \<Rightarrow> incremental_sync" where
  "incremental_stop_sync self = self\<lparr>inc_delivery := delivery_cancel (inc_delivery self)\<rparr>"

definition incremental_on_packet_ack :: "ack_set \<Rightarrow> incremental_sync \<Rightarrow> incremental_sync" where
  "incremental_on_packet_ack ack_set self =
     (case inc_delivery self of
        InFlight d \<Rightarrow>
          if ack_set (ipi_packet_nr (ifd_packet d))
          then self\<lparr>inc_value_ackd_up_to := ifd_value d, inc_delivery := NotRequested\<rparr> else self
      | _ \<Rightarrow> self)"

definition incremental_on_packet_loss :: "ack_set \<Rightarrow> incremental_sync \<Rightarrow> incremental_sync" where
  "incremental_on_packet_loss ack_set self =
     (case inc_delivery self of
        InFlight d \<Rightarrow>
          if ack_set (ipi_packet_nr (ifd_packet d)) then self\<lparr>inc_delivery := Lost (inc_latest_value self)\<rparr> else self
      | _ \<Rightarrow> self)"

definition incremental_on_transmit ::
    "varint value_writer \<Rightarrow> stream_id \<Rightarrow> incremental_sync \<Rightarrow> tx_context \<Rightarrow>
     ((on_transmit_error + unit) \<times> incremental_sync \<times> tx_context) option" where
  "incremental_on_transmit write_value stream_id self context =
     (if try_transmit (inc_delivery self) (tc_constraint context) \<noteq> None then
        let v = inc_latest_value self in
        Option.bind (write_value v stream_id context) (\<lambda>(r, context').
          case r of
            None \<Rightarrow> Some (Inl CouldNotWriteFrame, self, context')
          | Some packet_nr \<Rightarrow> Some (Inr (), self\<lparr>inc_delivery := in_flight v packet_nr context'\<rparr>, context'))
      else Some (Inr (), self, context))"

section \<open>OnceSync\<close>

record 't once_sync =
  once_delivery :: "'t delivery_state"

definition once_new :: "'t once_sync" where
  "once_new = \<lparr>once_delivery = NotRequested\<rparr>"

definition once_request_delivery :: "'t \<Rightarrow> 't once_sync \<Rightarrow> 't once_sync" where
  "once_request_delivery v self =
     (case once_delivery self of NotRequested \<Rightarrow> self\<lparr>once_delivery := Requested v\<rparr> | _ \<Rightarrow> self)"

definition force_delivery :: "'t \<Rightarrow> 't once_sync \<Rightarrow> 't once_sync" where
  "force_delivery v self = self\<lparr>once_delivery := Requested v\<rparr>"

definition once_stop_sync :: "'t once_sync \<Rightarrow> 't once_sync" where
  "once_stop_sync self = self\<lparr>once_delivery := delivery_cancel (once_delivery self)\<rparr>"

text \<open>\<open>Poll::Ready(())\<close> is \<open>True\<close>.\<close>

definition once_on_packet_ack :: "ack_set \<Rightarrow> 't once_sync \<Rightarrow> bool \<times> 't once_sync" where
  "once_on_packet_ack ack_set self =
     (case once_delivery self of
        InFlight d \<Rightarrow>
          if ack_set (ipi_packet_nr (ifd_packet d)) then (True, self\<lparr>once_delivery := Delivered (ifd_value d)\<rparr>)
          else (False, self)
      | _ \<Rightarrow> (False, self))"

definition once_on_packet_loss :: "ack_set \<Rightarrow> 't once_sync \<Rightarrow> 't once_sync" where
  "once_on_packet_loss ack_set self =
     (case once_delivery self of
        InFlight d \<Rightarrow>
          if ack_set (ipi_packet_nr (ifd_packet d)) then self\<lparr>once_delivery := Lost (ifd_value d)\<rparr> else self
      | _ \<Rightarrow> self)"

definition once_on_transmit ::
    "'t value_writer \<Rightarrow> stream_id \<Rightarrow> 't once_sync \<Rightarrow> tx_context \<Rightarrow>
     ((on_transmit_error + unit) \<times> 't once_sync \<times> tx_context) option" where
  "once_on_transmit write_value stream_id self context =
     (case try_transmit (once_delivery self) (tc_constraint context) of
        Some v \<Rightarrow>
          Option.bind (write_value v stream_id context) (\<lambda>(r, context').
            case r of
              None \<Rightarrow> Some (Inl CouldNotWriteFrame, self, context')
            | Some packet_nr \<Rightarrow> Some (Inr (), self\<lparr>once_delivery := in_flight v packet_nr context'\<rparr>, context'))
      | None \<Rightarrow> Some (Inr (), self, context))"

section \<open>PeriodicSync\<close>

record periodic_sync =
  per_latest_value :: varint
  per_sync_period :: duration
  per_delivery_timer :: timer
  per_delivery :: "varint delivery_state"
  per_delivered :: bool
  per_transmission_backoff :: u16

definition DEFAULT_SYNC_PERIOD :: duration where
  "DEFAULT_SYNC_PERIOD = duration_from_millis 999"

definition INITIAL_BACKOFF :: u16 where
  "INITIAL_BACKOFF = 1"

definition periodic_new :: periodic_sync where
  "periodic_new = \<lparr>per_latest_value = 0, per_sync_period = DEFAULT_SYNC_PERIOD, per_delivery_timer = timer_default,
     per_delivery = NotRequested, per_delivered = False, per_transmission_backoff = INITIAL_BACKOFF\<rparr>"

definition periodic_request_delivery :: "varint \<Rightarrow> periodic_sync \<Rightarrow> periodic_sync" where
  "periodic_request_delivery v self =
     (let self = self\<lparr>per_latest_value := v\<rparr> in
      case per_delivery self of
        NotRequested \<Rightarrow> self\<lparr>per_delivery := Requested v\<rparr>
      | Cancelled _ \<Rightarrow> self\<lparr>per_delivery := Requested v\<rparr>
      | _ \<Rightarrow> self)"

definition sync_period :: "periodic_sync \<Rightarrow> duration option" where
  "sync_period self = duration_checked_mul (per_sync_period self) (ucast (per_transmission_backoff self))"

definition update_timer :: "timestamp \<Rightarrow> periodic_sync \<Rightarrow> periodic_sync option" where
  "update_timer now self =
     Option.bind (sync_period self) (\<lambda>period.
     map_option (\<lambda>time. self\<lparr>per_delivery_timer := timer_set time (per_delivery_timer self)\<rparr>) (ts_add now period))"

definition double_backoff :: "periodic_sync \<Rightarrow> periodic_sync" where
  "double_backoff self = self\<lparr>per_transmission_backoff := saturating_mul (per_transmission_backoff self) 2\<rparr>"

definition skip_delivery :: "timestamp \<Rightarrow> periodic_sync \<Rightarrow> periodic_sync option" where
  "skip_delivery now self =
     (case per_delivery self of
        Requested _ \<Rightarrow> update_timer now (double_backoff (self\<lparr>per_delivery := NotRequested\<rparr>))
      | Lost _ \<Rightarrow> update_timer now (double_backoff (self\<lparr>per_delivery := NotRequested\<rparr>))
      | Delivered _ \<Rightarrow> update_timer now (double_backoff self)
      | _ \<Rightarrow> Some self)"

definition periodic_on_timeout :: "timestamp \<Rightarrow> periodic_sync \<Rightarrow> periodic_sync" where
  "periodic_on_timeout now self =
     (let (ready, t) = poll_expiration now (per_delivery_timer self); self = self\<lparr>per_delivery_timer := t\<rparr> in
      if ready then self\<lparr>per_delivery := Requested (per_latest_value self)\<rparr> else self)"

definition periodic_stop_sync :: "periodic_sync \<Rightarrow> periodic_sync" where
  "periodic_stop_sync self = self\<lparr>per_delivery_timer := timer_cancel (per_delivery_timer self),
     per_delivery := delivery_cancel (per_delivery self), per_delivered := False,
     per_transmission_backoff := INITIAL_BACKOFF\<rparr>"

definition periodic_on_packet_ack :: "ack_set \<Rightarrow> periodic_sync \<Rightarrow> periodic_sync option" where
  "periodic_on_packet_ack ack_set self =
     (case per_delivery self of
        InFlight d \<Rightarrow>
          if ack_set (ipi_packet_nr (ifd_packet d)) then
            map_option (\<lambda>self. self\<lparr>per_delivery := Delivered (ifd_value d)\<rparr>)
              (update_timer (ipi_timestamp (ifd_packet d)) (self\<lparr>per_delivered := True\<rparr>))
          else Some self
      | _ \<Rightarrow> Some self)"

definition update_sync_period :: "duration \<Rightarrow> periodic_sync \<Rightarrow> periodic_sync" where
  "update_sync_period d self = self\<lparr>per_sync_period := d\<rparr>"

definition periodic_on_packet_loss :: "ack_set \<Rightarrow> periodic_sync \<Rightarrow> periodic_sync" where
  "periodic_on_packet_loss ack_set self =
     (case per_delivery self of
        InFlight d \<Rightarrow>
          if ack_set (ipi_packet_nr (ifd_packet d)) then self\<lparr>per_delivery := Lost (ifd_value d)\<rparr> else self
      | _ \<Rightarrow> self)"

definition periodic_on_transmit ::
    "varint value_writer \<Rightarrow> stream_id \<Rightarrow> periodic_sync \<Rightarrow> tx_context \<Rightarrow>
     ((on_transmit_error + unit) \<times> periodic_sync \<times> tx_context) option" where
  "periodic_on_transmit write_value stream_id self context =
     (if try_transmit (per_delivery self) (tc_constraint context) \<noteq> None then
        let v = per_latest_value self in
        Option.bind (write_value v stream_id context) (\<lambda>(r, context').
          case r of
            None \<Rightarrow> Some (Inl CouldNotWriteFrame, self, context')
          | Some packet_nr \<Rightarrow>
              Some (Inr (), double_backoff (self\<lparr>per_delivery := in_flight v packet_nr context'\<rparr>), context'))
      else Some (Inr (), self, context))"

section \<open>Flag\<close>

datatype flag = Idle | RequiresTransmission | RequiresRetransmission
  | FlagInFlight (flag_stable: packet_number) (flag_latest: packet_number) | FlagDelivered

fun flag_send :: "flag \<Rightarrow> flag" where
  "flag_send Idle = RequiresTransmission"
| "flag_send FlagDelivered = RequiresTransmission"
| "flag_send self = self"

definition flag_finish :: "flag \<Rightarrow> flag" where
  "flag_finish self = FlagDelivered"

fun flag_on_packet_ack :: "ack_set \<Rightarrow> flag \<Rightarrow> bool \<times> flag" where
  "flag_on_packet_ack ack_set (FlagInFlight stable_pn latest_pn) =
     (if ack_set stable_pn \<or> ack_set latest_pn then (True, flag_finish (FlagInFlight stable_pn latest_pn))
      else (False, FlagInFlight stable_pn latest_pn))"
| "flag_on_packet_ack ack_set self = (False, self)"

fun flag_on_packet_loss :: "ack_set \<Rightarrow> flag \<Rightarrow> bool \<times> flag" where
  "flag_on_packet_loss ack_set (FlagInFlight stable_pn latest_pn) =
     (let (lost, stable_pn) = (if ack_set stable_pn then (True, latest_pn) else (False, stable_pn)) in
      if ack_set latest_pn then (True, RequiresRetransmission) else (lost, FlagInFlight stable_pn latest_pn))"
| "flag_on_packet_loss ack_set self = (False, self)"

fun flag_on_transmit ::
    "(tx_context \<Rightarrow> (packet_number option \<times> tx_context) option) \<Rightarrow> flag \<Rightarrow> tx_context \<Rightarrow> (flag \<times> tx_context) option" where
  "flag_on_transmit write self context =
     (case self of
        RequiresTransmission \<Rightarrow>
          if can_transmit (tc_constraint context) then
            map_option (\<lambda>(r, context). (case r of None \<Rightarrow> self | Some pn \<Rightarrow> FlagInFlight pn pn, context)) (write context)
          else Some (self, context)
      | RequiresRetransmission \<Rightarrow>
          if can_retransmit (tc_constraint context) then
            map_option (\<lambda>(r, context). (case r of None \<Rightarrow> self | Some pn \<Rightarrow> FlagInFlight pn pn, context)) (write context)
          else Some (self, context)
      | FlagInFlight stable_pn latest_pn \<Rightarrow>
          if can_transmit (tc_constraint context) then
            map_option (\<lambda>(r, context). (case r of None \<Rightarrow> self | Some pn \<Rightarrow> FlagInFlight stable_pn pn, context)) (write context)
          else Some (self, context)
      | _ \<Rightarrow> Some (self, context))"

fun flag_interest :: "flag \<Rightarrow> interest list" where
  "flag_interest RequiresTransmission = [NewData]"
| "flag_interest RequiresRetransmission = [LostData]"
| "flag_interest _ = []"

definition ping_write ::
    "network_endian \<Rightarrow> zerocopy \<Rightarrow> tx_context \<Rightarrow> (packet_number option \<times> tx_context) option" where
  "ping_write ne zc context =
     (if tc_ack_elicitation context = Eliciting then Some (Some (tc_packet_number context), context)
      else write_frame ne zc (\<lambda>_. []) (Ping :: unit frame) context)"

section \<open>The incremental value\<close>

text \<open>
  How far the peer may be behind: less than the threshold, or not at all. While a value is in flight
  this is measured from that value, otherwise from the acknowledged one.
\<close>

definition close_to :: "varint \<Rightarrow> varint \<Rightarrow> varint \<Rightarrow> bool" where
  "close_to threshold latest v \<longleftrightarrow> v = latest \<or> unat latest - unat v < unat threshold"

definition inc_inv :: "incremental_sync \<Rightarrow> bool" where
  "inc_inv s \<longleftrightarrow> varint_valid (inc_latest_value s) \<and> inc_value_ackd_up_to s \<le> inc_latest_value s \<and>
     (case inc_delivery s of
        InFlight d \<Rightarrow> inc_value_ackd_up_to s \<le> ifd_value d \<and> ifd_value d \<le> inc_latest_value s \<and>
          close_to (inc_threshold s) (inc_latest_value s) (ifd_value d)
      | NotRequested \<Rightarrow> close_to (inc_threshold s) (inc_latest_value s) (inc_value_ackd_up_to s)
      | Delivered _ \<Rightarrow> False
      | _ \<Rightarrow> True)"

inductive inc_step :: "incremental_sync \<Rightarrow> incremental_sync \<Rightarrow> bool" where
  inc_update: "inc_latest_value s \<le> v \<Longrightarrow> varint_valid v \<Longrightarrow> inc_step s (update_latest_value v s)"
| inc_stop: "inc_step s (incremental_stop_sync s)"
| inc_ack: "inc_step s (incremental_on_packet_ack acks s)"
| inc_loss: "inc_step s (incremental_on_packet_loss acks s)"
| inc_transmit: "incremental_on_transmit w sid s ctx = Some (r, s', ctx') \<Longrightarrow> inc_step s s'"

lemma not_far: "v \<le> latest \<Longrightarrow> \<not> t \<le> varint_sub latest v \<Longrightarrow> close_to t latest v"
  by (auto simp: close_to_def varint_sub_def word_le_nat_alt unat_sub_no_wrap)

lemma close_to_refl: "close_to t v v"
  by (simp add: close_to_def)

lemma request_delivery_inv:
  assumes "varint_valid (inc_latest_value s)" "inc_value_ackd_up_to s \<le> inc_latest_value s"
    and "\<And>d. inc_delivery s = InFlight d \<Longrightarrow> inc_value_ackd_up_to s \<le> ifd_value d \<and> ifd_value d \<le> inc_latest_value s"
    and "\<And>v. inc_delivery s \<noteq> Delivered v"
  shows "inc_inv (request_delivery_if_necessary s)"
proof (cases "should_send_update s")
  case True
  with assms show ?thesis by (simp add: request_delivery_if_necessary_def inc_inv_def)
next
  case False
  with assms show ?thesis
    by (cases "inc_delivery s")
       (auto simp: request_delivery_if_necessary_def inc_inv_def should_send_update_def not_far close_to_refl split: if_splits)
qed

lemma request_delivery_simps [simp]:
  "inc_latest_value (request_delivery_if_necessary s) = inc_latest_value s"
  "inc_value_ackd_up_to (request_delivery_if_necessary s) = inc_value_ackd_up_to s"
  by (simp_all add: request_delivery_if_necessary_def)

lemma inc_step_inv:
  assumes "inc_step s s'" "inc_inv s"
  shows "inc_inv s' \<and> inc_value_ackd_up_to s \<le> inc_value_ackd_up_to s' \<and> inc_latest_value s \<le> inc_latest_value s' \<and>
    inc_threshold s' = inc_threshold s"
  using assms
proof cases
  case (inc_update v)
  have "inc_inv (update_latest_value v s)"
    unfolding update_latest_value_def
    by (rule request_delivery_inv) (use assms(2) inc_update in \<open>auto simp: inc_inv_def\<close>)
  with inc_update show ?thesis
    by (simp add: update_latest_value_def request_delivery_if_necessary_def)
next
  case inc_stop
  with assms(2) show ?thesis by (cases "inc_delivery s") (auto simp: incremental_stop_sync_def inc_inv_def)
next
  case (inc_ack acks)
  with assms(2) show ?thesis by (cases "inc_delivery s") (auto simp: incremental_on_packet_ack_def inc_inv_def)
next
  case (inc_loss acks)
  with assms(2) show ?thesis by (cases "inc_delivery s") (auto simp: incremental_on_packet_loss_def inc_inv_def)
next
  case (inc_transmit w sid ctx r ctx')
  then have "s' = s \<or> (\<exists>pn c. s' = s\<lparr>inc_delivery := in_flight (inc_latest_value s) pn c\<rparr>)"
    by (auto simp: incremental_on_transmit_def Let_def bind_eq_Some_conv split: if_splits option.splits)
  with assms(2) show ?thesis by (auto simp: inc_inv_def in_flight_def close_to_def)
qed

lemma inc_new_inv:
  assumes "varint_valid l" "a \<le> l"
  shows "inc_inv (incremental_new l a t)" "inc_latest_value (incremental_new l a t) = l"
    "inc_value_ackd_up_to (incremental_new l a t) = a" "inc_threshold (incremental_new l a t) = t"
proof -
  show "inc_inv (incremental_new l a t)"
    unfolding incremental_new_def by (rule request_delivery_inv) (use assms in simp_all)
qed (simp_all add: incremental_new_def request_delivery_if_necessary_def)

lemma inc_steps_inv:
  assumes "inc_step\<^sup>*\<^sup>* s s'" "inc_inv s"
  shows "inc_inv s' \<and> inc_value_ackd_up_to s \<le> inc_value_ackd_up_to s' \<and> inc_latest_value s \<le> inc_latest_value s' \<and>
    inc_threshold s' = inc_threshold s"
  using assms
proof (induction rule: rtranclp_induct)
  case (step y z)
  with inc_step_inv [OF step(2)] show ?case by (auto intro: order_trans)
qed simp

section \<open>The contract of reliable delivery\<close>

text \<open>
  What the components that send something to the peer share: a component with something to deliver
  is waiting to write it, or keeps track of the packets that carry it until one of them is
  acknowledged. \<open>wants\<close> is the interest to transmit, \<open>tracked\<close> the packets whose fate matters.
\<close>

locale reliable_delivery =
  fixes wants :: "'s \<Rightarrow> bool" and tracked :: "'s \<Rightarrow> packet_number set" and finished :: "'s \<Rightarrow> bool"
    and ack :: "ack_set \<Rightarrow> 's \<Rightarrow> 's" and loss :: "ack_set \<Rightarrow> 's \<Rightarrow> 's"
  assumes ack_tracked: "p \<in> tracked s \<Longrightarrow> A p \<Longrightarrow> finished (ack A s) \<and> tracked (ack A s) = {}"
    and ack_other: "\<forall>p\<in>tracked s. \<not> A p \<Longrightarrow> ack A s = s"
    and loss_tracked: "tracked s \<noteq> {} \<Longrightarrow> wants (loss A s) \<or> tracked (loss A s) \<noteq> {}"
    and loss_subset: "tracked (loss A s) \<subseteq> tracked s"
    and loss_finished: "finished (loss A s) \<Longrightarrow> finished s"
    and loss_other: "tracked s = {} \<Longrightarrow> loss A s = s"
begin

text \<open>
  \<open>sent\<close> are the packets that carried the value, \<open>acked\<close> those of them that were acknowledged
  afterwards. The component is done only if one was, and never forgets the value before.
\<close>

definition delivering :: "'s \<Rightarrow> packet_number set \<Rightarrow> packet_number set \<Rightarrow> bool" where
  "delivering s sent acked \<longleftrightarrow> tracked s \<subseteq> sent \<and> (finished s \<longrightarrow> sent \<inter> acked \<noteq> {}) \<and>
     (finished s \<or> wants s \<or> tracked s \<noteq> {})"

lemma delivering_start: "wants s \<Longrightarrow> tracked s = {} \<Longrightarrow> \<not> finished s \<Longrightarrow> delivering s {} {}"
  by (simp add: delivering_def)

lemma delivering_ack:
  assumes "delivering s sent acked"
  shows "delivering (ack A s) sent (acked \<union> {p \<in> sent. A p})"
proof (cases "\<exists>p\<in>tracked s. A p")
  case True
  with assms show ?thesis using ack_tracked [of _ s A] by (auto simp: delivering_def)
next
  case False
  with assms ack_other [of s A] show ?thesis by (auto simp: delivering_def)
qed

lemma delivering_loss:
  assumes "delivering s sent acked"
  shows "delivering (loss A s) sent acked"
proof (cases "tracked s = {}")
  case True
  with assms show ?thesis by (simp add: loss_other)
next
  case False
  with assms loss_tracked [of s A] loss_subset [of A s] loss_finished [of A s] show ?thesis
    by (auto simp: delivering_def)
qed

lemma delivering_write:
  assumes "delivering s sent acked" and "s' = s \<or> p \<in> tracked s' \<and> tracked s' \<subseteq> insert p (tracked s) \<and> (finished s' \<longrightarrow> finished s)"
    and "s' \<noteq> s \<Longrightarrow> p \<in> sent'" and "sent \<subseteq> sent'"
  shows "delivering s' sent' acked"
  using assms by (cases "s' = s") (auto simp: delivering_def)

end

fun delivery_tracked :: "'t delivery_state \<Rightarrow> packet_number set" where
  "delivery_tracked (InFlight d) = {ipi_packet_nr (ifd_packet d)}"
| "delivery_tracked _ = {}"

fun is_delivered :: "'t delivery_state \<Rightarrow> bool" where
  "is_delivered (Delivered _) = True"
| "is_delivered _ = False"

fun flag_tracked :: "flag \<Rightarrow> packet_number set" where
  "flag_tracked (FlagInFlight a b) = {a, b}"
| "flag_tracked _ = {}"

interpretation once: reliable_delivery "\<lambda>s. delivery_interest (once_delivery s) \<noteq> []" "\<lambda>s. delivery_tracked (once_delivery s)"
  "\<lambda>s. is_delivered (once_delivery s)" "\<lambda>A s. snd (once_on_packet_ack A s)" once_on_packet_loss
proof
  fix s :: "'t once_sync" and A p
  show "p \<in> delivery_tracked (once_delivery s) \<Longrightarrow> A p \<Longrightarrow> is_delivered (once_delivery (snd (once_on_packet_ack A s))) \<and>
      delivery_tracked (once_delivery (snd (once_on_packet_ack A s))) = {}"
    by (cases "once_delivery s") (auto simp: once_on_packet_ack_def)
  show "\<forall>p\<in>delivery_tracked (once_delivery s). \<not> A p \<Longrightarrow> snd (once_on_packet_ack A s) = s"
    by (cases "once_delivery s") (auto simp: once_on_packet_ack_def)
  show "delivery_tracked (once_delivery s) \<noteq> {} \<Longrightarrow> delivery_interest (once_delivery (once_on_packet_loss A s)) \<noteq> [] \<or>
      delivery_tracked (once_delivery (once_on_packet_loss A s)) \<noteq> {}"
    "delivery_tracked (once_delivery (once_on_packet_loss A s)) \<subseteq> delivery_tracked (once_delivery s)"
    "is_delivered (once_delivery (once_on_packet_loss A s)) \<Longrightarrow> is_delivered (once_delivery s)"
    "delivery_tracked (once_delivery s) = {} \<Longrightarrow> once_on_packet_loss A s = s"
    by (cases "once_delivery s"; auto simp: once_on_packet_loss_def split: if_splits)+
qed

interpretation flag_sync: reliable_delivery "\<lambda>f. flag_interest f \<noteq> []" flag_tracked "\<lambda>f. f = FlagDelivered"
  "\<lambda>A f. snd (flag_on_packet_ack A f)" "\<lambda>A f. snd (flag_on_packet_loss A f)"
proof
  fix f A p
  show "p \<in> flag_tracked f \<Longrightarrow> A p \<Longrightarrow> snd (flag_on_packet_ack A f) = FlagDelivered \<and>
      flag_tracked (snd (flag_on_packet_ack A f)) = {}"
    by (cases f) (auto simp: flag_finish_def)
  show "\<forall>p\<in>flag_tracked f. \<not> A p \<Longrightarrow> snd (flag_on_packet_ack A f) = f"
    by (cases f) auto
  show "flag_tracked f \<noteq> {} \<Longrightarrow> flag_interest (snd (flag_on_packet_loss A f)) \<noteq> [] \<or>
      flag_tracked (snd (flag_on_packet_loss A f)) \<noteq> {}"
    "flag_tracked (snd (flag_on_packet_loss A f)) \<subseteq> flag_tracked f"
    "snd (flag_on_packet_loss A f) = FlagDelivered \<Longrightarrow> f = FlagDelivered"
    "flag_tracked f = {} \<Longrightarrow> snd (flag_on_packet_loss A f) = f"
    by (cases f; auto split: if_splits)+
qed

text \<open>
  What can happen to a once-only value \<open>v\<close> and to a flag that are not cancelled or requested anew,
  with the packets that carried them and those of them that were acknowledged. A transmission that
  changes the state has carried the value in the packet, if any, into which the writer puts \<open>v\<close> itself.
\<close>

inductive once_run :: "'t \<Rightarrow> 't once_sync \<Rightarrow> packet_number set \<Rightarrow> packet_number set \<Rightarrow> bool" for v where
  once_request: "once_run v (once_request_delivery v once_new) {} {}"
| once_ack: "once_run v s sent acked \<Longrightarrow>
    once_run v (snd (once_on_packet_ack A s)) sent (acked \<union> {p \<in> sent. A p})"
| once_loss: "once_run v s sent acked \<Longrightarrow> once_run v (once_on_packet_loss A s) sent acked"
| once_transmit: "once_run v s sent acked \<Longrightarrow> once_on_transmit w sid s ctx = Some (r, s', ctx') \<Longrightarrow>
    once_run v s' (if s' = s then sent else sent \<union> {p. \<exists>c. w v sid ctx = Some (Some p, c)}) acked"

inductive flag_run :: "flag \<Rightarrow> packet_number set \<Rightarrow> packet_number set \<Rightarrow> bool" where
  flag_request: "flag_run (flag_send Idle) {} {}"
| flag_ack: "flag_run f sent acked \<Longrightarrow> flag_run (snd (flag_on_packet_ack A f)) sent (acked \<union> {p \<in> sent. A p})"
| flag_loss: "flag_run f sent acked \<Longrightarrow> flag_run (snd (flag_on_packet_loss A f)) sent acked"
| flag_transmit: "flag_run f sent acked \<Longrightarrow> flag_on_transmit w f ctx = Some (f', ctx') \<Longrightarrow>
    flag_run f' (if f' = f then sent else sent \<union> {p. \<exists>c. w ctx = Some (Some p, c)}) acked"

text \<open>The value in a delivery state.\<close>

fun delivery_carries :: "'t \<Rightarrow> 't delivery_state \<Rightarrow> bool" where
  "delivery_carries v (Requested u) \<longleftrightarrow> u = v"
| "delivery_carries v (Lost u) \<longleftrightarrow> u = v"
| "delivery_carries v (InFlight d) \<longleftrightarrow> ifd_value d = v"
| "delivery_carries v (Delivered u) \<longleftrightarrow> u = v"
| "delivery_carries v _ \<longleftrightarrow> False"

lemma once_transmit_cases:
  assumes "once_on_transmit w sid s ctx = Some (r, s', ctx')" "delivery_carries v (once_delivery s)"
  obtains "s' = s" | p c where "w v sid ctx = Some (Some p, c)" "delivery_interest (once_delivery s) \<noteq> []"
    "s' = s\<lparr>once_delivery := in_flight v p c\<rparr>"
  using assms
  by (cases "once_delivery s") (auto simp: once_on_transmit_def bind_eq_Some_conv split: if_splits option.splits)

lemma once_run_inv:
  assumes "once_run v s sent acked"
  shows "once.delivering s sent acked \<and> delivery_carries v (once_delivery s)"
  using assms
proof induction
  case once_request
  show ?case
    by (simp add: once.delivering_start once_request_delivery_def once_new_def)
next
  case (once_ack s sent acked A)
  then show ?case
    using once.delivering_ack [of s sent acked A]
    by (cases "once_delivery s") (auto simp: once_on_packet_ack_def)
next
  case (once_loss s sent acked A)
  then show ?case
    using once.delivering_loss [of s sent acked A]
    by (cases "once_delivery s") (auto simp: once_on_packet_loss_def)
next
  case (once_transmit s sent acked w sid ctx r s' ctx')
  have carries: "delivery_carries v (once_delivery s)" using once_transmit(3) by blast
  show ?case
  proof (cases rule: once_transmit_cases [OF once_transmit(2) carries, case_names Same Write])
    case Same
    with once_transmit show ?thesis by simp
  next
    case (Write p c)
    have "once.delivering s' (if s' = s then sent else sent \<union> {p. \<exists>c. w v sid ctx = Some (Some p, c)}) acked"
      by (rule once.delivering_write [of s sent acked s' p]) (use once_transmit Write in \<open>auto simp: in_flight_def\<close>)
    with Write(3) show ?thesis by (simp add: in_flight_def)
  qed
qed

lemma flag_run_inv: "flag_run f sent acked \<Longrightarrow> flag_sync.delivering f sent acked"
proof (induction rule: flag_run.induct)
  case flag_request
  show ?case by (simp add: flag_sync.delivering_start)
next
  case (flag_ack f sent acked A)
  show ?case by (rule flag_sync.delivering_ack [OF flag_ack(2)])
next
  case (flag_loss f sent acked A)
  show ?case by (rule flag_sync.delivering_loss [OF flag_loss(2)])
next
  case (flag_transmit f sent acked w ctx f' ctx')
  show ?case
  proof (cases "f' = f")
    case False
    with flag_transmit(2) obtain p c where "w ctx = Some (Some p, c)"
      "f' = FlagInFlight p p \<or> (\<exists>q. f = FlagInFlight q (flag_latest f) \<and> f' = FlagInFlight q p)"
      by (cases f) (auto split: if_splits option.splits)
    with flag_transmit(3) show ?thesis
      by (intro flag_sync.delivering_write [of f sent acked f' p]) (auto dest: arg_cong [of f _ flag_tracked])
  qed (use flag_transmit in simp)
qed

section \<open>Properties\<close>

text \<open>
  C17. A window update is never forgotten. However updates of the value, acknowledgements, losses and
  transmissions interleave, the acknowledged value only grows and never exceeds the latest one; and
  unless the synchronisation was stopped, either an update is waiting to be sent, or a value within
  the threshold of the latest is in flight, or the acknowledged value is within the threshold.
\<close>

theorem incremental_sync_keeps_up:
  assumes "varint_valid l" and "a \<le> l" and "inc_step\<^sup>*\<^sup>* (incremental_new l a t) s"
  shows "a \<le> inc_value_ackd_up_to s \<and> inc_value_ackd_up_to s \<le> inc_latest_value s \<and> l \<le> inc_latest_value s \<and>
    (is_cancelled (inc_delivery s) \<or> delivery_interest (inc_delivery s) \<noteq> [] \<or>
     (\<exists>d. inc_delivery s = InFlight d \<and> close_to t (inc_latest_value s) (ifd_value d)) \<or>
     close_to t (inc_latest_value s) (inc_value_ackd_up_to s))"
proof -
  have "inc_inv s \<and> a \<le> inc_value_ackd_up_to s \<and> l \<le> inc_latest_value s \<and> inc_threshold s = t"
    using inc_steps_inv [OF assms(3)] inc_new_inv [OF assms(1,2)] by simp
  then show ?thesis by (cases "inc_delivery s") (auto simp: inc_inv_def)
qed

theorem incremental_sync_keeps_up_witness:
  "close_to 10 (inc_latest_value (update_latest_value 105 (incremental_new 100 100 10))) 100"
proof -
  let ?s = "update_latest_value 105 (incremental_new 100 100 10)"
  have v: "varint_valid 100" "varint_valid 105" by (simp_all add: varint_valid_def MAX_VARINT_VALUE_def)
  have s: "?s = \<lparr>inc_latest_value = 105, inc_value_ackd_up_to = 100, inc_threshold = 10, inc_delivery = NotRequested\<rparr>"
    by (simp add: update_latest_value_def incremental_new_def request_delivery_if_necessary_def should_send_update_def
        varint_sub_def)
  have "inc_step (incremental_new 100 100 10) ?s"
    by (rule inc_update) (simp_all add: inc_new_inv v)
  from incremental_sync_keeps_up [OF v(1) order_refl r_into_rtranclp [of inc_step, OF this]]
  show ?thesis unfolding s by simp
qed

text \<open>
  C18. Reliable delivery. Once a value is to be sent, then however transmissions, losses and
  acknowledgements interleave, it is the value that was requested that is waiting, in flight or
  delivered. It counts as delivered only after an acknowledgement of a packet that carried it. Until
  then it is either waiting, and the next transmission that the constraints allow writes it, or in
  flight in a packet that carried it, whose acknowledgement delivers it and whose loss makes it wait
  again. The same holds of a flag, which may be in flight in two packets: one acknowledgement delivers
  it, the loss of the later one makes it wait again, and the loss of the earlier one leaves the later.
\<close>

theorem sync_never_forgets:
  assumes "once_run v s sent acked" and "flag_run f fsent facked"
  shows "(case once_delivery s of
      Delivered u \<Rightarrow> u = v \<and> sent \<inter> acked \<noteq> {}
    | InFlight d \<Rightarrow> ifd_value d = v \<and> ipi_packet_nr (ifd_packet d) \<in> sent \<and>
        (\<forall>A. A (ipi_packet_nr (ifd_packet d)) \<longrightarrow> once_on_packet_ack A s = (True, s\<lparr>once_delivery := Delivered v\<rparr>) \<and>
          once_on_packet_loss A s = s\<lparr>once_delivery := Lost v\<rparr>)
    | _ \<Rightarrow> \<forall>w sid ctx p c. provider_can_transmit (delivery_interest (once_delivery s)) (tc_constraint ctx) \<longrightarrow>
        w v sid ctx = Some (Some p, c) \<longrightarrow>
        once_on_transmit w sid s ctx = Some (Inr (), s\<lparr>once_delivery := in_flight v p c\<rparr>, c)) \<and>
    (is_delivered (once_delivery s) \<or> is_inflight (once_delivery s) \<or> delivery_interest (once_delivery s) \<noteq> []) \<and>
    (case f of
      FlagDelivered \<Rightarrow> fsent \<inter> facked \<noteq> {}
    | FlagInFlight p q \<Rightarrow> p \<in> fsent \<and> q \<in> fsent \<and> (\<forall>A.
        flag_on_packet_ack A f = (if A p \<or> A q then (True, FlagDelivered) else (False, f)) \<and>
        snd (flag_on_packet_loss A f) = (if A q then RequiresRetransmission else if A p then FlagInFlight q q else f))
    | _ \<Rightarrow> flag_interest f \<noteq> [] \<and> (\<forall>w ctx p c. provider_can_transmit (flag_interest f) (tc_constraint ctx) \<longrightarrow>
        w ctx = Some (Some p, c) \<longrightarrow> flag_on_transmit w f ctx = Some (FlagInFlight p p, c)))"
proof (intro conjI)
  have can: "provider_can_transmit [i] c \<longleftrightarrow> interest_can_transmit i c" for i c
    by (cases "interest_can_transmit i c") (simp_all add: provider_can_transmit_def constraint_on_interest_def)
  have kinds: "interest_can_transmit NewData c \<longleftrightarrow> can_transmit c" "interest_can_transmit LostData c \<longleftrightarrow> can_retransmit c" for c
    by (cases c; simp add: can_transmit_def can_retransmit_def)+
  note once = once_run_inv [OF assms(1), unfolded once.delivering_def]
  show "case once_delivery s of
      Delivered u \<Rightarrow> u = v \<and> sent \<inter> acked \<noteq> {}
    | InFlight d \<Rightarrow> ifd_value d = v \<and> ipi_packet_nr (ifd_packet d) \<in> sent \<and>
        (\<forall>A. A (ipi_packet_nr (ifd_packet d)) \<longrightarrow> once_on_packet_ack A s = (True, s\<lparr>once_delivery := Delivered v\<rparr>) \<and>
          once_on_packet_loss A s = s\<lparr>once_delivery := Lost v\<rparr>)
    | _ \<Rightarrow> \<forall>w sid ctx p c. provider_can_transmit (delivery_interest (once_delivery s)) (tc_constraint ctx) \<longrightarrow>
        w v sid ctx = Some (Some p, c) \<longrightarrow>
        once_on_transmit w sid s ctx = Some (Inr (), s\<lparr>once_delivery := in_flight v p c\<rparr>, c)"
    using once by (cases "once_delivery s")
      (auto simp: can kinds once_on_packet_ack_def once_on_packet_loss_def once_on_transmit_def)
  show "is_delivered (once_delivery s) \<or> is_inflight (once_delivery s) \<or> delivery_interest (once_delivery s) \<noteq> []"
    using once by (cases "once_delivery s") auto
  note flag = flag_run_inv [OF assms(2), unfolded flag_sync.delivering_def]
  show "case f of
      FlagDelivered \<Rightarrow> fsent \<inter> facked \<noteq> {}
    | FlagInFlight p q \<Rightarrow> p \<in> fsent \<and> q \<in> fsent \<and> (\<forall>A.
        flag_on_packet_ack A f = (if A p \<or> A q then (True, FlagDelivered) else (False, f)) \<and>
        snd (flag_on_packet_loss A f) = (if A q then RequiresRetransmission else if A p then FlagInFlight q q else f))
    | _ \<Rightarrow> flag_interest f \<noteq> [] \<and> (\<forall>w ctx p c. provider_can_transmit (flag_interest f) (tc_constraint ctx) \<longrightarrow>
        w ctx = Some (Some p, c) \<longrightarrow> flag_on_transmit w f ctx = Some (FlagInFlight p p, c))"
    using flag by (cases f) (auto simp: can kinds flag_finish_def)
qed

text \<open>A value and a flag that are written, lost, written again and then acknowledged.\<close>

definition numbered_context :: "varint \<Rightarrow> tx_context" where
  "numbered_context n = (example_context 10)\<lparr>tc_packet_number := pn_from_varint n ApplicationData\<rparr>"

definition example_writer :: "tx_context \<Rightarrow> (packet_number option \<times> tx_context) option" where
  "example_writer ctx = Some (Some (tc_packet_number ctx), ctx)"

lemma numbered_context_simps [simp]:
  "tc_constraint (numbered_context n) = NoConstraint" "tc_packet_number (numbered_context n) = pn_from_varint n ApplicationData"
  "tc_timestamp (numbered_context n) = 1"
  by (simp_all add: numbered_context_def example_context_def)

theorem sync_never_forgets_witness:
  "\<exists>sent acked fsent facked. once_run (7 :: nat) \<lparr>once_delivery = Delivered 7\<rparr> sent acked \<and> sent \<inter> acked \<noteq> {} \<and>
     flag_run FlagDelivered fsent facked \<and> fsent \<inter> facked \<noteq> {}"
proof -
  let ?p = "\<lambda>n. pn_from_varint n ApplicationData"
  let ?fl = "\<lambda>n. \<lparr>once_delivery = in_flight (7 :: nat) (?p n) (numbered_context n)\<rparr>"
  note defs = once_request_delivery_def once_new_def once_on_transmit_def once_on_packet_ack_def once_on_packet_loss_def
    in_flight_def example_writer_def can_transmit_def can_retransmit_def flag_finish_def
  have 1: "once_run 7 (?fl 3) {?p 3} {}"
    using once_transmit [OF once_request, of "\<lambda>_ _. example_writer" 0 "7 :: nat" "numbered_context 3"] by (simp add: defs)
  have 2: "once_run 7 (?fl 4) {?p 3, ?p 4} {}"
    using once_transmit [OF once_loss [OF 1, of "\<lambda>p. p = ?p 3"], of "\<lambda>_ _. example_writer" 0 "numbered_context 4"]
    by (simp add: defs insert_commute)
  have 3: "\<exists>acked. once_run (7 :: nat) \<lparr>once_delivery = Delivered 7\<rparr> {?p 3, ?p 4} acked"
    using once_ack [OF 2, of "\<lambda>p. p = ?p 4"] by (auto simp: defs)
  have 4: "flag_run (FlagInFlight (?p 3) (?p 3)) {?p 3} {}"
    using flag_transmit [OF flag_request, of example_writer "numbered_context 3"] by (simp add: defs)
  have 5: "flag_run (FlagInFlight (?p 4) (?p 4)) {?p 3, ?p 4} {}"
    using flag_transmit [OF flag_loss [OF 4, of "\<lambda>p. p = ?p 3"], of example_writer "numbered_context 4"]
    by (simp add: defs insert_commute)
  have 6: "\<exists>facked. flag_run FlagDelivered {?p 3, ?p 4} facked"
    using flag_ack [OF 5, of "\<lambda>p. p = ?p 4"] by (auto simp: defs)
  from 3 6 obtain acked facked where run: "once_run (7 :: nat) \<lparr>once_delivery = Delivered 7\<rparr> {?p 3, ?p 4} acked"
    "flag_run FlagDelivered {?p 3, ?p 4} facked" by blast
  have "{?p 3, ?p 4} \<inter> acked \<noteq> {}" "{?p 3, ?p 4} \<inter> facked \<noteq> {}"
    using sync_never_forgets [OF run] by simp_all
  with run show ?thesis by blast
qed

end
