(* ===== verification/FlowControl.thy ===== *)
theory FlowControl
  imports Sync
begin

text \<open>
  Flow control: the connection windows of \<^verbatim>\<open>stream/incoming_connection_flow_controller.rs\<close> and
  \<^verbatim>\<open>outgoing_connection_flow_controller.rs\<close>, and the stream window of \<^verbatim>\<open>receive_stream.rs\<close>, all under
  \<^verbatim>\<open>quic/s2n-quic-transport/src/\<close>. The connection controller that streams share through an
  \<open>Rc<RefCell<_>>\<close> is passed along as a state of its own.
\<close>

section \<open>Transport errors\<close>

record transport_error =
  te_code :: varint
  te_frame_type :: varint
  te_reason :: string

definition transport_error_new :: "varint \<Rightarrow> transport_error" where
  "transport_error_new code = \<lparr>te_code = code, te_frame_type = 0, te_reason = ''''\<rparr>"

definition with_frame_type :: "varint \<Rightarrow> transport_error \<Rightarrow> transport_error" where
  "with_frame_type frame_type self = self\<lparr>te_frame_type := frame_type\<rparr>"

definition with_reason :: "string \<Rightarrow> transport_error \<Rightarrow> transport_error" where
  "with_reason reason self = self\<lparr>te_reason := reason\<rparr>"

definition FLOW_CONTROL_ERROR :: transport_error where
  "FLOW_CONTROL_ERROR = with_frame_type 0 (transport_error_new 0x3)"

section \<open>The incoming connection window\<close>

record incoming_fc =
  ifc_read_window_sync :: incremental_sync
  ifc_desired_flow_control_window :: u32
  ifc_acquired_window :: varint
  ifc_consumed_window :: varint

definition max_data_writer :: "network_endian \<Rightarrow> zerocopy \<Rightarrow> varint value_writer" where
  "max_data_writer ne zc v stream_id context = write_frame ne zc (\<lambda>_. []) (MaxData v :: unit frame) context"

definition incoming_new :: "varint \<Rightarrow> u32 \<Rightarrow> incoming_fc" where
  "incoming_new initial_window_size desired = \<lparr>
     ifc_read_window_sync = incremental_new (ucast desired) initial_window_size (ucast (desired div 10)),
     ifc_desired_flow_control_window = desired, ifc_acquired_window = 0, ifc_consumed_window = 0\<rparr>"

definition incoming_remaining_window :: "incoming_fc \<Rightarrow> varint" where
  "incoming_remaining_window self =
     varint_sub (inc_latest_value (ifc_read_window_sync self)) (ifc_acquired_window self)"

definition incoming_release_window :: "varint \<Rightarrow> incoming_fc \<Rightarrow> incoming_fc" where
  "incoming_release_window amount self =
     (let self = self\<lparr>ifc_consumed_window := varint_add (ifc_consumed_window self) amount\<rparr> in
      self\<lparr>ifc_read_window_sync := update_latest_value
        (varint_saturating_add (ifc_consumed_window self) (ucast (ifc_desired_flow_control_window self)))
        (ifc_read_window_sync self)\<rparr>)"

definition incoming_acquire_window :: "varint \<Rightarrow> incoming_fc \<Rightarrow> (transport_error + unit) \<times> incoming_fc" where
  "incoming_acquire_window desired self =
     (if incoming_remaining_window self < desired then (Inl FLOW_CONTROL_ERROR, self)
      else (Inr (), self\<lparr>ifc_acquired_window := varint_add (ifc_acquired_window self) desired\<rparr>))"

definition incoming_on_packet_ack :: "ack_set \<Rightarrow> incoming_fc \<Rightarrow> incoming_fc" where
  "incoming_on_packet_ack acks self =
     self\<lparr>ifc_read_window_sync := incremental_on_packet_ack acks (ifc_read_window_sync self)\<rparr>"

definition incoming_on_packet_loss :: "ack_set \<Rightarrow> incoming_fc \<Rightarrow> incoming_fc" where
  "incoming_on_packet_loss acks self =
     self\<lparr>ifc_read_window_sync := incremental_on_packet_loss acks (ifc_read_window_sync self)\<rparr>"

definition incoming_on_transmit ::
    "varint value_writer \<Rightarrow> incoming_fc \<Rightarrow> tx_context \<Rightarrow>
     ((on_transmit_error + unit) \<times> incoming_fc \<times> tx_context) option" where
  "incoming_on_transmit w self context =
     map_option (\<lambda>(r, sync, context). (r, self\<lparr>ifc_read_window_sync := sync\<rparr>, context))
       (incremental_on_transmit w 0 (ifc_read_window_sync self) context)"

section \<open>The outgoing connection window\<close>

record outgoing_fc =
  ofc_total_available_window :: varint
  ofc_available_window :: varint
  ofc_data_blocked_sync :: periodic_sync

definition data_blocked_writer :: "network_endian \<Rightarrow> zerocopy \<Rightarrow> varint value_writer" where
  "data_blocked_writer ne zc v stream_id context = write_frame ne zc (\<lambda>_. []) (DataBlocked v :: unit frame) context"

definition outgoing_new :: "varint \<Rightarrow> outgoing_fc" where
  "outgoing_new initial_window_size = \<lparr>ofc_total_available_window = initial_window_size,
     ofc_available_window = initial_window_size, ofc_data_blocked_sync = periodic_new\<rparr>"

definition outgoing_acquire_window :: "varint \<Rightarrow> outgoing_fc \<Rightarrow> varint \<times> outgoing_fc" where
  "outgoing_acquire_window desired self =
     (let result = min (ofc_available_window self) desired;
          self = self\<lparr>ofc_available_window := varint_sub (ofc_available_window self) result\<rparr>;
          self = (if result < desired
            then self\<lparr>ofc_data_blocked_sync :=
              periodic_request_delivery (ofc_total_available_window self) (ofc_data_blocked_sync self)\<rparr>
            else self)
      in (result, self))"

definition on_max_data :: "varint \<Rightarrow> outgoing_fc \<Rightarrow> outgoing_fc" where
  "on_max_data maximum_data self =
     (if maximum_data \<le> ofc_total_available_window self then self
      else
        let increment = varint_sub maximum_data (ofc_total_available_window self) in
        self\<lparr>ofc_total_available_window := maximum_data,
             ofc_available_window := varint_add (ofc_available_window self) increment,
             ofc_data_blocked_sync := periodic_stop_sync (ofc_data_blocked_sync self)\<rparr>)"

definition outgoing_acquired_window :: "outgoing_fc \<Rightarrow> varint" where
  "outgoing_acquired_window self = varint_sub (ofc_total_available_window self) (ofc_available_window self)"

definition outgoing_on_packet_ack :: "ack_set \<Rightarrow> outgoing_fc \<Rightarrow> outgoing_fc option" where
  "outgoing_on_packet_ack acks self =
     map_option (\<lambda>sync. self\<lparr>ofc_data_blocked_sync := sync\<rparr>) (periodic_on_packet_ack acks (ofc_data_blocked_sync self))"

definition outgoing_on_packet_loss :: "ack_set \<Rightarrow> outgoing_fc \<Rightarrow> outgoing_fc" where
  "outgoing_on_packet_loss acks self =
     self\<lparr>ofc_data_blocked_sync := periodic_on_packet_loss acks (ofc_data_blocked_sync self)\<rparr>"

definition update_blocked_sync_period :: "duration \<Rightarrow> outgoing_fc \<Rightarrow> outgoing_fc" where
  "update_blocked_sync_period d self =
     self\<lparr>ofc_data_blocked_sync := update_sync_period d (ofc_data_blocked_sync self)\<rparr>"

definition outgoing_on_transmit ::
    "varint value_writer \<Rightarrow> outgoing_fc \<Rightarrow> tx_context \<Rightarrow>
     ((on_transmit_error + unit) \<times> outgoing_fc \<times> tx_context) option" where
  "outgoing_on_transmit w self context =
     (if tc_ack_elicitation context = Eliciting \<and> per_delivered (ofc_data_blocked_sync self) then
        map_option (\<lambda>sync. (Inr (), self\<lparr>ofc_data_blocked_sync := sync\<rparr>, context))
          (skip_delivery (tc_timestamp context) (ofc_data_blocked_sync self))
      else
        map_option (\<lambda>(r, sync, context). (r, self\<lparr>ofc_data_blocked_sync := sync\<rparr>, context))
          (periodic_on_transmit w 0 (ofc_data_blocked_sync self) context))"

definition outgoing_on_timeout :: "timestamp \<Rightarrow> outgoing_fc \<Rightarrow> outgoing_fc" where
  "outgoing_on_timeout now self =
     self\<lparr>ofc_data_blocked_sync := periodic_on_timeout now (ofc_data_blocked_sync self)\<rparr>"

section \<open>The window of a receiving stream\<close>

record receive_stream_fc =
  rfc_read_window_sync :: incremental_sync
  rfc_desired_flow_control_window :: u32
  rfc_acquired_connection_window :: varint
  rfc_released_connection_window :: varint

definition receive_stream_fc_new :: "varint \<Rightarrow> u32 \<Rightarrow> receive_stream_fc" where
  "receive_stream_fc_new initial_window desired = \<lparr>
     rfc_read_window_sync = incremental_new (ucast desired) initial_window (ucast (desired div 10)),
     rfc_desired_flow_control_window = desired, rfc_acquired_connection_window = 0, rfc_released_connection_window = 0\<rparr>"

definition acquire_window_up_to ::
    "varint \<Rightarrow> u8 option \<Rightarrow> receive_stream_fc \<Rightarrow> incoming_fc \<Rightarrow>
     (transport_error + unit) \<times> receive_stream_fc \<times> incoming_fc" where
  "acquire_window_up_to offset source_frame_type self connection =
     (let frame_type = ucast (unwrap_or 0 source_frame_type) in
      if offset > inc_latest_value (rfc_read_window_sync self) then
        (Inl (with_frame_type frame_type (with_reason ''Stream flow control window exceeded'' FLOW_CONTROL_ERROR)),
         self, connection)
      else
        let additional = varint_saturating_sub offset (rfc_acquired_connection_window self) in
        if additional > 0 then
          (case incoming_acquire_window additional connection of
             (Inl err, connection) \<Rightarrow>
               (Inl (with_frame_type frame_type (with_reason ''Connection flow control window exceeded'' err)),
                self, connection)
           | (Inr _, connection) \<Rightarrow>
               (Inr (), self\<lparr>rfc_acquired_connection_window :=
                  varint_add (rfc_acquired_connection_window self) additional\<rparr>, connection))
        else (Inr (), self, connection))"

definition release_window :: "varint \<Rightarrow> receive_stream_fc \<Rightarrow> incoming_fc \<Rightarrow> receive_stream_fc \<times> incoming_fc" where
  "release_window amount self connection =
     (let self = self\<lparr>rfc_released_connection_window := varint_add (rfc_released_connection_window self) amount\<rparr>;
          self = self\<lparr>rfc_read_window_sync := update_latest_value
            (varint_saturating_add (rfc_released_connection_window self) (ucast (rfc_desired_flow_control_window self)))
            (rfc_read_window_sync self)\<rparr>
      in (self, incoming_release_window amount connection))"

definition release_outstanding_window :: "receive_stream_fc \<Rightarrow> incoming_fc \<Rightarrow> receive_stream_fc \<times> incoming_fc" where
  "release_outstanding_window self connection =
     release_window (varint_sub (rfc_acquired_connection_window self) (rfc_released_connection_window self)) self connection"

definition receive_stream_fc_stop_sync :: "receive_stream_fc \<Rightarrow> receive_stream_fc" where
  "receive_stream_fc_stop_sync self =
     self\<lparr>rfc_read_window_sync := incremental_stop_sync (rfc_read_window_sync self)\<rparr>"

definition watermark :: "receive_stream_fc \<Rightarrow> nat" where
  "watermark self = unat (rfc_desired_flow_control_window self div 2)"

section \<open>Missing data of a stopped stream\<close>

record missing_data =
  md_start :: u64
  md_end :: u64

definition missing_data_new :: "u64 \<Rightarrow> missing_data" where
  "missing_data_new start = \<lparr>md_start = start, md_end = - 1\<rparr>"

text \<open>\<open>Poll::Ready(())\<close> is \<open>True\<close>.\<close>

definition missing_data_on_data :: "stream_frame \<Rightarrow> missing_data \<Rightarrow> bool \<times> missing_data" where
  "missing_data_on_data frame self =
     (let frame_start = sf_offset frame;
          frame_end = sf_offset frame + word_of_nat (length (sf_data frame));
          self = (if frame_start \<le> md_start self \<and> md_start self < frame_end then self\<lparr>md_start := frame_end\<rparr> else self);
          self = (if sf_is_fin frame \<or> (frame_start \<le> md_end self \<and> md_end self < frame_end)
                  then self\<lparr>md_end := min (md_end self) frame_start\<rparr> else self)
      in (md_end self \<le> md_start self, self))"

section \<open>A sender and a receiver\<close>

text \<open>
  The connection windows of two endpoints and the network between them: bytes that were sent and not
  yet received, the window updates that were sent, by packet number, and the packets that reached
  the sender. Updates may be lost, duplicated, and arrive in any order.
\<close>

record fc_link =
  lk_sender :: outgoing_fc
  lk_receiver :: incoming_fc
  lk_data :: nat
  lk_grants :: "(packet_number \<times> varint) set"
  lk_arrived :: "packet_number set"
  lk_failed :: bool

definition fc_link_new :: "varint \<Rightarrow> u32 \<Rightarrow> fc_link" where
  "fc_link_new initial desired = \<lparr>lk_sender = outgoing_new initial, lk_receiver = incoming_new initial desired,
     lk_data = 0, lk_grants = {}, lk_arrived = {}, lk_failed = False\<rparr>"

definition sent_updates :: "incoming_fc \<Rightarrow> (packet_number \<times> varint) set" where
  "sent_updates r = (case inc_delivery (ifc_read_window_sync r) of
     InFlight d \<Rightarrow> {(ipi_packet_nr (ifd_packet d), ifd_value d)} | _ \<Rightarrow> {})"

inductive fc_step :: "fc_link \<Rightarrow> fc_link \<Rightarrow> bool" where
  fc_send: "varint_valid n \<Longrightarrow> outgoing_acquire_window n (lk_sender s) = (r, snd') \<Longrightarrow>
    fc_step s (s\<lparr>lk_sender := snd', lk_data := lk_data s + unat r\<rparr>)"
| fc_receive: "unat n \<le> lk_data s \<Longrightarrow> incoming_acquire_window n (lk_receiver s) = (res, rcv') \<Longrightarrow>
    fc_step s (s\<lparr>lk_receiver := rcv', lk_data := lk_data s - unat n, lk_failed := (lk_failed s \<or> \<not> is_ok res)\<rparr>)"
| fc_consume: "unat (ifc_consumed_window (lk_receiver s)) + unat n \<le> unat (ifc_acquired_window (lk_receiver s)) \<Longrightarrow>
    fc_step s (s\<lparr>lk_receiver := incoming_release_window n (lk_receiver s)\<rparr>)"
| fc_grant: "incoming_on_transmit w (lk_receiver s) ctx = Some (res, rcv', ctx') \<Longrightarrow>
    \<forall>(p, v)\<in>sent_updates rcv' - sent_updates (lk_receiver s). p \<notin> fst ` lk_grants s \<Longrightarrow>
    fc_step s (s\<lparr>lk_receiver := rcv', lk_grants := lk_grants s \<union> sent_updates rcv'\<rparr>)"
| fc_arrive: "(p, v) \<in> lk_grants s \<Longrightarrow>
    fc_step s (s\<lparr>lk_sender := on_max_data v (lk_sender s), lk_arrived := insert p (lk_arrived s)\<rparr>)"
| fc_ack: "\<forall>p. acks p \<longrightarrow> p \<in> lk_arrived s \<Longrightarrow> fc_step s (s\<lparr>lk_receiver := incoming_on_packet_ack acks (lk_receiver s)\<rparr>)"
| fc_loss: "fc_step s (s\<lparr>lk_receiver := incoming_on_packet_loss acks (lk_receiver s)\<rparr>)"

definition fc_latest :: "incoming_fc \<Rightarrow> varint" where
  "fc_latest r = inc_latest_value (ifc_read_window_sync r)"

definition fc_inv :: "u32 \<Rightarrow> fc_link \<Rightarrow> bool" where
  "fc_inv desired s \<longleftrightarrow>
     unat (ofc_total_available_window (lk_sender s)) =
       unat (ofc_available_window (lk_sender s)) + unat (ifc_acquired_window (lk_receiver s)) + lk_data s \<and>
     ofc_total_available_window (lk_sender s) \<le> fc_latest (lk_receiver s) \<and>
     (\<forall>(p, v)\<in>lk_grants s. v \<le> fc_latest (lk_receiver s) \<and> (p \<in> lk_arrived s \<longrightarrow> v \<le> ofc_total_available_window (lk_sender s))) \<and>
     ifc_consumed_window (lk_receiver s) \<le> ifc_acquired_window (lk_receiver s) \<and>
     unat (fc_latest (lk_receiver s)) = min (unat (ifc_consumed_window (lk_receiver s)) + unat desired) (2 ^ 62 - 1) \<and>
     inc_inv (ifc_read_window_sync (lk_receiver s)) \<and>
     inc_value_ackd_up_to (ifc_read_window_sync (lk_receiver s)) \<le> ofc_total_available_window (lk_sender s) \<and>
     sent_updates (lk_receiver s) \<subseteq> lk_grants s \<and> inj_on fst (lk_grants s) \<and>
     lk_arrived s \<subseteq> fst ` lk_grants s \<and>
     ifc_desired_flow_control_window (lk_receiver s) = desired \<and>
     inc_threshold (ifc_read_window_sync (lk_receiver s)) = ucast (desired div 10) \<and> \<not> lk_failed s"

lemma fc_invD:
  assumes "fc_inv desired s"
  shows "unat (ofc_total_available_window (lk_sender s)) =
       unat (ofc_available_window (lk_sender s)) + unat (ifc_acquired_window (lk_receiver s)) + lk_data s"
    "ofc_total_available_window (lk_sender s) \<le> fc_latest (lk_receiver s)"
    "unat (fc_latest (lk_receiver s)) < 2 ^ 62" "unat (ofc_total_available_window (lk_sender s)) < 2 ^ 62"
    "inc_inv (ifc_read_window_sync (lk_receiver s))"
proof -
  show 1: "unat (fc_latest (lk_receiver s)) < 2 ^ 62" using assms by (simp add: fc_inv_def min_def)
  show le: "ofc_total_available_window (lk_sender s) \<le> fc_latest (lk_receiver s)" using assms by (simp add: fc_inv_def)
  show "unat (ofc_total_available_window (lk_sender s)) < 2 ^ 62" using 1 le by (simp add: word_le_nat_alt)
qed (use assms in \<open>simp_all add: fc_inv_def\<close>)

lemma fc_new_inv:
  assumes "initial \<le> ucast desired"
  shows "fc_inv desired (fc_link_new initial desired)"
proof -
  have u: "unat (ucast desired :: varint) = unat desired" "unat desired < 2 ^ 62"
    using unat_less_power [of desired] by (simp_all add: unsigned_ucast_eq take_bit_nat_eq_self_iff)
  then have v: "varint_valid (ucast desired)" by (simp add: varint_max_less)
  show ?thesis
    using inc_new_inv [OF v assms, of "ucast (desired div 10)"] assms u
    by (simp add: fc_inv_def fc_link_new_def outgoing_new_def incoming_new_def fc_latest_def sent_updates_def
        incremental_new_def request_delivery_if_necessary_def)
qed

lemma sent_updates_step:
  "sent_updates (incoming_on_packet_ack acks r) \<subseteq> sent_updates r"
  "sent_updates (incoming_on_packet_loss acks r) \<subseteq> sent_updates r"
  "sent_updates (incoming_release_window n r) \<subseteq> sent_updates r"
  by (auto simp: sent_updates_def incoming_on_packet_ack_def incoming_on_packet_loss_def incoming_release_window_def
      incremental_on_packet_ack_def incremental_on_packet_loss_def update_latest_value_def Let_def
      request_delivery_if_necessary_def split: delivery_state.splits if_splits)

lemma fc_send_inv:
  assumes inv: "fc_inv desired s" and acq: "outgoing_acquire_window n (lk_sender s) = (r, snd')"
  shows "fc_inv desired (s\<lparr>lk_sender := snd', lk_data := lk_data s + unat r\<rparr>)"
proof -
  let ?a = "ofc_available_window (lk_sender s)"
  have r: "r = min ?a n" "ofc_total_available_window snd' = ofc_total_available_window (lk_sender s)"
    "ofc_available_window snd' = ?a - r"
    using acq by (auto simp: outgoing_acquire_window_def Let_def varint_sub_def split: if_splits)
  have "r \<le> ?a" using r(1) by simp
  then have "unat (?a - r) + unat r = unat ?a" by (simp add: unat_sub_no_wrap word_le_nat_alt)
  with inv r show ?thesis by (simp add: fc_inv_def)
qed

lemma fc_receive_inv:
  assumes inv: "fc_inv desired s" and n: "unat n \<le> lk_data s"
    and acq: "incoming_acquire_window n (lk_receiver s) = (res, rcv')"
  shows "is_ok res" "fc_inv desired (s\<lparr>lk_receiver := rcv', lk_data := lk_data s - unat n, lk_failed := (lk_failed s \<or> \<not> is_ok res)\<rparr>)"
proof -
  note d = fc_invD [OF inv]
  let ?l = "fc_latest (lk_receiver s)" and ?a = "ifc_acquired_window (lk_receiver s)"
  have sum: "unat ?a + unat n \<le> unat ?l" "unat ?l < 2 ^ 62" using d(1-3) n by (simp_all add: word_le_nat_alt)
  then have "unat (?l - ?a) = unat ?l - unat ?a" by (simp add: unat_sub_no_wrap word_le_nat_alt)
  with sum have "\<not> incoming_remaining_window (lk_receiver s) < n"
    by (simp add: incoming_remaining_window_def varint_sub_def fc_latest_def word_less_nat_alt)
  with acq have r: "res = Inr ()" "rcv' = (lk_receiver s)\<lparr>ifc_acquired_window := ?a + n\<rparr>"
    by (simp_all add: incoming_acquire_window_def varint_add_def)
  show "is_ok res" using r(1) by simp
  have add: "unat (?a + n) = unat ?a + unat n" using sum by (subst unat_add_no_wrap) simp_all
  have "ifc_consumed_window (lk_receiver s) \<le> ?a" using inv by (simp add: fc_inv_def)
  then have "ifc_consumed_window (lk_receiver s) \<le> ?a + n" using add by (simp add: word_le_nat_alt)
  with inv n r add show "fc_inv desired (s\<lparr>lk_receiver := rcv', lk_data := lk_data s - unat n, lk_failed := (lk_failed s \<or> \<not> is_ok res)\<rparr>)"
    by (simp add: fc_inv_def fc_latest_def sent_updates_def)
qed

lemma fc_consume_inv:
  assumes inv: "fc_inv desired s"
    and n: "unat (ifc_consumed_window (lk_receiver s)) + unat n \<le> unat (ifc_acquired_window (lk_receiver s))"
  shows "fc_inv desired (s\<lparr>lk_receiver := incoming_release_window n (lk_receiver s)\<rparr>)"
proof -
  note d = fc_invD [OF inv]
  let ?r = "lk_receiver s" let ?c = "ifc_consumed_window ?r"
  define l where "l = varint_saturating_add (?c + n) (ucast desired)"
  have c: "unat (?c + n) = unat ?c + unat n"
    using n d(1,4) by (subst unat_add_no_wrap) simp_all
  have u: "unat (ucast desired :: varint) = unat desired"
    using unat_less_power [of desired] by (simp add: unsigned_ucast_eq take_bit_nat_eq_self_iff)
  have l: "unat l = min (unat ?c + unat n + unat desired) (2 ^ 62 - 1)" "varint_valid l"
    by (simp_all add: l_def unat_varint_saturating_add c u varint_valid_saturating_add)
  have des: "ifc_desired_flow_control_window ?r = desired" using inv by (simp add: fc_inv_def)
  have rel: "incoming_release_window n ?r = ?r\<lparr>ifc_consumed_window := ?c + n,
      ifc_read_window_sync := update_latest_value l (ifc_read_window_sync ?r)\<rparr>"
    by (simp add: incoming_release_window_def Let_def varint_add_def l_def des)
  have le: "fc_latest ?r \<le> l" using inv l(1) by (simp add: fc_inv_def word_le_nat_alt)
  have "inc_step (ifc_read_window_sync ?r) (update_latest_value l (ifc_read_window_sync ?r))"
    using le l(2) by (intro inc_update) (simp_all add: fc_latest_def)
  from inc_step_inv [OF this d(5)] have "inc_inv (update_latest_value l (ifc_read_window_sync ?r))" by simp
  moreover have "sent_updates (incoming_release_window n ?r) \<subseteq> lk_grants s"
    using sent_updates_step(3) [of n ?r] inv by (auto simp: fc_inv_def)
  moreover have "v \<le> l" if "(p, v) \<in> lk_grants s" for p v using that inv le by (auto simp: fc_inv_def)
  moreover have "?c + n \<le> ifc_acquired_window ?r" using n c by (simp add: word_le_nat_alt)
  ultimately show ?thesis
    using inv l(1) le c unfolding fc_inv_def
    by (auto simp: rel fc_latest_def update_latest_value_def request_delivery_if_necessary_def)
qed

lemma fc_sync_inv:
  assumes inv: "fc_inv desired s" and step: "inc_step (ifc_read_window_sync (lk_receiver s)) sync"
    and same: "inc_latest_value sync = inc_latest_value (ifc_read_window_sync (lk_receiver s))"
    and ackd: "inc_value_ackd_up_to sync \<le> ofc_total_available_window (lk_sender s)"
    and r: "r = (lk_receiver s)\<lparr>ifc_read_window_sync := sync\<rparr>" "sent_updates r \<subseteq> g"
    and g: "lk_grants s \<subseteq> g" "inj_on fst g"
      "\<And>p v. (p, v) \<in> g \<Longrightarrow> (p, v) \<in> lk_grants s \<or> v \<le> fc_latest (lk_receiver s) \<and> p \<notin> fst ` lk_grants s"
  shows "fc_inv desired (s\<lparr>lk_receiver := r, lk_grants := g\<rparr>)"
proof -
  have i: "inc_inv sync" "inc_threshold sync = inc_threshold (ifc_read_window_sync (lk_receiver s))"
    using inc_step_inv [OF step fc_invD(5) [OF inv]] by auto
  have arr: "lk_arrived s \<subseteq> fst ` lk_grants s" using inv by (simp add: fc_inv_def)
  have "v \<le> fc_latest (lk_receiver s) \<and> (p \<in> lk_arrived s \<longrightarrow> v \<le> ofc_total_available_window (lk_sender s))"
    if "(p, v) \<in> g" for p v
    using g(3) [OF that] inv arr by (auto simp: fc_inv_def)
  moreover have "lk_arrived s \<subseteq> fst ` g" using arr g(1) by blast
  ultimately show ?thesis
    using inv i r g(2) same ackd unfolding fc_inv_def by (auto simp: fc_latest_def)
qed

lemma fc_grant_inv:
  assumes inv: "fc_inv desired s" and tx: "incoming_on_transmit w (lk_receiver s) ctx = Some (res, rcv', ctx')"
    and fresh: "\<forall>(p, v)\<in>sent_updates rcv' - sent_updates (lk_receiver s). p \<notin> fst ` lk_grants s"
  shows "fc_inv desired (s\<lparr>lk_receiver := rcv', lk_grants := lk_grants s \<union> sent_updates rcv'\<rparr>)"
proof -
  let ?sync = "ifc_read_window_sync (lk_receiver s)"
  obtain sync where sync: "incremental_on_transmit w 0 ?sync ctx = Some (res, sync, ctx')"
    and r: "rcv' = (lk_receiver s)\<lparr>ifc_read_window_sync := sync\<rparr>"
    using tx by (auto simp: incoming_on_transmit_def)
  have step: "inc_step ?sync sync" by (rule inc_transmit [OF sync])
  have same: "inc_latest_value sync = inc_latest_value ?sync" "inc_value_ackd_up_to sync = inc_value_ackd_up_to ?sync"
    using sync by (auto simp: incremental_on_transmit_def Let_def bind_eq_Some_conv split: if_splits option.splits)
  have "inc_inv sync" using inc_step_inv [OF step fc_invD(5) [OF inv]] by simp
  then have le: "v \<le> fc_latest (lk_receiver s)" if "(p, v) \<in> sent_updates rcv'" for p v
    using that by (auto simp: sent_updates_def r inc_inv_def fc_latest_def same split: delivery_state.splits)
  have old: "sent_updates (lk_receiver s) \<subseteq> lk_grants s" and inj: "inj_on fst (lk_grants s)"
    and ackd: "inc_value_ackd_up_to ?sync \<le> ofc_total_available_window (lk_sender s)"
    using inv by (simp_all add: fc_inv_def)
  have new: "(p, v) \<in> lk_grants s \<or> v \<le> fc_latest (lk_receiver s) \<and> p \<notin> fst ` lk_grants s"
    if "(p, v) \<in> lk_grants s \<union> sent_updates rcv'" for p v
  proof (cases "(p, v) \<in> lk_grants s")
    case False
    with that old have "(p, v) \<in> sent_updates rcv' - sent_updates (lk_receiver s)" by auto
    with bspec [OF fresh this] le [of p v] show ?thesis by simp
  qed simp
  have one: "x = y" if "x \<in> sent_updates rcv'" "y \<in> sent_updates rcv'" for x y
    using that by (auto simp: sent_updates_def split: delivery_state.splits)
  have "inj_on fst (lk_grants s \<union> sent_updates rcv')"
  proof (rule inj_onI)
    fix x y assume xy: "x \<in> lk_grants s \<union> sent_updates rcv'" "y \<in> lk_grants s \<union> sent_updates rcv'" "fst x = fst y"
    show "x = y"
    proof (cases "x \<in> lk_grants s"; cases "y \<in> lk_grants s")
      assume "x \<in> lk_grants s" "y \<in> lk_grants s" then show ?thesis using inj xy(3) by (auto dest: inj_onD)
    next
      assume "x \<in> lk_grants s" "y \<notin> lk_grants s" then show ?thesis using new [of "fst y" "snd y"] xy by (metis imageI prod.collapse)
    next
      assume "x \<notin> lk_grants s" "y \<in> lk_grants s" then show ?thesis using new [of "fst x" "snd x"] xy by (metis imageI prod.collapse)
    next
      assume "x \<notin> lk_grants s" "y \<notin> lk_grants s" then show ?thesis using one xy by blast
    qed
  qed
  with new step same ackd show ?thesis
    by (intro fc_sync_inv [OF inv step _ _ r]) auto
qed

lemma fc_arrive_inv:
  assumes inv: "fc_inv desired s" and g: "(p, v) \<in> lk_grants s"
  shows "fc_inv desired (s\<lparr>lk_sender := on_max_data v (lk_sender s), lk_arrived := insert p (lk_arrived s)\<rparr>)"
proof -
  note d = fc_invD [OF inv]
  let ?t = "ofc_total_available_window (lk_sender s)" and ?a = "ofc_available_window (lk_sender s)"
  have vl: "v \<le> fc_latest (lk_receiver s)" and inj: "inj_on fst (lk_grants s)" using inv g by (auto simp: fc_inv_def)
  then have v: "unat v < 2 ^ 62" using d(3) by (simp add: word_le_nat_alt)
  define t' where "t' = ofc_total_available_window (on_max_data v (lk_sender s))"
  have t': "?t \<le> t'" "v \<le> t'" "t' \<le> fc_latest (lk_receiver s)"
    using vl d(2) by (auto simp: t'_def on_max_data_def Let_def not_le)
  have av: "unat t' = unat (ofc_available_window (on_max_data v (lk_sender s))) + unat (ifc_acquired_window (lk_receiver s)) + lk_data s"
  proof (cases "v \<le> ?t")
    case False
    then have lt: "?t < v" by simp
    then have sub: "unat (v - ?t) = unat v - unat ?t" by (simp add: unat_sub_no_wrap)
    have "unat (?a + (v - ?t)) = unat ?a + unat (v - ?t)"
      using sub lt d(1) v by (intro unat_add_no_wrap) (simp_all add: word_less_nat_alt)
    with False sub lt d(1) show ?thesis
      by (simp add: t'_def on_max_data_def Let_def varint_sub_def varint_add_def word_less_nat_alt)
  qed (use d(1) in \<open>simp add: t'_def on_max_data_def\<close>)
  have arr: "w \<le> t'" if "(q, w) \<in> lk_grants s" "q = p \<or> q \<in> lk_arrived s" for q w
  proof (cases "q = p")
    case True
    then show ?thesis using inj_onD [OF inj, of "(q, w)" "(p, v)"] that(1) g t'(2) by simp
  next
    case False
    with that inv t'(1) show ?thesis by (auto simp: fc_inv_def)
  qed
  have "p \<in> fst ` lk_grants s" using g by force
  moreover have "inc_value_ackd_up_to (ifc_read_window_sync (lk_receiver s)) \<le> t'"
    using inv t'(1) by (auto simp: fc_inv_def)
  moreover have "\<forall>(q, w)\<in>lk_grants s. w \<le> fc_latest (lk_receiver s) \<and> (q \<in> insert p (lk_arrived s) \<longrightarrow> w \<le> t')"
    using inv arr by (auto simp: fc_inv_def)
  ultimately show ?thesis using inv av t'(3) by (simp add: fc_inv_def t'_def)
qed

lemma fc_fate_inv:
  assumes inv: "fc_inv desired s"
  shows "\<forall>p. acks p \<longrightarrow> p \<in> lk_arrived s \<Longrightarrow> fc_inv desired (s\<lparr>lk_receiver := incoming_on_packet_ack acks (lk_receiver s)\<rparr>)"
    and "fc_inv desired (s\<lparr>lk_receiver := incoming_on_packet_loss acks (lk_receiver s)\<rparr>)"
proof -
  let ?sync = "ifc_read_window_sync (lk_receiver s)"
  have g: "sent_updates (lk_receiver s) \<subseteq> lk_grants s" "inj_on fst (lk_grants s)"
    "inc_value_ackd_up_to ?sync \<le> ofc_total_available_window (lk_sender s)"
    using inv by (simp_all add: fc_inv_def)
  note same = fc_sync_inv [OF inv, where g = "lk_grants s", simplified]
  show "fc_inv desired (s\<lparr>lk_receiver := incoming_on_packet_loss acks (lk_receiver s)\<rparr>)"
    by (rule same [OF inc_loss [of _ acks]])
       (use g sent_updates_step(2) [of acks "lk_receiver s"] in
         \<open>auto simp: incoming_on_packet_loss_def incremental_on_packet_loss_def split: delivery_state.splits\<close>)
  assume acks: "\<forall>p. acks p \<longrightarrow> p \<in> lk_arrived s"
  have "inc_value_ackd_up_to (incremental_on_packet_ack acks ?sync) \<le> ofc_total_available_window (lk_sender s)"
  proof (cases "inc_delivery ?sync")
    case (InFlight d)
    then have "(ipi_packet_nr (ifd_packet d), ifd_value d) \<in> lk_grants s" using g(1) by (auto simp: sent_updates_def)
    with acks inv have "acks (ipi_packet_nr (ifd_packet d)) \<Longrightarrow> ifd_value d \<le> ofc_total_available_window (lk_sender s)"
      by (auto simp: fc_inv_def)
    with InFlight g(3) show ?thesis by (simp add: incremental_on_packet_ack_def)
  qed (use g(3) in \<open>simp_all add: incremental_on_packet_ack_def\<close>)
  then show "fc_inv desired (s\<lparr>lk_receiver := incoming_on_packet_ack acks (lk_receiver s)\<rparr>)"
    by (intro same [OF inc_ack [of _ acks]])
       (use g sent_updates_step(1) [of acks "lk_receiver s"] in
         \<open>auto simp: incoming_on_packet_ack_def incremental_on_packet_ack_def split: delivery_state.splits\<close>)
qed

lemma fc_step_inv: "fc_step s s' \<Longrightarrow> fc_inv desired s \<Longrightarrow> fc_inv desired s'"
  by (induction rule: fc_step.induct)
     (rule fc_send_inv fc_receive_inv(2) fc_consume_inv fc_grant_inv fc_arrive_inv fc_fate_inv; assumption)+

lemma fc_steps_inv:
  assumes "initial \<le> ucast desired" "fc_step\<^sup>*\<^sup>* (fc_link_new initial desired) s"
  shows "fc_inv desired s"
  using assms(2) by (induction rule: rtranclp_induct) (simp_all add: fc_new_inv [OF assms(1)] fc_step_inv)

section \<open>Properties\<close>

lemmas fc_eval = fc_link_new_def outgoing_new_def incoming_new_def incremental_new_def
  request_delivery_if_necessary_def should_send_update_def outgoing_acquire_window_def incoming_acquire_window_def
  incoming_remaining_window_def varint_sub_def varint_add_def

text \<open>
  C3. Flow control never misfires. A sender that takes its bytes from \<open>outgoing_acquire_window\<close> and a
  receiver that grants window as the application consumes data agree in every state they reach,
  however updates are lost, repeated, reordered or delayed: whatever part of the bytes under way
  arrives, the receiver accepts it, so it never reports FLOW_CONTROL_ERROR; the sender's limit never
  exceeds what the receiver granted; and bytes the receiver has to buffer stay within the
  desired window.
\<close>

theorem flow_control_never_misfires:
  assumes "initial \<le> ucast desired" and "fc_step\<^sup>*\<^sup>* (fc_link_new initial desired) s"
  shows "\<not> lk_failed s \<and>
    (\<forall>n. unat n \<le> lk_data s \<longrightarrow> is_ok (fst (incoming_acquire_window n (lk_receiver s)))) \<and>
    ofc_total_available_window (lk_sender s) \<le> inc_latest_value (ifc_read_window_sync (lk_receiver s)) \<and>
    unat (ifc_acquired_window (lk_receiver s)) + lk_data s \<le> unat (ifc_consumed_window (lk_receiver s)) + unat desired"
proof -
  note inv = fc_steps_inv [OF assms]
  have "is_ok (fst (incoming_acquire_window n (lk_receiver s)))" if "unat n \<le> lk_data s" for n
    using fc_receive_inv(1) [OF inv that] by (cases "incoming_acquire_window n (lk_receiver s)") simp
  moreover have "unat (fc_latest (lk_receiver s)) \<le> unat (ifc_consumed_window (lk_receiver s)) + unat desired"
    using inv by (simp add: fc_inv_def)
  moreover have "\<not> lk_failed s" using inv by (simp add: fc_inv_def)
  moreover have "unat (ofc_total_available_window (lk_sender s)) \<le> unat (fc_latest (lk_receiver s))"
    using fc_invD(2) [OF inv] by (simp add: word_le_nat_alt)
  ultimately show ?thesis
    using fc_invD(1,2) [OF inv] by (simp add: fc_latest_def)
qed

theorem flow_control_never_misfires_witness:
  "is_ok (fst (incoming_acquire_window 60 (incoming_new 60 100)))"
proof -
  let ?snd = "snd (outgoing_acquire_window 80 (outgoing_new 60))"
  have "outgoing_acquire_window 80 (lk_sender (fc_link_new 60 100)) = (60, ?snd)"
    by (simp add: fc_eval Let_def)
  from fc_send [OF _ this]
  have "fc_step (fc_link_new 60 100) ((fc_link_new 60 100)\<lparr>lk_sender := ?snd, lk_data := 60\<rparr>)"
    by (simp add: fc_link_new_def varint_valid_def MAX_VARINT_VALUE_def)
  from flow_control_never_misfires [OF _ r_into_rtranclp [of fc_step, OF this]] show ?thesis
    by (simp add: fc_link_new_def)
qed

text \<open>
  C9. Flow control never deadlocks. When all data has arrived and been consumed and the receiver has no
  window update to send or in flight, the sender has at least nine tenths of the desired window: a
  sender is never left without credit while the receiver believes there is nothing to announce.
\<close>

theorem flow_control_no_deadlock:
  assumes "initial \<le> ucast desired" and "fc_step\<^sup>*\<^sup>* (fc_link_new initial desired) s"
    and "lk_data s = 0" and "ifc_consumed_window (lk_receiver s) = ifc_acquired_window (lk_receiver s)"
    and "inc_delivery (ifc_read_window_sync (lk_receiver s)) = NotRequested"
    and "unat (ifc_consumed_window (lk_receiver s)) + unat desired < 2 ^ 62"
  shows "unat desired - unat desired div 10 \<le> unat (ofc_available_window (lk_sender s))"
proof -
  note inv = fc_steps_inv [OF assms(1,2)]
  let ?sync = "ifc_read_window_sync (lk_receiver s)"
  have thr: "unat (inc_threshold ?sync) = unat desired div 10"
    using inv unat_less_power [of "desired div 10"]
    by (simp add: fc_inv_def unsigned_ucast_eq take_bit_nat_eq_self_iff unat_div)
  have "close_to (inc_threshold ?sync) (inc_latest_value ?sync) (inc_value_ackd_up_to ?sync)"
    and "inc_value_ackd_up_to ?sync \<le> inc_latest_value ?sync"
    using fc_invD(5) [OF inv] assms(5) by (simp_all add: inc_inv_def)
  then have "unat (inc_latest_value ?sync) \<le> unat (inc_value_ackd_up_to ?sync) + unat desired div 10"
    using thr by (auto simp: close_to_def)
  moreover have "unat (inc_latest_value ?sync) = unat (ifc_consumed_window (lk_receiver s)) + unat desired"
    "unat (inc_value_ackd_up_to ?sync) \<le> unat (ofc_total_available_window (lk_sender s))"
    using inv assms(6) by (simp_all add: fc_inv_def fc_latest_def word_le_nat_alt)
  ultimately show ?thesis using fc_invD(1) [OF inv] assms(3,4) by simp
qed

theorem flow_control_no_deadlock_witness:
  "90 \<le> unat (ofc_available_window (lk_sender (fc_link_new 95 100)))"
  using flow_control_no_deadlock [of 95 100 "fc_link_new 95 100"]
  by (simp add: fc_eval)

text \<open>
  C32. The window of a receiving stream. Data up to an offset is accepted exactly when the offset is
  within the stream window and the bytes the stream has not yet taken from the connection fit the
  connection window; a refusal is a FLOW_CONTROL_ERROR with the type of the offending frame and
  changes neither window.
\<close>

theorem acquire_window_up_to_exact:
  assumes "acquire_window_up_to offset ft self connection = (res, self', connection')"
  shows "(is_ok res \<longleftrightarrow> offset \<le> inc_latest_value (rfc_read_window_sync self) \<and>
      (offset \<le> rfc_acquired_connection_window self \<or>
       offset - rfc_acquired_connection_window self \<le> incoming_remaining_window connection)) \<and>
    (is_ok res \<longrightarrow> rfc_acquired_connection_window self' = max offset (rfc_acquired_connection_window self) \<and>
      ifc_acquired_window connection' - ifc_acquired_window connection =
        rfc_acquired_connection_window self' - rfc_acquired_connection_window self) \<and>
    (\<forall>err. res = Inl err \<longrightarrow> te_code err = 3 \<and> te_frame_type err = ucast (unwrap_or 0 ft) \<and>
      self' = self \<and> connection' = connection)"
proof -
  have s: "varint_saturating_sub a b = (if b \<le> a then a - b else 0)" for a b :: varint
    by (simp add: varint_saturating_sub_def saturating_sub_def)
  have e: "te_code (with_frame_type t (with_reason r FLOW_CONTROL_ERROR)) = 3"
    "te_frame_type (with_frame_type t (with_reason r FLOW_CONTROL_ERROR)) = t" for t r
    by (simp_all add: with_frame_type_def with_reason_def FLOW_CONTROL_ERROR_def transport_error_new_def)
  show ?thesis
    using assms
    by (auto simp: acquire_window_up_to_def Let_def s e incoming_acquire_window_def varint_add_def max_def word_gt_0
        split: if_splits)
qed

theorem acquire_window_up_to_exact_witness:
  "te_code (projl (fst (acquire_window_up_to 200 (Some 8) (receive_stream_fc_new 50 100) (incoming_new 50 100)))) = 3"
  using acquire_window_up_to_exact
    [of 200 "Some 8" "receive_stream_fc_new 50 100" "incoming_new 50 100"
        "Inl (with_frame_type 8 (with_reason ''Stream flow control window exceeded'' FLOW_CONTROL_ERROR))"
        "receive_stream_fc_new 50 100" "incoming_new 50 100"]
  by (simp add: acquire_window_up_to_def receive_stream_fc_new_def fc_eval)

lemma missing_data_step:
  fixes f :: stream_frame
  defines "e \<equiv> unat (sf_offset f) + length (sf_data f)"
  assumes f: "e \<le> F" "F < 2 ^ 62" "sf_is_fin f \<Longrightarrow> e = F"
    and m: "snd (missing_data_on_data f m) = m'"
    and hi: "md_end m = - 1 \<or> fin \<and> unat (md_end m) \<le> F \<and> {unat (md_end m)..<F} \<subseteq> C"
    and lo: "start \<le> unat (md_start m)" "{start..<unat (md_start m)} \<subseteq> C" "unat (md_start m) < 2 ^ 62"
  shows "md_end m' = - 1 \<or> (fin \<or> sf_is_fin f) \<and> unat (md_end m') \<le> F \<and>
      {unat (md_end m')..<F} \<subseteq> C \<union> {unat (sf_offset f)..<e}"
    and "start \<le> unat (md_start m')" "{start..<unat (md_start m')} \<subseteq> C \<union> {unat (sf_offset f)..<e}" "unat (md_start m') < 2 ^ 62"
proof -
  have e: "unat (sf_offset f + word_of_nat (length (sf_data f))) = e"
    using f(1,2) by (subst unat_add_no_wrap) (simp_all add: e_def unat_of_nat_no_wrap)
  have o: "unat (sf_offset f) \<le> e" by (simp add: e_def)
  have top: "unat (- 1 :: u64) = 2 ^ 64 - 1" by (simp add: unat_minus_one_word)
  note ev = missing_data_on_data_def Let_def word_le_nat_alt word_less_nat_alt e
  show "start \<le> unat (md_start m')" "{start..<unat (md_start m')} \<subseteq> C \<union> {unat (sf_offset f)..<e}" "unat (md_start m') < 2 ^ 62"
    using m lo f(1,2) by (auto simp: ev split: if_splits)
  show "md_end m' = - 1 \<or> (fin \<or> sf_is_fin f) \<and> unat (md_end m') \<le> F \<and>
      {unat (md_end m')..<F} \<subseteq> C \<union> {unat (sf_offset f)..<e}"
    using m hi f o top by (auto simp: ev min_def split: if_splits)
qed

definition covered :: "stream_frame list \<Rightarrow> nat set" where
  "covered fs = (\<Union>f\<in>set fs. {unat (sf_offset f)..<unat (sf_offset f) + length (sf_data f)})"

lemma missing_data_fold:
  assumes "\<forall>f\<in>set fs. unat (sf_offset f) + length (sf_data f) \<le> F \<and>
      (sf_is_fin f \<longrightarrow> unat (sf_offset f) + length (sf_data f) = F)" and "F < 2 ^ 62"
    and "md_end m = - 1 \<or> fin \<and> unat (md_end m) \<le> F \<and> {unat (md_end m)..<F} \<subseteq> C"
    and "start \<le> unat (md_start m)" "{start..<unat (md_start m)} \<subseteq> C" "unat (md_start m) < 2 ^ 62"
    and "m' = fold (\<lambda>f m. snd (missing_data_on_data f m)) fs m"
  shows "(md_end m' = - 1 \<or> (fin \<or> (\<exists>f\<in>set fs. sf_is_fin f)) \<and> {unat (md_end m')..<F} \<subseteq> C \<union> covered fs) \<and>
    {start..<unat (md_start m')} \<subseteq> C \<union> covered fs \<and> unat (md_start m') < 2 ^ 62"
  using assms
proof (induction fs arbitrary: m fin C)
  case (Cons f fs)
  have "unat (sf_offset f) + length (sf_data f) \<le> F" "sf_is_fin f \<Longrightarrow> unat (sf_offset f) + length (sf_data f) = F"
    using Cons.prems(1) by simp_all
  note step = missing_data_step [OF this(1) Cons.prems(2) this(2) refl Cons.prems(3-6)]
  have rest: "\<forall>f\<in>set fs. unat (sf_offset f) + length (sf_data f) \<le> F \<and>
      (sf_is_fin f \<longrightarrow> unat (sf_offset f) + length (sf_data f) = F)"
    using Cons.prems(1) by simp
  show ?case
    using Cons.IH [OF rest Cons.prems(2) step] Cons.prems(7) by (simp add: covered_def Un_assoc disj_assoc)
qed (auto simp: covered_def)

text \<open>
  C33. When a stopped stream is done. While a stream is being stopped only the first and the last gap are
  tracked. If all frames agree with one final size, then once \<open>on_data\<close> reports that nothing is missing a
  frame with the FIN bit has been seen and every byte from the starting offset up to the final size was
  carried by some frame.
\<close>

theorem missing_data_complete:
  assumes "\<forall>f\<in>set (fs @ [f]). unat (sf_offset f) + length (sf_data f) \<le> F \<and>
      (sf_is_fin f \<longrightarrow> unat (sf_offset f) + length (sf_data f) = F)" and "F < 2 ^ 62" and "unat start < 2 ^ 62"
    and "fst (missing_data_on_data f (fold (\<lambda>f m. snd (missing_data_on_data f m)) fs (missing_data_new start)))"
  shows "(\<exists>f\<in>set (fs @ [f]). sf_is_fin f) \<and>
    (\<forall>i. unat start \<le> i \<and> i < F \<longrightarrow>
      (\<exists>f\<in>set (fs @ [f]). unat (sf_offset f) \<le> i \<and> i < unat (sf_offset f) + length (sf_data f)))"
proof -
  define m where "m = fold (\<lambda>f m. snd (missing_data_on_data f m)) (fs @ [f]) (missing_data_new start)"
  have "fst (missing_data_on_data g n) = (md_end (snd (missing_data_on_data g n)) \<le> md_start (snd (missing_data_on_data g n)))" for g n
    by (simp add: missing_data_on_data_def Let_def)
  with assms(4) have le: "md_end m \<le> md_start m" by (simp add: m_def)
  have m: "(md_end m = - 1 \<or> (False \<or> (\<exists>f\<in>set (fs @ [f]). sf_is_fin f)) \<and> {unat (md_end m)..<F} \<subseteq> {} \<union> covered (fs @ [f])) \<and>
    {unat start..<unat (md_start m)} \<subseteq> {} \<union> covered (fs @ [f]) \<and> unat (md_start m) < 2 ^ 62"
    by (rule missing_data_fold [OF assms(1,2) _ _ _ _ m_def]) (use assms(3) in \<open>simp_all add: missing_data_new_def\<close>)
  moreover from m le have "md_end m \<noteq> - 1" by (auto simp: word_le_nat_alt unat_minus_one_word)
  ultimately have fin: "\<exists>f\<in>set (fs @ [f]). sf_is_fin f" and "{unat start..<F} \<subseteq> covered (fs @ [f])"
    using le by (force simp: word_le_nat_alt)+
  then show ?thesis by (force simp: covered_def)
qed

theorem missing_data_complete_witness:
  "\<exists>f\<in>{\<lparr>sf_stream_id = 0, sf_offset = 7, sf_is_last_frame = False, sf_is_fin = True, sf_data = [3, 4]\<rparr>,
       \<lparr>sf_stream_id = 0, sf_offset = 5, sf_is_last_frame = False, sf_is_fin = False, sf_data = [1, 2]\<rparr>}.
     unat (sf_offset f) \<le> 6 \<and> 6 < unat (sf_offset f) + length (sf_data f)"
  using missing_data_complete
    [of "[\<lparr>sf_stream_id = 0, sf_offset = 7, sf_is_last_frame = False, sf_is_fin = True, sf_data = [3, 4]\<rparr>]"
        "\<lparr>sf_stream_id = 0, sf_offset = 5, sf_is_last_frame = False, sf_is_fin = False, sf_data = [1, 2]\<rparr>" 9 5]
  by (simp add: missing_data_on_data_def missing_data_new_def Let_def)

end
