(* ===== verification/Interval.thy ===== *)
theory Interval
  imports PacketNumber
begin

text \<open>
  Intervals and their bounds: \<^verbatim>\<open>quic/s2n-quic-core/src/interval_set/interval.rs\<close>. The trait
  \<open>IntervalBound\<close> is a record of its functions; the locale \<open>interval_bound\<close> states what the interval
  set relies on: the values are in order-preserving correspondence with an initial segment of the
  natural numbers (\<open>rank\<close>) and the steps move by one. It is interpreted for the implementations of
  the trait that the transport uses.
\<close>

section \<open>Definitions\<close>

text \<open>\<open>core::cmp::Ordering\<close> and \<open>Ord::cmp\<close>.\<close>

datatype ordering = Less | Equal | Greater

definition cmp :: "'a::linorder \<Rightarrow> 'a \<Rightarrow> ordering" where
  "cmp x y = (if x < y then Less else if x = y then Equal else Greater)"

text \<open>\<open>core::ops::Bound\<close>.\<close>

datatype 'a bound = Included 'a | Excluded 'a | Unbounded

datatype interval_set_error = LimitExceeded | InvalidInterval

record 'a bound_ops =
  step_up :: "'a \<Rightarrow> 'a option"
  step_down :: "'a \<Rightarrow> 'a option"
  steps_between :: "'a \<Rightarrow> 'a \<Rightarrow> nat"
  steps_between_len :: "'a \<Rightarrow> nat \<Rightarrow> 'a"

definition step_up_saturating :: "'a bound_ops \<Rightarrow> 'a \<Rightarrow> 'a" where
  "step_up_saturating ib x = unwrap_or x (step_up ib x)"

definition step_down_saturating :: "'a bound_ops \<Rightarrow> 'a \<Rightarrow> 'a" where
  "step_down_saturating ib x = unwrap_or x (step_down ib x)"

record 'a interval =
  iv_start :: 'a
  iv_end :: 'a

definition is_valid :: "'a::linorder interval \<Rightarrow> bool" where
  "is_valid self \<longleftrightarrow> iv_end self \<ge> iv_start self"

definition from_range_bounds ::
    "'a::linorder bound_ops \<Rightarrow> 'a bound \<times> 'a bound \<Rightarrow> interval_set_error + 'a interval" where
  "from_range_bounds ib bounds =
     rbind (case fst bounds of
         Included start \<Rightarrow> Inr start
       | Excluded start \<Rightarrow> ok_or InvalidInterval (step_down ib start)
       | Unbounded \<Rightarrow> Inl InvalidInterval) (\<lambda>start.
     rbind (case snd bounds of
         Included end' \<Rightarrow> Inr end'
       | Excluded end' \<Rightarrow> ok_or InvalidInterval (step_down ib end')
       | Unbounded \<Rightarrow> Inl InvalidInterval) (\<lambda>end'.
     let interval = \<lparr>iv_start = start, iv_end = end'\<rparr> in
     if is_valid interval then Inr interval else Inl InvalidInterval))"

definition start_exclusive :: "'a bound_ops \<Rightarrow> 'a interval \<Rightarrow> 'a" where
  "start_exclusive ib self = step_down_saturating ib (iv_start self)"

definition end_exclusive :: "'a bound_ops \<Rightarrow> 'a interval \<Rightarrow> 'a" where
  "end_exclusive ib self = step_up_saturating ib (iv_end self)"

text \<open>The sum is a \<open>usize\<close>: it wraps to zero for an interval of all \<open>2 ^ 64\<close> values of \<open>u64\<close>.\<close>

definition interval_len :: "'a bound_ops \<Rightarrow> 'a interval \<Rightarrow> nat" where
  "interval_len ib self = (1 + steps_between ib (iv_start self) (iv_end self)) mod 2 ^ 64"

definition interval_set_len :: "'a bound_ops \<Rightarrow> 'a interval \<Rightarrow> nat \<Rightarrow> 'a interval" where
  "interval_set_len ib self len = self\<lparr>iv_end := steps_between_len ib (iv_start self) len\<rparr>"

definition should_coalesce :: "'a::linorder bound_ops \<Rightarrow> 'a interval \<Rightarrow> 'a interval \<Rightarrow> bool" where
  "should_coalesce ib self other \<longleftrightarrow> iv_start self \<le> end_exclusive ib other"

text \<open>\<open>PartialOrd<T> for Interval<T>\<close>: an interval against a value.\<close>

definition interval_cmp :: "'a::linorder interval \<Rightarrow> 'a \<Rightarrow> ordering" where
  "interval_cmp self value =
     (case (cmp (iv_start self) value, cmp (iv_end self) value) of
        (Equal, _) \<Rightarrow> Equal
      | (_, Equal) \<Rightarrow> Equal
      | (Greater, Less) \<Rightarrow> Equal
      | (Less, Greater) \<Rightarrow> Equal
      | (Less, Less) \<Rightarrow> Less
      | (Greater, Greater) \<Rightarrow> Greater)"

definition interval_next :: "'a::linorder bound_ops \<Rightarrow> 'a interval \<Rightarrow> 'a option \<times> 'a interval" where
  "interval_next ib self =
     (let current = iv_start self in
      if current > iv_end self then (None, self)
      else case step_up ib current of
          Some next \<Rightarrow> (Some current, self\<lparr>iv_start := next\<rparr>)
        | None \<Rightarrow>
            (case step_down ib current of
               Some prev \<Rightarrow> (Some current, self\<lparr>iv_end := prev\<rparr>)
             | None \<Rightarrow> (None, self)))"

definition interval_next_back :: "'a::linorder bound_ops \<Rightarrow> 'a interval \<Rightarrow> 'a option \<times> 'a interval" where
  "interval_next_back ib self =
     (let current = iv_end self in
      if current < iv_start self then (None, self)
      else case step_down ib current of
          Some next \<Rightarrow> (Some current, self\<lparr>iv_end := next\<rparr>)
        | None \<Rightarrow>
            (case step_up ib current of
               Some prev \<Rightarrow> (Some current, self\<lparr>iv_start := prev\<rparr>)
             | None \<Rightarrow> (None, self)))"

text \<open>The implementations for \<open>u64\<close>, \<open>VarInt\<close> and \<open>PacketNumber\<close>.\<close>

definition u64_bound :: "u64 bound_ops" where
  "u64_bound =
     \<lparr>step_up = (\<lambda>x. checked_add x 1),
      step_down = (\<lambda>x. checked_sub x 1),
      steps_between = (\<lambda>x upper. unat (upper - x)),
      steps_between_len = (\<lambda>x len. x + (of_nat len - 1))\<rparr>"

definition varint_bound :: "varint bound_ops" where
  "varint_bound =
     \<lparr>step_up = (\<lambda>x. varint_checked_add x 1),
      step_down = (\<lambda>x. varint_checked_sub x 1),
      steps_between = steps_between u64_bound,
      steps_between_len = (\<lambda>x len. x + (of_nat len - 1))\<rparr>"

definition packet_number_bound :: "packet_number bound_ops" where
  "packet_number_bound =
     \<lparr>step_up = pn_next,
      step_down = (\<lambda>x. Option.bind (step_down varint_bound (pn_as_varint x))
        (\<lambda>v. Some (pn_from_varint v (pn_space x)))),
      steps_between = (\<lambda>x upper. steps_between varint_bound (pn_as_varint x) (pn_as_varint upper)),
      steps_between_len = (\<lambda>x len.
        pn_from_varint (steps_between_len varint_bound (pn_as_varint x) len) (pn_space x))\<rparr>"

section \<open>The interface of bounds\<close>

text \<open>
  \<open>V\<close> is the set of values that can occur together in one interval set. Its elements are ranked in
  order; \<open>step_up\<close> and \<open>step_down\<close> move by one rank where there is a value and give \<open>None\<close> otherwise.
\<close>

text \<open>An interval over the values \<open>V\<close>, and the ranks it covers.\<close>

definition iv_ok :: "'a set \<Rightarrow> ('a \<Rightarrow> nat) \<Rightarrow> 'a interval \<Rightarrow> bool" where
  "iv_ok V rank r \<longleftrightarrow> iv_start r \<in> V \<and> iv_end r \<in> V \<and> rank (iv_start r) \<le> rank (iv_end r)"

definition iv_ranks :: "('a \<Rightarrow> nat) \<Rightarrow> 'a interval \<Rightarrow> nat set" where
  "iv_ranks rank r = {rank (iv_start r) .. rank (iv_end r)}"

locale interval_bound =
  fixes ib :: "'a::linorder bound_ops"
    and V :: "'a set"
    and rank :: "'a \<Rightarrow> nat"
  assumes rank_le: "x \<in> V \<Longrightarrow> y \<in> V \<Longrightarrow> x \<le> y \<longleftrightarrow> rank x \<le> rank y"
    and rank_bound: "x \<in> V \<Longrightarrow> rank x < 2 ^ 64"
    and rank_convex: "x \<in> V \<Longrightarrow> n \<le> rank x \<Longrightarrow> \<exists>y\<in>V. rank y = n"
    and up_Some: "x \<in> V \<Longrightarrow> step_up ib x = Some y \<longleftrightarrow> y \<in> V \<and> rank y = rank x + 1"
    and down_Some: "x \<in> V \<Longrightarrow> step_down ib x = Some y \<longleftrightarrow> y \<in> V \<and> rank x = rank y + 1"
    and between: "x \<in> V \<Longrightarrow> y \<in> V \<Longrightarrow> x \<le> y \<Longrightarrow> steps_between ib x y = rank y - rank x"
begin

lemma rank_less: "x \<in> V \<Longrightarrow> y \<in> V \<Longrightarrow> x < y \<longleftrightarrow> rank x < rank y"
  by (meson linorder_not_le rank_le)

lemma rank_eq: "x \<in> V \<Longrightarrow> y \<in> V \<Longrightarrow> x = y \<longleftrightarrow> rank x = rank y"
  by (metis antisym order_refl rank_le)

lemma rank_cmp: "x \<in> V \<Longrightarrow> y \<in> V \<Longrightarrow> cmp x y = cmp (rank x) (rank y)"
  by (simp add: cmp_def rank_less rank_eq)

lemma up_Some_iff:
  assumes "x \<in> V"
  shows "(\<exists>y. step_up ib x = Some y) \<longleftrightarrow> (\<exists>y\<in>V. rank x < rank y)"
proof
  assume "\<exists>y\<in>V. rank x < rank y"
  then obtain y where "y \<in> V" "rank x + 1 \<le> rank y" by auto
  with rank_convex obtain z where "z \<in> V" "rank z = rank x + 1" by metis
  with assms show "\<exists>y. step_up ib x = Some y" by (auto simp: up_Some)
next
  assume "\<exists>y. step_up ib x = Some y"
  then obtain y where "step_up ib x = Some y" ..
  with assms show "\<exists>y\<in>V. rank x < rank y" by (intro bexI [of _ y]) (simp_all add: up_Some)
qed

lemma step_up_saturating_in [intro]: "x \<in> V \<Longrightarrow> step_up_saturating ib x \<in> V"
  by (cases "step_up ib x") (simp_all add: step_up_saturating_def, simp add: up_Some)

lemma step_down_saturating_in [intro]: "x \<in> V \<Longrightarrow> step_down_saturating ib x \<in> V"
  by (cases "step_down ib x") (simp_all add: step_down_saturating_def, simp add: down_Some)

lemma rank_step_up_saturating:
  "x \<in> V \<Longrightarrow> y \<in> V \<Longrightarrow> rank x < rank y \<Longrightarrow> rank (step_up_saturating ib x) = rank x + 1"
  using up_Some_iff [of x] up_Some [of x] by (fastforce simp: step_up_saturating_def)

lemma rank_step_down_saturating:
  assumes "x \<in> V" "0 < rank x"
  shows "rank (step_down_saturating ib x) = rank x - 1"
proof -
  obtain y where "y \<in> V" "rank y = rank x - 1" using rank_convex [OF assms(1)] by (meson diff_le_self)
  then have "step_down ib x = Some y" using assms by (simp add: down_Some)
  with \<open>rank y = rank x - 1\<close> show ?thesis by (simp add: step_down_saturating_def)
qed

lemma is_valid_iff:
  "iv_start r \<in> V \<Longrightarrow> iv_end r \<in> V \<Longrightarrow> is_valid r \<longleftrightarrow> rank (iv_start r) \<le> rank (iv_end r)"
  by (simp add: is_valid_def rank_le)

lemma interval_len_card: "iv_ok V rank r \<Longrightarrow> interval_len ib r = card (iv_ranks rank r) mod 2 ^ 64"
  by (simp add: iv_ok_def interval_len_def iv_ranks_def between rank_le Suc_diff_le)

lemma interval_cmp_iff:
  assumes "iv_ok V rank r" "v \<in> V"
  shows "interval_cmp r v =
    (if rank v \<in> iv_ranks rank r then Equal else if rank (iv_end r) < rank v then Less else Greater)"
proof -
  have "cmp (iv_start r) v = cmp (rank (iv_start r)) (rank v)" "cmp (iv_end r) v = cmp (rank (iv_end r)) (rank v)"
    using assms by (simp_all add: iv_ok_def rank_cmp)
  with assms show ?thesis by (auto simp: iv_ok_def iv_ranks_def interval_cmp_def cmp_def)
qed

lemma should_coalesce_iff:
  assumes "iv_ok V rank a" "iv_ok V rank b" "x \<in> V" "rank (iv_end b) < rank x"
  shows "should_coalesce ib a b \<longleftrightarrow> rank (iv_start a) \<le> rank (iv_end b) + 1"
  using assms rank_step_up_saturating [of "iv_end b" x]
  by (simp add: iv_ok_def should_coalesce_def end_exclusive_def rank_le step_up_saturating_in)

end

interpretation u64_bound: interval_bound u64_bound UNIV unat
proof
  show "\<exists>y::u64\<in>UNIV. unat y = n" if "n \<le> unat x" for x :: u64 and n
    using that unat_less_power [of x] by (intro bexI [of _ "of_nat n :: u64"] unat_of_nat_no_wrap) auto
next
  fix x y :: u64
  show "unat x < 2 ^ 64" using unat_less_power [of x] by simp
  show "step_up u64_bound x = Some y \<longleftrightarrow> y \<in> UNIV \<and> unat y = unat x + 1"
    using unat_less_power [of y] by (auto simp: u64_bound_def checked_add_Some)
qed (auto simp: u64_bound_def word_le_nat_alt checked_sub_Some unat_sub_no_wrap)

interpretation varint_bound: interval_bound varint_bound "{v. varint_valid v}" unat
proof
  show "\<exists>y\<in>{v. varint_valid v}. unat y = n" if "x \<in> {v. varint_valid v}" "n \<le> unat x" for x :: u64 and n
    using that by (intro bexI [of _ "of_nat n"]) (auto simp: varint_max_less unat_of_nat_no_wrap)
qed (auto simp: varint_bound_def u64_bound_def word_le_nat_alt varint_checked_add_Some
      varint_checked_sub_def checked_sub_Some unat_sub_no_wrap varint_max_less)

interpretation packet_number_bound: interval_bound packet_number_bound "{p. pn_in s p}" pn_val
  for s
proof
  show "\<exists>y\<in>{p. pn_in s p}. pn_val y = n" if "x \<in> {p. pn_in s p}" "n \<le> pn_val x" for x n
  proof -
    have n: "n < 2 ^ 62" using that pn_val_less [of x] by linarith
    then have "unat (of_nat n :: u64) = n" by (intro unat_of_nat_no_wrap) simp
    with n show ?thesis
      by (intro bexI [of _ "pn_from_varint (of_nat n) s"]) (auto simp: varint_max_less)
  qed
next
  fix x y assume "x \<in> {p. pn_in s p}"
  then show "step_down packet_number_bound x = Some y \<longleftrightarrow> y \<in> {p. pn_in s p} \<and> pn_val x = pn_val y + 1"
    using pn_prev_Some [of s x y]
    by (simp add: packet_number_bound_def varint_bound_def pn_prev_def)
next
  fix x assume "x \<in> {p. pn_in s p}"
  show "pn_val x < 2 ^ 64" using pn_val_less [of x] by simp
next
  fix x y assume "x \<in> {p. pn_in s p}" "y \<in> {p. pn_in s p}" "x \<le> y"
  then have "pn_as_u64 x \<le> pn_as_u64 y" using pn_le_iff [of s x y] by (simp add: word_le_nat_alt [of "pn_as_u64 x"])
  then show "steps_between packet_number_bound x y = pn_val y - pn_val x"
    by (simp add: packet_number_bound_def varint_bound_def u64_bound_def pn_as_varint_def unat_sub_no_wrap)
qed (auto simp: packet_number_bound_def pn_le_iff [of s] pn_next_Some [of s])

end
