(* ===== verification/IntervalInsert.thy ===== *)
theory IntervalInsert
  imports Interval
begin

text \<open>
  Insertion of an interval into an ordered sequence of separated intervals:
  \<^verbatim>\<open>quic/s2n-quic-core/src/interval_set/insert.rs\<close>. The scan over the intervals and the replacement
  of a range of slots are shown to put the union of the new interval with the touched ones in place
  of these, to keep the sequence ordered and separated, and to change nothing on the limit error.
\<close>

section \<open>Definitions\<close>

type_synonym replace_range = "nat \<times> nat"

definition set_start :: "nat \<Rightarrow> replace_range \<Rightarrow> replace_range" where
  "set_start start self = (min (fst self) start, snd self)"

definition set_end :: "nat \<Rightarrow> replace_range \<Rightarrow> replace_range" where
  "set_end end' self = (fst self, max (snd self) end')"

text \<open>
  \<open>Insertion::scan\<close>: the loop over the remaining intervals, \<open>slot_index\<close> being the index of the
  first of them. The result is the returned index, the widened range and the slots to replace.
\<close>

fun insertion_scan ::
    "'a::linorder bound_ops \<Rightarrow> nat \<Rightarrow> 'a interval list \<Rightarrow> 'a interval \<Rightarrow> replace_range
     \<Rightarrow> nat option \<times> 'a interval \<times> replace_range" where
  "insertion_scan ib slot_index [] range_a self = (None, range_a, self)"
| "insertion_scan ib slot_index (range_b # ranges) range_a self =
     (let next_slot = slot_index + 1;
          mark = set_end next_slot (set_start slot_index self) in
      case (cmp (iv_start range_a) (iv_start range_b), cmp (iv_end range_a) (iv_end range_b)) of
        (Equal, Equal) \<Rightarrow> (Some (slot_index + 1), range_a, self)
      | (Greater, Equal) \<Rightarrow> (Some (slot_index + 1), range_a, self)
      | (Equal, Less) \<Rightarrow> (Some slot_index, range_a, self)
      | (Greater, Less) \<Rightarrow> (Some slot_index, range_a, self)
      | (Greater, Greater) \<Rightarrow>
          if should_coalesce ib range_a range_b
          then insertion_scan ib next_slot ranges (range_a\<lparr>iv_start := iv_start range_b\<rparr>) mark
          else insertion_scan ib next_slot ranges range_a self
      | (Equal, Greater) \<Rightarrow> insertion_scan ib next_slot ranges range_a mark
      | (Less, Greater) \<Rightarrow> insertion_scan ib next_slot ranges range_a mark
      | (Less, Equal) \<Rightarrow> (None, range_a, mark)
      | (Less, Less) \<Rightarrow>
          if should_coalesce ib range_b range_a
          then (None, range_a\<lparr>iv_end := iv_end range_b\<rparr>, mark)
          else (None, range_a, set_end slot_index (set_start slot_index self)))"

text \<open>\<open>Insertion::apply\<close>, with the sequence as it is left.\<close>

definition insertion_apply ::
    "replace_range \<Rightarrow> 'a interval list \<Rightarrow> 'a interval \<Rightarrow> nat option
     \<Rightarrow> ((interval_set_error + nat) \<times> 'a interval list) option" where
  "insertion_apply self ranges range_a limit =
     (let prev_len = length ranges;
          under_limit = (case limit of Some limit \<Rightarrow> limit > prev_len | None \<Rightarrow> True);
          index = fst self in
      case checked_sub_nat (snd self) index of
        None \<Rightarrow>
          if under_limit then Some (Inr prev_len, ranges @ [range_a])
          else Some (Inl LimitExceeded, ranges)
      | Some replace_count \<Rightarrow>
          if replace_count = 0 then
            if under_limit then map_option (\<lambda>rs. (Inr index, rs)) (vec_insert index range_a ranges)
            else Some (Inl LimitExceeded, ranges)
          else if replace_count = 1 then
            map_option (\<lambda>rs. (Inr index, rs)) (vec_set index range_a ranges)
          else if replace_count = 2 then
            map_option (\<lambda>rs. (Inr index, vec_remove (index + 1) rs)) (vec_set index range_a ranges)
          else
            Option.bind (vec_set index range_a ranges) (\<lambda>rs.
            map_option (\<lambda>rs. (Inr index, rs)) (vec_drain (index + 1) (snd self) rs)))"

definition interval_insert ::
    "'a::linorder bound_ops \<Rightarrow> 'a interval list \<Rightarrow> 'a interval \<Rightarrow> nat \<Rightarrow> nat option
     \<Rightarrow> ((interval_set_error + nat \<times> bool) \<times> 'a interval list) option" where
  "interval_insert ib ranges range_a start_index limit =
     (let replace_range = (usize_max, 0) in
      case insertion_scan ib start_index (drop start_index ranges) range_a replace_range of
        (Some index, _, _) \<Rightarrow> Some (Inr (index, False), ranges)
      | (None, range_a, self) \<Rightarrow>
          map_option (\<lambda>(res, ranges). (map_sum id (\<lambda>index. (index, True)) res, ranges))
            (insertion_apply self ranges range_a limit))"

section \<open>Ordered and separated sequences\<close>

definition before :: "('a \<Rightarrow> nat) \<Rightarrow> 'a interval \<Rightarrow> 'a interval \<Rightarrow> bool" where
  "before rank a b \<longleftrightarrow> rank (iv_end a) + 1 < rank (iv_start b)"

definition ivs_wf :: "'a set \<Rightarrow> ('a \<Rightarrow> nat) \<Rightarrow> 'a interval list \<Rightarrow> bool" where
  "ivs_wf V rank rs \<longleftrightarrow> list_all (iv_ok V rank) rs \<and> sorted_wrt (before rank) rs"

definition ivs_ranks :: "('a \<Rightarrow> nat) \<Rightarrow> 'a interval list \<Rightarrow> nat set" where
  "ivs_ranks rank rs = (\<Union>r\<in>set rs. iv_ranks rank r)"

lemma ivs_wf_simps [simp]:
  "ivs_wf V rank []"
  "ivs_wf V rank (r # rs) \<longleftrightarrow> iv_ok V rank r \<and> (\<forall>b\<in>set rs. before rank r b) \<and> ivs_wf V rank rs"
  "ivs_wf V rank (rs @ ss) \<longleftrightarrow>
     ivs_wf V rank rs \<and> ivs_wf V rank ss \<and> (\<forall>a\<in>set rs. \<forall>b\<in>set ss. before rank a b)"
  by (auto simp: ivs_wf_def sorted_wrt_append)

lemma ivs_ranks_simps [simp]:
  "ivs_ranks rank [] = {}"
  "ivs_ranks rank (r # rs) = iv_ranks rank r \<union> ivs_ranks rank rs"
  "ivs_ranks rank (rs @ ss) = ivs_ranks rank rs \<union> ivs_ranks rank ss"
  by (auto simp: ivs_ranks_def)

lemma ivs_wf_ok: "ivs_wf V rank rs \<Longrightarrow> r \<in> set rs \<Longrightarrow> iv_ok V rank r"
  by (auto simp: ivs_wf_def list_all_iff)

text \<open>The intervals before, touched by and after \<open>a\<close>; the union of \<open>a\<close> with the touched ones.\<close>

definition touched :: "('a \<Rightarrow> nat) \<Rightarrow> 'a interval \<Rightarrow> 'a interval \<Rightarrow> bool" where
  "touched rank a b \<longleftrightarrow> \<not> before rank a b \<and> \<not> before rank b a"

definition merged :: "'a::linorder interval \<Rightarrow> 'a interval list \<Rightarrow> 'a interval" where
  "merged a M = \<lparr>iv_start = Min (insert (iv_start a) (iv_start ` set M)),
                 iv_end = Max (insert (iv_end a) (iv_end ` set M))\<rparr>"

lemma merged_Nil [simp]: "merged a [] = a"
  by (simp add: merged_def)

lemma merged_Cons:
  "merged a (b # M) = merged \<lparr>iv_start = min (iv_start a) (iv_start b), iv_end = max (iv_end a) (iv_end b)\<rparr> M"
  by (cases "M = []") (simp_all add: merged_def Min_insert2 insert_commute min.commute min.left_commute
      max.commute max.left_commute)


lemma insertion_apply_spec:
  fixes m :: "'a interval"
  assumes "length L < usize_max"
    and "self = (if M @ R = [] then (usize_max, 0) else (length L, length L + length M))"
  shows "insertion_apply self (L @ M @ R) m limit =
    (if M = [] \<and> (\<exists>l. limit = Some l \<and> l \<le> length (L @ M @ R))
     then Some (Inl LimitExceeded, L @ M @ R) else Some (Inr (length L), L @ m # R))"
proof -
  consider "M @ R = []" | "M = []" "R \<noteq> []" | x where "M = [x]" | x y where "M = [x, y]" |
    x y z M' where "M = x # y # z # M'"
    by (metis append_Nil neq_Nil_conv)
  then show ?thesis
  proof cases
    case 1
    with assms show ?thesis
      by (cases limit) (auto simp: insertion_apply_def checked_sub_nat_def)
  next
    case 2
    with assms show ?thesis
      by (cases limit) (auto simp: insertion_apply_def checked_sub_nat_def vec_insert_def)
  qed (use assms in \<open>auto simp: insertion_apply_def checked_sub_nat_def vec_set_def vec_remove_def
        vec_drain_def list_update_append numeral_3_eq_3\<close>)
qed

section \<open>The scan\<close>

context interval_bound
begin

lemma cmp_rank:
  assumes "iv_ok V rank a" "iv_ok V rank b"
  shows "cmp (iv_start a) (iv_start b) = cmp (rank (iv_start a)) (rank (iv_start b))"
    "cmp (iv_end a) (iv_end b) = cmp (rank (iv_end a)) (rank (iv_end b))"
  using assms by (simp_all add: iv_ok_def rank_cmp)

lemma coalesce_before:
  assumes "iv_ok V rank a" "iv_ok V rank b" "rank (iv_end b) < rank (iv_end a)"
  shows "should_coalesce ib a b \<longleftrightarrow> \<not> before rank b a"
  using should_coalesce_iff [OF assms(1,2) _ assms(3)] assms by (auto simp: iv_ok_def before_def)

lemma merged_hull:
  assumes "iv_ok V rank a" "iv_ok V rank b"
  shows "iv_ok V rank \<lparr>iv_start = min (iv_start a) (iv_start b), iv_end = max (iv_end a) (iv_end b)\<rparr>"
    "rank (min (iv_start a) (iv_start b)) = min (rank (iv_start a)) (rank (iv_start b))"
    "rank (max (iv_end a) (iv_end b)) = max (rank (iv_end a)) (rank (iv_end b))"
  using assms by (auto simp: iv_ok_def min_def max_def rank_le)

lemma merged_start: "iv_start a \<le> iv_start b \<Longrightarrow> iv_end b \<le> iv_end a \<Longrightarrow> merged a (b # M) = merged a M"
  by (cases a) (simp add: merged_Cons min_absorb1 max_absorb1)

lemma scan_merge:
  assumes "ivs_wf V rank bs" "iv_ok V rank a" "\<forall>b\<in>set bs. rank (iv_start a) < rank (iv_start b)"
    and "M = takeWhile (\<lambda>b. \<not> before rank a b) bs"
  shows "insertion_scan ib slot bs a rr =
    (None, merged a M, if bs = [] then rr else (min (fst rr) slot, max (snd rr) (slot + length M)))"
  using assms
proof (induction bs arbitrary: slot rr M)
  case (Cons b bs)
  have ok: "iv_ok V rank b" and lt: "rank (iv_start a) < rank (iv_start b)"
    and sep: "\<forall>c\<in>set bs. before rank b c" using Cons.prems by auto
  have st: "cmp (iv_start a) (iv_start b) = Less"
    using cmp_rank(1) [OF Cons.prems(2) ok] lt by (simp add: cmp_def)
  have le: "iv_start a \<le> iv_start b" using Cons.prems(2) ok lt by (simp add: iv_ok_def rank_le)
  have stop: "takeWhile (\<lambda>b. \<not> before rank a b) bs = []" if "rank (iv_end a) \<le> rank (iv_end b)"
    using sep that by (cases bs) (auto simp: before_def)
  consider "rank (iv_end b) < rank (iv_end a)" | "rank (iv_end b) = rank (iv_end a)" |
    "rank (iv_end a) < rank (iv_end b)" "\<not> before rank a b" | "before rank a b"
    by linarith
  then show ?case
  proof cases
    case 1
    have en: "cmp (iv_end a) (iv_end b) = Greater" "iv_end b \<le> iv_end a" "\<not> before rank a b"
      using cmp_rank(2) [OF Cons.prems(2) ok] 1 Cons.prems(2) ok
      by (auto simp: cmp_def iv_ok_def rank_le before_def)
    show ?thesis
      using Cons.IH [OF _ Cons.prems(2) _ refl, of "slot + 1" "set_end (slot + 1) (set_start slot rr)"]
        Cons.prems st en merged_start [OF le en(2)]
      by (auto simp: set_start_def set_end_def)
  next
    case 2
    have en: "cmp (iv_end a) (iv_end b) = Equal" "iv_end b \<le> iv_end a" "\<not> before rank a b"
      using cmp_rank(2) [OF Cons.prems(2) ok] 2 Cons.prems(2) ok
      by (auto simp: cmp_def iv_ok_def rank_le before_def)
    show ?thesis
      using st en stop 2 Cons.prems(4) merged_start [OF le en(2), of "[]"]
      by (simp add: set_start_def set_end_def)
  next
    case 3
    have en: "cmp (iv_end a) (iv_end b) = Less" "iv_end a \<le> iv_end b"
      using cmp_rank(2) [OF Cons.prems(2) ok] 3 Cons.prems(2) ok
      by (auto simp: cmp_def iv_ok_def rank_le)
    have "merged a [b] = a\<lparr>iv_end := iv_end b\<rparr>"
      using le en by (simp add: merged_Cons min_absorb1 max_absorb2)
    then show ?thesis
      using st en stop 3 Cons.prems(4) coalesce_before [OF ok Cons.prems(2) 3(1)]
      by (simp add: set_start_def set_end_def)
  next
    case 4
    then have "rank (iv_end a) < rank (iv_end b)" using ok by (auto simp: before_def iv_ok_def)
    moreover from this have "cmp (iv_end a) (iv_end b) = Less"
      using cmp_rank(2) [OF Cons.prems(2) ok] by (simp add: cmp_def)
    ultimately show ?thesis
      using st 4 Cons.prems(4) coalesce_before [OF ok Cons.prems(2)]
      by (simp add: set_start_def set_end_def)
  qed
qed simp

lemma scan_spec:
  assumes "ivs_wf V rank bs" "iv_ok V rank a"
    and "L = takeWhile (\<lambda>b. before rank b a) bs" "T = dropWhile (\<lambda>b. before rank b a) bs"
    and "M = takeWhile (\<lambda>b. \<not> before rank a b) T"
  shows "if \<exists>b\<in>set bs. iv_ranks rank a \<subseteq> iv_ranks rank b
    then T \<noteq> [] \<and> iv_ranks rank a \<subseteq> iv_ranks rank (hd T) \<and>
      fst (insertion_scan ib slot bs a rr) =
        Some (slot + length L + (if iv_end a = iv_end (hd T) then 1 else 0))
    else insertion_scan ib slot bs a rr =
      (None, merged a M, if T = [] then rr
         else (min (fst rr) (slot + length L), max (snd rr) (slot + length L + length M)))"
  using assms
proof (induction bs arbitrary: slot L T M)
  case (Cons b bs)
  have ok: "iv_ok V rank b" and sep: "\<forall>c\<in>set bs. before rank b c" and wf: "ivs_wf V rank bs"
    using Cons.prems by auto
  note cmp' = cmp_rank [OF Cons.prems(2) ok]
  have inside: "iv_ranks rank a \<subseteq> iv_ranks rank c \<longleftrightarrow>
      rank (iv_start c) \<le> rank (iv_start a) \<and> rank (iv_end a) \<le> rank (iv_end c)" for c
    using Cons.prems(2) by (auto simp: iv_ranks_def iv_ok_def)
  have later: "rank (iv_end b) + 1 < rank (iv_start c)" if "c \<in> set bs" for c
    using sep that by (auto simp: before_def)
  show ?case
  proof (cases "before rank b a")
    case True
    then have "cmp (iv_start a) (iv_start b) = Greater" "cmp (iv_end a) (iv_end b) = Greater"
      "rank (iv_end b) < rank (iv_end a)"
      using True Cons.prems(2) ok by (auto simp: cmp_def before_def iv_ok_def rank_less rank_eq)
    with True have "insertion_scan ib slot (b # bs) a rr = insertion_scan ib (slot + 1) bs a rr"
      using coalesce_before [OF Cons.prems(2) ok] by simp
    moreover have "\<not> iv_ranks rank a \<subseteq> iv_ranks rank b"
      using True Cons.prems(2) ok by (auto simp: inside before_def iv_ok_def)
    moreover have T: "T = dropWhile (\<lambda>b. before rank b a) bs"
      and L: "L = b # takeWhile (\<lambda>b. before rank b a) bs" using Cons.prems(3,4) True by simp_all
    ultimately show ?thesis
      using Cons.IH [OF wf Cons.prems(2) refl T Cons.prems(5), of "slot + 1"]
      by (cases "\<exists>c\<in>set bs. iv_ranks rank a \<subseteq> iv_ranks rank c") simp_all
  next
    case nb: False
    then have LT: "L = []" "T = b # bs" using Cons.prems by simp_all
    show ?thesis
    proof (cases "iv_ranks rank a \<subseteq> iv_ranks rank b")
      case True
      then have "fst (insertion_scan ib slot (b # bs) a rr) =
          Some (slot + (if iv_end a = iv_end b then 1 else 0))"
        using Cons.prems(2) ok by (auto simp: inside cmp_def iv_ok_def rank_less rank_eq)
      with True LT show ?thesis by simp
    next
      case False
      have none: "\<not> (\<exists>c\<in>set (b # bs). iv_ranks rank a \<subseteq> iv_ranks rank c)"
        using False nb later ok by (fastforce simp: inside before_def iv_ok_def)
      show ?thesis
      proof (cases "rank (iv_start a) < rank (iv_start b)")
        case True
        then have "\<forall>c\<in>set (b # bs). rank (iv_start a) < rank (iv_start c)"
          using later ok by (fastforce simp: iv_ok_def)
        from scan_merge [OF Cons.prems(1,2) this, of M slot rr] Cons.prems(5) LT none
        show ?thesis by simp
      next
        case ge: False
        with False have gt: "rank (iv_end b) < rank (iv_end a)" by (auto simp: inside)
        let ?a = "a\<lparr>iv_start := iv_start b\<rparr>"
        have a': "iv_ok V rank ?a" using Cons.prems(2) ok gt ge by (auto simp: iv_ok_def)
        have le: "iv_start b \<le> iv_start a" "iv_end b \<le> iv_end a" "iv_start a \<noteq> iv_start b \<longrightarrow> rank (iv_start b) < rank (iv_start a)"
          using Cons.prems(2) ok ge gt by (auto simp: iv_ok_def rank_le rank_eq)
        have scan: "insertion_scan ib slot (b # bs) a rr =
            insertion_scan ib (slot + 1) bs ?a (set_end (slot + 1) (set_start slot rr))"
        proof -
          have "cmp (iv_end a) (iv_end b) = Greater"
            "cmp (iv_start a) (iv_start b) = (if iv_start a = iv_start b then Equal else Greater)"
            using Cons.prems(2) ok gt le by (auto simp: cmp_def iv_ok_def rank_less rank_eq)
          moreover have "insertion_scan ib (slot + 1) bs a rr' = insertion_scan ib (slot + 1) bs ?a rr'"
            if "iv_start a = iv_start b" for rr' using that by (cases a) simp
          ultimately show ?thesis
            using nb coalesce_before [OF Cons.prems(2) ok gt]
            by (cases "iv_start a = iv_start b") simp_all
        qed
        have M: "M = b # takeWhile (\<lambda>b. \<not> before rank ?a b) bs"
          using Cons.prems(5) LT gt ok by (auto simp: before_def iv_ok_def)
        have "merged a M = merged ?a (takeWhile (\<lambda>b. \<not> before rank ?a b) bs)"
          unfolding M using le by (cases a) (simp add: merged_Cons min_absorb2 max_absorb1)
        moreover have "\<forall>c\<in>set bs. rank (iv_start ?a) < rank (iv_start c)"
          using later ok by (fastforce simp: iv_ok_def)
        ultimately show ?thesis
          using scan_merge [OF wf a' _ refl, of "slot + 1" "set_end (slot + 1) (set_start slot rr)"]
            none LT M scan by (auto simp: set_start_def set_end_def)
      qed
    qed
  qed
qed simp

lemma merged_spec:
  assumes "iv_ok V rank a" "ivs_wf V rank M" "\<forall>b\<in>set M. touched rank a b"
  shows "iv_ok V rank (merged a M) \<and> iv_ranks rank (merged a M) = iv_ranks rank a \<union> ivs_ranks rank M"
  using assms
proof (induction M arbitrary: a)
  case (Cons b M)
  let ?a = "\<lparr>iv_start = min (iv_start a) (iv_start b), iv_end = max (iv_end a) (iv_end b)\<rparr>"
  have ok: "iv_ok V rank b" using Cons.prems by simp
  note hull = merged_hull [OF Cons.prems(1) ok]
  have "iv_ranks rank ?a = iv_ranks rank a \<union> iv_ranks rank b"
    using Cons.prems ok by (auto simp: iv_ranks_def hull touched_def before_def iv_ok_def)
  moreover have "\<forall>c\<in>set M. touched rank ?a c"
    using Cons.prems(3) by (auto simp: touched_def before_def hull)
  ultimately show ?case
    using Cons.IH [OF hull(1)] Cons.prems by (auto simp: merged_Cons)
qed simp

lemma merged_before:
  assumes "iv_ok V rank a" "ivs_wf V rank M"
  shows "(before rank c a \<and> (\<forall>b\<in>set M. before rank c b) \<longrightarrow> before rank c (merged a M)) \<and>
    (before rank a c \<and> (\<forall>b\<in>set M. before rank b c) \<longrightarrow> before rank (merged a M) c)"
  using assms
proof (induction M arbitrary: a)
  case (Cons b M)
  have ok: "iv_ok V rank b" using Cons.prems by simp
  note hull = merged_hull [OF Cons.prems(1) ok]
  show ?case using Cons.IH [OF hull(1)] Cons.prems by (auto simp: merged_Cons before_def hull)
qed simp

lemma ivs_wf_length: "ivs_wf V rank rs \<Longrightarrow> length rs < usize_max"
proof -
  have "ivs_wf V rank (rs @ [r]) \<Longrightarrow> 2 * length rs \<le> rank (iv_start r)" for rs r
  proof (induction rs arbitrary: r rule: rev_induct)
    case (snoc q rs)
    then have "2 * length rs \<le> rank (iv_start q)" "before rank q r" "iv_ok V rank q" by simp_all
    then show ?case by (simp add: before_def iv_ok_def)
  qed simp
  moreover assume wf: "ivs_wf V rank rs"
  ultimately show ?thesis
  proof (cases rs rule: rev_exhaust)
    case (snoc qs r)
    with wf have "2 * length qs \<le> rank (iv_start r)" "iv_start r \<in> V"
      using \<open>\<And>rs r. ivs_wf V rank (rs @ [r]) \<Longrightarrow> 2 * length rs \<le> rank (iv_start r)\<close> [of qs r]
      by (simp_all add: iv_ok_def)
    with rank_bound [of "iv_start r"] snoc show ?thesis by (simp add: usize_max_def)
  qed (simp add: usize_max_def)
qed

text \<open>The decomposition of the sequence around \<open>a\<close>.\<close>

lemma split_around:
  assumes "ivs_wf V rank rs" "iv_ok V rank a" "\<forall>b\<in>set (take i rs). before rank b a" "i \<le> length rs"
    and "L = takeWhile (\<lambda>b. before rank b a) (drop i rs)"
    and "T = dropWhile (\<lambda>b. before rank b a) (drop i rs)"
    and "M = takeWhile (\<lambda>b. \<not> before rank a b) T" and "R = dropWhile (\<lambda>b. \<not> before rank a b) T"
  shows "rs = (take i rs @ L) @ M @ R" "\<forall>b\<in>set (take i rs @ L). before rank b a"
    "\<forall>b\<in>set M. touched rank a b" "\<forall>b\<in>set R. before rank a b" "length (take i rs @ L) = i + length L"
proof -
  have LT: "drop i rs = L @ T" and TMR: "T = M @ R" using assms by simp_all
  show eq: "rs = (take i rs @ L) @ M @ R"
    using LT TMR append_take_drop_id [of i rs] by simp
  show "\<forall>b\<in>set (take i rs @ L). before rank b a"
    using assms(3,5) by (auto dest: set_takeWhileD)
  have wfT: "ivs_wf V rank T" using assms(1) eq TMR by (metis ivs_wf_simps(3))
  show "\<forall>b\<in>set M. touched rank a b"
  proof
    fix b assume b: "b \<in> set M"
    then obtain t T' where T: "T = t # T'" using TMR by (cases M) auto
    then have t: "\<not> before rank t a" using assms(6) by (metis dropWhile_eq_Cons_conv)
    have bT: "b \<in> set T" using b TMR by simp
    then have "b = t \<or> before rank t b" using T wfT by auto
    then have "\<not> before rank b a"
      using t ivs_wf_ok [OF wfT bT] by (auto simp: before_def iv_ok_def)
    moreover have "\<not> before rank a b" using b assms(7) by (auto dest: set_takeWhileD)
    ultimately show "touched rank a b" by (simp add: touched_def)
  qed
  show "\<forall>b\<in>set R. before rank a b"
  proof (cases R)
    case (Cons r R')
    then have "before rank a r" using assms(8) by (metis dropWhile_eq_Cons_conv)
    moreover have "ivs_wf V rank R" using wfT TMR by simp
    ultimately show ?thesis using Cons by (auto simp: before_def iv_ok_def)
  qed simp
  show "length (take i rs @ L) = i + length L" using assms(4) by simp
qed

text \<open>The outcome of an insertion, branch by branch.\<close>

lemma interval_insert_spec:
  assumes wf: "ivs_wf V rank rs" and ok: "iv_ok V rank a"
    and pre: "\<forall>b\<in>set (take i rs). before rank b a" "i \<le> length rs"
  obtains idx where
      "\<exists>b\<in>set rs. iv_ranks rank a \<subseteq> iv_ranks rank b"
      "interval_insert ib rs a i limit = Some (Inr (idx, False), rs)"
      "idx \<le> length rs" "\<forall>b\<in>set (take idx rs). rank (iv_end b) \<le> rank (iv_end a)"
  | L M R where
      "\<not> (\<exists>b\<in>set rs. iv_ranks rank a \<subseteq> iv_ranks rank b)"
      "rs = L @ M @ R" "\<forall>b\<in>set L. before rank b a" "\<forall>b\<in>set M. touched rank a b" "\<forall>b\<in>set R. before rank a b"
      "interval_insert ib rs a i limit =
         (if M = [] \<and> (\<exists>l. limit = Some l \<and> l \<le> length rs) then Some (Inl LimitExceeded, rs)
          else Some (Inr (length L, True), L @ merged a M # R))"
proof -
  define L where "L = takeWhile (\<lambda>b. before rank b a) (drop i rs)"
  define T where "T = dropWhile (\<lambda>b. before rank b a) (drop i rs)"
  define M where "M = takeWhile (\<lambda>b. \<not> before rank a b) T"
  define R where "R = dropWhile (\<lambda>b. \<not> before rank a b) T"
  let ?L = "take i rs @ L"
  note sp = split_around [OF wf ok pre L_def T_def M_def R_def]
  have wfd: "ivs_wf V rank (drop i rs)" using wf append_take_drop_id [of i rs] by (metis ivs_wf_simps(3))
  have T: "T = M @ R" by (simp add: M_def R_def)
  note scan = scan_spec [OF wfd ok L_def T_def M_def, of i "(usize_max, 0)"]
  have pre_no: "\<not> iv_ranks rank a \<subseteq> iv_ranks rank b" if "b \<in> set (take i rs)" for b
    using bspec [OF pre(1) that] ok by (auto simp: iv_ranks_def before_def iv_ok_def)
  have ex: "(\<exists>b\<in>set (drop i rs). iv_ranks rank a \<subseteq> iv_ranks rank b) \<longleftrightarrow>
      (\<exists>b\<in>set rs. iv_ranks rank a \<subseteq> iv_ranks rank b)"
    using pre_no by (metis Un_iff append_take_drop_id set_append)
  show ?thesis
  proof (cases "\<exists>b\<in>set rs. iv_ranks rank a \<subseteq> iv_ranks rank b")
    case True
    define idx where "idx = i + length L + (if iv_end a = iv_end (hd T) then 1 else 0)"
    from scan True ex have s: "T \<noteq> []" "iv_ranks rank a \<subseteq> iv_ranks rank (hd T)"
      "fst (insertion_scan ib i (drop i rs) a (usize_max, 0)) = Some idx"
      by (simp_all add: idx_def)
    then obtain t T' where t: "T = t # T'" by (cases T) auto
    have "rs = ?L @ t # T'" using sp(1) T t by metis
    then obtain P where P: "rs = P @ t # T'" "length P = i + length L" "\<forall>b\<in>set P. before rank b a"
      using sp(2,5) by blast
    have idx: "take idx rs = (if iv_end a = iv_end t then P @ [t] else P)" "idx \<le> length rs"
      using P(1,2) t by (auto simp: idx_def)
    have "\<forall>b\<in>set (take idx rs). rank (iv_end b) \<le> rank (iv_end a)"
      unfolding idx(1) using P(3) ok by (auto simp: before_def iv_ok_def)
    moreover have "interval_insert ib rs a i limit = Some (Inr (idx, False), rs)"
      using s(3) by (auto simp: interval_insert_def split: prod.splits option.splits)
    ultimately show ?thesis using that(1) True idx(2) by blast
  next
    case False
    then have s: "insertion_scan ib i (drop i rs) a (usize_max, 0) =
        (None, merged a M, if T = [] then (usize_max, 0) else (min usize_max (i + length L), i + length L + length M))"
      using scan ex by simp
    obtain P where P: "rs = P @ M @ R" "length P = i + length L" "\<forall>b\<in>set P. before rank b a"
      using sp(1,2,5) by blast
    have len: "length P < usize_max" using ivs_wf_length [OF wf] P(1) by simp
    then have "insertion_scan ib i (drop i rs) a (usize_max, 0) = (None, merged a M,
        if M @ R = [] then (usize_max, 0) else (length P, length P + length M))"
      using s P(2) T by auto
    then have "interval_insert ib rs a i limit =
         (if M = [] \<and> (\<exists>l. limit = Some l \<and> l \<le> length rs) then Some (Inl LimitExceeded, rs)
          else Some (Inr (length P, True), P @ merged a M # R))"
      using insertion_apply_spec [OF len refl, of M R "merged a M" limit] P(1)
      by (auto simp: interval_insert_def)
    then show ?thesis using that(2) [OF False P(1,3) sp(3,4)] by blast
  qed
qed

text \<open>Separated intervals cover an interval only if one of them does.\<close>

lemma gap_after:
  assumes "ivs_wf V rank rs" "b \<in> set rs"
  shows "rank (iv_end b) + 1 \<notin> ivs_ranks rank rs"
proof
  assume "rank (iv_end b) + 1 \<in> ivs_ranks rank rs"
  then obtain c where c: "c \<in> set rs" "rank (iv_end b) + 1 \<in> iv_ranks rank c" by (auto simp: ivs_ranks_def)
  have "b = c \<or> before rank b c \<or> before rank c b"
    using assms c(1) by (induction rs) auto
  with c(2) ivs_wf_ok [OF assms(1) c(1)] ivs_wf_ok [OF assms] show False
    by (auto simp: before_def iv_ranks_def iv_ok_def)
qed

lemma covered_by_one:
  assumes "ivs_wf V rank rs" "iv_ok V rank a"
  shows "iv_ranks rank a \<subseteq> ivs_ranks rank rs \<longleftrightarrow> (\<exists>b\<in>set rs. iv_ranks rank a \<subseteq> iv_ranks rank b)"
proof
  assume sub: "iv_ranks rank a \<subseteq> ivs_ranks rank rs"
  have "rank (iv_start a) \<in> iv_ranks rank a" using assms(2) by (simp add: iv_ranks_def iv_ok_def)
  with sub obtain b where b: "b \<in> set rs" "rank (iv_start a) \<in> iv_ranks rank b" by (auto simp: ivs_ranks_def)
  have "rank (iv_end a) \<le> rank (iv_end b)"
  proof (rule ccontr)
    assume "\<not> ?thesis"
    then have "rank (iv_end b) + 1 \<in> iv_ranks rank a" using b(2) by (auto simp: iv_ranks_def)
    with sub gap_after [OF assms(1) b(1)] show False by blast
  qed
  with b show "\<exists>b\<in>set rs. iv_ranks rank a \<subseteq> iv_ranks rank b" by (auto simp: iv_ranks_def)
qed (auto simp: ivs_ranks_def)

text \<open>
  The contract of \<open>insert\<close>. \<open>covers_below a idx rs\<close>: nothing before slot \<open>idx\<close> ends after \<open>a\<close>, so
  that the scan for a later interval may start there.
\<close>

definition covers_below :: "'a interval \<Rightarrow> nat \<Rightarrow> 'a interval list \<Rightarrow> bool" where
  "covers_below a idx rs \<longleftrightarrow> idx \<le> length rs \<and> (\<forall>b\<in>set (take idx rs). rank (iv_end b) \<le> rank (iv_end a))"

lemma interval_insert_sound:
  assumes wf: "ivs_wf V rank rs" and ok: "iv_ok V rank a"
    and pre: "\<forall>b\<in>set (take i rs). before rank b a" "i \<le> length rs"
  shows "\<exists>res rs'. interval_insert ib rs a i limit = Some (res, rs') \<and> ivs_wf V rank rs' \<and>
    (case res of
       Inl e \<Rightarrow> e = LimitExceeded \<and> rs' = rs \<and> (\<exists>l. limit = Some l \<and> l \<le> length rs) \<and>
                (\<forall>b\<in>set rs. \<not> touched rank a b)
     | Inr (idx, modified) \<Rightarrow>
         ivs_ranks rank rs' = ivs_ranks rank rs \<union> iv_ranks rank a \<and>
         (modified \<longleftrightarrow> \<not> iv_ranks rank a \<subseteq> ivs_ranks rank rs) \<and>
         (\<not> modified \<longrightarrow> rs' = rs) \<and> covers_below a idx rs' \<and> rs' \<noteq> [] \<and>
         (\<forall>l. limit = Some l \<longrightarrow> length rs \<le> l \<longrightarrow> length rs' \<le> l))"
proof (cases rule: interval_insert_spec [OF wf ok pre, of limit, case_names Same Change])
  case (Same idx)
  moreover from this have "iv_ranks rank a \<subseteq> ivs_ranks rank rs" "rs \<noteq> []" by (auto simp: ivs_ranks_def)
  ultimately show ?thesis using wf by (auto simp: covers_below_def)
next
  case (Change L M R)
  have M: "ivs_wf V rank M" "ivs_wf V rank L" "ivs_wf V rank R" using wf Change(2) by simp_all
  note m = merged_spec [OF ok M(1) Change(4)] and mb = merged_before [OF ok M(1)]
  have wf': "ivs_wf V rank (L @ merged a M # R)"
    using M wf Change(2,3,5) m mb by auto
  have ranks: "ivs_ranks rank (L @ merged a M # R) = ivs_ranks rank rs \<union> iv_ranks rank a"
    using m Change(2) by auto
  have len: "M \<noteq> [] \<Longrightarrow> length (L @ merged a M # R) \<le> length rs"
    using Change(2) by (cases M) auto
  have below: "covers_below a (length L) (L @ merged a M # R)"
    using Change(3) ok by (auto simp: covers_below_def before_def iv_ok_def)
  have nt: "\<forall>b\<in>set rs. \<not> touched rank a b" if "M = []"
    using that Change(2,3,5) by (auto simp: touched_def)
  have mod: "\<not> iv_ranks rank a \<subseteq> ivs_ranks rank rs"
    using Change(1) covered_by_one [OF wf ok] by blast
  show ?thesis
  proof (cases "M = [] \<and> (\<exists>l. limit = Some l \<and> l \<le> length rs)")
    case True
    with Change(6) wf nt show ?thesis by auto
  next
    case False
    then have "\<forall>l. limit = Some l \<longrightarrow> length rs \<le> l \<longrightarrow> length (L @ merged a M # R) \<le> l"
      using len Change(2) by (cases "M = []") auto
    with False Change(6) wf' ranks below mod show ?thesis by auto
  qed
qed

text \<open>It fails exactly when the limit is reached and nothing touches the new interval.\<close>

lemma interval_insert_refuses:
  assumes wf: "ivs_wf V rank rs" and ok: "iv_ok V rank a"
    and pre: "\<forall>b\<in>set (take i rs). before rank b a" "i \<le> length rs"
  shows "(\<exists>e rs'. interval_insert ib rs a i limit = Some (Inl e, rs')) \<longleftrightarrow>
    (\<exists>l. limit = Some l \<and> l \<le> length rs) \<and> (\<forall>b\<in>set rs. \<not> touched rank a b)"
proof (cases rule: interval_insert_spec [OF wf ok pre, of limit, case_names Same Change])
  case (Same idx)
  then obtain b where "b \<in> set rs" "iv_ranks rank a \<subseteq> iv_ranks rank b" by blast
  then have "\<exists>b\<in>set rs. touched rank a b"
    using ok by (intro bexI [of _ b]) (auto simp: iv_ranks_def iv_ok_def touched_def before_def)
  with Same(2) show ?thesis by auto
next
  case (Change L M R)
  have "M = [] \<longleftrightarrow> (\<forall>b\<in>set rs. \<not> touched rank a b)"
    using Change(2-5) by (cases M) (auto simp: touched_def)
  with Change(6) show ?thesis by auto
qed

end

end
