(* ===== verification/IntervalRemove.thy ===== *)
theory IntervalRemove
  imports IntervalInsert
begin

text \<open>
  Removal of an interval from an ordered sequence of separated intervals:
  \<^verbatim>\<open>quic/s2n-quic-core/src/interval_set/remove.rs\<close>. The scan, which shrinks intervals in place, and
  the removal of a range of slots are shown to compute the difference interval by interval; the
  limit error, raised only when an interval has to be split, is shown to change nothing.
\<close>

section \<open>Definitions\<close>

record 'a removal =
  rm_replace_range :: replace_range
  rm_push_range :: "'a interval option"
  rm_can_push_range :: bool

definition rm_set_start :: "nat \<Rightarrow> 'a removal \<Rightarrow> 'a removal" where
  "rm_set_start start self = self\<lparr>rm_replace_range := set_start start (rm_replace_range self)\<rparr>"

definition rm_set_end :: "nat \<Rightarrow> 'a removal \<Rightarrow> 'a removal" where
  "rm_set_end end' self = self\<lparr>rm_replace_range := set_end end' (rm_replace_range self)\<rparr>"

definition push_range :: "'a \<Rightarrow> 'a \<Rightarrow> 'a removal \<Rightarrow> unit option \<times> 'a removal" where
  "push_range start end' self =
     (let self = self\<lparr>rm_push_range := Some \<lparr>iv_start = start, iv_end = end'\<rparr>\<rparr>
      in (if rm_can_push_range self then Some () else None, self))"

text \<open>
  \<open>Removal::scan\<close> over the remaining intervals, which it changes in place: the returned index, the
  intervals as they are left, and the state of the removal.
\<close>

fun removal_scan ::
    "'a::linorder bound_ops \<Rightarrow> nat \<Rightarrow> 'a interval list \<Rightarrow> 'a interval \<Rightarrow> 'a removal
     \<Rightarrow> nat option \<times> 'a interval list \<times> 'a removal" where
  "removal_scan ib slot_index [] range_a self = (None, [], self)"
| "removal_scan ib slot_index (range_b # ranges) range_a self =
     (let next_slot = slot_index + 1;
          mark = rm_set_end next_slot (rm_set_start slot_index self);
          continue = (\<lambda>range_b self.
            (case removal_scan ib next_slot ranges range_a self of
               (index, ranges, self) \<Rightarrow> (index, range_b # ranges, self))) in
      case (cmp (iv_start range_a) (iv_start range_b), cmp (iv_end range_a) (iv_end range_b)) of
        (Equal, Less) \<Rightarrow>
          (Some slot_index, range_b\<lparr>iv_start := end_exclusive ib range_a\<rparr> # ranges, self)
      | (Greater, Equal) \<Rightarrow>
          (Some (slot_index + 1), range_b\<lparr>iv_end := start_exclusive ib range_a\<rparr> # ranges, self)
      | (Greater, Less) \<Rightarrow>
          (case push_range (end_exclusive ib range_a) (iv_end range_b) self of
             (None, self) \<Rightarrow> (None, range_b # ranges, self)
           | (Some _, self) \<Rightarrow>
               (None, range_b\<lparr>iv_end := start_exclusive ib range_a\<rparr> # ranges,
                rm_set_end next_slot (rm_set_start next_slot self)))
      | (Greater, Greater) \<Rightarrow>
          if should_coalesce ib range_a range_b
          then continue (range_b\<lparr>iv_end := start_exclusive ib range_a\<rparr>) (rm_set_start next_slot self)
          else continue range_b self
      | (Equal, Greater) \<Rightarrow> continue range_b mark
      | (Less, Greater) \<Rightarrow> continue range_b mark
      | (Equal, Equal) \<Rightarrow> (None, range_b # ranges, mark)
      | (Less, Equal) \<Rightarrow> (None, range_b # ranges, mark)
      | (Less, Less) \<Rightarrow>
          if should_coalesce ib range_b range_a
          then (None, range_b\<lparr>iv_start := end_exclusive ib range_a\<rparr> # ranges, rm_set_end slot_index self)
          else (None, range_b # ranges, self))"

definition removal_apply ::
    "'a removal \<Rightarrow> 'a interval list \<Rightarrow> ((interval_set_error + nat) \<times> 'a interval list) option" where
  "removal_apply self ranges =
     (let index = fst (rm_replace_range self) in
      case rm_push_range self of
        Some interval \<Rightarrow>
          if rm_can_push_range self
          then map_option (\<lambda>rs. (Inr index, rs)) (vec_insert index interval ranges)
          else Some (Inl LimitExceeded, ranges)
      | None \<Rightarrow>
          (case checked_sub_nat (snd (rm_replace_range self)) index of
             None \<Rightarrow> Some (Inr 0, ranges)
           | Some n \<Rightarrow>
               if n = 0 then Some (Inr index, ranges)
               else if n = 1 then Some (Inr index, vec_remove index ranges)
               else map_option (\<lambda>rs. (Inr index, rs)) (vec_drain index (snd (rm_replace_range self)) ranges)))"

definition interval_remove ::
    "'a::linorder bound_ops \<Rightarrow> 'a interval list \<Rightarrow> 'a interval \<Rightarrow> nat \<Rightarrow> nat option
     \<Rightarrow> ((interval_set_error + nat) \<times> 'a interval list) option" where
  "interval_remove ib ranges range_a start_index limit =
     (let replace_range = (usize_max, 0);
          can_push_range = unwrap_or True (map_option (\<lambda>l. l > length ranges + 1) limit);
          removal = \<lparr>rm_replace_range = replace_range, rm_push_range = None,
                     rm_can_push_range = can_push_range\<rparr> in
      case removal_scan ib start_index (drop start_index ranges) range_a removal of
        (index, scanned, removal) \<Rightarrow>
          let ranges = take start_index ranges @ scanned in
          (case index of
             Some index \<Rightarrow> Some (Inr index, ranges)
           | None \<Rightarrow> removal_apply removal ranges))"

section \<open>The difference, interval by interval\<close>

definition iv_minus :: "'a::linorder bound_ops \<Rightarrow> 'a interval \<Rightarrow> 'a interval \<Rightarrow> 'a interval list" where
  "iv_minus ib a r =
     (if iv_end r < iv_start a \<or> iv_end a < iv_start r then [r]
      else (if iv_start r < iv_start a then [r\<lparr>iv_end := start_exclusive ib a\<rparr>] else []) @
           (if iv_end a < iv_end r then [r\<lparr>iv_start := end_exclusive ib a\<rparr>] else []))"

definition ivs_minus :: "'a::linorder bound_ops \<Rightarrow> 'a interval \<Rightarrow> 'a interval list \<Rightarrow> 'a interval list" where
  "ivs_minus ib a rs = concat (map (iv_minus ib a) rs)"

lemma ivs_minus_simps [simp]:
  "ivs_minus ib a [] = []"
  "ivs_minus ib a (r # rs) = iv_minus ib a r @ ivs_minus ib a rs"
  "ivs_minus ib a (rs @ ss) = ivs_minus ib a rs @ ivs_minus ib a ss"
  by (simp_all add: ivs_minus_def)

lemma ivs_minus_disjoint:
  "\<forall>r\<in>set rs. iv_end r < iv_start a \<or> iv_end a < iv_start r \<Longrightarrow> ivs_minus ib a rs = rs"
  by (induction rs) (auto simp: iv_minus_def)

lemma ivs_minus_covered:
  "\<forall>r\<in>set rs. iv_start a \<le> iv_start r \<and> iv_start r \<le> iv_end r \<and> iv_end r \<le> iv_end a \<Longrightarrow> ivs_minus ib a rs = []"
  by (induction rs) (auto simp: iv_minus_def)

lemma removal_apply_drain:
  assumes "length P < usize_max" "st = usize_max \<or> st = length P \<and> P \<noteq> []"
    and "D \<noteq> [] \<longrightarrow> en = length P + length D" "D = [] \<longrightarrow> en = 0 \<or> en = length P"
  shows "\<exists>idx\<le>length P. removal_apply \<lparr>rm_replace_range = (if D = [] then st else min st (length P), en),
      rm_push_range = None, rm_can_push_range = cp\<rparr> (P @ D @ Q) = Some (Inr idx, P @ Q)"
proof -
  consider "D = []" | x where "D = [x]" | x y D' where "D = x # y # D'"
    by (metis neq_Nil_conv)
  then show ?thesis
    by cases (use assms in \<open>auto simp: removal_apply_def checked_sub_nat_def vec_remove_def vec_drain_def\<close>)
qed

context interval_bound
begin

lemma exclusive_rank:
  assumes "iv_ok V rank a"
  shows "0 < rank (iv_start a) \<Longrightarrow> rank (start_exclusive ib a) = rank (iv_start a) - 1"
    "start_exclusive ib a \<in> V" "end_exclusive ib a \<in> V"
    "x \<in> V \<Longrightarrow> rank (iv_end a) < rank x \<Longrightarrow> rank (end_exclusive ib a) = rank (iv_end a) + 1"
  using assms rank_step_down_saturating [of "iv_start a"] rank_step_up_saturating [of "iv_end a" x]
  by (auto simp: start_exclusive_def end_exclusive_def iv_ok_def)

text \<open>Shrinking an interval that only touches \<open>a\<close> leaves it as it is.\<close>

lemma shrink_adjacent:
  assumes "iv_ok V rank a" "iv_ok V rank b"
  shows "rank (iv_end b) + 1 = rank (iv_start a) \<Longrightarrow> b\<lparr>iv_end := start_exclusive ib a\<rparr> = b"
    "rank (iv_end a) + 1 = rank (iv_start b) \<Longrightarrow> b\<lparr>iv_start := end_exclusive ib a\<rparr> = b"
proof -
  assume *: "rank (iv_end b) + 1 = rank (iv_start a)"
  have "start_exclusive ib a = iv_end b"
    using * exclusive_rank(1,2) [OF assms(1)] assms by (simp add: rank_eq iv_ok_def)
  then show "b\<lparr>iv_end := start_exclusive ib a\<rparr> = b" by (cases b) simp
next
  assume *: "rank (iv_end a) + 1 = rank (iv_start b)"
  have "end_exclusive ib a = iv_start b"
    using * exclusive_rank(3) [OF assms(1)] exclusive_rank(4) [OF assms(1), of "iv_start b"] assms
    by (simp add: rank_eq iv_ok_def)
  then show "b\<lparr>iv_start := end_exclusive ib a\<rparr> = b" by (cases b) simp
qed

lemma scan_skip:
  assumes "ivs_wf V rank A" "iv_ok V rank a" "\<forall>b\<in>set A. rank (iv_end b) < rank (iv_start a)"
  shows "removal_scan ib slot (A @ T) a self =
    (case removal_scan ib (slot + length A) T a
        (if A \<noteq> [] \<and> rank (iv_end (last A)) + 1 = rank (iv_start a)
         then rm_set_start (slot + length A) self else self)
     of (r, T', self') \<Rightarrow> (r, A @ T', self'))"
  using assms
proof (induction A arbitrary: slot self)
  case (Cons b A)
  have ok: "iv_ok V rank b" and lt: "rank (iv_end b) < rank (iv_start a)" using Cons.prems by simp_all
  have gt: "rank (iv_end b) < rank (iv_end a)" using lt Cons.prems(2) by (simp add: iv_ok_def)
  have c: "cmp (iv_start a) (iv_start b) = Greater" "cmp (iv_end a) (iv_end b) = Greater"
    using lt Cons.prems(2) ok by (auto simp: cmp_def iv_ok_def rank_less rank_eq)
  note co = coalesce_before [OF Cons.prems(2) ok gt]
  note IH = Cons.IH [OF _ Cons.prems(2)]
  show ?case
  proof (cases "before rank b a")
    case True
    then have "A = [] \<Longrightarrow> rank (iv_end b) + 1 \<noteq> rank (iv_start a)" by (auto simp: before_def)
    with True c co IH [of "slot + 1" self] Cons.prems show ?thesis by (auto split: prod.splits)
  next
    case False
    then have adj: "rank (iv_end b) + 1 = rank (iv_start a)" using lt by (auto simp: before_def)
    have "A = []"
    proof (cases A)
      case (Cons b' A')
      with Cons.prems adj show ?thesis by (auto simp: before_def iv_ok_def)
    qed simp
    with False c co adj shrink_adjacent(1) [OF Cons.prems(2) ok] show ?thesis
      by (auto split: prod.splits)
  qed
qed simp

text \<open>The covered intervals and the one that sticks out to the right.\<close>

definition cut_right :: "'a interval \<Rightarrow> 'a interval list \<Rightarrow> 'a interval list" where
  "cut_right a rs = (case rs of [] \<Rightarrow> [] | c # cs \<Rightarrow>
     (if rank (iv_start c) \<le> rank (iv_end a) then c\<lparr>iv_start := end_exclusive ib a\<rparr> else c) # cs)"

lemma scan_covered:
  assumes "ivs_wf V rank bs" "iv_ok V rank a"
    and "\<forall>b\<in>set bs. rank (iv_start a) \<le> rank (iv_start b) \<and>
           (rank (iv_start a) = rank (iv_start b) \<longrightarrow> rank (iv_end b) \<le> rank (iv_end a))"
    and "D = takeWhile (\<lambda>b. rank (iv_end b) \<le> rank (iv_end a)) bs"
    and "Q = dropWhile (\<lambda>b. rank (iv_end b) \<le> rank (iv_end a)) bs"
  shows "\<exists>en. removal_scan ib slot bs a self =
    (None, D @ cut_right a Q,
     self\<lparr>rm_replace_range := (if D = [] then fst (rm_replace_range self) else min (fst (rm_replace_range self)) slot, en)\<rparr>) \<and>
     (D \<noteq> [] \<longrightarrow> en = max (snd (rm_replace_range self)) (slot + length D)) \<and>
     (D = [] \<longrightarrow> en = snd (rm_replace_range self) \<or> en = max (snd (rm_replace_range self)) slot)"
  using assms
proof (induction bs arbitrary: slot self D Q)
  case (Cons b bs)
  have ok: "iv_ok V rank b" and wf: "ivs_wf V rank bs" and sep: "\<forall>c\<in>set bs. before rank b c"
    and st: "rank (iv_start a) \<le> rank (iv_start b)" using Cons.prems by simp_all
  have st': "cmp (iv_start a) (iv_start b) = (if rank (iv_start a) = rank (iv_start b) then Equal else Less)"
    "iv_start a \<le> iv_start b"
    using st Cons.prems(2) ok by (auto simp: cmp_def iv_ok_def rank_less rank_eq rank_le)
  consider "rank (iv_end b) < rank (iv_end a)" | "rank (iv_end b) = rank (iv_end a)" |
    "rank (iv_end a) < rank (iv_end b)" by linarith
  then show ?case
  proof cases
    case 1
    then have en: "cmp (iv_end a) (iv_end b) = Greater"
      using Cons.prems(2) ok by (auto simp: cmp_def iv_ok_def rank_less rank_eq)
    have DQ: "D = b # takeWhile (\<lambda>b. rank (iv_end b) \<le> rank (iv_end a)) bs"
      "Q = dropWhile (\<lambda>b. rank (iv_end b) \<le> rank (iv_end a)) bs"
      using 1 Cons.prems(4,5) by simp_all
    let ?mark = "rm_set_end (slot + 1) (rm_set_start slot self)"
    have "\<forall>c\<in>set bs. rank (iv_start a) \<le> rank (iv_start c) \<and>
           (rank (iv_start a) = rank (iv_start c) \<longrightarrow> rank (iv_end c) \<le> rank (iv_end a))"
      using Cons.prems(3) by simp
    from Cons.IH [OF wf Cons.prems(2) this refl DQ(2), of "slot + 1" ?mark]
    show ?thesis using st' en DQ(1)
      by (auto simp: rm_set_start_def rm_set_end_def set_start_def set_end_def)
  next
    case 2
    then have en: "cmp (iv_end a) (iv_end b) = Equal"
      using Cons.prems(2) ok by (auto simp: cmp_def iv_ok_def rank_less rank_eq)
    have out: "rank (iv_end a) < rank (iv_start c) \<and> rank (iv_end a) < rank (iv_end c)" if "c \<in> set bs" for c
      using sep that 2 ivs_wf_ok [OF wf that] by (auto simp: before_def iv_ok_def)
    have "takeWhile (\<lambda>b. rank (iv_end b) \<le> rank (iv_end a)) bs = [] \<and>
        dropWhile (\<lambda>b. rank (iv_end b) \<le> rank (iv_end a)) bs = bs \<and> cut_right a bs = bs"
    proof (cases bs)
      case (Cons c cs)
      with out [of c] show ?thesis by (simp add: cut_right_def)
    qed (simp add: cut_right_def)
    then have "D = [b]" "Q = bs" "cut_right a bs = bs"
      using Cons.prems(4,5) 2 by simp_all
    then show ?thesis using st' en
      by (auto simp: rm_set_start_def rm_set_end_def set_start_def set_end_def)
  next
    case 3
    then have en: "cmp (iv_end a) (iv_end b) = Less"
      using Cons.prems(2) ok by (auto simp: cmp_def iv_ok_def rank_less rank_eq)
    have ne: "rank (iv_start a) \<noteq> rank (iv_start b)" using Cons.prems(3) 3 by auto
    have DQ: "D = []" "Q = b # bs" using Cons.prems(4,5) 3 by simp_all
    have scan: "removal_scan ib slot (b # bs) a self =
        (if before rank a b then (None, b # bs, self)
         else (None, b\<lparr>iv_start := end_exclusive ib a\<rparr> # bs, rm_set_end slot self))"
      using st' en ne coalesce_before [OF ok Cons.prems(2) 3] by simp
    show ?thesis
    proof (cases "before rank a b")
      case True
      then have "cut_right a Q = b # bs" using DQ by (simp add: cut_right_def before_def)
      then show ?thesis
        using True DQ(1) scan by (intro exI [of _ "snd (rm_replace_range self)"]) (simp del: removal_scan.simps)
    next
      case False
      then have "cut_right a Q = b\<lparr>iv_start := end_exclusive ib a\<rparr> # bs"
        using DQ shrink_adjacent(2) [OF Cons.prems(2) ok] by (auto simp: cut_right_def before_def)
      then show ?thesis
        using False DQ(1) scan
        by (intro exI [of _ "max (snd (rm_replace_range self)) slot"])
           (simp del: removal_scan.simps add: rm_set_end_def set_end_def)
    qed
  qed
next
  case Nil
  have "self\<lparr>rm_replace_range := (fst (rm_replace_range self), snd (rm_replace_range self))\<rparr> = self" for self :: "'a removal"
    by (cases self) simp
  with Nil show ?case by (force simp: cut_right_def)
qed

lemma minus_covered:
  assumes "ivs_wf V rank bs" "iv_ok V rank a"
    and "\<forall>b\<in>set bs. rank (iv_start a) \<le> rank (iv_start b) \<and>
           (rank (iv_start a) = rank (iv_start b) \<longrightarrow> rank (iv_end b) \<le> rank (iv_end a))"
  shows "ivs_minus ib a bs = cut_right a (dropWhile (\<lambda>b. rank (iv_end b) \<le> rank (iv_end a)) bs)"
  using assms
proof (induction bs)
  case (Cons b bs)
  have ok: "iv_ok V rank b" and wf: "ivs_wf V rank bs" and sep: "\<forall>c\<in>set bs. before rank b c"
    and st: "rank (iv_start a) \<le> rank (iv_start b)" using Cons.prems by simp_all
  show ?case
  proof (cases "rank (iv_end b) \<le> rank (iv_end a)")
    case True
    then have "iv_minus ib a b = []"
      using ok Cons.prems(2) st by (auto simp: iv_minus_def iv_ok_def rank_less)
    with True Cons.IH [OF wf Cons.prems(2)] Cons.prems(3) show ?thesis by simp
  next
    case False
    have "rank (iv_end a) < rank (iv_start c)" if "c \<in> set bs" for c
      using sep that False by (auto simp: before_def)
    then have "ivs_minus ib a bs = bs"
      using ivs_wf_ok [OF wf] Cons.prems(2) by (intro ivs_minus_disjoint) (auto simp: iv_ok_def rank_less)
    moreover have "iv_minus ib a b = [if rank (iv_start b) \<le> rank (iv_end a) then b\<lparr>iv_start := end_exclusive ib a\<rparr> else b]"
      using False ok Cons.prems(2) st by (auto simp: iv_minus_def iv_ok_def rank_less)
    ultimately show ?thesis using False by (simp add: cut_right_def)
  qed
qed (simp add: cut_right_def)

lemma remove_covered:
  assumes wf: "ivs_wf V rank T" and ok: "iv_ok V rank a"
    and st: "\<forall>b\<in>set T. rank (iv_start a) \<le> rank (iv_start b) \<and>
           (rank (iv_start a) = rank (iv_start b) \<longrightarrow> rank (iv_end b) \<le> rank (iv_end a))"
    and P: "length P < usize_max" "rr = (usize_max, 0) \<or> rr = (length P, 0) \<and> P \<noteq> []"
  shows "\<exists>idx\<le>length P. (case removal_scan ib (length P) T a
        \<lparr>rm_replace_range = rr, rm_push_range = None, rm_can_push_range = cp\<rparr> of
      (Some idx, T', self) \<Rightarrow> Some (Inr idx, P @ T')
    | (None, T', self) \<Rightarrow> removal_apply self (P @ T')) = Some (Inr idx, P @ ivs_minus ib a T)"
proof -
  define D where "D = takeWhile (\<lambda>b. rank (iv_end b) \<le> rank (iv_end a)) T"
  define Q where "Q = dropWhile (\<lambda>b. rank (iv_end b) \<le> rank (iv_end a)) T"
  let ?self = "\<lparr>rm_replace_range = rr, rm_push_range = None, rm_can_push_range = cp\<rparr>"
  have rr0: "snd rr = 0" "fst rr = usize_max \<or> fst rr = length P \<and> P \<noteq> []" using P(2) by auto
  obtain en where en: "removal_scan ib (length P) T a ?self =
      (None, D @ cut_right a Q, ?self\<lparr>rm_replace_range := (if D = [] then fst rr else min (fst rr) (length P), en)\<rparr>)"
      "D \<noteq> [] \<longrightarrow> en = length P + length D" "D = [] \<longrightarrow> en = 0 \<or> en = length P"
    using scan_covered [OF wf ok st D_def Q_def, of "length P" ?self] rr0 by auto
  from removal_apply_drain [OF P(1) rr0(2) en(2,3), of cp "cut_right a Q"] en(1)
  show ?thesis using minus_covered [OF wf ok st] by (auto simp: Q_def)
qed

lemma covers_below_prefix:
  assumes "\<forall>b\<in>set P. rank (iv_end b) \<le> rank (iv_end a)" "idx \<le> length P"
  shows "covers_below a idx (P @ Q)"
  using assms by (auto simp: covers_below_def dest: in_set_takeD)

text \<open>The first interval sticks out to the left, to the right, or on both sides.\<close>

lemma remove_head_right:
  assumes "iv_ok V rank a" "iv_ok V rank b" "rank (iv_start b) = rank (iv_start a)" "rank (iv_end a) < rank (iv_end b)"
  shows "removal_scan ib slot (b # T) a self = (Some slot, b\<lparr>iv_start := end_exclusive ib a\<rparr> # T, self)"
    "iv_minus ib a b = [b\<lparr>iv_start := end_exclusive ib a\<rparr>]"
proof -
  have "cmp (iv_start a) (iv_start b) = Equal" "cmp (iv_end a) (iv_end b) = Less"
    using assms by (auto simp: cmp_def iv_ok_def rank_less rank_eq)
  then show "removal_scan ib slot (b # T) a self = (Some slot, b\<lparr>iv_start := end_exclusive ib a\<rparr> # T, self)"
    by simp
  show "iv_minus ib a b = [b\<lparr>iv_start := end_exclusive ib a\<rparr>]"
    using assms by (auto simp: iv_minus_def iv_ok_def rank_less)
qed

lemma remove_head_left:
  assumes "iv_ok V rank a" "iv_ok V rank b" "rank (iv_start b) < rank (iv_start a)" "rank (iv_start a) \<le> rank (iv_end b)"
  shows "removal_scan ib slot (b # T) a self =
    (if rank (iv_end b) = rank (iv_end a) then
       (Some (slot + 1), b\<lparr>iv_end := start_exclusive ib a\<rparr> # T, self)
     else if rank (iv_end b) < rank (iv_end a) then
       (case removal_scan ib (slot + 1) T a (rm_set_start (slot + 1) self) of
          (r, T', self) \<Rightarrow> (r, b\<lparr>iv_end := start_exclusive ib a\<rparr> # T', self))
     else if rm_can_push_range self then
       (None, b\<lparr>iv_end := start_exclusive ib a\<rparr> # T,
        rm_set_end (slot + 1) (rm_set_start (slot + 1)
          (self\<lparr>rm_push_range := Some (b\<lparr>iv_start := end_exclusive ib a\<rparr>)\<rparr>)))
     else (None, b # T, self\<lparr>rm_push_range := Some (b\<lparr>iv_start := end_exclusive ib a\<rparr>)\<rparr>))"
    "iv_minus ib a b = b\<lparr>iv_end := start_exclusive ib a\<rparr> #
       (if rank (iv_end a) < rank (iv_end b) then [b\<lparr>iv_start := end_exclusive ib a\<rparr>] else [])"
    "rank (iv_end (b\<lparr>iv_end := start_exclusive ib a\<rparr>)) < rank (iv_start a)"
proof -
  have c: "cmp (iv_start a) (iv_start b) = Greater" "cmp (iv_end a) (iv_end b) =
      (if rank (iv_end b) = rank (iv_end a) then Equal else if rank (iv_end b) < rank (iv_end a) then Greater else Less)"
    using assms by (auto simp: cmp_def iv_ok_def rank_less rank_eq)
  have nb: "\<not> before rank b a" using assms by (simp add: before_def)
  have new: "\<lparr>iv_start = end_exclusive ib a, iv_end = iv_end b\<rparr> = b\<lparr>iv_start := end_exclusive ib a\<rparr>"
    by (cases b) simp
  show "removal_scan ib slot (b # T) a self =
    (if rank (iv_end b) = rank (iv_end a) then
       (Some (slot + 1), b\<lparr>iv_end := start_exclusive ib a\<rparr> # T, self)
     else if rank (iv_end b) < rank (iv_end a) then
       (case removal_scan ib (slot + 1) T a (rm_set_start (slot + 1) self) of
          (r, T', self) \<Rightarrow> (r, b\<lparr>iv_end := start_exclusive ib a\<rparr> # T', self))
     else if rm_can_push_range self then
       (None, b\<lparr>iv_end := start_exclusive ib a\<rparr> # T,
        rm_set_end (slot + 1) (rm_set_start (slot + 1)
          (self\<lparr>rm_push_range := Some (b\<lparr>iv_start := end_exclusive ib a\<rparr>)\<rparr>)))
     else (None, b # T, self\<lparr>rm_push_range := Some (b\<lparr>iv_start := end_exclusive ib a\<rparr>)\<rparr>))"
    using c nb coalesce_before [OF assms(1,2)] by (simp add: push_range_def flip: new)
  show "iv_minus ib a b = b\<lparr>iv_end := start_exclusive ib a\<rparr> #
       (if rank (iv_end a) < rank (iv_end b) then [b\<lparr>iv_start := end_exclusive ib a\<rparr>] else [])"
    using assms by (auto simp: iv_minus_def iv_ok_def rank_less)
  show "rank (iv_end (b\<lparr>iv_end := start_exclusive ib a\<rparr>)) < rank (iv_start a)"
    using exclusive_rank(1) [OF assms(1)] assms(3) by simp
qed

text \<open>The outcome on the intervals \<open>T\<close> that do not end before \<open>a\<close>, behind the prefix \<open>P\<close>.\<close>

lemma remove_tail:
  assumes wf: "ivs_wf V rank (P @ T)" and ok: "iv_ok V rank a"
    and P: "\<forall>b\<in>set P. rank (iv_end b) < rank (iv_start a)"
    and T: "\<forall>b\<in>set T. rank (iv_start a) \<le> rank (iv_end b)"
    and rr: "rr = (usize_max, 0) \<or> rr = (length P, 0) \<and> P \<noteq> [] \<and> rank (iv_end (last P)) + 1 = rank (iv_start a)"
  shows "(case removal_scan ib (length P) T a
        \<lparr>rm_replace_range = rr, rm_push_range = None, rm_can_push_range = cp\<rparr> of
      (Some idx, T', self) \<Rightarrow> Some (Inr idx, P @ T')
    | (None, T', self) \<Rightarrow> removal_apply self (P @ T')) = X \<Longrightarrow>
    (if \<not> cp \<and> (\<exists>b\<in>set T. rank (iv_start b) < rank (iv_start a) \<and> rank (iv_end a) < rank (iv_end b))
     then X = Some (Inl LimitExceeded, P @ T)
     else \<exists>idx. X = Some (Inr idx, P @ ivs_minus ib a T) \<and> covers_below a idx (P @ ivs_minus ib a T))"
proof (goal_cases)
  case 1
  have len: "length (P @ T) < usize_max" by (rule ivs_wf_length [OF wf])
  have Ple: "\<forall>b\<in>set P. rank (iv_end b) \<le> rank (iv_end a)" using P ok by (auto simp: iv_ok_def)
  show ?case
  proof (cases "\<forall>b\<in>set T. rank (iv_start a) \<le> rank (iv_start b) \<and>
           (rank (iv_start a) = rank (iv_start b) \<longrightarrow> rank (iv_end b) \<le> rank (iv_end a))")
    case True
    have "\<not> (\<exists>b\<in>set T. rank (iv_start b) < rank (iv_start a) \<and> rank (iv_end a) < rank (iv_end b))"
      using True by auto
    then show ?thesis
      using remove_covered [OF _ ok True, of P rr cp] wf len rr 1 covers_below_prefix [OF Ple] by auto
  next
    case False
    then obtain b T' where T': "T = b # T'" by (cases T) auto
    have okb: "iv_ok V rank b" and wfT: "ivs_wf V rank T'" and sep: "\<forall>c\<in>set T'. before rank b c"
      and sb: "rank (iv_start a) \<le> rank (iv_end b)" using wf T T' by auto
    have later: "rank (iv_start a) < rank (iv_start c)" "rank (iv_end b) < rank (iv_start c)" if "c \<in> set T'" for c
      using sep that sb by (auto simp: before_def)
    with False have hd: "rank (iv_start b) < rank (iv_start a) \<or>
        rank (iv_start b) = rank (iv_start a) \<and> rank (iv_end a) < rank (iv_end b)"
      unfolding T' by fastforce
    have same: "ivs_minus ib a T' = T'" if "rank (iv_end a) \<le> rank (iv_end b)"
      using that later ivs_wf_ok [OF wfT] ok by (intro ivs_minus_disjoint) (fastforce simp: iv_ok_def rank_less)
    have no: "\<not> (\<exists>c\<in>set T'. rank (iv_start c) < rank (iv_start a) \<and> rank (iv_end a) < rank (iv_end c))"
      using later by fastforce
    show ?thesis
    proof (cases "rank (iv_start b) < rank (iv_start a)")
      case eq: False
      with hd remove_head_right(1) [OF ok okb, of "length P" T'] remove_head_right(2) [OF ok okb] same no 1 covers_below_prefix [OF Ple order_refl]
      show ?thesis unfolding T' by auto
    next
      case lt: True
      note head = remove_head_left [OF ok okb lt sb]
      have "P \<noteq> [] \<Longrightarrow> rank (iv_end (last P)) + 1 < rank (iv_start b)"
        using wf T' last_in_set [of P] by (simp add: before_def)
      with rr lt have rr': "rr = (usize_max, 0)" by auto
      let ?b = "b\<lparr>iv_end := start_exclusive ib a\<rparr>"
      have Pb: "\<forall>c\<in>set (P @ [?b]). rank (iv_end c) \<le> rank (iv_end a)"
        using Ple head(3) ok by (auto simp: iv_ok_def)
      consider "rank (iv_end b) = rank (iv_end a)" | "rank (iv_end b) < rank (iv_end a)" |
        "rank (iv_end a) < rank (iv_end b)" by linarith
      then show ?thesis
      proof cases
        case e: 1
        with head(1) [of "length P" T'] head(2) same no 1 covers_below_prefix [OF Pb, of "length P + 1" T']
        show ?thesis unfolding T' by auto
      next
        case e: 2
        have st: "\<forall>c\<in>set T'. rank (iv_start a) \<le> rank (iv_start c) \<and>
             (rank (iv_start a) = rank (iv_start c) \<longrightarrow> rank (iv_end c) \<le> rank (iv_end a))"
          using later by fastforce
        from remove_covered [OF wfT ok st, of "P @ [?b]" "(length P + 1, 0)" cp] len T'
        obtain idx where idx: "idx \<le> length (P @ [?b])"
          and X: "(case removal_scan ib (length P + 1) T' a
              \<lparr>rm_replace_range = (length P + 1, 0), rm_push_range = None, rm_can_push_range = cp\<rparr> of
            (Some idx, T', self) \<Rightarrow> Some (Inr idx, (P @ [?b]) @ T')
          | (None, T', self) \<Rightarrow> removal_apply self ((P @ [?b]) @ T')) =
           Some (Inr idx, (P @ [?b]) @ ivs_minus ib a T')" by auto
        have self: "rm_set_start (length P + 1) \<lparr>rm_replace_range = rr, rm_push_range = None, rm_can_push_range = cp\<rparr> =
            \<lparr>rm_replace_range = (length P + 1, 0), rm_push_range = None, rm_can_push_range = cp\<rparr>"
          using len T' rr' by (simp add: rm_set_start_def set_start_def)
        have "X = Some (Inr idx, P @ ivs_minus ib a T)"
          using X 1 e unfolding T' head(1) self
          by (auto simp: head(2) simp del: removal_scan.simps split: prod.splits option.splits)
        moreover have "covers_below a idx (P @ ivs_minus ib a T)"
          using covers_below_prefix [OF Pb idx, of "ivs_minus ib a T'"] e unfolding T' by (simp add: head(2))
        ultimately show ?thesis using no e lt unfolding T' by auto
      next
        case e: 3
        have "min usize_max (length P + 1) = length P + 1" using len T' by simp
        then show ?thesis
          using e head(1) [of "length P" T'] head(2) same no 1 lt rr' covers_below_prefix [OF Pb, of "length P + 1"]
          unfolding T' by (auto simp: rm_set_start_def rm_set_end_def set_start_def set_end_def
              removal_apply_def vec_insert_def simp del: removal_scan.simps)
      qed
    qed
  qed
qed

lemma interval_remove_spec:
  assumes wf: "ivs_wf V rank rs" and ok: "iv_ok V rank a"
    and pre: "\<forall>b\<in>set (take i rs). before rank b a" "i \<le> length rs"
  shows "if (\<exists>l. limit = Some l \<and> l \<le> length rs + 1) \<and>
       (\<exists>b\<in>set rs. rank (iv_start b) < rank (iv_start a) \<and> rank (iv_end a) < rank (iv_end b))
     then interval_remove ib rs a i limit = Some (Inl LimitExceeded, rs)
     else \<exists>idx. interval_remove ib rs a i limit = Some (Inr idx, ivs_minus ib a rs) \<and>
                covers_below a idx (ivs_minus ib a rs)"
proof -
  define A where "A = takeWhile (\<lambda>b. rank (iv_end b) < rank (iv_start a)) (drop i rs)"
  define T where "T = dropWhile (\<lambda>b. rank (iv_end b) < rank (iv_start a)) (drop i rs)"
  define P where "P = take i rs @ A"
  define cp where "cp \<longleftrightarrow> \<not> (\<exists>l. limit = Some l \<and> l \<le> length rs + 1)"
  have AT: "drop i rs = A @ T" by (simp add: A_def T_def)
  have rs: "rs = P @ T" unfolding P_def by (metis AT append_assoc append_take_drop_id)
  have wfPT: "ivs_wf V rank (P @ T)" using wf by (simp only: rs [symmetric])
  then have wfA: "ivs_wf V rank A" and wfT: "ivs_wf V rank T"
    unfolding P_def by simp_all
  have lenP: "length P = i + length A" using pre(2) by (simp add: P_def)
  have A: "\<forall>b\<in>set A. rank (iv_end b) < rank (iv_start a)" by (auto simp: A_def dest: set_takeWhileD)
  have P: "\<forall>b\<in>set P. rank (iv_end b) < rank (iv_start a)" using A pre(1) by (auto simp: P_def before_def)
  have T: "\<forall>b\<in>set T. rank (iv_start a) \<le> rank (iv_end b)"
  proof (cases T)
    case (Cons t T')
    then have t: "rank (iv_start a) \<le> rank (iv_end t)"
      unfolding T_def by (metis dropWhile_eq_Cons_conv linorder_not_less)
    have "rank (iv_end t) \<le> rank (iv_end b)" if "b \<in> set T" for b
      using that wfT Cons ivs_wf_ok [OF wfT that] by (auto simp: before_def iv_ok_def)
    with t show ?thesis by (meson order_trans)
  qed simp
  define rr where "rr = (if A \<noteq> [] \<and> rank (iv_end (last A)) + 1 = rank (iv_start a) then (length P, 0) else (usize_max, 0 :: nat))"
  have rr: "rr = (usize_max, 0) \<or> rr = (length P, 0) \<and> P \<noteq> [] \<and> rank (iv_end (last P)) + 1 = rank (iv_start a)"
    by (auto simp: rr_def P_def)
  have self: "(if A \<noteq> [] \<and> rank (iv_end (last A)) + 1 = rank (iv_start a)
       then rm_set_start (i + length A) \<lparr>rm_replace_range = (usize_max, 0), rm_push_range = None, rm_can_push_range = cp\<rparr>
       else \<lparr>rm_replace_range = (usize_max, 0), rm_push_range = None, rm_can_push_range = cp\<rparr>) =
      \<lparr>rm_replace_range = rr, rm_push_range = None, rm_can_push_range = cp\<rparr>"
    using ivs_wf_length [OF wfPT] lenP by (auto simp: rr_def rm_set_start_def set_start_def)
  have cp: "unwrap_or True (map_option (\<lambda>l. length rs + 1 < l) limit) = cp"
    by (cases limit) (auto simp: cp_def)
  have ex: "(\<exists>b\<in>set rs. rank (iv_start b) < rank (iv_start a) \<and> rank (iv_end a) < rank (iv_end b)) \<longleftrightarrow>
      (\<exists>b\<in>set T. rank (iv_start b) < rank (iv_start a) \<and> rank (iv_end a) < rank (iv_end b))"
  proof -
    have "set rs = set P \<union> set T" by (metis rs set_append)
    with P ok show ?thesis by (fastforce simp: iv_ok_def)
  qed
  have "ivs_minus ib a P = P"
  proof (rule ivs_minus_disjoint, rule ballI)
    fix b assume b: "b \<in> set P"
    then have "iv_ok V rank b" using wfPT by (auto dest: ivs_wf_ok)
    with bspec [OF P b] ok show "iv_end b < iv_start a \<or> iv_end a < iv_start b" by (simp add: iv_ok_def rank_less)
  qed
  then have minus: "ivs_minus ib a rs = P @ ivs_minus ib a T" by (metis rs ivs_minus_simps(3))
  have "interval_remove ib rs a i limit = (case removal_scan ib (length P) T a
        \<lparr>rm_replace_range = rr, rm_push_range = None, rm_can_push_range = cp\<rparr> of
      (Some idx, T', self) \<Rightarrow> Some (Inr idx, P @ T')
    | (None, T', self) \<Rightarrow> removal_apply self (P @ T'))"
  proof -
    obtain r T' self' where sc: "removal_scan ib (length P) T a
        \<lparr>rm_replace_range = rr, rm_push_range = None, rm_can_push_range = cp\<rparr> = (r, T', self')"
      by (metis prod_cases3)
    have "removal_scan ib i (drop i rs) a
        \<lparr>rm_replace_range = (usize_max, 0), rm_push_range = None, rm_can_push_range = cp\<rparr> = (r, A @ T', self')"
      unfolding AT scan_skip [OF wfA ok A] self using sc by (simp add: lenP)
    then show ?thesis
      using sc cp by (cases r) (simp_all add: interval_remove_def P_def)
  qed
  from remove_tail [OF wfPT ok P T rr this [symmetric]] show ?thesis
    unfolding ex minus by (simp only: cp_def rs [symmetric] not_not)
qed

lemma iv_minus_spec:
  assumes "iv_ok V rank a" "iv_ok V rank r"
  shows "ivs_wf V rank (iv_minus ib a r) \<and>
    ivs_ranks rank (iv_minus ib a r) = iv_ranks rank r - iv_ranks rank a \<and>
    (\<forall>c\<in>set (iv_minus ib a r). rank (iv_start r) \<le> rank (iv_start c) \<and> rank (iv_end c) \<le> rank (iv_end r))"
proof -
  have lo: "iv_start r < iv_start a \<Longrightarrow> rank (start_exclusive ib a) = rank (iv_start a) - 1 \<and> rank (iv_start r) < rank (iv_start a)"
    using exclusive_rank(1) [OF assms(1)] assms by (auto simp: iv_ok_def rank_less)
  have hi: "iv_end a < iv_end r \<Longrightarrow> rank (end_exclusive ib a) = rank (iv_end a) + 1 \<and> rank (iv_end a) < rank (iv_end r)"
    using exclusive_rank(4) [OF assms(1), of "iv_end r"] assms by (auto simp: iv_ok_def rank_less)
  show ?thesis
    using assms lo hi exclusive_rank(2,3) [OF assms(1)]
    by (auto simp: iv_minus_def iv_ok_def iv_ranks_def before_def rank_less rank_eq not_less)
qed

lemma ivs_minus_spec:
  assumes "iv_ok V rank a" "ivs_wf V rank rs"
  shows "ivs_wf V rank (ivs_minus ib a rs) \<and>
    ivs_ranks rank (ivs_minus ib a rs) = ivs_ranks rank rs - iv_ranks rank a \<and>
    (\<forall>c\<in>set (ivs_minus ib a rs). \<exists>r\<in>set rs. rank (iv_start r) \<le> rank (iv_start c) \<and> rank (iv_end c) \<le> rank (iv_end r))"
  using assms(2)
proof (induction rs)
  case (Cons r rs)
  have ok: "iv_ok V rank r" and sep: "\<forall>b\<in>set rs. before rank r b" using Cons.prems by simp_all
  note m = iv_minus_spec [OF assms(1) ok]
  have "before rank c d" if "c \<in> set (iv_minus ib a r)" "d \<in> set (ivs_minus ib a rs)" for c d
    using that m Cons.IH Cons.prems sep by (fastforce simp: before_def)
  with m Cons show ?case by auto
qed simp

end

end
