(* ===== verification/IntervalIntersection.thy ===== *)
theory IntervalIntersection
  imports IntervalRemove
begin

text \<open>
  Intersection of two ordered sequences of separated intervals:
  \<^verbatim>\<open>quic/s2n-quic-core/src/interval_set/intersection.rs\<close>. Both the in-place \<open>apply\<close>, which walks the
  first sequence by index, and the iterator \<open>Intersection\<close> are shown to compute the same reference
  intersection, whose set is the intersection of the sets.
\<close>

section \<open>Definitions\<close>

text \<open>
  The loop of \<open>apply\<close>: the sequence being changed, the index into it, the current interval of the
  other sequence and the rest of that sequence. A step gives the next state (\<open>Inl\<close>) or, when the
  loop is left, the final sequence (\<open>Inr\<close>).
\<close>

type_synonym 'a isect_state = "'a interval list \<times> nat \<times> 'a interval \<times> 'a interval list"

definition advance_set_b ::
    "'a interval list \<Rightarrow> nat \<Rightarrow> 'a interval list \<Rightarrow> 'a isect_state + 'a interval list" where
  "advance_set_b set_a a_index set_b =
     (case set_b of
        next_interval_b # set_b \<Rightarrow> Inl (set_a, a_index, next_interval_b, set_b)
      | [] \<Rightarrow> Inr (take a_index set_a))"

definition split_off_a ::
    "'a::linorder bound_ops \<Rightarrow> 'a interval list \<Rightarrow> nat \<Rightarrow> 'a interval \<Rightarrow> 'a interval \<Rightarrow> 'a interval list" where
  "split_off_a ib set_a a_index interval_a interval_b =
     (let new_interval_a = \<lparr>iv_start = step_up_saturating ib (end_exclusive ib interval_b),
                            iv_end = iv_end interval_a\<rparr> in
      if is_valid new_interval_a
      then take (a_index + 1) set_a @ new_interval_a # drop (a_index + 1) set_a
      else set_a)"

definition isect_step ::
    "'a::linorder bound_ops \<Rightarrow> 'a isect_state \<Rightarrow> 'a isect_state + 'a interval list" where
  "isect_step ib state =
     (case state of (set_a, a_index, interval_b, set_b) \<Rightarrow>
      if a_index < length set_a then
        let interval_a = set_a ! a_index in
        case (cmp (iv_start interval_a) (iv_start interval_b), cmp (iv_end interval_a) (iv_end interval_b)) of
          (Equal, Less) \<Rightarrow> Inl (set_a, a_index + 1, interval_b, set_b)
        | (Greater, Less) \<Rightarrow> Inl (set_a, a_index + 1, interval_b, set_b)
        | (Equal, Greater) \<Rightarrow>
            advance_set_b ((split_off_a ib set_a a_index interval_a interval_b)[a_index := interval_b])
              (a_index + 1) set_b
        | (Less, Greater) \<Rightarrow>
            advance_set_b ((split_off_a ib set_a a_index interval_a interval_b)[a_index := interval_b])
              (a_index + 1) set_b
        | (Greater, Equal) \<Rightarrow> advance_set_b set_a (a_index + 1) set_b
        | (Equal, Equal) \<Rightarrow> advance_set_b set_a (a_index + 1) set_b
        | (Less, Equal) \<Rightarrow>
            advance_set_b (set_a[a_index := interval_a\<lparr>iv_start := iv_start interval_b\<rparr>]) (a_index + 1) set_b
        | (Greater, Greater) \<Rightarrow>
            if iv_start interval_a \<le> iv_end interval_b then
              advance_set_b
                ((split_off_a ib set_a a_index interval_a interval_b)
                   [a_index := interval_a\<lparr>iv_end := iv_end interval_b\<rparr>])
                (a_index + 1) set_b
            else advance_set_b set_a a_index set_b
        | (Less, Less) \<Rightarrow>
            if iv_end interval_a \<ge> iv_start interval_b then
              Inl (set_a[a_index := interval_a\<lparr>iv_start := iv_start interval_b\<rparr>], a_index + 1, interval_b, set_b)
            else Inl (vec_remove a_index set_a, a_index, interval_b, set_b)
      else Inr set_a)"

lemma isect_step_decreases:
  assumes "isect_step ib (set_a, i, b, set_b) = Inl (set_a', i', b', set_b')"
  shows "length set_b' + (length set_a' - i') < length set_b + (length set_a - i)"
  using assms
  by (auto simp: isect_step_def advance_set_b_def split_off_a_def vec_remove_def Let_def
      split: if_splits ordering.splits list.splits)

function isect_loop :: "'a::linorder bound_ops \<Rightarrow> 'a isect_state \<Rightarrow> 'a interval list" where
  "isect_loop ib state =
     (case isect_step ib state of
        Inl state \<Rightarrow> isect_loop ib state
      | Inr set_a \<Rightarrow> set_a)"
  by pat_completeness auto

termination
  by (relation "measure (\<lambda>(ib, set_a, i, b, set_b). length set_b + (length set_a - i))")
     (auto dest: isect_step_decreases)

declare isect_loop.simps [simp del]

definition intersection_apply ::
    "'a::linorder bound_ops \<Rightarrow> 'a interval list \<Rightarrow> 'a interval list \<Rightarrow> 'a interval list" where
  "intersection_apply ib set_a set_b =
     (if set_a = [] then set_a
      else case set_b of
          [] \<Rightarrow> []
        | interval_b # set_b \<Rightarrow> isect_loop ib (set_a, 0, interval_b, set_b))"

record 'a intersection =
  isect_set_a :: "'a interval list"
  isect_set_b :: "'a interval list"
  isect_interval_a :: "'a interval option"
  isect_interval_b :: "'a interval option"

definition intersection_new :: "'a interval list \<Rightarrow> 'a interval list \<Rightarrow> 'a intersection" where
  "intersection_new set_a set_b =
     \<lparr>isect_set_a = tl set_a, isect_set_b = tl set_b,
      isect_interval_a = (case set_a of [] \<Rightarrow> None | a # _ \<Rightarrow> Some a),
      isect_interval_b = (case set_b of [] \<Rightarrow> None | b # _ \<Rightarrow> Some b)\<rparr>"

text \<open>\<open>advance_set_a!\<close> and \<open>advance_set_b!\<close> of the iterator: the next interval and the rest.\<close>

definition advance :: "'a interval list \<Rightarrow> 'a interval option \<times> 'a interval list" where
  "advance xs = (case xs of [] \<Rightarrow> (None, []) | x # xs \<Rightarrow> (Some x, xs))"

fun intersection_next_loop ::
    "'a::linorder bound_ops \<Rightarrow> 'a interval \<Rightarrow> 'a interval \<Rightarrow> 'a interval list \<Rightarrow> 'a interval list
     \<Rightarrow> 'a interval option \<times> 'a intersection" where
  "intersection_next_loop ib interval_a interval_b set_a set_b =
     (let (next_a, rest_a) = advance set_a; (next_b, rest_b) = advance set_b in
      case (cmp (iv_start interval_a) (iv_start interval_b), cmp (iv_end interval_a) (iv_end interval_b)) of
        (Equal, Less) \<Rightarrow>
          (Some interval_a, \<lparr>isect_set_a = rest_a, isect_set_b = set_b, isect_interval_a = next_a,
             isect_interval_b = Some (interval_b\<lparr>iv_start := end_exclusive ib interval_a\<rparr>)\<rparr>)
      | (Greater, Less) \<Rightarrow>
          (Some interval_a, \<lparr>isect_set_a = rest_a, isect_set_b = set_b, isect_interval_a = next_a,
             isect_interval_b = Some (interval_b\<lparr>iv_start := end_exclusive ib interval_a\<rparr>)\<rparr>)
      | (Equal, Greater) \<Rightarrow>
          (Some interval_b, \<lparr>isect_set_a = set_a, isect_set_b = rest_b,
             isect_interval_a = Some (interval_a\<lparr>iv_start := end_exclusive ib interval_b\<rparr>),
             isect_interval_b = next_b\<rparr>)
      | (Less, Greater) \<Rightarrow>
          (Some interval_b, \<lparr>isect_set_a = set_a, isect_set_b = rest_b,
             isect_interval_a = Some (interval_a\<lparr>iv_start := end_exclusive ib interval_b\<rparr>),
             isect_interval_b = next_b\<rparr>)
      | (Greater, Equal) \<Rightarrow>
          (Some interval_a, \<lparr>isect_set_a = rest_a, isect_set_b = rest_b, isect_interval_a = next_a,
             isect_interval_b = next_b\<rparr>)
      | (Equal, Equal) \<Rightarrow>
          (Some interval_a, \<lparr>isect_set_a = rest_a, isect_set_b = rest_b, isect_interval_a = next_a,
             isect_interval_b = next_b\<rparr>)
      | (Less, Equal) \<Rightarrow>
          (Some interval_b, \<lparr>isect_set_a = rest_a, isect_set_b = rest_b, isect_interval_a = next_a,
             isect_interval_b = next_b\<rparr>)
      | (Greater, Greater) \<Rightarrow>
          if iv_start interval_a \<le> iv_end interval_b then
            let item = interval_a\<lparr>iv_end := iv_end interval_b\<rparr> in
            (Some item, \<lparr>isect_set_a = set_a, isect_set_b = rest_b,
               isect_interval_a = Some (interval_a\<lparr>iv_start := end_exclusive ib item\<rparr>),
               isect_interval_b = next_b\<rparr>)
          else
            (case set_b of
               [] \<Rightarrow> (None, \<lparr>isect_set_a = set_a, isect_set_b = [], isect_interval_a = Some interval_a,
                        isect_interval_b = Some interval_b\<rparr>)
             | interval_b # set_b \<Rightarrow> intersection_next_loop ib interval_a interval_b set_a set_b)
      | (Less, Less) \<Rightarrow>
          if iv_end interval_a \<ge> iv_start interval_b then
            let item = interval_b\<lparr>iv_end := iv_end interval_a\<rparr> in
            (Some item, \<lparr>isect_set_a = rest_a, isect_set_b = set_b, isect_interval_a = next_a,
               isect_interval_b = Some (interval_b\<lparr>iv_start := end_exclusive ib item\<rparr>)\<rparr>)
          else
            (case set_a of
               [] \<Rightarrow> (None, \<lparr>isect_set_a = [], isect_set_b = set_b, isect_interval_a = Some interval_a,
                        isect_interval_b = Some interval_b\<rparr>)
             | interval_a # set_a \<Rightarrow> intersection_next_loop ib interval_a interval_b set_a set_b))"

declare intersection_next_loop.simps [simp del]

definition intersection_next ::
    "'a::linorder bound_ops \<Rightarrow> 'a intersection \<Rightarrow> 'a interval option \<times> 'a intersection" where
  "intersection_next ib self =
     (case (isect_interval_a self, isect_interval_b self) of
        (Some interval_a, Some interval_b) \<Rightarrow>
          intersection_next_loop ib interval_a interval_b (isect_set_a self) (isect_set_b self)
      | _ \<Rightarrow> (None, self))"

section \<open>The reference intersection\<close>

fun isect :: "'a::linorder interval list \<Rightarrow> 'a interval list \<Rightarrow> 'a interval list" where
  "isect [] bs = []"
| "isect (a # as) [] = []"
| "isect (a # as) (b # bs) =
     (if iv_end a < iv_start b then isect as (b # bs)
      else if iv_end b < iv_start a then isect (a # as) bs
      else \<lparr>iv_start = max (iv_start a) (iv_start b), iv_end = min (iv_end a) (iv_end b)\<rparr> #
           (if iv_end a < iv_end b then isect as (b # bs)
            else if iv_end b < iv_end a then isect (a # as) bs
            else isect as bs))"

lemma isect_Nil2 [simp]: "isect as [] = []"
  by (cases as) simp_all

context interval_bound
begin

lemma isect_bounds:
  "list_all (iv_ok V rank) as \<Longrightarrow> list_all (iv_ok V rank) bs \<Longrightarrow> c \<in> set (isect as bs) \<Longrightarrow>
   iv_ok V rank c \<and> (\<exists>a\<in>set as. rank (iv_start a) \<le> rank (iv_start c)) \<and>
   (\<exists>b\<in>set bs. rank (iv_start b) \<le> rank (iv_start c))"
proof (induction as bs arbitrary: c rule: isect.induct)
  case (3 a as b bs)
  have V: "iv_start a \<in> V" "iv_end a \<in> V" "iv_start b \<in> V" "iv_end b \<in> V"
    "rank (iv_start a) \<le> rank (iv_end a)" "rank (iv_start b) \<le> rank (iv_end b)"
    using 3(6,7) by (simp_all add: iv_ok_def)
  have hd: "iv_ok V rank \<lparr>iv_start = max (iv_start a) (iv_start b), iv_end = min (iv_end a) (iv_end b)\<rparr>"
    if "\<not> iv_end a < iv_start b" "\<not> iv_end b < iv_start a"
    using that V by (auto simp: iv_ok_def max_def min_def rank_le rank_less)
  have mx: "rank (iv_start a) \<le> rank (max (iv_start a) (iv_start b))"
    "rank (iv_start b) \<le> rank (max (iv_start a) (iv_start b))"
    using V by (auto simp: max_def rank_le)
  show ?case
    using 3 hd mx by (auto split: if_splits; blast)
qed simp_all

lemma isect_spec:
  "ivs_wf V rank as \<Longrightarrow> ivs_wf V rank bs \<Longrightarrow>
   ivs_wf V rank (isect as bs) \<and> ivs_ranks rank (isect as bs) = ivs_ranks rank as \<inter> ivs_ranks rank bs"
proof (induction as bs rule: isect.induct)
  case (3 a as b bs)
  have V: "iv_start a \<in> V" "iv_end a \<in> V" "iv_start b \<in> V" "iv_end b \<in> V"
    "rank (iv_start a) \<le> rank (iv_end a)" "rank (iv_start b) \<le> rank (iv_end b)"
    using 3(6,7) by (simp_all add: iv_ok_def)
  have wf: "ivs_wf V rank as" "ivs_wf V rank bs" "ivs_wf V rank (a # as)" "ivs_wf V rank (b # bs)"
    using 3(6,7) by simp_all
  have as: "n \<in> ivs_ranks rank as \<Longrightarrow> rank (iv_end a) + 1 < n" for n
    using 3(6) by (auto simp: ivs_ranks_def iv_ranks_def before_def)
  have bs: "n \<in> ivs_ranks rank bs \<Longrightarrow> rank (iv_end b) + 1 < n" for n
    using 3(7) by (auto simp: ivs_ranks_def iv_ranks_def before_def)
  consider "rank (iv_end a) < rank (iv_start b)" | "rank (iv_end b) < rank (iv_start a)" |
    "\<not> rank (iv_end a) < rank (iv_start b)" "\<not> rank (iv_end b) < rank (iv_start a)" by blast
  then show ?case
  proof cases
    case 1
    moreover have "iv_ranks rank a \<inter> ivs_ranks rank (b # bs) = {}"
      using 1 bs V by (fastforce simp: iv_ranks_def)
    ultimately show ?thesis using 3(1) wf V by (auto simp: rank_less)
  next
    case 2
    moreover have "iv_ranks rank b \<inter> ivs_ranks rank (a # as) = {}"
      using 2 as V by (fastforce simp: iv_ranks_def)
    ultimately show ?thesis using 3(2) wf V by (auto simp: rank_less)
  next
    case ov: 3
    then have ov': "\<not> iv_end a < iv_start b" "\<not> iv_end b < iv_start a" using V by (simp_all add: rank_less)
    define h where "h = \<lparr>iv_start = max (iv_start a) (iv_start b), iv_end = min (iv_end a) (iv_end b)\<rparr>"
    have h: "iv_ok V rank h" "rank (iv_end h) = min (rank (iv_end a)) (rank (iv_end b))"
      "iv_ranks rank h = iv_ranks rank a \<inter> iv_ranks rank b"
      using ov V by (auto simp: h_def iv_ok_def iv_ranks_def max_def min_def rank_le split: if_splits)
    have ok: "list_all (iv_ok V rank) as" "list_all (iv_ok V rank) bs" "iv_ok V rank a" "iv_ok V rank b"
      using wf by (simp_all add: ivs_wf_def)
    consider "rank (iv_end a) < rank (iv_end b)" | "rank (iv_end b) < rank (iv_end a)" |
      "rank (iv_end a) = rank (iv_end b)" by linarith
    then show ?thesis
    proof cases
      case 1
      have c: "before rank h c" if "c \<in> set (isect as (b # bs))" for c
        using isect_bounds [of as "b # bs" c] that ok wf(3) h(2) 1 by (fastforce simp: before_def)
      have "iv_ranks rank a \<inter> ivs_ranks rank bs = {}" using 1 bs by (fastforce simp: iv_ranks_def)
      moreover have "isect (a # as) (b # bs) = h # isect as (b # bs)"
        using ov' 1 V by (simp add: h_def rank_less)
      ultimately show ?thesis using 3(3) [OF ov' _ wf(1,4)] 1 V h c by (auto simp: rank_less simp del: isect.simps)
    next
      case 2
      have c: "before rank h c" if "c \<in> set (isect (a # as) bs)" for c
        using isect_bounds [of "a # as" bs c] that ok wf(4) h(2) 2 by (fastforce simp: before_def)
      have "iv_ranks rank b \<inter> ivs_ranks rank as = {}" using 2 as by (fastforce simp: iv_ranks_def)
      moreover have "isect (a # as) (b # bs) = h # isect (a # as) bs"
        using ov' 2 V by (simp add: h_def rank_less)
      ultimately show ?thesis using 3(4) [OF ov' _ _ wf(3,2)] 2 V h c by (auto simp: rank_less simp del: isect.simps)
    next
      case e: 3
      have c: "before rank h c" if "c \<in> set (isect as bs)" for c
        using isect_bounds [of as bs c] that ok wf(3) h(2) e by (fastforce simp: before_def)
      have "iv_ranks rank b \<inter> ivs_ranks rank as = {}" "iv_ranks rank a \<inter> ivs_ranks rank bs = {}"
        using e as bs by (fastforce simp: iv_ranks_def)+
      moreover have "isect (a # as) (b # bs) = h # isect as bs"
        using ov' e V by (simp add: h_def rank_less)
      ultimately show ?thesis using 3(5) [OF ov' _ _ wf(1,2)] e V h c by (auto simp: rank_less simp del: isect.simps)
    qed
  qed
qed simp_all

text \<open>What lies below the rest of the other sequence may be cut off.\<close>

lemma isect_trim:
  assumes "iv_ok V rank a" "list_all (iv_ok V rank) bs" "k \<in> V"
    "rank (iv_start a) \<le> rank k" "\<forall>b\<in>set bs. rank k \<le> rank (iv_start b)" "rank k \<le> rank (iv_end a)"
  shows "isect (a\<lparr>iv_start := k\<rparr> # as) bs = isect (a # as) bs"
    "isect bs (a\<lparr>iv_start := k\<rparr> # as) = isect bs (a # as)"
proof -
  have ord: "iv_start a \<le> k" "k \<le> iv_end a"
    "b \<in> set bs \<Longrightarrow> iv_start a \<le> iv_start b \<and> k \<le> iv_start b \<and> iv_start b \<le> iv_end b" for b
    using assms by (fastforce simp: list_all_iff iv_ok_def rank_le)+
  show "isect (a\<lparr>iv_start := k\<rparr> # as) bs = isect (a # as) bs"
    using ord
  proof (induction bs)
    case (Cons b bs)
    have "\<not> iv_end b < k" "\<not> iv_end b < iv_start a" using Cons.prems(3) [of b] by auto
    with Cons show ?case by (auto simp: max_absorb2)
  qed simp
  show "isect bs (a\<lparr>iv_start := k\<rparr> # as) = isect bs (a # as)"
    using ord
  proof (induction bs)
    case (Cons b bs)
    have "\<not> iv_end b < k" "\<not> iv_end b < iv_start a" using Cons.prems(3) [of b] by auto
    with Cons show ?case by (auto simp: max_absorb1)
  qed simp
qed

lemma isect_skip:
  assumes "iv_ok V rank a" "list_all (iv_ok V rank) bs" "\<forall>b\<in>set bs. rank (iv_end a) < rank (iv_start b)"
  shows "isect (a # as) bs = isect as bs"
proof (cases bs)
  case (Cons b bs')
  then have "iv_end a < iv_start b" using assms by (simp add: iv_ok_def rank_less)
  then show ?thesis using Cons by simp
qed simp

text \<open>The piece of \<open>a\<close> behind \<open>b\<close> that \<open>split_off_a!\<close> leaves is as good as \<open>a\<close> for the rest of \<open>bs\<close>.\<close>

lemma split_off_a_spec:
  assumes a: "iv_ok V rank a" and b: "iv_ok V rank b" and bs: "ivs_wf V rank (b # bs)"
    and ov: "rank (iv_start a) \<le> rank (iv_end b)" "rank (iv_end b) < rank (iv_end a)"
    and A: "ivs_wf V rank (a # as)" and i: "length pre = i"
  shows "\<exists>as'. split_off_a ib (pre @ a # as) i a b = pre @ a # as' \<and> ivs_wf V rank as' \<and>
    isect as' bs = isect (a # as) bs"
proof -
  let ?k = "step_up_saturating ib (end_exclusive ib b)"
  let ?new = "\<lparr>iv_start = ?k, iv_end = iv_end a\<rparr>"
  have V: "iv_start a \<in> V" "iv_end a \<in> V" "end_exclusive ib b \<in> V" "?k \<in> V"
    using a b exclusive_rank(3) [OF b] by (auto simp: iv_ok_def)
  have e: "rank (end_exclusive ib b) = rank (iv_end b) + 1"
    using exclusive_rank(4) [OF b V(2) ov(2)] .
  have okbs: "list_all (iv_ok V rank) bs" and far: "\<forall>c\<in>set bs. rank (iv_end b) + 2 \<le> rank (iv_start c)"
    using bs by (auto simp: ivs_wf_def before_def)
  have wfas: "ivs_wf V rank as" using A by simp
  consider "rank (iv_end b) + 1 = rank (iv_end a)" "?k \<noteq> iv_end a" |
    "rank (iv_end b) + 1 = rank (iv_end a)" "?k = iv_end a" | "rank (iv_end b) + 1 < rank (iv_end a)"
    using ov by linarith
  then show ?thesis
  proof cases
    case 1
    then have "rank (end_exclusive ib b) = rank (iv_end a)" using e by simp
    then have "end_exclusive ib b = iv_end a" using V by (simp add: rank_eq)
    with 1 V have "rank ?k = rank (iv_end a) + 1"
      by (cases "step_up ib (iv_end a)") (simp_all add: step_up_saturating_def, simp add: up_Some)
    then have "split_off_a ib (pre @ a # as) i a b = pre @ a # as"
      using V i by (simp add: split_off_a_def is_valid_def rank_le)
    moreover have "isect (a # as) bs = isect as bs"
      using isect_skip [OF a okbs] far 1 by fastforce
    ultimately show ?thesis using wfas by auto
  next
    case 2
    then have "bs = []"
    proof (cases bs)
      case (Cons c cs)
      then have c: "iv_start c \<in> V" "rank (iv_end a) < rank (iv_start c)" using far 2 okbs by (auto simp: iv_ok_def)
      have "rank (end_exclusive ib b) < rank (iv_start c)" using c e 2 by simp
      from rank_step_up_saturating [OF V(3) c(1) this] e 2 show ?thesis by simp
    qed simp
    moreover have "split_off_a ib (pre @ a # as) i a b = pre @ a # ?new # as"
      using 2 i by (simp add: split_off_a_def is_valid_def)
    moreover have "ivs_wf V rank (?new # as)"
      using A V 2 by (auto simp: iv_ok_def before_def)
    ultimately show ?thesis by auto
  next
    case 3
    then have k: "rank ?k = rank (iv_end b) + 2"
      using rank_step_up_saturating [OF V(3,2)] e by simp
    have new: "?new = a\<lparr>iv_start := ?k\<rparr>" by (cases a) simp
    have "split_off_a ib (pre @ a # as) i a b = pre @ a # ?new # as"
      using 3 i k V by (simp add: split_off_a_def is_valid_def rank_le)
    moreover have "isect (?new # as) bs = isect (a # as) bs"
      unfolding new using k 3 ov far by (intro isect_trim(1) [OF a okbs V(4)]) auto
    moreover have "ivs_wf V rank (?new # as)"
      using A V 3 k by (auto simp: iv_ok_def before_def)
    ultimately show ?thesis by blast
  qed
qed

text \<open>\<open>leads_to r X\<close>: the outcome \<open>r\<close> of a step is \<open>X\<close>, or a state from which the rest gives \<open>X\<close>.\<close>

definition leads_to :: "'a isect_state + 'a interval list \<Rightarrow> 'a interval list \<Rightarrow> bool" where
  "leads_to r X \<longleftrightarrow> (case r of
      Inr ys \<Rightarrow> ys = X
    | Inl state \<Rightarrow> \<exists>pre as b bs. state = (pre @ as, length pre, b, bs) \<and>
        ivs_wf V rank as \<and> ivs_wf V rank (b # bs) \<and> X = pre @ isect as (b # bs))"

lemma leads_toI:
  assumes "ivs_wf V rank as" "ivs_wf V rank (b # bs)" "X = pre @ isect as (b # bs)"
    and "xs = pre @ as" "i = length pre"
  shows "leads_to (Inl (xs, i, b, bs)) X"
  unfolding leads_to_def sum.case
  by (rule exI [of _ pre], rule exI [of _ as], rule exI [of _ b], rule exI [of _ bs]) (use assms in simp)

lemma leads_to_advance:
  assumes "ivs_wf V rank as" "ivs_wf V rank bs" "X = pre @ isect as bs" "xs = pre @ as" "i = length pre"
  shows "leads_to (advance_set_b xs i bs) X"
proof (cases bs)
  case Nil
  with assms show ?thesis by (simp add: advance_set_b_def leads_to_def)
next
  case (Cons b' bs')
  with assms show ?thesis by (auto simp: advance_set_b_def intro!: leads_toI)
qed

lemma isect_step_leads_to:
  assumes as: "ivs_wf V rank as" and bs: "ivs_wf V rank (b # bs)"
  shows "leads_to (isect_step ib (pre @ as, length pre, b, bs)) (pre @ isect as (b # bs))"
proof (cases as)
  case Nil
  then show ?thesis by (simp add: isect_step_def leads_to_def)
next
  case (Cons a as')
  have ok: "iv_ok V rank a" "iv_ok V rank b" and wf: "ivs_wf V rank as'" "ivs_wf V rank bs"
    using as bs Cons by simp_all
  have V: "iv_start a \<in> V" "iv_end a \<in> V" "iv_start b \<in> V" "iv_end b \<in> V"
    "rank (iv_start a) \<le> rank (iv_end a)" "rank (iv_start b) \<le> rank (iv_end b)"
    using ok by (simp_all add: iv_ok_def)
  note ord = V rank_le rank_less rank_eq
  have upd: "\<lparr>iv_start = iv_start c, iv_end = iv_end c\<rparr> = c"
    "c\<lparr>iv_start := x\<rparr> = \<lparr>iv_start = x, iv_end = iv_end c\<rparr>"
    "c\<lparr>iv_end := x\<rparr> = \<lparr>iv_start = iv_start c, iv_end = x\<rparr>" for c :: "'a interval" and x
    by (cases c; simp)+
  have start: "cmp (iv_start a) (iv_start b) = Less \<and> max (iv_start a) (iv_start b) = iv_start b \<or>
      cmp (iv_start a) (iv_start b) = Equal \<and> max (iv_start a) (iv_start b) = iv_start b \<and> iv_start a = iv_start b \<or>
      cmp (iv_start a) (iv_start b) = Greater \<and> max (iv_start a) (iv_start b) = iv_start a"
    by (auto simp: cmp_def max_def)
  let ?h = "\<lparr>iv_start = max (iv_start a) (iv_start b), iv_end = min (iv_end a) (iv_end b)\<rparr>"
  show ?thesis
  proof (cases "iv_end a < iv_start b \<or> iv_end b < iv_start a")
    case disj: True
    show ?thesis
    proof (cases "iv_end a < iv_start b")
      case True
      then have c: "cmp (iv_start a) (iv_start b) = Less" "cmp (iv_end a) (iv_end b) = Less"
        using V by (auto simp: cmp_def rank_le rank_less rank_eq)
      show ?thesis
        unfolding Cons using c True wf bs
        by (auto simp: isect_step_def vec_remove_def intro!: leads_toI [of as'])
    next
      case False
      with disj have lt: "iv_end b < iv_start a" by simp
      then have c: "cmp (iv_start a) (iv_start b) = Greater" "cmp (iv_end a) (iv_end b) = Greater"
        using V by (auto simp: cmp_def rank_le rank_less rank_eq)
      show ?thesis
        unfolding Cons using c False lt wf as Cons
        by (auto simp: isect_step_def not_le intro!: leads_to_advance [of "a # as'"])
    qed
  next
    case False
    then have nd: "\<not> iv_end a < iv_start b" "\<not> iv_end b < iv_start a" by simp_all
    consider "rank (iv_end a) < rank (iv_end b)" | "rank (iv_end b) < rank (iv_end a)" |
      "rank (iv_end a) = rank (iv_end b)" by linarith
    then show ?thesis
    proof cases
      case 1
      then have ce: "cmp (iv_end a) (iv_end b) = Less" "min (iv_end a) (iv_end b) = iv_end a"
        by (simp_all add: cmp_def ord min_def)
      have X: "isect as (b # bs) = ?h # isect as' (b # bs)"
        using Cons nd 1 by (simp add: ord)
      have "isect_step ib (pre @ as, length pre, b, bs) = Inl (pre @ ?h # as', length pre + 1, b, bs)"
        using start ce nd unfolding Cons
        by (auto simp: isect_step_def list_update_append upd)
      then show ?thesis
        using X wf bs by (auto intro!: leads_toI [of as' b bs _ "pre @ [?h]"])
    next
      case 2
      have X: "isect as (b # bs) = ?h # isect as bs"
        using Cons nd 2 by (simp add: ord)
      have "rank (iv_start a) \<le> rank (iv_end b)" using nd by (simp add: ord)
      from split_off_a_spec [OF ok bs this 2, of as' pre "length pre"] as Cons
      obtain as2 where sp: "split_off_a ib (pre @ a # as') (length pre) a b = pre @ a # as2" "ivs_wf V rank as2"
        "isect as2 bs = isect as bs" by auto
      have ce: "cmp (iv_end a) (iv_end b) = Greater" "min (iv_end a) (iv_end b) = iv_end b"
        using 2 by (auto simp: cmp_def ord min_def)
      have "isect_step ib (pre @ as, length pre, b, bs) = advance_set_b (pre @ ?h # as2) (length pre + 1) bs"
        using start ce nd sp(1) unfolding Cons
        by (auto simp: isect_step_def list_update_append upd)
      then show ?thesis
        using X wf sp by (auto intro!: leads_to_advance [of as2 bs _ "pre @ [?h]"])
    next
      case 3
      have X: "isect as (b # bs) = ?h # isect as' bs"
        using Cons nd 3 by (simp add: ord)
      have ce: "cmp (iv_end a) (iv_end b) = Equal" "min (iv_end a) (iv_end b) = iv_end a"
        using 3 by (auto simp: cmp_def ord min_def)
      have "isect_step ib (pre @ as, length pre, b, bs) = advance_set_b (pre @ ?h # as') (length pre + 1) bs"
        using start ce nd unfolding Cons
        by (auto simp: isect_step_def list_update_append upd) (metis upd(1))
      then show ?thesis
        using X wf by (auto intro!: leads_to_advance [of as' bs _ "pre @ [?h]"])
    qed
  qed
qed

lemma isect_loop_spec:
  assumes "ivs_wf V rank as" "ivs_wf V rank (b # bs)"
  shows "isect_loop ib (pre @ as, length pre, b, bs) = pre @ isect as (b # bs)"
proof -
  have "leads_to (Inl state) X \<Longrightarrow> isect_loop ib state = X" for state X
  proof (induction state rule: measure_induct_rule
      [of "\<lambda>(set_a, i, b, set_b). length set_b + (length set_a - i)"])
    case (less state)
    then obtain pre as b bs where st: "state = (pre @ as, length pre, b, bs)" "X = pre @ isect as (b # bs)"
      "ivs_wf V rank as" "ivs_wf V rank (b # bs)" by (auto simp: leads_to_def)
    from isect_step_leads_to [OF st(3,4), of pre] have l: "leads_to (isect_step ib state) X" by (simp add: st)
    show ?case
    proof (cases "isect_step ib state")
      case (Inl state')
      then have "(\<lambda>(set_a, i, b, set_b). length set_b + (length set_a - i)) state' <
          (\<lambda>(set_a, i, b, set_b). length set_b + (length set_a - i)) state"
        unfolding st(1) by (cases state') (auto dest: isect_step_decreases)
      from less.IH [OF this] Inl l show ?thesis by (simp add: isect_loop.simps [of ib state])
    next
      case (Inr r)
      with l show ?thesis by (simp add: isect_loop.simps [of ib state] leads_to_def)
    qed
  qed
  with leads_toI [OF assms refl refl refl] show ?thesis by blast
qed

lemma intersection_apply_isect:
  assumes "ivs_wf V rank as" "ivs_wf V rank bs"
  shows "intersection_apply ib as bs = isect as bs"
  using assms isect_loop_spec [of as _ _ "[]"] by (auto simp: intersection_apply_def split: list.splits)

text \<open>The iterator: the sequences that its state still stands for.\<close>

definition rest_a :: "'a intersection \<Rightarrow> 'a interval list" where
  "rest_a self = (case isect_interval_a self of None \<Rightarrow> [] | Some a \<Rightarrow> a # isect_set_a self)"

definition rest_b :: "'a intersection \<Rightarrow> 'a interval list" where
  "rest_b self = (case isect_interval_b self of None \<Rightarrow> [] | Some b \<Rightarrow> b # isect_set_b self)"

lemma advance_rest [simp]:
  "rest_a \<lparr>isect_set_a = snd (advance xs), isect_set_b = bs, isect_interval_a = fst (advance xs), isect_interval_b = ib'\<rparr> = xs"
  "rest_b \<lparr>isect_set_a = as, isect_set_b = snd (advance xs), isect_interval_a = ia, isect_interval_b = fst (advance xs)\<rparr> = xs"
  "rest_a \<lparr>isect_set_a = as, isect_set_b = bs, isect_interval_a = Some a, isect_interval_b = ib'\<rparr> = a # as"
  "rest_b \<lparr>isect_set_a = as, isect_set_b = bs, isect_interval_a = ia, isect_interval_b = Some b\<rparr> = b # bs"
  by (cases xs; simp add: advance_def rest_a_def rest_b_def)+

definition yields :: "'a interval option \<times> 'a intersection \<Rightarrow> 'a interval list \<Rightarrow> bool" where
  "yields r X \<longleftrightarrow> (case r of
      (None, _) \<Rightarrow> X = []
    | (Some item, self) \<Rightarrow> ivs_wf V rank (rest_a self) \<and> ivs_wf V rank (rest_b self) \<and>
        X = item # isect (rest_a self) (rest_b self))"

lemma yieldsI:
  assumes "ivs_wf V rank as" "ivs_wf V rank bs" "X = item # isect as bs" "rest_a self = as" "rest_b self = bs"
  shows "yields (Some item, self) X"
  using assms by (simp add: yields_def)

lemma trimmed_wf:
  assumes "ivs_wf V rank (b # bs)" "k \<in> V" "rank k \<le> rank (iv_end b)"
  shows "ivs_wf V rank (b\<lparr>iv_start := k\<rparr> # bs)"
  using assms by (auto simp: iv_ok_def before_def)

lemma next_loop_yields:
  "ivs_wf V rank (a # as) \<Longrightarrow> ivs_wf V rank (b # bs) \<Longrightarrow>
   yields (intersection_next_loop ib a b as bs) (isect (a # as) (b # bs))"
proof (induction "length as + length bs" arbitrary: a b as bs rule: less_induct)
  case less
  have ok: "iv_ok V rank a" "iv_ok V rank b" and wf: "ivs_wf V rank as" "ivs_wf V rank bs"
    using less.prems by simp_all
  then have oks: "list_all (iv_ok V rank) as" "list_all (iv_ok V rank) bs" by (simp_all add: ivs_wf_def)
  have V: "iv_start a \<in> V" "iv_end a \<in> V" "iv_start b \<in> V" "iv_end b \<in> V"
    "rank (iv_start a) \<le> rank (iv_end a)" "rank (iv_start b) \<le> rank (iv_end b)"
    using ok by (simp_all add: iv_ok_def)
  note ord = V rank_le rank_less rank_eq
  have upd: "\<lparr>iv_start = iv_start c, iv_end = iv_end c\<rparr> = c"
    "c\<lparr>iv_end := x\<rparr> = \<lparr>iv_start = iv_start c, iv_end = x\<rparr>" for c :: "'a interval" and x
    by (cases c; simp)+
  have start: "cmp (iv_start a) (iv_start b) = Less \<and> max (iv_start a) (iv_start b) = iv_start b \<or>
      cmp (iv_start a) (iv_start b) = Equal \<and> max (iv_start a) (iv_start b) = iv_start b \<and> iv_start a = iv_start b \<or>
      cmp (iv_start a) (iv_start b) = Greater \<and> max (iv_start a) (iv_start b) = iv_start a"
    by (auto simp: cmp_def max_def)
  let ?h = "\<lparr>iv_start = max (iv_start a) (iv_start b), iv_end = min (iv_end a) (iv_end b)\<rparr>"
  let ?s = "\<lambda>as ia bs ib'. \<lparr>isect_set_a = as, isect_set_b = bs, isect_interval_a = ia, isect_interval_b = ib'\<rparr>"
  consider "iv_end a < iv_start b" | "iv_end b < iv_start a" |
    "\<not> iv_end a < iv_start b" "\<not> iv_end b < iv_start a" by blast
  then show ?case
  proof cases
    case 1
    then have c: "cmp (iv_start a) (iv_start b) = Less" "cmp (iv_end a) (iv_end b) = Less"
      "\<not> iv_end a \<ge> iv_start b"
      using V by (auto simp: cmp_def rank_le rank_less rank_eq)
    show ?thesis
    proof (cases as)
      case Nil
      with 1 c show ?thesis by (simp add: intersection_next_loop.simps [of ib a] advance_def yields_def)
    next
      case (Cons a' as')
      with less.hyps [of as' bs a' b] wf less.prems 1 c show ?thesis
        by (simp add: intersection_next_loop.simps [of ib a] advance_def split: list.splits)
    qed
  next
    case 2
    then have c: "cmp (iv_start a) (iv_start b) = Greater" "cmp (iv_end a) (iv_end b) = Greater"
      and n1: "\<not> iv_end a < iv_start b" "\<not> iv_start a \<le> iv_end b"
      using V by (auto simp: cmp_def rank_le rank_less rank_eq)
    show ?thesis
    proof (cases bs)
      case Nil
      with 2 n1 c show ?thesis by (simp add: intersection_next_loop.simps [of ib a] advance_def yields_def split: list.splits)
    next
      case (Cons b' bs')
      with less.hyps [of as bs' a b'] wf less.prems 2 n1 c show ?thesis
        by (simp add: intersection_next_loop.simps [of ib a] advance_def split: list.splits)
    qed
  next
    case nd: 3
    have nd': "rank (iv_start b) \<le> rank (iv_end a)" "rank (iv_start a) \<le> rank (iv_end b)"
      using nd by (simp_all add: ord)
    consider "rank (iv_end a) < rank (iv_end b)" | "rank (iv_end b) < rank (iv_end a)" |
      "rank (iv_end a) = rank (iv_end b)" by linarith
    then show ?thesis
    proof cases
      case 1
      have k: "rank (end_exclusive ib a) = rank (iv_end a) + 1" "end_exclusive ib a \<in> V"
        using exclusive_rank(4) [OF ok(1) V(4) 1] exclusive_rank(3) [OF ok(1)] by simp_all
      have ce: "cmp (iv_end a) (iv_end b) = Less" "min (iv_end a) (iv_end b) = iv_end a"
        using 1 by (auto simp: cmp_def ord min_def)
      have e: "intersection_next_loop ib a b as bs =
          (Some ?h, ?s (snd (advance as)) (fst (advance as)) bs (Some (b\<lparr>iv_start := end_exclusive ib a\<rparr>)))"
        using start ce nd
        by (subst intersection_next_loop.simps) (auto simp: upd end_exclusive_def split_beta)
      have "isect as (b\<lparr>iv_start := end_exclusive ib a\<rparr> # bs) = isect as (b # bs)"
        using less.prems(1) k nd' 1 by (intro isect_trim(2) [OF ok(2) oks(1) k(2)]) (auto simp: before_def)
      moreover have "isect (a # as) (b # bs) = ?h # isect as (b # bs)" using nd 1 by (simp add: ord)
      ultimately show ?thesis
        unfolding e using wf trimmed_wf [OF less.prems(2) k(2)] k 1
        by (intro yieldsI [of as]) simp_all
    next
      case 2
      have k: "rank (end_exclusive ib b) = rank (iv_end b) + 1" "end_exclusive ib b \<in> V"
        using exclusive_rank(4) [OF ok(2) V(2) 2] exclusive_rank(3) [OF ok(2)] by simp_all
      have ce: "cmp (iv_end a) (iv_end b) = Greater" "min (iv_end a) (iv_end b) = iv_end b"
        using 2 by (auto simp: cmp_def ord min_def)
      have e: "intersection_next_loop ib a b as bs =
          (Some ?h, ?s as (Some (a\<lparr>iv_start := end_exclusive ib b\<rparr>)) (snd (advance bs)) (fst (advance bs)))"
        using start ce nd
        by (subst intersection_next_loop.simps) (auto simp: upd end_exclusive_def split_beta)
      have "isect (a\<lparr>iv_start := end_exclusive ib b\<rparr> # as) bs = isect (a # as) bs"
        using less.prems(2) k nd' 2 by (intro isect_trim(1) [OF ok(1) oks(2) k(2)]) (auto simp: before_def)
      moreover have "isect (a # as) (b # bs) = ?h # isect (a # as) bs" using nd 2 by (simp add: ord)
      ultimately show ?thesis
        unfolding e using wf trimmed_wf [OF less.prems(1) k(2)] k 2
        by (intro yieldsI [of _ bs]) simp_all
    next
      case 3
      have ce: "cmp (iv_end a) (iv_end b) = Equal" "min (iv_end a) (iv_end b) = iv_end a"
        "min (iv_end a) (iv_end b) = iv_end b"
        using 3 by (auto simp: cmp_def ord min_def)
      have e: "intersection_next_loop ib a b as bs =
          (Some ?h, ?s (snd (advance as)) (fst (advance as)) (snd (advance bs)) (fst (advance bs)))"
        using start ce(1) nd
        by (subst intersection_next_loop.simps) (auto simp: split_beta, (metis upd(1) ce(2,3))+)
      have "isect (a # as) (b # bs) = ?h # isect as bs" using nd 3 by (simp add: ord)
      then show ?thesis
        unfolding e using wf by (intro yieldsI [of as bs]) simp_all
    qed
  qed
qed

lemma iterate_intersection:
  assumes "ivs_wf V rank (rest_a self)" "ivs_wf V rank (rest_b self)"
    and "length (isect (rest_a self) (rest_b self)) < fuel"
  shows "iterate (intersection_next ib) fuel self = Some (isect (rest_a self) (rest_b self))"
  using assms
proof (induction fuel arbitrary: self)
  case (Suc fuel)
  show ?case
  proof (cases "isect_interval_a self = None \<or> isect_interval_b self = None")
    case True
    then show ?thesis by (auto simp: intersection_next_def rest_a_def rest_b_def split: option.splits)
  next
    case False
    then obtain a b where ab: "isect_interval_a self = Some a" "isect_interval_b self = Some b" by auto
    have y: "yields (intersection_next ib self) (isect (rest_a self) (rest_b self))"
      using next_loop_yields Suc.prems ab by (simp add: intersection_next_def rest_a_def rest_b_def)
    show ?thesis
      using y Suc.IH [of "snd (intersection_next ib self)"] Suc.prems(3)
      by (auto simp: yields_def split: prod.splits option.splits)
  qed
qed simp

lemma rest_new [simp]:
  "rest_a (intersection_new as bs) = as" "rest_b (intersection_new as bs) = bs"
  by (cases as; cases bs; simp add: rest_a_def rest_b_def intersection_new_def)+

end

end
