(* ===== verification/IntervalSet.thy ===== *)
theory IntervalSet
  imports IntervalIntersection
begin

text \<open>
  The interval set: \<^verbatim>\<open>quic/s2n-quic-core/src/interval_set/mod.rs\<close>, on top of insertion, removal and
  intersection. The abstract state is the set of ranks of the contained values; the operations are
  shown to be the set operations, the binary search to decide membership, and the limit to hold.
\<close>

section \<open>Definitions\<close>

record 'a interval_set =
  is_limit :: "nat option"
  is_intervals :: "'a interval list"

definition interval_set_new :: "'a interval_set" where
  "interval_set_new = \<lparr>is_limit = None, is_intervals = []\<rparr>"

definition set_limit :: "nat \<Rightarrow> 'a interval_set \<Rightarrow> 'a interval_set" where
  "set_limit limit self = self\<lparr>is_limit := Some limit\<rparr>"

definition with_limit :: "nat \<Rightarrow> 'a interval_set" where
  "with_limit limit = set_limit limit interval_set_new"

definition remove_limit :: "'a interval_set \<Rightarrow> 'a interval_set" where
  "remove_limit self = self\<lparr>is_limit := None\<rparr>"

definition interval_count :: "'a interval_set \<Rightarrow> nat" where
  "interval_count self = length (is_intervals self)"

definition interval_set_clear :: "'a interval_set \<Rightarrow> 'a interval_set" where
  "interval_set_clear self = self\<lparr>is_intervals := []\<rparr>"

definition pop_min :: "'a interval_set \<Rightarrow> 'a interval option \<times> 'a interval_set" where
  "pop_min self =
     (case is_intervals self of
        [] \<Rightarrow> (None, self)
      | r # rs \<Rightarrow> (Some r, self\<lparr>is_intervals := rs\<rparr>))"

definition count_values :: "'a bound_ops \<Rightarrow> 'a interval_set \<Rightarrow> nat" where
  "count_values ib self = sum_list (map (interval_len ib) (is_intervals self)) mod 2 ^ 64"

definition min_value :: "'a interval_set \<Rightarrow> 'a option" where
  "min_value self = (case is_intervals self of [] \<Rightarrow> None | interval # _ \<Rightarrow> Some (iv_start interval))"

definition max_value :: "'a interval_set \<Rightarrow> 'a option" where
  "max_value self =
     (if is_intervals self = [] then None else Some (iv_end (last (is_intervals self))))"

text \<open>
  The loop of \<open>binary_search_with\<close>: \<open>Inl\<close> for the early return with the index of an interval that
  contains the value, \<open>Inr\<close> for the final base; \<open>None\<close> is an index out of bounds.
\<close>

function binary_search_loop ::
    "'a::linorder interval list \<Rightarrow> 'a \<Rightarrow> nat \<Rightarrow> nat \<Rightarrow> (nat + nat) option" where
  "binary_search_loop intervals value base sz =
     (if sz > 1 then
        let half = sz div 2; mid = base + half in
        case vec_get mid intervals of
          None \<Rightarrow> None
        | Some subject \<Rightarrow>
            (case interval_cmp subject value of
               Equal \<Rightarrow> Some (Inl mid)
             | Greater \<Rightarrow> binary_search_loop intervals value base (sz - half)
             | Less \<Rightarrow> binary_search_loop intervals value mid (sz - half))
      else Some (Inr base))"
  by pat_completeness auto

termination
  by (relation "measure (\<lambda>(intervals, value, base, sz). sz)") auto

declare binary_search_loop.simps [simp del]

definition binary_search_with ::
    "'a::linorder interval_set \<Rightarrow> 'a \<Rightarrow> (nat \<Rightarrow> 'v) \<Rightarrow> (nat \<Rightarrow> 'v) \<Rightarrow> (nat \<Rightarrow> 'v) \<Rightarrow> 'v option" where
  "binary_search_with self value on_equal on_greater on_less =
     (let intervals = is_intervals self; sz = length intervals in
      if sz = 0 then Some (on_greater 0)
      else case binary_search_loop intervals value 0 sz of
          None \<Rightarrow> None
        | Some (Inl mid) \<Rightarrow> Some (on_equal mid)
        | Some (Inr base) \<Rightarrow>
            (case vec_get base intervals of
               None \<Rightarrow> None
             | Some subject \<Rightarrow>
                 (case interval_cmp subject value of
                    Equal \<Rightarrow> Some (on_equal base)
                  | Greater \<Rightarrow> Some (on_greater base)
                  | Less \<Rightarrow> Some (on_less base))))"

definition is_contains :: "'a::linorder interval_set \<Rightarrow> 'a \<Rightarrow> bool option" where
  "is_contains self value = binary_search_with self value (\<lambda>_. True) (\<lambda>_. False) (\<lambda>_. False)"

definition index_for :: "'a::linorder interval_set \<Rightarrow> 'a interval \<Rightarrow> nat option" where
  "index_for self interval =
     (if interval_count self < 16 then Some 0
      else binary_search_with self (iv_start interval) (\<lambda>index. index) (\<lambda>index. index) (\<lambda>index. index))"

definition is_insert ::
    "'a::linorder bound_ops \<Rightarrow> 'a interval_set \<Rightarrow> 'a bound \<times> 'a bound
     \<Rightarrow> ((interval_set_error + bool) \<times> 'a interval_set) option" where
  "is_insert ib self bounds =
     (case from_range_bounds ib bounds of
        Inl e \<Rightarrow> Some (Inl e, self)
      | Inr interval \<Rightarrow>
          if is_intervals self = [] then Some (Inr True, self\<lparr>is_intervals := [interval]\<rparr>)
          else
            Option.bind (index_for self interval) (\<lambda>index.
            map_option (\<lambda>(res, intervals). (map_sum id snd res, self\<lparr>is_intervals := intervals\<rparr>))
              (interval_insert ib (is_intervals self) interval index (is_limit self))))"

definition is_insert_front ::
    "'a::linorder bound_ops \<Rightarrow> 'a interval_set \<Rightarrow> 'a bound \<times> 'a bound
     \<Rightarrow> ((interval_set_error + bool) \<times> 'a interval_set) option" where
  "is_insert_front ib self bounds =
     (case from_range_bounds ib bounds of
        Inl e \<Rightarrow> Some (Inl e, self)
      | Inr interval \<Rightarrow>
          if is_intervals self = [] then Some (Inr True, self\<lparr>is_intervals := [interval]\<rparr>)
          else
            map_option (\<lambda>(res, intervals). (map_sum id snd res, self\<lparr>is_intervals := intervals\<rparr>))
              (interval_insert ib (is_intervals self) interval 0 (is_limit self)))"

definition insert_value ::
    "'a::linorder bound_ops \<Rightarrow> 'a interval_set \<Rightarrow> 'a
     \<Rightarrow> ((interval_set_error + bool) \<times> 'a interval_set) option" where
  "insert_value ib self value = is_insert ib self (Included value, Included value)"

definition is_remove ::
    "'a::linorder bound_ops \<Rightarrow> 'a interval_set \<Rightarrow> 'a bound \<times> 'a bound
     \<Rightarrow> ((interval_set_error + unit) \<times> 'a interval_set) option" where
  "is_remove ib self bounds =
     (case from_range_bounds ib bounds of
        Inl e \<Rightarrow> Some (Inl e, self)
      | Inr interval \<Rightarrow>
          if is_intervals self = [] then Some (Inr (), self)
          else
            Option.bind (index_for self interval) (\<lambda>index.
            map_option (\<lambda>(res, intervals). (map_sum id (\<lambda>_. ()) res, self\<lparr>is_intervals := intervals\<rparr>))
              (interval_remove ib (is_intervals self) interval index (is_limit self))))"

definition remove_value ::
    "'a::linorder bound_ops \<Rightarrow> 'a interval_set \<Rightarrow> 'a
     \<Rightarrow> ((interval_set_error + unit) \<times> 'a interval_set) option" where
  "remove_value ib self value = is_remove ib self (Included value, Included value)"

text \<open>\<open>set_operation\<close>: \<open>apply\<close> for each interval, each time starting at the index of the last one.\<close>

fun set_operation_loop ::
    "('a interval list \<Rightarrow> 'a interval \<Rightarrow> nat \<Rightarrow> nat option \<Rightarrow> ((interval_set_error + nat) \<times> 'a interval list) option)
     \<Rightarrow> nat option \<Rightarrow> 'a interval list \<Rightarrow> nat \<Rightarrow> 'a interval list
     \<Rightarrow> ((interval_set_error + unit) \<times> 'a interval list) option" where
  "set_operation_loop apply_one limit [] index intervals = Some (Inr (), intervals)"
| "set_operation_loop apply_one limit (interval # iter) index intervals =
     (case apply_one intervals interval index limit of
        None \<Rightarrow> None
      | Some (Inl e, intervals) \<Rightarrow> Some (Inl e, intervals)
      | Some (Inr index, intervals) \<Rightarrow> set_operation_loop apply_one limit iter index intervals)"

definition set_operation ::
    "'a::linorder interval_set \<Rightarrow> 'a interval_set
     \<Rightarrow> ('a interval list \<Rightarrow> 'a interval \<Rightarrow> nat \<Rightarrow> nat option \<Rightarrow> ((interval_set_error + nat) \<times> 'a interval list) option)
     \<Rightarrow> ((interval_set_error + unit) \<times> 'a interval_set) option" where
  "set_operation self other apply_one =
     (case is_intervals other of
        [] \<Rightarrow> Some (Inr (), self)
      | interval # iter \<Rightarrow>
          Option.bind (index_for self interval) (\<lambda>index.
          map_option (\<lambda>(res, intervals). (res, self\<lparr>is_intervals := intervals\<rparr>))
            (set_operation_loop apply_one (is_limit self) (interval # iter) index (is_intervals self))))"

definition union_apply ::
    "'a::linorder bound_ops \<Rightarrow> 'a interval list \<Rightarrow> 'a interval \<Rightarrow> nat \<Rightarrow> nat option
     \<Rightarrow> ((interval_set_error + nat) \<times> 'a interval list) option" where
  "union_apply ib ranges interval index limit =
     map_option (\<lambda>(res, ranges). (map_sum id fst res, ranges))
       (interval_insert ib ranges interval index limit)"

definition is_union ::
    "'a::linorder bound_ops \<Rightarrow> 'a interval_set \<Rightarrow> 'a interval_set
     \<Rightarrow> ((interval_set_error + unit) \<times> 'a interval_set) option" where
  "is_union ib self other =
     (if is_intervals self = [] then Some (Inr (), self\<lparr>is_intervals := is_intervals other\<rparr>)
      else set_operation self other (union_apply ib))"

definition is_difference ::
    "'a::linorder bound_ops \<Rightarrow> 'a interval_set \<Rightarrow> 'a interval_set
     \<Rightarrow> ((interval_set_error + unit) \<times> 'a interval_set) option" where
  "is_difference ib self other =
     (if is_intervals self = [] then Some (Inr (), self)
      else set_operation self other (interval_remove ib))"

definition is_intersection ::
    "'a::linorder bound_ops \<Rightarrow> 'a interval_set \<Rightarrow> 'a interval_set \<Rightarrow> 'a interval_set" where
  "is_intersection ib self other =
     self\<lparr>is_intervals := intersection_apply ib (is_intervals self) (is_intervals other)\<rparr>"

definition intersection_iter :: "'a interval_set \<Rightarrow> 'a interval_set \<Rightarrow> 'a intersection" where
  "intersection_iter self other = intersection_new (is_intervals self) (is_intervals other)"

section \<open>Where a limit stops a set operation\<close>

text \<open>
  An interval cannot be added when the limit is reached and nothing overlaps or touches it; it cannot
  be removed when it lies strictly inside one interval, which would be split, and the limit leaves no
  room. A set operation stops at the first interval of the other set of which that is the case for
  the set that the intervals before it have led to.
\<close>

definition union_blocked :: "('a \<Rightarrow> nat) \<Rightarrow> nat option \<Rightarrow> 'a interval list \<Rightarrow> 'a interval \<Rightarrow> bool" where
  "union_blocked rank limit rs c \<longleftrightarrow>
     (\<exists>l. limit = Some l \<and> l \<le> length rs) \<and> (\<forall>b\<in>set rs. \<not> touched rank c b)"

definition difference_blocked :: "('a \<Rightarrow> nat) \<Rightarrow> nat option \<Rightarrow> 'a interval list \<Rightarrow> 'a interval \<Rightarrow> bool" where
  "difference_blocked rank limit rs c \<longleftrightarrow>
     (\<exists>l. limit = Some l \<and> l \<le> length rs + 1) \<and>
     (\<exists>b\<in>set rs. rank (iv_start b) < rank (iv_start c) \<and> rank (iv_end c) < rank (iv_end b))"

definition stops_at ::
    "'a set \<Rightarrow> ('a \<Rightarrow> nat) \<Rightarrow> (nat set \<Rightarrow> nat set \<Rightarrow> nat set) \<Rightarrow> ('a interval list \<Rightarrow> 'a interval \<Rightarrow> bool)
     \<Rightarrow> 'a interval list \<Rightarrow> 'a interval list \<Rightarrow> nat \<Rightarrow> bool" where
  "stops_at V rank comb blocked rs others k \<longleftrightarrow> k < length others \<and>
     (\<exists>mid. ivs_wf V rank mid \<and>
        ivs_ranks rank mid = comb (ivs_ranks rank rs) (ivs_ranks rank (take k others)) \<and> blocked mid (others ! k))"

definition set_operation_outcome ::
    "'a set \<Rightarrow> ('a \<Rightarrow> nat) \<Rightarrow> (nat set \<Rightarrow> nat set \<Rightarrow> nat set) \<Rightarrow> ('a interval list \<Rightarrow> 'a interval \<Rightarrow> bool)
     \<Rightarrow> 'a interval list \<Rightarrow> 'a interval list \<Rightarrow> interval_set_error + unit \<Rightarrow> 'a interval list \<Rightarrow> bool" where
  "set_operation_outcome V rank comb blocked rs others res rs' \<longleftrightarrow>
     (case res of
        Inl e \<Rightarrow> e = LimitExceeded \<and> (\<exists>k. stops_at V rank comb blocked rs others k \<and>
          (\<forall>j<k. \<not> stops_at V rank comb blocked rs others j) \<and>
          ivs_ranks rank rs' = comb (ivs_ranks rank rs) (ivs_ranks rank (take k others)))
      | Inr _ \<Rightarrow> (\<forall>k. \<not> stops_at V rank comb blocked rs others k) \<and>
          ivs_ranks rank rs' = comb (ivs_ranks rank rs) (ivs_ranks rank others))"

section \<open>Uniqueness of the representation\<close>

context interval_bound
begin

lemma ivs_head:
  assumes "ivs_wf V rank (a # as)" "ivs_wf V rank (b # bs)"
    and "ivs_ranks rank (a # as) = ivs_ranks rank (b # bs)"
  shows "rank (iv_start b) \<le> rank (iv_start a)" "rank (iv_end a) \<le> rank (iv_end b)"
proof -
  have ok: "rank (iv_start c) \<le> rank (iv_end c)" if "c \<in> set (a # as) \<union> set (b # bs)" for c
    using that ivs_wf_ok [OF assms(1)] ivs_wf_ok [OF assms(2)] by (auto simp: iv_ok_def)
  have "rank (iv_start a) \<in> ivs_ranks rank (b # bs)"
    using ok [of a] assms(3) [symmetric] by (simp add: iv_ranks_def)
  then show start: "rank (iv_start b) \<le> rank (iv_start a)"
    using assms(2) ok by (fastforce simp: ivs_ranks_def iv_ranks_def before_def)
  show "rank (iv_end a) \<le> rank (iv_end b)"
  proof (rule ccontr)
    assume "\<not> ?thesis"
    then have "rank (iv_end b) + 1 \<in> ivs_ranks rank (a # as) \<or> rank (iv_end b) + 1 < rank (iv_start a)"
      by (auto simp: iv_ranks_def)
    moreover have "rank (iv_end b) + 1 \<notin> ivs_ranks rank (b # bs)"
      using assms(2) by (auto simp: ivs_ranks_def iv_ranks_def before_def)
    ultimately have lt: "rank (iv_end b) + 1 < rank (iv_start a)" using assms(3) by metis
    have "rank (iv_start b) \<in> ivs_ranks rank (a # as)"
      using ok [of b] assms(3) by (simp add: iv_ranks_def)
    then have "rank (iv_start a) \<le> rank (iv_start b)"
      using assms(1) ok by (fastforce simp: ivs_ranks_def iv_ranks_def before_def)
    with lt ok [of b] show False by simp
  qed
qed

lemma ivs_wf_unique:
  assumes "ivs_wf V rank rs" "ivs_wf V rank rs'" "ivs_ranks rank rs = ivs_ranks rank rs'"
  shows "rs = rs'"
  using assms
proof (induction rs arbitrary: rs')
  case Nil
  then show ?case by (cases rs') (auto simp: iv_ranks_def iv_ok_def)
next
  case (Cons a as)
  then obtain b bs where rs': "rs' = b # bs" by (cases rs') (auto simp: iv_ranks_def iv_ok_def)
  note wf = Cons.prems(1) Cons.prems(2) [unfolded rs'] and eq = Cons.prems(3) [unfolded rs']
  have ranks: "rank (iv_start a) = rank (iv_start b)" "rank (iv_end a) = rank (iv_end b)"
    using ivs_head [OF wf eq] ivs_head [OF wf(2,1) eq [symmetric]] by auto
  then have ab: "a = b" using wf rank_eq by (auto simp: iv_ok_def)
  have "ivs_ranks rank as = ivs_ranks rank bs"
  proof -
    have "ivs_ranks rank cs = ivs_ranks rank (a # cs) - iv_ranks rank a" if "ivs_wf V rank (a # cs)" for cs
      using that by (fastforce simp: ivs_ranks_def iv_ranks_def before_def)
    with wf ab eq show ?thesis by metis
  qed
  with Cons.IH wf ab show ?case by (simp add: rs')
qed

text \<open>Binary search.\<close>

lemma wf_nth:
  assumes "ivs_wf V rank rs" "i < j" "j < length rs"
  shows "before rank (rs ! i) (rs ! j)"
  using assms by (auto simp: ivs_wf_def sorted_wrt_iff_nth_less)

lemma cmp_nth:
  assumes wf: "ivs_wf V rank rs" and v: "v \<in> V" and ij: "i < j" "j < length rs"
  shows "interval_cmp (rs ! i) v \<noteq> Less \<Longrightarrow> interval_cmp (rs ! j) v = Greater"
    "interval_cmp (rs ! j) v \<noteq> Greater \<Longrightarrow> interval_cmp (rs ! i) v = Less"
proof -
  have ok: "iv_ok V rank (rs ! i)" "iv_ok V rank (rs ! j)"
    using ij ivs_wf_ok [OF wf] by auto
  show "interval_cmp (rs ! i) v \<noteq> Less \<Longrightarrow> interval_cmp (rs ! j) v = Greater"
    "interval_cmp (rs ! j) v \<noteq> Greater \<Longrightarrow> interval_cmp (rs ! i) v = Less"
    using wf_nth [OF wf ij] ok v
    by (auto simp: interval_cmp_iff iv_ranks_def before_def iv_ok_def split: if_splits)
qed

lemma binary_search_loop_spec:
  assumes "ivs_wf V rank rs" "v \<in> V" "0 < sz" "base + sz \<le> length rs"
    and "base = 0 \<or> interval_cmp (rs ! base) v = Less"
    and "\<forall>j. base + sz \<le> j \<and> j < length rs \<longrightarrow> interval_cmp (rs ! j) v = Greater"
  shows "\<exists>r. binary_search_loop rs v base sz = Some r \<and> (case r of
      Inl m \<Rightarrow> m < length rs \<and> interval_cmp (rs ! m) v = Equal
    | Inr b \<Rightarrow> b < length rs \<and> (b = 0 \<or> interval_cmp (rs ! b) v = Less) \<and>
        (\<forall>j. b < j \<and> j < length rs \<longrightarrow> interval_cmp (rs ! j) v = Greater))"
  using assms
proof (induction sz arbitrary: base rule: less_induct)
  case (less sz)
  show ?case
  proof (cases "sz > 1")
    case False
    with less.prems show ?thesis by (subst binary_search_loop.simps) auto
  next
    case True
    let ?half = "sz div 2"
    let ?mid = "base + ?half"
    have mid: "?mid < length rs" "sz - ?half < sz" "0 < sz - ?half" "0 < ?half"
      using True less.prems by auto
    have get: "vec_get ?mid rs = Some (rs ! ?mid)" using mid by (simp add: vec_get_def)
    show ?thesis
    proof (cases "interval_cmp (rs ! ?mid) v")
      case Equal
      with True get mid show ?thesis by (subst binary_search_loop.simps) (auto simp: Let_def)
    next
      case Less
      with True get have "binary_search_loop rs v base sz = binary_search_loop rs v ?mid (sz - ?half)"
        by (subst binary_search_loop.simps) (auto simp: Let_def)
      then show ?thesis
        using less.IH [OF mid(2) less.prems(1,2) mid(3), of ?mid] less.prems Less by auto
    next
      case Greater
      with True get have "binary_search_loop rs v base sz = binary_search_loop rs v base (sz - ?half)"
        by (subst binary_search_loop.simps) (auto simp: Let_def)
      moreover have "interval_cmp (rs ! j) v = Greater" if "base + (sz - ?half) \<le> j" "j < length rs" for j
        using cmp_nth(1) [OF less.prems(1,2), of ?mid j] Greater that True
        by (cases "?mid = j") (auto)
      ultimately show ?thesis
        using less.IH [OF mid(2) less.prems(1,2) mid(3), of base] less.prems Greater by auto
    qed
  qed
qed

lemma binary_search_with_spec:
  assumes wf: "ivs_wf V rank (is_intervals self)" and v: "v \<in> V"
  obtains m where "m < length (is_intervals self)" "interval_cmp (is_intervals self ! m) v = Equal"
      "binary_search_with self v f g h = Some (f m)"
  | b where "b < length (is_intervals self)" "interval_cmp (is_intervals self ! b) v = Less"
      "\<forall>j. b < j \<and> j < length (is_intervals self) \<longrightarrow> interval_cmp (is_intervals self ! j) v = Greater"
      "binary_search_with self v f g h = Some (h b)"
  | "\<forall>j < length (is_intervals self). interval_cmp (is_intervals self ! j) v = Greater"
      "binary_search_with self v f g h = Some (g 0)"
proof (cases "is_intervals self = []")
  case True
  then show ?thesis using that(3) by (simp add: binary_search_with_def)
next
  case False
  let ?rs = "is_intervals self"
  have "\<forall>j. 0 + length ?rs \<le> j \<and> j < length ?rs \<longrightarrow> interval_cmp (?rs ! j) v = Greater" by auto
  from binary_search_loop_spec [OF wf v _ _ disjI1 [OF refl] this] False
  obtain r where r: "binary_search_loop ?rs v 0 (length ?rs) = Some r"
    "case r of
        Inl m \<Rightarrow> m < length ?rs \<and> interval_cmp (?rs ! m) v = Equal
      | Inr b \<Rightarrow> b < length ?rs \<and> (b = 0 \<or> interval_cmp (?rs ! b) v = Less) \<and>
          (\<forall>j. b < j \<and> j < length ?rs \<longrightarrow> interval_cmp (?rs ! j) v = Greater)" by auto
  show ?thesis
  proof (cases r)
    case (Inl m)
    with r False that(1) [of m] show ?thesis by (simp add: binary_search_with_def)
  next
    case (Inr b)
    with r have b: "b < length ?rs" "b = 0 \<or> interval_cmp (?rs ! b) v = Less"
      "\<forall>j. b < j \<and> j < length ?rs \<longrightarrow> interval_cmp (?rs ! j) v = Greater" by simp_all
    show ?thesis
    proof (cases "interval_cmp (?rs ! b) v")
      case Equal
      with b(1) Inr r(1) False that(1) [of b] show ?thesis by (simp add: binary_search_with_def vec_get_def)
    next
      case Less
      with b(1,3) Inr r(1) False that(2) [of b] show ?thesis by (simp add: binary_search_with_def vec_get_def)
    next
      case Greater
      then have b0: "b = 0" using b(2) by simp
      have gt: "\<forall>j < length ?rs. interval_cmp (?rs ! j) v = Greater"
      proof (intro allI impI)
        fix j assume "j < length ?rs"
        with b(3) Greater b0 show "interval_cmp (?rs ! j) v = Greater" by (cases "j = 0") simp_all
      qed
      have "binary_search_with self v f g h = Some (g 0)"
        using b(1) b0 Inr r(1) False Greater by (simp add: binary_search_with_def vec_get_def)
      with gt show ?thesis by (rule that(3))
    qed
  qed
qed

lemma ranks_cmp:
  assumes "ivs_wf V rank rs" "v \<in> V"
  shows "rank v \<in> ivs_ranks rank rs \<longleftrightarrow> (\<exists>i<length rs. interval_cmp (rs ! i) v = Equal)"
proof -
  have "interval_cmp r v = Equal \<longleftrightarrow> rank v \<in> iv_ranks rank r" if "r \<in> set rs" for r
    using ivs_wf_ok [OF assms(1) that] assms(2) by (simp add: interval_cmp_iff)
  then show ?thesis by (metis (no_types, lifting) UN_iff in_set_conv_nth ivs_ranks_def nth_mem)
qed

lemma is_contains_spec:
  assumes wf: "ivs_wf V rank (is_intervals self)" and v: "v \<in> V"
  shows "is_contains self v = Some (rank v \<in> ivs_ranks rank (is_intervals self))"
proof (cases rule: binary_search_with_spec [OF wf v, of "\<lambda>_. True" "\<lambda>_. False" "\<lambda>_. False", case_names Eq Lt Gt])
  case (Eq m)
  then show ?thesis using ranks_cmp [OF wf v] by (auto simp: is_contains_def)
next
  case (Lt b)
  have "interval_cmp (is_intervals self ! i) v \<noteq> Equal" if "i < length (is_intervals self)" for i
    using Lt that cmp_nth(2) [OF wf v, of i b] by (cases "i < b"; cases "i = b") auto
  then show ?thesis using Lt(4) ranks_cmp [OF wf v] by (auto simp: is_contains_def)
next
  case Gt
  then show ?thesis using ranks_cmp [OF wf v] by (auto simp: is_contains_def)
qed

lemma index_for_spec:
  assumes wf: "ivs_wf V rank (is_intervals self)" and ok: "iv_ok V rank a"
  shows "\<exists>i. index_for self a = Some i \<and> i \<le> length (is_intervals self) \<and>
             (\<forall>b\<in>set (take i (is_intervals self)). before rank b a)"
proof -
  have v: "iv_start a \<in> V" using ok by (simp add: iv_ok_def)
  let ?rs = "is_intervals self"
  have before: "\<forall>b\<in>set (take m ?rs). before rank b a"
    if "m < length ?rs" "interval_cmp (?rs ! m) (iv_start a) \<noteq> Greater" for m
  proof
    fix b assume "b \<in> set (take m ?rs)"
    then obtain i where i: "i < m" "b = ?rs ! i" using that(1) by (auto simp: in_set_conv_nth)
    have "before rank b (?rs ! m)" using wf_nth [OF wf i(1) that(1)] i(2) by simp
    moreover have "iv_ok V rank (?rs ! m)" using ivs_wf_ok [OF wf] that(1) by simp
    ultimately show "before rank b a"
      using that(2) v by (auto simp: interval_cmp_iff before_def iv_ok_def iv_ranks_def split: if_splits)
  qed
  show ?thesis
  proof (cases "interval_count self < 16")
    case True
    then show ?thesis by (simp add: index_for_def)
  next
    case F: False
    show ?thesis
    proof (cases rule: binary_search_with_spec
        [OF wf v, of "\<lambda>i. i" "\<lambda>i. i" "\<lambda>i. i", case_names Eq Lt Gt])
      case (Eq m)
      with F before [of m] show ?thesis by (simp add: index_for_def)
    next
      case (Lt b)
      with F before [of b] show ?thesis by (simp add: index_for_def)
    next
      case Gt
      with F show ?thesis by (simp add: index_for_def)
    qed
  qed
qed

section \<open>The set operations\<close>

lemma from_range_bounds_Included:
  assumes "x \<in> V" "y \<in> V"
  shows "from_range_bounds ib (Included x, Included y) =
    (if rank x \<le> rank y then Inr \<lparr>iv_start = x, iv_end = y\<rparr> else Inl InvalidInterval)"
  using assms by (simp add: from_range_bounds_def is_valid_def rank_le Let_def)

lemma is_insert_sound:
  assumes wf: "ivs_wf V rank (is_intervals self)" and x: "x \<in> V" "y \<in> V" "rank x \<le> rank y"
    and lim: "is_limit self \<noteq> Some 0"
  shows "\<exists>res self'. is_insert ib self (Included x, Included y) = Some (res, self') \<and>
    ivs_wf V rank (is_intervals self') \<and> is_limit self' = is_limit self \<and>
    (case res of
       Inl e \<Rightarrow> e = LimitExceeded \<and> self' = self \<and>
         (\<exists>l. is_limit self = Some l \<and> l \<le> length (is_intervals self)) \<and>
         (\<forall>b\<in>set (is_intervals self). \<not> touched rank \<lparr>iv_start = x, iv_end = y\<rparr> b)
     | Inr modified \<Rightarrow>
         ivs_ranks rank (is_intervals self') = ivs_ranks rank (is_intervals self) \<union> {rank x..rank y} \<and>
         (modified \<longleftrightarrow> \<not> {rank x..rank y} \<subseteq> ivs_ranks rank (is_intervals self)) \<and>
         is_intervals self' \<noteq> [] \<and>
         (\<forall>l. is_limit self = Some l \<longrightarrow> length (is_intervals self) \<le> l \<longrightarrow> length (is_intervals self') \<le> l))"
proof -
  let ?a = "\<lparr>iv_start = x, iv_end = y\<rparr>"
  have ok: "iv_ok V rank ?a" using x by (simp add: iv_ok_def)
  have b: "from_range_bounds ib (Included x, Included y) = Inr ?a"
    using x by (simp add: from_range_bounds_Included)
  have ranks: "iv_ranks rank ?a = {rank x..rank y}" by (simp add: iv_ranks_def)
  show ?thesis
  proof (cases "is_intervals self = []")
    case True
    then show ?thesis using b ok x lim by (auto simp: is_insert_def ranks)
  next
    case False
    obtain i where i: "index_for self ?a = Some i" "i \<le> length (is_intervals self)"
      "\<forall>b\<in>set (take i (is_intervals self)). before rank b ?a"
      using index_for_spec [OF wf ok] by auto
    obtain res rs' where r: "interval_insert ib (is_intervals self) ?a i (is_limit self) = Some (res, rs')"
      "ivs_wf V rank rs'" "case res of
       Inl e \<Rightarrow> e = LimitExceeded \<and> rs' = is_intervals self \<and>
         (\<exists>l. is_limit self = Some l \<and> l \<le> length (is_intervals self)) \<and>
                (\<forall>b\<in>set (is_intervals self). \<not> touched rank ?a b)
     | Inr (idx, modified) \<Rightarrow>
         ivs_ranks rank rs' = ivs_ranks rank (is_intervals self) \<union> iv_ranks rank ?a \<and>
         (modified \<longleftrightarrow> \<not> iv_ranks rank ?a \<subseteq> ivs_ranks rank (is_intervals self)) \<and>
         (\<not> modified \<longrightarrow> rs' = is_intervals self) \<and> covers_below ?a idx rs' \<and> rs' \<noteq> [] \<and>
         (\<forall>l. is_limit self = Some l \<longrightarrow> length (is_intervals self) \<le> l \<longrightarrow> length rs' \<le> l)"
      using interval_insert_sound [OF wf ok i(3,2), of "is_limit self"] by auto
    have "is_insert ib self (Included x, Included y) =
        Some (map_sum id snd res, self\<lparr>is_intervals := rs'\<rparr>)"
      using b False i(1) r(1) by (simp add: is_insert_def)
    then show ?thesis
      using r(2,3) by (cases res) (simp_all add: ranks split_beta)
  qed
qed

lemma is_remove_sound:
  assumes wf: "ivs_wf V rank (is_intervals self)" and x: "x \<in> V" "y \<in> V" "rank x \<le> rank y"
  shows "\<exists>res self'. is_remove ib self (Included x, Included y) = Some (res, self') \<and>
    ivs_wf V rank (is_intervals self') \<and> is_limit self' = is_limit self \<and>
    (case res of
       Inl e \<Rightarrow> e = LimitExceeded \<and> self' = self \<and>
         (\<exists>l. is_limit self = Some l \<and> l \<le> length (is_intervals self) + 1) \<and>
         (\<exists>b\<in>set (is_intervals self). rank (iv_start b) < rank x \<and> rank y < rank (iv_end b))
     | Inr _ \<Rightarrow> ivs_ranks rank (is_intervals self') = ivs_ranks rank (is_intervals self) - {rank x..rank y})"
proof -
  let ?a = "\<lparr>iv_start = x, iv_end = y\<rparr>"
  have ok: "iv_ok V rank ?a" using x by (simp add: iv_ok_def)
  have b: "from_range_bounds ib (Included x, Included y) = Inr ?a"
    using x by (simp add: from_range_bounds_Included)
  have ranks: "iv_ranks rank ?a = {rank x..rank y}" by (simp add: iv_ranks_def)
  show ?thesis
  proof (cases "is_intervals self = []")
    case True
    then show ?thesis using b by (simp add: is_remove_def)
  next
    case False
    obtain i where i: "index_for self ?a = Some i" "i \<le> length (is_intervals self)"
      "\<forall>b\<in>set (take i (is_intervals self)). before rank b ?a"
      using index_for_spec [OF wf ok] by auto
    note spec = interval_remove_spec [OF wf ok i(3,2), of "is_limit self"] ivs_minus_spec [OF ok wf]
    show ?thesis
      using b False i(1) spec wf by (auto simp: is_remove_def ranks split: if_splits)
  qed
qed

lemma union_apply_spec:
  assumes "ivs_wf V rank rs" "iv_ok V rank a" "\<forall>b\<in>set (take i rs). before rank b a" "i \<le> length rs"
  shows "if union_blocked rank limit rs a then union_apply ib rs a i limit = Some (Inl LimitExceeded, rs)
    else \<exists>idx rs'. union_apply ib rs a i limit = Some (Inr idx, rs') \<and> ivs_wf V rank rs' \<and>
      ivs_ranks rank rs' = ivs_ranks rank rs \<union> iv_ranks rank a \<and> covers_below a idx rs'"
proof -
  from interval_insert_sound [OF assms, of limit] obtain res rs' where
    r: "interval_insert ib rs a i limit = Some (res, rs')" "ivs_wf V rank rs'" and
    c: "case res of
       Inl e \<Rightarrow> e = LimitExceeded \<and> rs' = rs \<and>
         (\<exists>l. limit = Some l \<and> l \<le> length rs) \<and> (\<forall>b\<in>set rs. \<not> touched rank a b)
     | Inr (idx, modified) \<Rightarrow>
         ivs_ranks rank rs' = ivs_ranks rank rs \<union> iv_ranks rank a \<and>
         (modified \<longleftrightarrow> \<not> iv_ranks rank a \<subseteq> ivs_ranks rank rs) \<and>
         (\<not> modified \<longrightarrow> rs' = rs) \<and> covers_below a idx rs' \<and> rs' \<noteq> [] \<and>
         (\<forall>l. limit = Some l \<longrightarrow> length rs \<le> l \<longrightarrow> length rs' \<le> l)"
    by auto
  show ?thesis
  proof (cases res)
    case (Inl e)
    with r c show ?thesis by (auto simp: union_apply_def union_blocked_def)
  next
    case (Inr p)
    then have "\<not> union_blocked rank limit rs a"
      using r(1) interval_insert_refuses [OF assms, of limit] by (auto simp: union_blocked_def)
    with Inr r c show ?thesis by (cases p) (auto simp: union_apply_def)
  qed
qed

lemma difference_apply_spec:
  assumes "ivs_wf V rank rs" "iv_ok V rank a" "\<forall>b\<in>set (take i rs). before rank b a" "i \<le> length rs"
  shows "if difference_blocked rank limit rs a then interval_remove ib rs a i limit = Some (Inl LimitExceeded, rs)
    else \<exists>idx rs'. interval_remove ib rs a i limit = Some (Inr idx, rs') \<and> ivs_wf V rank rs' \<and>
      ivs_ranks rank rs' = ivs_ranks rank rs - iv_ranks rank a \<and> covers_below a idx rs'"
  using interval_remove_spec [OF assms, of limit] ivs_minus_spec [OF assms(2,1)]
  by (auto simp: difference_blocked_def split: if_splits)

text \<open>
  The loop of a set operation, for any operation on single intervals that fails exactly when it is
  blocked and otherwise combines the sets.
\<close>

lemma stops_at_0:
  assumes "ivs_wf V rank rs" "\<And>A. comb A {} = A"
  shows "stops_at V rank comb blocked rs (c # others) 0 \<longleftrightarrow> blocked rs c"
  using assms ivs_wf_unique [OF assms(1)] by (auto simp: stops_at_def)

lemma stops_at_Suc:
  assumes "\<And>A B C. comb (comb A B) C = comb A (B \<union> C)"
    and "ivs_ranks rank rs' = comb (ivs_ranks rank rs) (iv_ranks rank c)"
  shows "stops_at V rank comb blocked rs (c # others) (Suc k) \<longleftrightarrow> stops_at V rank comb blocked rs' others k"
  by (simp add: stops_at_def assms)

lemma outcome_Cons:
  assumes wf: "ivs_wf V rank rs"
    and comb: "\<And>A. comb A {} = A" "\<And>A B C. comb (comb A B) C = comb A (B \<union> C)"
    and rs': "\<not> blocked rs c" "ivs_ranks rank rs' = comb (ivs_ranks rank rs) (iv_ranks rank c)"
    and out: "set_operation_outcome V rank comb blocked rs' others res rs''"
  shows "set_operation_outcome V rank comb blocked rs (c # others) res rs''"
proof -
  note zero = stops_at_0 [where comb = comb, OF wf comb(1), of blocked c others]
  note Suc = stops_at_Suc [where comb = comb, OF comb(2) rs'(2), of blocked others]
  show ?thesis
  proof (cases res)
    case (Inl e)
    with out obtain k where k: "e = LimitExceeded" "stops_at V rank comb blocked rs' others k"
      "\<forall>j<k. \<not> stops_at V rank comb blocked rs' others j"
      "ivs_ranks rank rs'' = comb (ivs_ranks rank rs') (ivs_ranks rank (take k others))"
      by (auto simp: set_operation_outcome_def)
    have "\<forall>j<Suc k. \<not> stops_at V rank comb blocked rs (c # others) j"
      using k(3) rs'(1) zero Suc by (auto simp: less_Suc_eq_0_disj)
    with k Inl Suc show ?thesis
      by (auto simp: set_operation_outcome_def rs'(2) comb(2) intro!: exI [of _ "Suc k"])
  next
    case (Inr u)
    then have "\<not> stops_at V rank comb blocked rs (c # others) k" for k
      using out rs'(1) zero Suc by (cases k) (auto simp: set_operation_outcome_def)
    with Inr out show ?thesis by (simp add: set_operation_outcome_def rs'(2) comb(2))
  qed
qed

lemma set_operation_loop_sound:
  assumes comb: "\<And>A. comb A {} = A" "\<And>A B C. comb (comb A B) C = comb A (B \<union> C)"
    and step: "\<And>rs c i. ivs_wf V rank rs \<Longrightarrow> iv_ok V rank c \<Longrightarrow> \<forall>b\<in>set (take i rs). before rank b c \<Longrightarrow>
      i \<le> length rs \<Longrightarrow> if blocked rs c then app rs c i limit = Some (Inl LimitExceeded, rs)
      else \<exists>idx rs'. app rs c i limit = Some (Inr idx, rs') \<and> ivs_wf V rank rs' \<and>
        ivs_ranks rank rs' = comb (ivs_ranks rank rs) (iv_ranks rank c) \<and> covers_below c idx rs'"
    and pre: "ivs_wf V rank rs" "ivs_wf V rank others" "idx \<le> length rs"
      "\<forall>b\<in>set (take idx rs). \<forall>c\<in>set others. before rank b c"
  shows "\<exists>res rs'. set_operation_loop app limit others idx rs = Some (res, rs') \<and> ivs_wf V rank rs' \<and>
    set_operation_outcome V rank comb blocked rs others res rs'"
  using pre
proof (induction others arbitrary: rs idx)
  case Nil
  then show ?case by (simp add: set_operation_outcome_def stops_at_def comb(1))
next
  case (Cons c others)
  have ok: "iv_ok V rank c" using Cons.prems by simp
  have "\<forall>b\<in>set (take idx rs). before rank b c" using Cons.prems(4) by simp
  note step = step [OF Cons.prems(1) ok this Cons.prems(3)]
  show ?case
  proof (cases "blocked rs c")
    case True
    then have "stops_at V rank comb blocked rs (c # others) 0"
      using stops_at_0 [where comb = comb, OF Cons.prems(1) comb(1)] by blast
    with True step Cons.prems(1) show ?thesis
      by (auto simp: set_operation_outcome_def comb(1) intro!: exI [of _ 0])
  next
    case False
    with step obtain idx' rs' where r: "app rs c idx limit = Some (Inr idx', rs')" "ivs_wf V rank rs'"
      "ivs_ranks rank rs' = comb (ivs_ranks rank rs) (iv_ranks rank c)" "covers_below c idx' rs'" by auto
    have "\<forall>b\<in>set (take idx' rs'). \<forall>d\<in>set others. before rank b d"
      using r(4) Cons.prems(2) by (fastforce simp: covers_below_def before_def)
    with Cons.IH [OF r(2), of idx'] Cons.prems(2) r(4)
    obtain res rs'' where "set_operation_loop app limit others idx' rs' = Some (res, rs'')"
      "ivs_wf V rank rs''" "set_operation_outcome V rank comb blocked rs' others res rs''"
      unfolding covers_below_def by auto
    with r(1) outcome_Cons [where comb = comb and blocked = blocked, OF Cons.prems(1) comb False r(3)] show ?thesis by auto
  qed
qed

lemma index_for_first:
  assumes "ivs_wf V rank (is_intervals self)" "ivs_wf V rank (c # cs)"
  obtains i where "index_for self c = Some i" "i \<le> length (is_intervals self)"
    "\<forall>b\<in>set (take i (is_intervals self)). \<forall>d\<in>set (c # cs). before rank b d"
proof -
  have "iv_ok V rank c" using assms(2) by simp
  from index_for_spec [OF assms(1) this] obtain i where i: "index_for self c = Some i"
    "i \<le> length (is_intervals self)" "\<forall>b\<in>set (take i (is_intervals self)). before rank b c" by auto
  moreover have "\<forall>b\<in>set (take i (is_intervals self)). \<forall>d\<in>set (c # cs). before rank b d"
    using i(3) assms(2) by (fastforce simp: before_def iv_ok_def)
  ultimately show ?thesis using that by blast
qed

lemma set_operation_sound:
  assumes wf: "ivs_wf V rank (is_intervals self)" "ivs_wf V rank (is_intervals other)"
    and comb: "\<And>A. comb A {} = A" "\<And>A B C. comb (comb A B) C = comb A (B \<union> C)"
    and step: "\<And>rs c i. ivs_wf V rank rs \<Longrightarrow> iv_ok V rank c \<Longrightarrow> \<forall>b\<in>set (take i rs). before rank b c \<Longrightarrow>
      i \<le> length rs \<Longrightarrow> if blocked rs c then app rs c i (is_limit self) = Some (Inl LimitExceeded, rs)
      else \<exists>idx rs'. app rs c i (is_limit self) = Some (Inr idx, rs') \<and> ivs_wf V rank rs' \<and>
        ivs_ranks rank rs' = comb (ivs_ranks rank rs) (iv_ranks rank c) \<and> covers_below c idx rs'"
  shows "\<exists>res self'. set_operation self other app = Some (res, self') \<and>
    ivs_wf V rank (is_intervals self') \<and> is_limit self' = is_limit self \<and>
    set_operation_outcome V rank comb blocked (is_intervals self) (is_intervals other) res (is_intervals self')"
proof (cases "is_intervals other")
  case Nil
  then show ?thesis using wf by (simp add: set_operation_def set_operation_outcome_def stops_at_def comb(1))
next
  case other: (Cons c cs)
  from index_for_first [OF wf(1), of c cs] wf(2) obtain i where
    i: "index_for self c = Some i" "i \<le> length (is_intervals self)"
    "\<forall>b\<in>set (take i (is_intervals self)). \<forall>d\<in>set (c # cs). before rank b d" by (auto simp: other)
  obtain res rs' where "set_operation_loop app (is_limit self) (c # cs) i (is_intervals self) = Some (res, rs')"
    "ivs_wf V rank rs'" "set_operation_outcome V rank comb blocked (is_intervals self) (c # cs) res rs'"
    using set_operation_loop_sound [where comb = comb and blocked = blocked and app = app and limit = "is_limit self",
        OF comb step wf(1) wf(2) [unfolded other] i(2,3)] by blast
  with i(1) show ?thesis by (simp add: set_operation_def other del: set_operation_loop.simps)
qed

lemma is_union_sound:
  assumes wf: "ivs_wf V rank (is_intervals self)" "ivs_wf V rank (is_intervals other)"
    and ne: "is_intervals self \<noteq> []"
  shows "\<exists>res self'. is_union ib self other = Some (res, self') \<and>
    ivs_wf V rank (is_intervals self') \<and> is_limit self' = is_limit self \<and>
    set_operation_outcome V rank (\<union>) (union_blocked rank (is_limit self)) (is_intervals self) (is_intervals other)
      res (is_intervals self')"
  using ne by (simp add: is_union_def)
    (rule set_operation_sound [where comb = "(\<union>)" and blocked = "union_blocked rank (is_limit self)" and app = "union_apply ib",
      OF wf _ _ union_apply_spec]; blast)

lemma is_difference_sound:
  assumes wf: "ivs_wf V rank (is_intervals self)" "ivs_wf V rank (is_intervals other)"
    and ne: "is_intervals self \<noteq> []"
  shows "\<exists>res self'. is_difference ib self other = Some (res, self') \<and>
    ivs_wf V rank (is_intervals self') \<and> is_limit self' = is_limit self \<and>
    set_operation_outcome V rank (-) (difference_blocked rank (is_limit self)) (is_intervals self) (is_intervals other)
      res (is_intervals self')"
  using ne by (simp add: is_difference_def)
    (rule set_operation_sound [where comb = "(-)" and blocked = "difference_blocked rank (is_limit self)" and app = "interval_remove ib",
      OF wf _ _ difference_apply_spec]; blast)

lemma is_intersection_sound:
  assumes wf: "ivs_wf V rank (is_intervals self)" "ivs_wf V rank (is_intervals other)"
  shows "ivs_wf V rank (is_intervals (is_intersection ib self other))"
    "ivs_ranks rank (is_intervals (is_intersection ib self other)) =
       ivs_ranks rank (is_intervals self) \<inter> ivs_ranks rank (is_intervals other)"
    "length (is_intervals self) + length (is_intervals other) < fuel \<Longrightarrow>
     iterate (intersection_next ib) fuel (intersection_iter self other) =
       Some (is_intervals (is_intersection ib self other))"
proof -
  have len: "length (isect as bs) \<le> length as + length bs" for as bs :: "'a interval list"
    by (induction as bs rule: isect.induct) auto
  show "ivs_wf V rank (is_intervals (is_intersection ib self other))"
    "ivs_ranks rank (is_intervals (is_intersection ib self other)) =
       ivs_ranks rank (is_intervals self) \<inter> ivs_ranks rank (is_intervals other)"
    using isect_spec [OF wf] by (simp_all add: is_intersection_def intersection_apply_isect [OF wf])
  show "length (is_intervals self) + length (is_intervals other) < fuel \<Longrightarrow>
     iterate (intersection_next ib) fuel (intersection_iter self other) =
       Some (is_intervals (is_intersection ib self other))"
    using iterate_intersection [of "intersection_new (is_intervals self) (is_intervals other)" fuel] wf
      le_less_trans [OF len, of "is_intervals self" "is_intervals other" fuel]
    by (simp add: is_intersection_def intersection_iter_def intersection_apply_isect [OF wf])
qed

end

section \<open>Properties of sets of packet numbers\<close>

text \<open>
  The packet numbers in a set, as natural numbers, and well-formedness: the intervals hold packet
  numbers of one space, are ordered, and are separated by at least one missing number. The limit
  is a \<open>NonZeroUsize\<close>.
\<close>

definition pn_set :: "packet_number interval_set \<Rightarrow> nat set" where
  "pn_set self = ivs_ranks pn_val (is_intervals self)"

definition pn_set_wf :: "packet_number_space \<Rightarrow> packet_number interval_set \<Rightarrow> bool" where
  "pn_set_wf s self \<longleftrightarrow> ivs_wf {p. pn_in s p} pn_val (is_intervals self) \<and> is_limit self \<noteq> Some 0"

definition first_intervals :: "nat \<Rightarrow> 'a interval_set \<Rightarrow> 'a interval_set" where
  "first_intervals k self = self\<lparr>is_intervals := take k (is_intervals self)\<rparr>"

text \<open>
  The \<open>k\<close>-th interval of \<open>other\<close> is blocked: \<open>mid\<close> is what the set has become by then.
\<close>

definition union_stops ::
    "packet_number_space \<Rightarrow> packet_number interval_set \<Rightarrow> packet_number interval_set \<Rightarrow> nat \<Rightarrow> bool" where
  "union_stops s self other k \<longleftrightarrow> k < interval_count other \<and>
     (\<exists>mid. pn_set_wf s mid \<and> is_limit mid = is_limit self \<and>
        pn_set mid = pn_set self \<union> pn_set (first_intervals k other) \<and>
        (\<exists>l. is_limit mid = Some l \<and> l \<le> interval_count mid) \<and>
        (\<forall>n\<in>pn_set mid. n + 1 < pn_val (iv_start (is_intervals other ! k)) \<or>
           pn_val (iv_end (is_intervals other ! k)) + 1 < n))"

definition difference_stops ::
    "packet_number_space \<Rightarrow> packet_number interval_set \<Rightarrow> packet_number interval_set \<Rightarrow> nat \<Rightarrow> bool" where
  "difference_stops s self other k \<longleftrightarrow> k < interval_count other \<and>
     (\<exists>mid. pn_set_wf s mid \<and> is_limit mid = is_limit self \<and>
        pn_set mid = pn_set self - pn_set (first_intervals k other) \<and>
        (\<exists>l. is_limit mid = Some l \<and> l < interval_count mid + 2) \<and>
        (\<exists>b\<in>set (is_intervals mid). pn_val (iv_start b) < pn_val (iv_start (is_intervals other ! k)) \<and>
           pn_val (iv_end (is_intervals other ! k)) < pn_val (iv_end b)))"

lemma untouched_iff:
  assumes "ivs_wf V rank rs" "iv_ok V rank c"
  shows "(\<forall>b\<in>set rs. \<not> touched rank c b) \<longleftrightarrow>
    (\<forall>n\<in>ivs_ranks rank rs. n + 1 < rank (iv_start c) \<or> rank (iv_end c) + 1 < n)"
proof -
  have "\<not> touched rank c b \<longleftrightarrow> (\<forall>n\<in>iv_ranks rank b. n + 1 < rank (iv_start c) \<or> rank (iv_end c) + 1 < n)"
    if "iv_ok V rank b" for b
  proof
    assume "\<not> touched rank c b"
    then show "\<forall>n\<in>iv_ranks rank b. n + 1 < rank (iv_start c) \<or> rank (iv_end c) + 1 < n"
      using that assms(2) by (auto simp: touched_def before_def iv_ranks_def iv_ok_def)
  next
    assume far: "\<forall>n\<in>iv_ranks rank b. n + 1 < rank (iv_start c) \<or> rank (iv_end c) + 1 < n"
    let ?n = "max (rank (iv_start b)) (min (rank (iv_end b)) (rank (iv_start c) - 1))"
    have "?n \<in> iv_ranks rank b" using that by (auto simp: iv_ranks_def iv_ok_def)
    with far have "?n + 1 < rank (iv_start c) \<or> rank (iv_end c) + 1 < ?n" by blast
    then show "\<not> touched rank c b"
      using that assms(2) by (auto simp: touched_def before_def iv_ok_def)
  qed
  with assms(1) show ?thesis by (auto simp: ivs_ranks_def ivs_wf_def list_all_iff)
qed

lemma mid_iff:
  "(\<exists>mid. pn_set_wf s mid \<and> is_limit mid = l \<and> P (is_limit mid) (is_intervals mid)) \<longleftrightarrow>
   l \<noteq> Some 0 \<and> (\<exists>rs. ivs_wf {p. pn_in s p} pn_val rs \<and> P l rs)"
proof
  assume "l \<noteq> Some 0 \<and> (\<exists>rs. ivs_wf {p. pn_in s p} pn_val rs \<and> P l rs)"
  then obtain rs where "l \<noteq> Some 0" "ivs_wf {p. pn_in s p} pn_val rs" "P l rs" by blast
  then show "\<exists>mid. pn_set_wf s mid \<and> is_limit mid = l \<and> P (is_limit mid) (is_intervals mid)"
    by (intro exI [of _ "\<lparr>is_limit = l, is_intervals = rs\<rparr>"]) (simp add: pn_set_wf_def)
qed (auto simp: pn_set_wf_def)

lemma stops_iff:
  assumes "is_limit self \<noteq> Some 0"
  shows "pn_set_wf s other \<Longrightarrow> union_stops s self other k \<longleftrightarrow> stops_at {p. pn_in s p} pn_val (\<union>) (union_blocked pn_val (is_limit self))
           (is_intervals self) (is_intervals other) k"
    "difference_stops s self other k \<longleftrightarrow> stops_at {p. pn_in s p} pn_val (-) (difference_blocked pn_val (is_limit self))
           (is_intervals self) (is_intervals other) k"
proof -
  let ?c = "is_intervals other ! k"
  show "difference_stops s self other k \<longleftrightarrow> stops_at {p. pn_in s p} pn_val (-) (difference_blocked pn_val (is_limit self))
           (is_intervals self) (is_intervals other) k"
    using mid_iff [of s "is_limit self" "\<lambda>l rs. ivs_ranks pn_val rs = pn_set self - pn_set (first_intervals k other) \<and>
        difference_blocked pn_val l rs ?c"] assms
    by (simp add: difference_stops_def stops_at_def difference_blocked_def pn_set_def first_intervals_def
        interval_count_def less_Suc_eq_le)
  assume wf: "pn_set_wf s other"
  have c: "iv_ok {p. pn_in s p} pn_val ?c" if "k < length (is_intervals other)"
    using that wf by (auto simp: pn_set_wf_def ivs_wf_def list_all_iff)
  have far: "(\<forall>n\<in>pn_set mid. n + 1 < pn_val (iv_start ?c) \<or> pn_val (iv_end ?c) + 1 < n) \<longleftrightarrow>
      (\<forall>b\<in>set (is_intervals mid). \<not> touched pn_val ?c b)" if "k < length (is_intervals other)" "pn_set_wf s mid" for mid
    using that untouched_iff [of "{p. pn_in s p}" pn_val "is_intervals mid" ?c] c by (simp add: pn_set_wf_def pn_set_def)
  have "union_stops s self other k \<longleftrightarrow> k < length (is_intervals other) \<and>
      (\<exists>mid. pn_set_wf s mid \<and> is_limit mid = is_limit self \<and>
        ivs_ranks pn_val (is_intervals mid) = pn_set self \<union> pn_set (first_intervals k other) \<and>
        union_blocked pn_val (is_limit mid) (is_intervals mid) ?c)"
    unfolding union_stops_def union_blocked_def interval_count_def pn_set_def [symmetric]
    using far by (intro conj_cong refl ex_cong1) blast
  then show "union_stops s self other k \<longleftrightarrow> stops_at {p. pn_in s p} pn_val (\<union>) (union_blocked pn_val (is_limit self))
           (is_intervals self) (is_intervals other) k"
    using mid_iff [of s "is_limit self" "\<lambda>l rs. ivs_ranks pn_val rs = pn_set self \<union> pn_set (first_intervals k other) \<and>
        union_blocked pn_val l rs ?c"] assms
    by (simp add: stops_at_def pn_set_def first_intervals_def)
qed

lemma pn_set_examples:
  "pn_set_wf Initial (with_limit 1)" "pn_set (with_limit 1) = {}"
  "varint_valid a \<Longrightarrow> varint_valid b \<Longrightarrow> a \<le> b \<Longrightarrow> l \<noteq> Some 0 \<Longrightarrow>
     pn_set_wf Initial \<lparr>is_limit = l, is_intervals =
       [\<lparr>iv_start = pn_from_varint a Initial, iv_end = pn_from_varint b Initial\<rparr>]\<rparr>"
  "varint_valid a \<Longrightarrow> varint_valid b \<Longrightarrow>
     pn_set \<lparr>is_limit = l, is_intervals =
       [\<lparr>iv_start = pn_from_varint a Initial, iv_end = pn_from_varint b Initial\<rparr>]\<rparr> = {unat a..unat b}"
  by (simp_all add: pn_set_wf_def pn_set_def with_limit_def set_limit_def interval_set_new_def
      ivs_wf_def ivs_ranks_def iv_ok_def iv_ranks_def word_le_nat_alt)

text \<open>
  C11. Insertion. Inserting a range of packet numbers into a well-formed set never panics and keeps
  the set well-formed and its limit. If it succeeds, the set is the union of the old set and the
  range, the returned flag says whether anything was added, and the number of intervals stays
  within the limit. It fails only with \<open>LimitExceeded\<close>, when the limit is reached and no interval of
  the set overlaps or touches the range; the set is then unchanged.
\<close>

theorem interval_set_insert:
  assumes "pn_set_wf s self" "pn_in s x" "pn_in s y" "pn_val x \<le> pn_val y"
  shows "\<exists>res self'. is_insert packet_number_bound self (Included x, Included y) = Some (res, self') \<and>
    pn_set_wf s self' \<and> is_limit self' = is_limit self \<and>
    (case res of
       Inl e \<Rightarrow> e = LimitExceeded \<and> self' = self \<and>
         (\<exists>l. is_limit self = Some l \<and> l \<le> interval_count self) \<and>
         (\<forall>n\<in>pn_set self. n + 1 < pn_val x \<or> pn_val y + 1 < n)
     | Inr modified \<Rightarrow>
         pn_set self' = pn_set self \<union> {pn_val x..pn_val y} \<and>
         (modified \<longleftrightarrow> \<not> {pn_val x..pn_val y} \<subseteq> pn_set self) \<and>
         (\<forall>l. is_limit self = Some l \<longrightarrow> interval_count self \<le> l \<longrightarrow> interval_count self' \<le> l))"
proof -
  have V: "x \<in> {p. pn_in s p}" "y \<in> {p. pn_in s p}" using assms by auto
  have wf: "ivs_wf {p. pn_in s p} pn_val (is_intervals self)" "is_limit self \<noteq> Some 0"
    using assms(1) by (auto simp: pn_set_wf_def)
  have far: "n + 1 < pn_val x \<or> pn_val y + 1 < n"
    if "\<forall>b\<in>set (is_intervals self). \<not> touched pn_val \<lparr>iv_start = x, iv_end = y\<rparr> b" "n \<in> pn_set self" for n
    using that by (force simp: pn_set_def ivs_ranks_def iv_ranks_def touched_def before_def)
  obtain res self' where r: "is_insert packet_number_bound self (Included x, Included y) = Some (res, self')"
    "ivs_wf {p. pn_in s p} pn_val (is_intervals self')" "is_limit self' = is_limit self" "case res of
       Inl e \<Rightarrow> e = LimitExceeded \<and> self' = self \<and>
         (\<exists>l. is_limit self = Some l \<and> l \<le> length (is_intervals self)) \<and>
         (\<forall>b\<in>set (is_intervals self). \<not> touched pn_val \<lparr>iv_start = x, iv_end = y\<rparr> b)
     | Inr modified \<Rightarrow>
         ivs_ranks pn_val (is_intervals self') = ivs_ranks pn_val (is_intervals self) \<union> {pn_val x..pn_val y} \<and>
         (modified \<longleftrightarrow> \<not> {pn_val x..pn_val y} \<subseteq> ivs_ranks pn_val (is_intervals self)) \<and>
         is_intervals self' \<noteq> [] \<and>
         (\<forall>l. is_limit self = Some l \<longrightarrow> length (is_intervals self) \<le> l \<longrightarrow> length (is_intervals self') \<le> l)"
    using packet_number_bound.is_insert_sound [OF wf(1) V assms(4) wf(2)] by blast
  then show ?thesis
    using wf(2) far by (cases res) (auto simp: pn_set_wf_def pn_set_def interval_count_def)
qed

theorem interval_set_insert_witness:
  "\<exists>res self'. is_insert packet_number_bound \<lparr>is_limit = Some 1, is_intervals =
        [\<lparr>iv_start = pn_from_varint 5 Initial, iv_end = pn_from_varint 7 Initial\<rparr>]\<rparr>
        (Included (pn_from_varint 8 Initial), Included (pn_from_varint 9 Initial)) = Some (res, self') \<and>
     res = Inr True \<and> pn_set self' = {5..9}"
proof -
  have v: "varint_valid 5" "varint_valid 7" "varint_valid 8" "varint_valid 9"
    by (simp_all add: varint_valid_def MAX_VARINT_VALUE_def)
  let ?self = "\<lparr>is_limit = Some 1, is_intervals =
        [\<lparr>iv_start = pn_from_varint 5 Initial, iv_end = pn_from_varint 7 Initial\<rparr>]\<rparr>"
  have wf: "pn_set_wf Initial ?self" "pn_set ?self = {5..7}"
    using v by (simp_all add: pn_set_examples)
  have u: "{5..7} \<union> {8..9} = {5..9::nat}" by auto
  from interval_set_insert [OF wf(1) pn_from_varint_in [OF v(3)] pn_from_varint_in [OF v(4)]] v
  show ?thesis unfolding wf(2) by (auto simp: split_sum_ex u)
qed

text \<open>
  C19. Removal. Removing a range from a well-formed set never panics and keeps the set well-formed.
  If it succeeds, the set is the old one without the range. It fails only with \<open>LimitExceeded\<close>,
  when the range lies strictly inside one interval, so that a second one would be needed, and the
  number of intervals plus one is at least the limit; the set is then unchanged.
\<close>

theorem interval_set_remove:
  assumes "pn_set_wf s self" "pn_in s x" "pn_in s y" "pn_val x \<le> pn_val y"
  shows "\<exists>res self'. is_remove packet_number_bound self (Included x, Included y) = Some (res, self') \<and>
    pn_set_wf s self' \<and> is_limit self' = is_limit self \<and>
    (case res of
       Inl e \<Rightarrow> e = LimitExceeded \<and> self' = self \<and>
         (\<exists>l. is_limit self = Some l \<and> l \<le> interval_count self + 1) \<and>
         (\<exists>b\<in>set (is_intervals self). pn_val (iv_start b) < pn_val x \<and> pn_val y < pn_val (iv_end b))
     | Inr _ \<Rightarrow> pn_set self' = pn_set self - {pn_val x..pn_val y})"
proof -
  have V: "x \<in> {p. pn_in s p}" "y \<in> {p. pn_in s p}" using assms by auto
  have wf: "ivs_wf {p. pn_in s p} pn_val (is_intervals self)" "is_limit self \<noteq> Some 0"
    using assms(1) by (auto simp: pn_set_wf_def)
  obtain res self' where r: "is_remove packet_number_bound self (Included x, Included y) = Some (res, self')"
    "ivs_wf {p. pn_in s p} pn_val (is_intervals self')" "is_limit self' = is_limit self" "case res of
       Inl e \<Rightarrow> e = LimitExceeded \<and> self' = self \<and>
         (\<exists>l. is_limit self = Some l \<and> l \<le> length (is_intervals self) + 1) \<and>
         (\<exists>b\<in>set (is_intervals self). pn_val (iv_start b) < pn_val x \<and> pn_val y < pn_val (iv_end b))
     | Inr _ \<Rightarrow> ivs_ranks pn_val (is_intervals self') = ivs_ranks pn_val (is_intervals self) - {pn_val x..pn_val y}"
    using packet_number_bound.is_remove_sound [OF wf(1) V assms(4)] by blast
  then show ?thesis
    using wf(2) by (cases res) (auto simp: pn_set_wf_def pn_set_def interval_count_def)
qed

theorem interval_set_remove_witness:
  "\<exists>res self'. is_remove packet_number_bound \<lparr>is_limit = Some 2, is_intervals =
        [\<lparr>iv_start = pn_from_varint 5 Initial, iv_end = pn_from_varint 7 Initial\<rparr>]\<rparr>
        (Included (pn_from_varint 7 Initial), Included (pn_from_varint 9 Initial)) = Some (res, self') \<and>
     res = Inr () \<and> pn_set self' = {5..6}"
proof -
  have v: "varint_valid 5" "varint_valid 7" "varint_valid 9"
    by (simp_all add: varint_valid_def MAX_VARINT_VALUE_def)
  let ?self = "\<lparr>is_limit = Some 2, is_intervals =
        [\<lparr>iv_start = pn_from_varint 5 Initial, iv_end = pn_from_varint 7 Initial\<rparr>]\<rparr>"
  have wf: "pn_set_wf Initial ?self" "pn_set ?self = {5..7}"
    using v by (simp_all add: pn_set_examples)
  have u: "{5..7} - {7..9} = {5..6::nat}" by auto
  from interval_set_remove [OF wf(1) pn_from_varint_in [OF v(2)] pn_from_varint_in [OF v(3)]] v
  show ?thesis unfolding wf(2) by (auto simp: split_sum_ex u)
qed

text \<open>
  C22. Membership. On a well-formed set the binary search of \<open>contains\<close> ends without an index out of
  bounds and decides membership.
\<close>

theorem interval_set_contains:
  assumes "pn_set_wf s self" "pn_in s v"
  shows "is_contains self v = Some (pn_val v \<in> pn_set self)"
  using packet_number_bound.is_contains_spec [of s self v] assms by (simp add: pn_set_wf_def pn_set_def)

theorem interval_set_contains_witness:
  "is_contains \<lparr>is_limit = None, is_intervals =
     [\<lparr>iv_start = pn_from_varint 5 Initial, iv_end = pn_from_varint 7 Initial\<rparr>]\<rparr> (pn_from_varint 6 Initial) = Some True"
proof -
  have v: "varint_valid 5" "varint_valid 6" "varint_valid 7"
    by (simp_all add: varint_valid_def MAX_VARINT_VALUE_def)
  let ?self = "\<lparr>is_limit = None, is_intervals =
     [\<lparr>iv_start = pn_from_varint 5 Initial, iv_end = pn_from_varint 7 Initial\<rparr>]\<rparr>"
  have wf: "pn_set_wf Initial ?self" "pn_set ?self = {5..7}"
    using v by (simp_all add: pn_set_examples)
  show ?thesis using interval_set_contains [OF wf(1) pn_from_varint_in [OF v(2)]] v by (simp add: wf(2))
qed

text \<open>
  C21. Set operations. On well-formed sets of one space, \<open>union\<close> and \<open>difference\<close> never panic and
  keep the set well-formed and its limit. They succeed exactly when no interval of the other set is
  blocked by the limit, in particular without a limit, and then give the union or the difference of
  the two sets. Otherwise they fail with \<open>LimitExceeded\<close> at the first blocked interval, and the set
  has taken up exactly the intervals before it. An interval is blocked for \<open>union\<close> if the set has
  reached the limit and nothing overlaps or touches the interval, and for \<open>difference\<close> if the
  interval lies strictly inside one of the set and the set has no room for two more. An empty set takes
  over the other one whatever its limit.
\<close>

theorem interval_set_union_difference:
  assumes "pn_set_wf s self" "pn_set_wf s other"
  shows "(\<exists>res self'. is_union packet_number_bound self other = Some (res, self') \<and>
      pn_set_wf s self' \<and> is_limit self' = is_limit self \<and>
      (if is_intervals self \<noteq> [] \<and> (\<exists>k. union_stops s self other k)
       then res = Inl LimitExceeded \<and> (\<exists>k. union_stops s self other k \<and> (\<forall>j<k. \<not> union_stops s self other j) \<and>
         pn_set self' = pn_set self \<union> pn_set (first_intervals k other))
       else res = Inr () \<and> pn_set self' = pn_set self \<union> pn_set other)) \<and>
    (\<exists>res self'. is_difference packet_number_bound self other = Some (res, self') \<and>
      pn_set_wf s self' \<and> is_limit self' = is_limit self \<and>
      (if \<exists>k. difference_stops s self other k
       then res = Inl LimitExceeded \<and> (\<exists>k. difference_stops s self other k \<and>
         (\<forall>j<k. \<not> difference_stops s self other j) \<and> pn_set self' = pn_set self - pn_set (first_intervals k other))
       else res = Inr () \<and> pn_set self' = pn_set self - pn_set other))" (is "?U \<and> ?D")
proof
  have wf: "ivs_wf {p. pn_in s p} pn_val (is_intervals self)" "ivs_wf {p. pn_in s p} pn_val (is_intervals other)"
    "is_limit self \<noteq> Some 0" using assms by (auto simp: pn_set_wf_def)
  note stops = stops_iff(1) [OF wf(3) assms(2)] stops_iff(2) [OF wf(3)]
  show ?U
  proof (cases "is_intervals self = []")
    case True
    then show ?thesis using wf by (simp add: is_union_def pn_set_wf_def pn_set_def)
  next
    case False
    from packet_number_bound.is_union_sound [OF wf(1,2) this] obtain res self' where
      "is_union packet_number_bound self other = Some (res, self')" "pn_set_wf s self'" "is_limit self' = is_limit self"
      "set_operation_outcome {p. pn_in s p} pn_val (\<union>) (union_blocked pn_val (is_limit self)) (is_intervals self)
         (is_intervals other) res (is_intervals self')" using wf(3) by (auto simp: pn_set_wf_def)
    with False show ?thesis
      by (cases res) (auto simp: set_operation_outcome_def stops pn_set_def first_intervals_def)
  qed
  show ?D
  proof (cases "is_intervals self = []")
    case True
    then have "\<not> difference_stops s self other k" for k
      by (auto simp: stops stops_at_def difference_blocked_def ivs_ranks_def iv_ranks_def ivs_wf_def list_all_iff iv_ok_def)
    with True show ?thesis using wf by (simp add: is_difference_def pn_set_wf_def pn_set_def)
  next
    case False
    from packet_number_bound.is_difference_sound [OF wf(1,2) this] obtain res self' where
      "is_difference packet_number_bound self other = Some (res, self')" "pn_set_wf s self'" "is_limit self' = is_limit self"
      "set_operation_outcome {p. pn_in s p} pn_val (-) (difference_blocked pn_val (is_limit self)) (is_intervals self)
         (is_intervals other) res (is_intervals self')" using wf(3) by (auto simp: pn_set_wf_def)
    then show ?thesis
      by (cases res) (auto simp: set_operation_outcome_def stops pn_set_def first_intervals_def)
  qed
qed

text \<open>The limit is reached after the first of the two intervals has been joined to the only one.\<close>

theorem interval_set_union_difference_witness:
  "\<exists>self'. is_union packet_number_bound \<lparr>is_limit = Some 1, is_intervals =
        [\<lparr>iv_start = pn_from_varint 5 Initial, iv_end = pn_from_varint 7 Initial\<rparr>]\<rparr>
      \<lparr>is_limit = None, is_intervals =
        [\<lparr>iv_start = pn_from_varint 6 Initial, iv_end = pn_from_varint 9 Initial\<rparr>,
         \<lparr>iv_start = pn_from_varint 20 Initial, iv_end = pn_from_varint 30 Initial\<rparr>]\<rparr> = Some (Inl LimitExceeded, self') \<and>
     pn_set self' = {5..9}"
proof -
  let ?i = "\<lambda>a b. \<lparr>iv_start = pn_from_varint a Initial, iv_end = pn_from_varint b Initial\<rparr>"
  let ?self = "\<lparr>is_limit = Some 1, is_intervals = [?i 5 7]\<rparr>"
    and ?other = "\<lparr>is_limit = None, is_intervals = [?i 6 9, ?i 20 30]\<rparr>"
    and ?mid = "\<lparr>is_limit = Some 1, is_intervals = [?i 5 9]\<rparr>"
  have v: "varint_valid 5" "varint_valid 6" "varint_valid 7" "varint_valid 9" "varint_valid 20" "varint_valid 30"
    by (simp_all add: varint_valid_def MAX_VARINT_VALUE_def)
  have wf: "pn_set_wf Initial ?self" "pn_set_wf Initial ?mid" "pn_set ?self = {5..7}" "pn_set ?mid = {5..9}"
    "pn_set (first_intervals 1 ?other) = {6..9}" "pn_set (first_intervals 0 ?other) = {}"
    using v by (simp_all add: pn_set_examples first_intervals_def) (simp_all add: pn_set_def ivs_ranks_def iv_ranks_def)
  have other: "pn_set_wf Initial ?other"
    using v by (simp add: pn_set_wf_def ivs_wf_def iv_ok_def before_def word_le_nat_alt)
  have u: "{5..7} \<union> {6..9} = {5..9::nat}" by auto
  have stop: "union_stops Initial ?self ?other 1"
    unfolding union_stops_def using v wf by (intro conjI exI [of _ ?mid]) (auto simp: interval_count_def)
  have first: "k = 1" if k: "union_stops Initial ?self ?other k" for k
  proof -
    have "k < 2" using k by (simp add: union_stops_def interval_count_def)
    moreover have "k \<noteq> 0"
    proof
      assume "k = 0"
      with k v wf have "\<forall>n\<in>{5..7}. n + 1 < 6 \<or> 9 + 1 < (n::nat)" by (auto simp: union_stops_def)
      then show False by (auto dest: bspec [of _ _ 6])
    qed
    ultimately show ?thesis by simp
  qed
  from interval_set_union_difference [OF wf(1) other] stop first obtain self' where
    "is_union packet_number_bound ?self ?other = Some (Inl LimitExceeded, self')"
    "pn_set self' = pn_set ?self \<union> pn_set (first_intervals 1 ?other)" by (auto split: if_splits)
  then show ?thesis unfolding wf(3,5) u by blast
qed

text \<open>
  C20. Intersection. The in-place \<open>intersection\<close> of two well-formed sets is well-formed and contains
  exactly the common packet numbers, and the iterator of \<open>intersection_iter\<close> ends and yields exactly
  the intervals that the in-place version leaves.
\<close>

theorem interval_set_intersection:
  assumes "pn_set_wf s self" "pn_set_wf s other"
  shows "pn_set_wf s (is_intersection packet_number_bound self other) \<and>
    pn_set (is_intersection packet_number_bound self other) = pn_set self \<inter> pn_set other \<and>
    iterate (intersection_next packet_number_bound) (interval_count self + interval_count other + 1)
      (intersection_iter self other) = Some (is_intervals (is_intersection packet_number_bound self other))"
proof -
  have wf: "ivs_wf {p. pn_in s p} pn_val (is_intervals self)" "ivs_wf {p. pn_in s p} pn_val (is_intervals other)"
    "is_limit (is_intersection packet_number_bound self other) \<noteq> Some 0"
    using assms by (auto simp: pn_set_wf_def is_intersection_def)
  show ?thesis
    using packet_number_bound.is_intersection_sound [OF wf(1,2)] wf(3)
    by (simp add: pn_set_wf_def pn_set_def interval_count_def del: iterate.simps)
qed

theorem interval_set_intersection_witness:
  "pn_set (is_intersection packet_number_bound \<lparr>is_limit = None, is_intervals =
        [\<lparr>iv_start = pn_from_varint 5 Initial, iv_end = pn_from_varint 7 Initial\<rparr>]\<rparr>
      \<lparr>is_limit = None, is_intervals =
        [\<lparr>iv_start = pn_from_varint 6 Initial, iv_end = pn_from_varint 9 Initial\<rparr>]\<rparr>) = {6..7}"
proof -
  have v: "varint_valid 5" "varint_valid 6" "varint_valid 7" "varint_valid 9"
    by (simp_all add: varint_valid_def MAX_VARINT_VALUE_def)
  let ?s = "\<lambda>a b. \<lparr>is_limit = None, is_intervals =
        [\<lparr>iv_start = pn_from_varint a Initial, iv_end = pn_from_varint b Initial\<rparr>]\<rparr>"
  have wf: "pn_set_wf Initial (?s 5 7)" "pn_set_wf Initial (?s 6 9)" "pn_set (?s 5 7) = {5..7}" "pn_set (?s 6 9) = {6..9}"
    using v by (simp_all add: pn_set_examples)
  show ?thesis using interval_set_intersection [OF wf(1,2)] by (simp add: wf(3,4))
qed

end
