(* ===== verification/AckRanges.thy ===== *)
theory AckRanges
  imports IntervalSet
begin

text \<open>
  The packet numbers to acknowledge: \<^verbatim>\<open>quic/s2n-quic-core/src/ack/ranges.rs\<close>. An interval set of
  packet numbers with a limit, in which the lowest range makes room for a larger one.
\<close>

section \<open>Definitions\<close>

type_synonym ack_ranges = "packet_number interval_set"

datatype ack_ranges_error =
    RangeInsertionFailed packet_number packet_number
  | LowestRangeDropped packet_number packet_number

definition ranges_new :: "nat \<Rightarrow> ack_ranges option" where
  "ranges_new limit = (if limit = 0 then None else Some (with_limit limit))"

text \<open>
  \<open>insert\<close> reports a failure as an \<open>Err\<close> that leaves the set to the caller; the second attempt after
  \<open>pop_min\<close> is followed by \<open>map_err\<close> and \<open>?\<close>. The result of \<open>insert_front\<close> is discarded.
\<close>

definition insert_packet_number_range ::
    "ack_ranges \<Rightarrow> packet_number_range \<Rightarrow> ((ack_ranges_error + unit) \<times> ack_ranges) option" where
  "insert_packet_number_range self pn_range =
     (let interval = (Included (pnr_start pn_range), Included (pnr_end pn_range));
          failed = RangeInsertionFailed (pnr_start pn_range) (pnr_end pn_range) in
      case is_insert packet_number_bound self interval of
        None \<Rightarrow> None
      | Some (Inr _, self) \<Rightarrow> Some (Inr (), self)
      | Some (Inl _, self) \<Rightarrow>
          (case pop_min self of
             (Some lowest, self) \<Rightarrow>
               if interval_cmp lowest (pnr_start pn_range) = Less then
                 map_option (\<lambda>(insert_res, self).
                     (case insert_res of
                        Inl _ \<Rightarrow> Inl failed
                      | Inr _ \<Rightarrow> Inl (LowestRangeDropped (iv_start lowest) (iv_end lowest)), self))
                   (is_insert packet_number_bound self interval)
               else
                 map_option (\<lambda>(_, self). (Inl failed, self))
                   (is_insert_front packet_number_bound self (Included (iv_start lowest), Included (iv_end lowest)))
           | (None, self) \<Rightarrow> Some (Inl failed, self)))"

definition insert_packet_number ::
    "ack_ranges \<Rightarrow> packet_number \<Rightarrow> ((ack_ranges_error + unit) \<times> ack_ranges) option" where
  "insert_packet_number self packet_number =
     Option.bind (pnr_new packet_number packet_number) (insert_packet_number_range self)"

definition spread :: "ack_ranges \<Rightarrow> nat" where
  "spread self =
     (case (min_value self, max_value self) of
        (Some lo, Some hi) \<Rightarrow>
          unwrap_or usize_max (varint_try_into_usize (varint_sub (pn_as_varint hi) (pn_as_varint lo)))
      | _ \<Rightarrow> 0)"

text \<open>The iterator of \<open>ack_ranges\<close>, from the largest range down, as the list of what it yields.\<close>

definition ranges_ack_ranges :: "ack_ranges \<Rightarrow> (varint \<times> varint) list" where
  "ranges_ack_ranges self =
     map (\<lambda>range. (pn_as_varint (iv_start range), pn_as_varint (iv_end range))) (rev (is_intervals self))"

section \<open>Inserting at the front\<close>

context interval_bound
begin

lemma insert_front_before:
  assumes wf: "ivs_wf V rank (r # is_intervals self)"
    and lim: "\<forall>l. is_limit self = Some l \<longrightarrow> interval_count self < l"
  shows "\<exists>res. is_insert_front ib self (Included (iv_start r), Included (iv_end r)) =
           Some (res, self\<lparr>is_intervals := r # is_intervals self\<rparr>)"
proof (cases "is_intervals self = []")
  case True
  with wf show ?thesis by (simp add: is_insert_front_def from_range_bounds_Included iv_ok_def)
next
  case False
  have ok: "iv_ok V rank r" and wf': "ivs_wf V rank (is_intervals self)" using wf by auto
  have b: "from_range_bounds ib (Included (iv_start r), Included (iv_end r)) = Inr r"
    using ok by (simp add: from_range_bounds_Included iv_ok_def)
  from interval_insert_sound [OF wf' ok, of 0 "is_limit self"] obtain res rs' where
    r: "interval_insert ib (is_intervals self) r 0 (is_limit self) = Some (res, rs')" "ivs_wf V rank rs'"
    and c: "case res of
       Inl e \<Rightarrow> e = LimitExceeded \<and> rs' = is_intervals self \<and>
         (\<exists>l. is_limit self = Some l \<and> l \<le> length (is_intervals self)) \<and>
         (\<forall>b\<in>set (is_intervals self). \<not> touched rank r b)
     | Inr (idx, modified) \<Rightarrow>
         ivs_ranks rank rs' = ivs_ranks rank (is_intervals self) \<union> iv_ranks rank r \<and>
         (modified \<longleftrightarrow> \<not> iv_ranks rank r \<subseteq> ivs_ranks rank (is_intervals self)) \<and>
         (\<not> modified \<longrightarrow> rs' = is_intervals self) \<and> covers_below r idx rs' \<and> rs' \<noteq> [] \<and>
         (\<forall>l. is_limit self = Some l \<longrightarrow> length (is_intervals self) \<le> l \<longrightarrow> length rs' \<le> l)"
    by auto
  from c lim obtain p where p: "res = Inr p" by (cases res) (auto simp: interval_count_def)
  with c have "ivs_ranks rank rs' = ivs_ranks rank (r # is_intervals self)" by (cases p) auto
  then have "rs' = r # is_intervals self" by (rule ivs_wf_unique [OF r(2) wf])
  with b False r(1) show ?thesis by (simp add: is_insert_front_def)
qed

end

section \<open>Insertion\<close>

lemma ranges_insert_first:
  assumes wf: "pn_set_wf s self" and l: "is_limit self = Some l" "interval_count self \<le> l"
    and r: "pn_in s x" "pn_in s y" "pn_val x \<le> pn_val y"
  obtains (Full) r rs where "is_insert packet_number_bound self (Included x, Included y) = Some (Inl LimitExceeded, self)"
      "is_intervals self = r # rs" "interval_count self = l"
      "\<forall>b\<in>set (r # rs). \<not> touched pn_val \<lparr>iv_start = x, iv_end = y\<rparr> b"
  | (Ok) modified self' where "is_insert packet_number_bound self (Included x, Included y) = Some (Inr modified, self')"
      "pn_set_wf s self'" "is_limit self' = Some l" "interval_count self' \<le> l"
      "pn_set self' = pn_set self \<union> {pn_val x..pn_val y}"
proof -
  have V: "x \<in> {p. pn_in s p}" "y \<in> {p. pn_in s p}" using r by auto
  have wf: "ivs_wf {p. pn_in s p} pn_val (is_intervals self)" "is_limit self \<noteq> Some 0"
    using wf by (auto simp: pn_set_wf_def)
  obtain res self' where i: "is_insert packet_number_bound self (Included x, Included y) = Some (res, self')"
    "ivs_wf {p. pn_in s p} pn_val (is_intervals self')" "is_limit self' = is_limit self" "case res of
       Inl e \<Rightarrow> e = LimitExceeded \<and> self' = self \<and>
         (\<exists>l. is_limit self = Some l \<and> l \<le> length (is_intervals self)) \<and>
         (\<forall>b\<in>set (is_intervals self). \<not> touched pn_val \<lparr>iv_start = x, iv_end = y\<rparr> b)
     | Inr modified \<Rightarrow>
         ivs_ranks pn_val (is_intervals self') = ivs_ranks pn_val (is_intervals self) \<union> {pn_val x..pn_val y} \<and>
         (modified \<longleftrightarrow> \<not> {pn_val x..pn_val y} \<subseteq> ivs_ranks pn_val (is_intervals self)) \<and>
         is_intervals self' \<noteq> [] \<and>
         (\<forall>l. is_limit self = Some l \<longrightarrow> length (is_intervals self) \<le> l \<longrightarrow> length (is_intervals self') \<le> l)"
    using packet_number_bound.is_insert_sound [OF wf(1) V r(3) wf(2)] by blast
  show thesis
  proof (cases res)
    case (Inl e)
    then obtain r rs where "is_intervals self = r # rs"
      using i(4) l wf(2) by (cases "is_intervals self") auto
    with Inl i l show thesis by (intro Full) (auto simp: interval_count_def)
  next
    case (Inr modified)
    with i l wf(2) show thesis by (intro Ok [of modified self']) (simp_all add: interval_count_def pn_set_wf_def pn_set_def)
  qed
qed

lemma insert_packet_number_range_sound:
  assumes wf: "pn_set_wf s self" and l: "is_limit self = Some l" "interval_count self \<le> l"
    and r: "pn_in s x" "pn_in s y" "pnr_new x y = Some pn_range"
  shows "\<exists>res self'. insert_packet_number_range self pn_range = Some (res, self') \<and>
    pn_set_wf s self' \<and> is_limit self' = Some l \<and> interval_count self' \<le> l \<and>
    (case res of
       Inr _ \<Rightarrow> pn_set self' = pn_set self \<union> {pn_val x..pn_val y}
     | Inl (LowestRangeDropped lo hi) \<Rightarrow>
         {pn_val lo..pn_val hi} \<subseteq> pn_set self \<and>
         pn_set self' = (pn_set self - {pn_val lo..pn_val hi}) \<union> {pn_val x..pn_val y} \<and>
         pn_val hi < pn_val x \<and> (\<forall>n\<in>pn_set self - {pn_val lo..pn_val hi}. pn_val hi < n)
     | Inl (RangeInsertionFailed lo hi) \<Rightarrow>
         lo = x \<and> hi = y \<and> self' = self \<and> (\<forall>n\<in>pn_set self. pn_val y < n))"
proof -
  have xy: "pn_range = \<lparr>pnr_start = x, pnr_end = y, pnr_exhausted = False\<rparr>" "pn_val x \<le> pn_val y"
    using r by (auto simp: pnr_new_def pn_le_iff [of s] split: if_splits)
  show ?thesis
  proof (cases rule: ranges_insert_first [OF wf l r(1,2) xy(2), case_names Full Ok])
    case (Ok modified self')
    then show ?thesis by (simp add: insert_packet_number_range_def xy(1))
  next
    case (Full r rs)
    let ?self = "self\<lparr>is_intervals := rs\<rparr>"
    have wf': "ivs_wf {p. pn_in s p} pn_val (r # rs)" using wf Full(2) by (simp add: pn_set_wf_def)
    have self: "pn_set self = iv_ranks pn_val r \<union> pn_set ?self" "pn_set_wf s ?self"
      "is_limit ?self = Some l" "interval_count ?self < l"
      using wf Full(2,3) l by (auto simp: pn_set_def pn_set_wf_def interval_count_def)
    have above: "pn_val (iv_end r) < n" if "n \<in> pn_set ?self" for n
      using wf' that by (fastforce simp: pn_set_def ivs_ranks_def iv_ranks_def before_def)
    have cmp: "interval_cmp r x = Less \<longleftrightarrow> pn_val (iv_end r) < pn_val x"
      using packet_number_bound.interval_cmp_iff [of s r x] wf' r(1) by (auto simp: iv_ranks_def)
    show ?thesis
    proof (cases "pn_val (iv_end r) < pn_val x")
      case True
      show ?thesis
      proof (cases rule: ranges_insert_first [OF self(2,3) less_imp_le [OF self(4)] r(1,2) xy(2), case_names Full' Ok])
        case (Full' r' rs')
        with self(4) show ?thesis by simp
      next
        case (Ok modified self')
        have "pn_set ?self = pn_set self - iv_ranks pn_val r"
          using above by (force simp: self(1) iv_ranks_def)
        then have sets: "pn_set ?self = pn_set self - {pn_val (iv_start r)..pn_val (iv_end r)}"
          "{pn_val (iv_start r)..pn_val (iv_end r)} \<subseteq> pn_set self"
          by (auto simp: self(1) iv_ranks_def)
        have "insert_packet_number_range self pn_range =
            Some (Inl (LowestRangeDropped (iv_start r) (iv_end r)), self')"
          using True Full(1,2) Ok(1) cmp by (simp add: insert_packet_number_range_def xy(1) pop_min_def)
        with Ok(2-5) sets True above show ?thesis by simp
      qed
    next
      case False
      have "pn_val y < pn_val (iv_start r)"
        using Full(4) False xy(2) by (auto simp: touched_def before_def)
      with above wf' have below: "\<forall>n\<in>pn_set self. pn_val y < n"
        by (fastforce simp: self(1) iv_ranks_def iv_ok_def)
      obtain res where "is_insert_front packet_number_bound ?self (Included (iv_start r), Included (iv_end r)) =
          Some (res, self)"
        using packet_number_bound.insert_front_before [of s r ?self] wf' self(3,4) Full(2) by fastforce
      with False Full cmp below wf l show ?thesis
        by (simp add: insert_packet_number_range_def xy(1) pop_min_def)
    qed
  qed
qed

text \<open>
  C23. Recording a received range. In a well-formed, bounded set no insertion panics, and the
  set stays well-formed and within its limit. Either the range is added; or the limit is reached,
  the range lies above the lowest recorded range, and that range alone is given up for it; or the
  limit is reached, the range lies below everything recorded, and the set is unchanged.
\<close>

theorem insert_packet_number_range_keeps_largest:
  assumes wf: "pn_set_wf s self" and l: "is_limit self = Some l" "interval_count self \<le> l"
    and r: "pn_in s x" "pn_in s y" "pnr_new x y = Some pn_range"
  shows "\<exists>res self'. insert_packet_number_range self pn_range = Some (res, self') \<and>
    pn_set_wf s self' \<and> is_limit self' = Some l \<and> interval_count self' \<le> l \<and>
    (case res of
       Inr _ \<Rightarrow> pn_set self' = pn_set self \<union> {pn_val x..pn_val y}
     | Inl (LowestRangeDropped lo hi) \<Rightarrow>
         {pn_val lo..pn_val hi} \<subseteq> pn_set self \<and>
         pn_set self' = (pn_set self - {pn_val lo..pn_val hi}) \<union> {pn_val x..pn_val y} \<and>
         pn_val hi < pn_val x \<and> (\<forall>n\<in>pn_set self - {pn_val lo..pn_val hi}. pn_val hi < n)
     | Inl (RangeInsertionFailed lo hi) \<Rightarrow>
         lo = x \<and> hi = y \<and> self' = self \<and> (\<forall>n\<in>pn_set self. pn_val y < n))"
  by (rule insert_packet_number_range_sound [OF assms])

theorem insert_packet_number_range_keeps_largest_witness:
  "\<exists>res self'. insert_packet_number_range \<lparr>is_limit = Some 1, is_intervals =
       [\<lparr>iv_start = pn_from_varint 5 Initial, iv_end = pn_from_varint 7 Initial\<rparr>]\<rparr>
       \<lparr>pnr_start = pn_from_varint 9 Initial, pnr_end = pn_from_varint 9 Initial, pnr_exhausted = False\<rparr> =
     Some (res, self') \<and> interval_count self' \<le> 1 \<and> 9 \<in> pn_set self'"
proof -
  have v: "varint_valid 5" "varint_valid 7" "varint_valid 9"
    by (simp_all add: varint_valid_def MAX_VARINT_VALUE_def)
  let ?n = "\<lambda>v. pn_from_varint v Initial"
  let ?self = "\<lparr>is_limit = Some 1, is_intervals = [\<lparr>iv_start = ?n 5, iv_end = ?n 7\<rparr>]\<rparr>"
  have wf: "pn_set_wf Initial ?self" "pn_set ?self = {5..7}" "is_limit ?self = Some 1" "interval_count ?self \<le> 1"
    using v by (simp_all add: pn_set_examples interval_count_def)
  have r: "pnr_new (?n 9) (?n 9) = Some \<lparr>pnr_start = ?n 9, pnr_end = ?n 9, pnr_exhausted = False\<rparr>"
    by (simp add: pnr_new_def)
  from insert_packet_number_range_keeps_largest
    [OF wf(1,3,4) pn_from_varint_in [OF v(3)] pn_from_varint_in [OF v(3)] r]
  show ?thesis unfolding wf(2) using v
    by (elim exE conjE) (rule exI, rule exI, erule conjI,
        auto split: sum.splits ack_ranges_error.splits)
qed

end
