(* ===== verification/AckManager.thy ===== *)
theory AckManager
  imports AckRanges Transmission
begin

text \<open>
  Acknowledging received packets: \<^verbatim>\<open>quic/s2n-quic-transport/src/ack/ack_manager.rs\<close> and
  \<^verbatim>\<open>ack_transmission_state.rs\<close>, with \<^verbatim>\<open>settings.rs\<close> and \<^verbatim>\<open>transmission.rs\<close> of
  \<^verbatim>\<open>quic/s2n-quic-core/src/ack/\<close>. Published events are not modelled.
\<close>

section \<open>Settings\<close>

record ack_settings =
  as_max_ack_delay :: duration
  as_ack_delay_exponent :: u8
  as_ack_elicitation_interval :: u8
  as_ack_ranges_limit :: u8

definition ack_settings_RECOMMENDED :: ack_settings where
  "ack_settings_RECOMMENDED = \<lparr>as_max_ack_delay = duration_from_millis 25, as_ack_delay_exponent = 3,
     as_ack_elicitation_interval = 4, as_ack_ranges_limit = 10\<rparr>"

definition ack_settings_EARLY :: ack_settings where
  "ack_settings_EARLY = ack_settings_RECOMMENDED\<lparr>as_max_ack_delay := 0, as_ack_delay_exponent := 0\<rparr>"

definition ack_scale :: "ack_settings \<Rightarrow> u32" where
  "ack_scale self = 2 ^ unat (as_ack_delay_exponent self)"

definition varint_from_u128 :: "nat \<Rightarrow> varint_error + varint" where
  "varint_from_u128 value = (if value > unat MAX_VARINT_VALUE then Inl VarIntError else Inr (word_of_nat value))"

text \<open>The product of a \<open>Duration\<close> may overflow, and the divisor may be zero; both panic.\<close>

definition decode_ack_delay :: "ack_settings \<Rightarrow> varint \<Rightarrow> duration option" where
  "decode_ack_delay self delay = duration_checked_mul (duration_from_micros delay) (ack_scale self)"

definition encode_ack_delay :: "ack_settings \<Rightarrow> duration \<Rightarrow> varint option" where
  "encode_ack_delay self delay =
     (let micros = duration_as_micros delay; scale = unat (ack_scale self) in
      if scale = 0 then None
      else Some (unwrap_or MAX_VARINT_VALUE (result_ok (varint_from_u128 (micros div scale)))))"

section \<open>Transmissions of acknowledgements\<close>

record ack_transmission =
  atx_sent_in_packet :: packet_number
  atx_largest_received_packet_number_acked :: packet_number

record ack_transmission_set =
  ats_stable :: "ack_transmission option"
  ats_latest :: "ack_transmission option"

definition ack_transmission_set_default :: ack_transmission_set where
  "ack_transmission_set_default = \<lparr>ats_stable = None, ats_latest = None\<rparr>"

definition ats_on_transmit :: "ack_transmission \<Rightarrow> ack_transmission_set \<Rightarrow> ack_transmission_set" where
  "ats_on_transmit transmission self =
     (let self = self\<lparr>ats_latest := Some transmission\<rparr> in
      if ats_stable self = None then self\<lparr>ats_stable := Some transmission\<rparr> else self)"

definition atx_ack_range :: "(packet_number \<Rightarrow> bool) \<Rightarrow> ack_transmission \<Rightarrow> (packet_number \<times> packet_number) option" where
  "atx_ack_range acks self =
     (if acks (atx_sent_in_packet self) then
        Some (pn_from_varint 0 (pn_space (atx_largest_received_packet_number_acked self)),
              atx_largest_received_packet_number_acked self)
      else None)"

definition ats_on_update ::
    "(packet_number \<Rightarrow> bool) \<Rightarrow> ack_transmission_set \<Rightarrow> (packet_number \<times> packet_number) option \<times> ack_transmission_set" where
  "ats_on_update acks self =
     (case Option.bind (ats_latest self) (atx_ack_range acks) of
        Some ack_range \<Rightarrow> (Some ack_range, self\<lparr>ats_stable := None, ats_latest := None\<rparr>)
      | None \<Rightarrow>
          (case Option.bind (ats_stable self) (atx_ack_range acks) of
             Some ack_range \<Rightarrow> (Some ack_range, self\<lparr>ats_stable := ats_latest self\<rparr>)
           | None \<Rightarrow> (None, self)))"

section \<open>The transmission state\<close>

datatype ack_transmission_state = Disabled | Passive nat | Active nat

fun ats_is_active :: "ack_transmission_state \<Rightarrow> bool" where
  "ats_is_active (Active _) = True"
| "ats_is_active _ = False"

definition should_transmit :: "ack_transmission_state \<Rightarrow> constraint \<Rightarrow> tx_mode \<Rightarrow> bool \<Rightarrow> bool" where
  "should_transmit self constraint mode has_ranges =
     (if \<not> has_ranges then False
      else if mode \<noteq> NormalMode then True
      else (case self of
              Disabled \<Rightarrow> False
            | Passive _ \<Rightarrow> can_transmit constraint \<or> can_retransmit constraint
            | Active _ \<Rightarrow> True))"

fun activate :: "ack_transmission_state \<Rightarrow> ack_transmission_state" where
  "activate (Passive retransmissions) = Active retransmissions"
| "activate self = self"

definition state_on_update :: "ack_ranges \<Rightarrow> ack_transmission_state \<Rightarrow> ack_transmission_state" where
  "state_on_update ranges self =
     (if is_intervals ranges = [] then Disabled
      else
        let new_retransmissions = interval_count ranges div 2;
            new_retransmissions = new_retransmissions + spread ranges div 10;
            new_retransmissions = min new_retransmissions 10
        in (case self of
              Active _ \<Rightarrow> Active new_retransmissions
            | Passive _ \<Rightarrow> Passive new_retransmissions
            | Disabled \<Rightarrow> Passive new_retransmissions))"

fun retransmissions_left :: "nat \<Rightarrow> ack_transmission_state" where
  "retransmissions_left 0 = Disabled"
| "retransmissions_left (Suc retransmissions) = Passive retransmissions"

fun state_on_transmit :: "ack_transmission_state \<Rightarrow> ack_transmission_state" where
  "state_on_transmit (Active retransmissions) = retransmissions_left retransmissions"
| "state_on_transmit (Passive retransmissions) = retransmissions_left retransmissions"
| "state_on_transmit Disabled = Disabled"

definition state_interest :: "ack_transmission_state \<Rightarrow> interest list" where
  "state_interest self = (if ats_is_active self then [Forced] else [])"

section \<open>The manager\<close>

text \<open>What the manager reads of a processed packet and its datagram.\<close>

record processed_packet =
  pp_packet_number :: packet_number
  pp_timestamp :: timestamp
  pp_ecn :: explicit_congestion_notification
  pp_ack_elicitation :: ack_elicitation
  pp_path_challenge_on_active_path :: bool

record ack_manager =
  am_ack_delay_timer :: timer
  am_ack_eliciting_transmissions :: ack_transmission_set
  am_ack_ranges :: ack_ranges
  am_ack_settings :: ack_settings
  am_largest_received_packet_number_acked :: packet_number
  am_largest_received_packet_number_at :: "timestamp option"
  am_processed_packets_since_transmission :: u8
  am_transmissions_since_elicitation :: u8
  am_transmission_state :: ack_transmission_state
  am_ecn_counts :: ecn_counts

definition ack_manager_new :: "packet_number_space \<Rightarrow> ack_settings \<Rightarrow> ack_manager option" where
  "ack_manager_new packet_space ack_settings =
     map_option (\<lambda>ranges. \<lparr>am_ack_delay_timer = timer_default,
       am_ack_eliciting_transmissions = ack_transmission_set_default, am_ack_ranges = ranges,
       am_ack_settings = ack_settings, am_largest_received_packet_number_acked = pn_from_varint 0 packet_space,
       am_largest_received_packet_number_at = None, am_processed_packets_since_transmission = 0,
       am_transmissions_since_elicitation = 0, am_transmission_state = Disabled, am_ecn_counts = ecn_counts_default\<rparr>)
     (ranges_new (unat (as_ack_ranges_limit ack_settings)))"

definition am_ack_delay :: "timestamp \<Rightarrow> ack_manager \<Rightarrow> varint option" where
  "am_ack_delay now self =
     encode_ack_delay (am_ack_settings self)
       (unwrap_or 0 (map_option (\<lambda>prev. saturating_duration_since now prev) (am_largest_received_packet_number_at self)))"

definition am_has_ranges :: "ack_manager \<Rightarrow> bool" where
  "am_has_ranges self \<longleftrightarrow> is_intervals (am_ack_ranges self) \<noteq> []"

text \<open>The frame is written with the ranges of the manager; the answer says whether it was.\<close>

definition am_on_transmit ::
    "network_endian \<Rightarrow> zerocopy \<Rightarrow> ack_manager \<Rightarrow> tx_context \<Rightarrow> (bool \<times> tx_context) option" where
  "am_on_transmit ne zc self context =
     (if \<not> should_transmit (am_transmission_state self) (tc_constraint context) (tc_mode context) (am_has_ranges self)
      then Some (False, context)
      else
        Option.bind (am_ack_delay (tc_timestamp context) self) (\<lambda>delay.
        map_option (\<lambda>(r, context). (r \<noteq> None, context))
          (write_frame ne zc ranges_ack_ranges
            (Ack \<lparr>ack_delay = delay, ack_ranges = am_ack_ranges self, ack_ecn_counts = ecn_as_option (am_ecn_counts self)\<rparr>)
            context)))"

text \<open>A packet with nothing but the acknowledgement gets a \<open>Ping\<close> every few transmissions.\<close>

definition am_try_elicit ::
    "network_endian \<Rightarrow> zerocopy \<Rightarrow> ack_manager \<Rightarrow> tx_context \<Rightarrow> (bool \<times> ack_manager \<times> tx_context) option" where
  "am_try_elicit ne zc self context =
     (let counted = self\<lparr>am_transmissions_since_elicitation :=
        saturating_add (am_transmissions_since_elicitation self) 1\<rparr> in
      if tc_ack_elicitation context = Eliciting then Some (True, self, context)
      else if (can_transmit (tc_constraint context) \<or> can_retransmit (tc_constraint context)) \<and>
          am_transmissions_since_elicitation self \<ge> as_ack_elicitation_interval (am_ack_settings self)
      then map_option (\<lambda>(r, context). if r \<noteq> None then (True, self, context) else (False, counted, context))
        (write_frame ne zc (\<lambda>_. []) (Ping :: unit frame) context)
      else Some (False, counted, context))"

definition am_on_transmit_complete ::
    "network_endian \<Rightarrow> zerocopy \<Rightarrow> ack_manager \<Rightarrow> tx_context \<Rightarrow> (ack_manager \<times> tx_context) option" where
  "am_on_transmit_complete ne zc self context =
     (let self = self\<lparr>am_ack_delay_timer := timer_cancel (am_ack_delay_timer self)\<rparr> in
      Option.bind (am_try_elicit ne zc self context) (\<lambda>(is_ack_eliciting, self, context).
      Option.bind (max_value (am_ack_ranges self)) (\<lambda>largest.
      let self = self\<lparr>am_largest_received_packet_number_acked := largest\<rparr>;
          self = (if is_ack_eliciting then
              self\<lparr>am_transmissions_since_elicitation := 0,
                   am_ack_eliciting_transmissions := ats_on_transmit
                     \<lparr>atx_sent_in_packet = tc_packet_number context,
                      atx_largest_received_packet_number_acked = largest\<rparr>
                     (am_ack_eliciting_transmissions self)\<rparr>
            else self);
          self = self\<lparr>am_transmission_state := state_on_transmit (am_transmission_state self)\<rparr>;
          self = self\<lparr>am_processed_packets_since_transmission := 0\<rparr>
      in Some (self, context))))"

text \<open>Removing the acknowledged range is expected to succeed; the manager panics otherwise.\<close>

definition am_on_packet_ack :: "(packet_number \<Rightarrow> bool) \<Rightarrow> ack_manager \<Rightarrow> ack_manager option" where
  "am_on_packet_ack acks self =
     (case ats_on_update acks (am_ack_eliciting_transmissions self) of
        (None, transmissions) \<Rightarrow> Some (self\<lparr>am_ack_eliciting_transmissions := transmissions\<rparr>)
      | (Some (lo, hi), transmissions) \<Rightarrow>
          (case is_remove packet_number_bound (am_ack_ranges self) (Included lo, Included hi) of
             Some (Inr _, ranges) \<Rightarrow>
               Some (self\<lparr>am_ack_eliciting_transmissions := transmissions, am_ack_ranges := ranges\<rparr>)
           | _ \<Rightarrow> None))"

definition am_on_packet_loss :: "(packet_number \<Rightarrow> bool) \<Rightarrow> ack_manager \<Rightarrow> ack_manager" where
  "am_on_packet_loss acks self =
     (case ats_on_update acks (am_ack_eliciting_transmissions self) of
        (None, transmissions) \<Rightarrow> self\<lparr>am_ack_eliciting_transmissions := transmissions\<rparr>
      | (Some _, transmissions) \<Rightarrow>
          self\<lparr>am_ack_eliciting_transmissions := transmissions,
               am_transmission_state := activate (state_on_update (am_ack_ranges self) (am_transmission_state self))\<rparr>)"

text \<open>
  The check for the order of a packet before it is inserted; then the insertion, whose errors are
  only reported to subscribers, with the smallest and largest value that are expected to exist.
\<close>

definition is_ordered_largest :: "packet_number \<Rightarrow> ack_ranges \<Rightarrow> bool \<times> bool" where
  "is_ordered_largest packet_number ranges =
     unwrap_or (True, True)
       (Option.bind (max_value ranges) (\<lambda>max_value.
        map_option (\<lambda>nxt. (packet_number = nxt, packet_number > max_value)) (pn_next max_value)))"

definition am_insert :: "packet_number \<Rightarrow> ack_manager \<Rightarrow> ack_manager option" where
  "am_insert packet_number self =
     Option.bind (insert_packet_number (am_ack_ranges self) packet_number) (\<lambda>(res, ranges).
       if is_ok res \<or> (min_value ranges \<noteq> None \<and> max_value ranges \<noteq> None)
       then Some (self\<lparr>am_ack_ranges := ranges\<rparr>) else None)"

definition packet_tolerance :: u8 where "packet_tolerance = 10"

text \<open>An ack-eliciting packet is acknowledged at once, or a timer is set for it.\<close>

definition am_schedule :: "processed_packet \<Rightarrow> bool \<Rightarrow> bool \<Rightarrow> ack_manager \<Rightarrow> ack_manager option" where
  "am_schedule packet is_ordered is_largest self =
     (let should_activate = (\<not> is_largest \<or> \<not> is_ordered \<or> congestion_experienced (pp_ecn packet) \<or>
        am_processed_packets_since_transmission self \<ge> packet_tolerance \<or> pp_path_challenge_on_active_path packet) in
      if pp_ack_elicitation packet = Eliciting then
        if should_activate then Some (self\<lparr>am_transmission_state := activate (am_transmission_state self)\<rparr>)
        else if \<not> timer_is_armed (am_ack_delay_timer self) then
          map_option (\<lambda>at. self\<lparr>am_ack_delay_timer := timer_set at (am_ack_delay_timer self)\<rparr>)
            (ts_add (pp_timestamp packet) (as_max_ack_delay (am_ack_settings self)))
        else Some self
      else Some self)"

definition am_poll_timer :: "timestamp \<Rightarrow> ack_manager \<Rightarrow> ack_manager" where
  "am_poll_timer now self =
     (let (expired, timer) = poll_expiration now (am_ack_delay_timer self);
          self = self\<lparr>am_ack_delay_timer := timer\<rparr>
      in if expired then self\<lparr>am_transmission_state := activate (am_transmission_state self)\<rparr> else self)"

definition am_on_processed_packet :: "processed_packet \<Rightarrow> ack_manager \<Rightarrow> ack_manager option" where
  "am_on_processed_packet packet self =
     (let now = pp_timestamp packet;
          (is_ordered, is_largest) = is_ordered_largest (pp_packet_number packet) (am_ack_ranges self) in
      Option.bind (am_insert (pp_packet_number packet) self) (\<lambda>self.
      let self = self\<lparr>am_ecn_counts := ecn_increment (pp_ecn packet) (am_ecn_counts self)\<rparr>;
          self = self\<lparr>am_transmission_state := state_on_update (am_ack_ranges self) (am_transmission_state self)\<rparr>;
          self = self\<lparr>am_processed_packets_since_transmission :=
                   saturating_add (am_processed_packets_since_transmission self) 1\<rparr>;
          self = (if is_largest then self\<lparr>am_largest_received_packet_number_at := Some now\<rparr> else self)
      in map_option (am_poll_timer now) (am_schedule packet is_ordered is_largest self)))"

definition am_on_timeout :: "timestamp \<Rightarrow> ack_manager \<Rightarrow> ack_manager" where
  "am_on_timeout timestamp self = am_poll_timer timestamp self"

definition am_interest :: "ack_manager \<Rightarrow> interest list" where
  "am_interest self = state_interest (am_transmission_state self)"

section \<open>The ack delay\<close>

lemma unat_ack_scale: "unat (as_ack_delay_exponent st) \<le> 20 \<Longrightarrow> unat (ack_scale st) = 2 ^ unat (as_ack_delay_exponent st)"
  using power_increasing [of "unat (as_ack_delay_exponent st)" 20 "2::nat"]
    unat_of_nat_no_wrap [of "2 ^ unat (as_ack_delay_exponent st)", where 'a = 32]
  by (simp add: ack_scale_def)

lemma unat_MAX_VARINT_VALUE [simp]: "unat MAX_VARINT_VALUE = 2 ^ 62 - 1"
  by (simp add: MAX_VARINT_VALUE_def)

lemma encode_ack_delay_eq:
  assumes "unat (as_ack_delay_exponent st) \<le> 20"
  shows "encode_ack_delay st d =
    Some (word_of_nat (min (d div 1000 div 2 ^ unat (as_ack_delay_exponent st)) (2 ^ 62 - 1)))"
  using assms
  by (auto simp: encode_ack_delay_def Let_def unat_ack_scale duration_as_micros_def varint_from_u128_def
      result_ok_def unwrap_or_def MAX_VARINT_VALUE_def min_def not_less)

lemma decode_ack_delay_eq:
  assumes "unat (as_ack_delay_exponent st) \<le> 20" "unat v < 2 ^ 62"
  shows "decode_ack_delay st v = Some (unat v * 1000 * 2 ^ unat (as_ack_delay_exponent st))"
proof -
  have "unat v * 1000 * 2 ^ unat (as_ack_delay_exponent st) \<le> 2 ^ 62 * 1000 * 2 ^ 20"
    using assms by (intro mult_le_mono power_increasing) simp_all
  then show ?thesis
    using assms by (simp add: decode_ack_delay_def duration_checked_mul_def duration_from_micros_def unat_ack_scale
        DURATION_MAX_def)
qed

section \<open>Ranges\<close>

context interval_bound
begin

lemma ivs_minus_lowest: "\<forall>b\<in>set rs. iv_start a \<le> iv_start b \<Longrightarrow> length (ivs_minus ib a rs) \<le> length rs"
  by (induction rs) (auto simp: iv_minus_def not_less)

lemma is_remove_lowest:
  assumes wf: "ivs_wf V rank (is_intervals self)" and x: "x \<in> V" "y \<in> V" "rank x \<le> rank y"
    and lowest: "\<forall>v\<in>V. rank x \<le> rank v"
  shows "\<exists>self'. is_remove ib self (Included x, Included y) = Some (Inr (), self') \<and>
    ivs_wf V rank (is_intervals self') \<and> is_limit self' = is_limit self \<and>
    ivs_ranks rank (is_intervals self') = ivs_ranks rank (is_intervals self) - {rank x..rank y} \<and>
    length (is_intervals self') \<le> length (is_intervals self)"
proof -
  let ?a = "\<lparr>iv_start = x, iv_end = y\<rparr>"
  have ok: "iv_ok V rank ?a" using x by (simp add: iv_ok_def)
  have b: "from_range_bounds ib (Included x, Included y) = Inr ?a"
    using x by (simp add: from_range_bounds_Included)
  have ranks: "iv_ranks rank ?a = {rank x..rank y}" by (simp add: iv_ranks_def)
  have low: "rank x \<le> rank (iv_start b)" "iv_start b \<in> V" if "b \<in> set (is_intervals self)" for b
    using ivs_wf_ok [OF wf that] lowest by (simp_all add: iv_ok_def)
  show ?thesis
  proof (cases "is_intervals self = []")
    case True
    then show ?thesis using b by (simp add: is_remove_def)
  next
    case False
    obtain i where i: "index_for self ?a = Some i" "i \<le> length (is_intervals self)"
      "\<forall>b\<in>set (take i (is_intervals self)). before rank b ?a"
      using index_for_spec [OF wf ok] by auto
    have "\<not> (\<exists>b\<in>set (is_intervals self). rank (iv_start b) < rank x \<and> rank y < rank (iv_end b))"
      using low(1) by (auto simp: not_less)
    then obtain idx where "interval_remove ib (is_intervals self) ?a i (is_limit self) =
        Some (Inr idx, ivs_minus ib ?a (is_intervals self))"
      using interval_remove_spec [OF wf ok i(3,2), of "is_limit self"] by (auto split: if_splits)
    moreover have "length (ivs_minus ib ?a (is_intervals self)) \<le> length (is_intervals self)"
      using low x by (intro ivs_minus_lowest) (auto simp: rank_less not_less [symmetric])
    ultimately show ?thesis
      using b False i(1) ivs_minus_spec [OF ok wf] by (simp add: is_remove_def ranks)
  qed
qed

end

lemma ranges_remove_up_to:
  assumes "pn_set_wf s self" "pn_in s y"
  shows "\<exists>self'. is_remove packet_number_bound self (Included (pn_from_varint 0 s), Included y) = Some (Inr (), self') \<and>
    pn_set_wf s self' \<and> is_limit self' = is_limit self \<and> interval_count self' \<le> interval_count self \<and>
    pn_set self' = pn_set self - {0..pn_val y}"
proof -
  have wf: "ivs_wf {p. pn_in s p} pn_val (is_intervals self)" "is_limit self \<noteq> Some 0"
    using assms(1) by (auto simp: pn_set_wf_def)
  have 0: "pn_in s (pn_from_varint 0 s)" "pn_val (pn_from_varint 0 s) = 0"
    by (simp_all add: varint_valid_def)
  with packet_number_bound.is_remove_lowest [OF wf(1), of "pn_from_varint 0 s" y] assms(2) wf(2)
  show ?thesis by (auto simp: pn_set_wf_def pn_set_def interval_count_def)
qed

lemma ivs_ranks_finite [simp]: "finite (ivs_ranks rank rs)"
  by (simp add: ivs_ranks_def iv_ranks_def)

lemma pn_set_empty_iff: "pn_set_wf s self \<Longrightarrow> pn_set self = {} \<longleftrightarrow> is_intervals self = []"
  by (cases "is_intervals self") (auto simp: pn_set_wf_def pn_set_def iv_ranks_def iv_ok_def)

lemma max_value_spec:
  assumes "pn_set_wf s self" "is_intervals self \<noteq> []"
  shows "\<exists>p. max_value self = Some p \<and> pn_in s p \<and> pn_val p = Max (pn_set self)"
proof -
  let ?p = "iv_end (last (is_intervals self))"
  have wf: "ivs_wf {p. pn_in s p} pn_val (butlast (is_intervals self) @ [last (is_intervals self)])"
    using assms by (simp add: pn_set_wf_def)
  have split: "is_intervals self = butlast (is_intervals self) @ [last (is_intervals self)]" using assms(2) by simp
  have ok: "pn_in s ?p" "pn_val (iv_start (last (is_intervals self))) \<le> pn_val ?p" using wf by (simp_all add: iv_ok_def)
  have "pn_set self = ivs_ranks pn_val (butlast (is_intervals self)) \<union> iv_ranks pn_val (last (is_intervals self))"
    unfolding pn_set_def by (subst split) simp
  moreover have "n \<le> pn_val ?p" if "n \<in> ivs_ranks pn_val (butlast (is_intervals self))" for n
    using wf ok(2) that by (fastforce simp: ivs_ranks_def iv_ranks_def before_def)
  ultimately have "Max (pn_set self) = pn_val ?p"
    using ok(2) by (intro Max_eqI) (auto simp: iv_ranks_def)
  with ok(1) assms(2) show ?thesis by (simp add: max_value_def)
qed

lemma ranges_ack_ranges_spec:
  assumes "pn_set_wf s self"
  shows "ack_ranges_ok (ranges_ack_ranges self)" "length (ranges_ack_ranges self) = interval_count self"
    "(\<Union>(lo, hi)\<in>set (ranges_ack_ranges self). {unat lo..unat hi}) = pn_set self"
proof -
  have wf: "\<forall>r\<in>set (is_intervals self). iv_ok {p. pn_in s p} pn_val r" "sorted_wrt (before pn_val) (is_intervals self)"
    using assms by (auto simp: pn_set_wf_def ivs_wf_def list_all_iff)
  have "sorted_wrt (\<lambda>a b. before pn_val b a) (rev (is_intervals self))"
    using wf(2) by (simp add: sorted_wrt_rev)
  then have "sorted_wrt descending (ranges_ack_ranges self)"
    unfolding ranges_ack_ranges_def sorted_wrt_map
    by (rule sorted_wrt_mono_rel [rotated]) (simp add: descending_def before_def pn_as_varint_def)
  moreover have "\<forall>r\<in>set (ranges_ack_ranges self). ack_range_ok r"
    using wf(1) by (auto simp: ranges_ack_ranges_def ack_range_ok_def iv_ok_def pn_as_varint_def word_le_nat_alt)
  ultimately show "ack_ranges_ok (ranges_ack_ranges self)" by (simp add: ack_ranges_ok_def list_all_iff)
  show "length (ranges_ack_ranges self) = interval_count self" by (simp add: ranges_ack_ranges_def interval_count_def)
  show "(\<Union>(lo, hi)\<in>set (ranges_ack_ranges self). {unat lo..unat hi}) = pn_set self"
    by (auto simp: ranges_ack_ranges_def pn_set_def ivs_ranks_def iv_ranks_def pn_as_varint_def)
qed

lemma insert_packet_number_spec:
  assumes "pn_set_wf s self" "is_limit self = Some l" "interval_count self \<le> l" "pn_in s p"
  obtains res self' where "insert_packet_number self p = Some (res, self')"
    "pn_set_wf s self'" "is_limit self' = Some l" "interval_count self' \<le> l" "is_intervals self' \<noteq> []"
    "pn_set self' \<subseteq> insert (pn_val p) (pn_set self)"
    "pn_val p \<in> pn_set self' \<or> self' = self \<and> (\<forall>n\<in>pn_set self. pn_val p < n)"
proof -
  let ?r = "\<lparr>pnr_start = p, pnr_end = p, pnr_exhausted = False\<rparr>"
  have r: "pnr_new p p = Some ?r" by (simp add: pnr_new_def)
  obtain res self' where ins: "insert_packet_number_range self ?r = Some (res, self')"
    "pn_set_wf s self'" "is_limit self' = Some l" "interval_count self' \<le> l"
    and c: "case res of
       Inr _ \<Rightarrow> pn_set self' = pn_set self \<union> {pn_val p..pn_val p}
     | Inl (LowestRangeDropped lo hi) \<Rightarrow>
         {pn_val lo..pn_val hi} \<subseteq> pn_set self \<and>
         pn_set self' = (pn_set self - {pn_val lo..pn_val hi}) \<union> {pn_val p..pn_val p} \<and>
         pn_val hi < pn_val p \<and> (\<forall>n\<in>pn_set self - {pn_val lo..pn_val hi}. pn_val hi < n)
     | Inl (RangeInsertionFailed lo hi) \<Rightarrow>
         lo = p \<and> hi = p \<and> self' = self \<and> (\<forall>n\<in>pn_set self. pn_val p < n)"
    using insert_packet_number_range_sound [OF assms(1-3) assms(4) assms(4) r] by blast
  have c': "pn_set self' \<subseteq> insert (pn_val p) (pn_set self)"
    "pn_val p \<in> pn_set self' \<or> self' = self \<and> (\<forall>n\<in>pn_set self. pn_val p < n)"
    using c by (auto split: sum.splits ack_ranges_error.splits)
  have "is_intervals self' \<noteq> []"
  proof (cases "is_intervals self = []")
    case True
    have "pn_set self' = pn_set self \<union> {pn_val p}"
    proof (cases rule: ranges_insert_first [OF assms(1-3) assms(4) assms(4) order_refl, case_names Full Ok])
      case (Full r rs)
      with True show ?thesis by simp
    next
      case (Ok modified self'')
      with ins(1) show ?thesis by (simp add: insert_packet_number_range_def)
    qed
    then show ?thesis using pn_set_empty_iff [OF ins(2)] by auto
  next
    case False
    with c' pn_set_empty_iff [OF ins(2)] show ?thesis by auto
  qed
  with ins c' r that show thesis by (auto simp: insert_packet_number_def)
qed

section \<open>Runs of the manager\<close>

text \<open>
  What can happen to a manager: a packet is processed, an acknowledgement is written and the packet
  that carries it completed, and packets sent earlier are acknowledged, declared lost or time out.
  The world records the numbers of the processed packets and the time of the last one.
\<close>

datatype am_event = Processed processed_packet | AckSent | AckAcked | AckLost | TimedOut timestamp

record am_world =
  aw_processed :: "nat set"
  aw_now :: timestamp
  aw_manager :: ack_manager

definition am_deadline :: "ack_settings \<Rightarrow> timestamp \<Rightarrow> nat" where
  "am_deadline st now = unat now + as_max_ack_delay st div 1000"

inductive am_step ::
    "network_endian \<Rightarrow> zerocopy \<Rightarrow> packet_number_space \<Rightarrow> am_event \<Rightarrow> am_world \<Rightarrow> am_world \<Rightarrow> bool"
  for ne zc s where
  am_processed: "pn_in s (pp_packet_number p) \<Longrightarrow> aw_now w \<le> pp_timestamp p \<Longrightarrow> pp_timestamp p \<noteq> 0 \<Longrightarrow>
    am_deadline (am_ack_settings (aw_manager w)) (pp_timestamp p) < 2 ^ 64 \<Longrightarrow>
    am_on_processed_packet p (aw_manager w) = Some m \<Longrightarrow>
    am_step ne zc s (Processed p) w \<lparr>aw_processed = insert (pn_val (pp_packet_number p)) (aw_processed w),
      aw_now = pp_timestamp p, aw_manager = m\<rparr>"
| am_sent: "am_on_transmit ne zc (aw_manager w) ctx = Some (True, ctx') \<Longrightarrow>
    am_on_transmit_complete ne zc (aw_manager w) ctx'' = Some (m, ctx3) \<Longrightarrow>
    am_step ne zc s AckSent w (w\<lparr>aw_manager := m\<rparr>)"
| am_acked: "am_on_packet_ack acks (aw_manager w) = Some m \<Longrightarrow> am_step ne zc s AckAcked w (w\<lparr>aw_manager := m\<rparr>)"
| am_lost: "am_step ne zc s AckLost w (w\<lparr>aw_manager := am_on_packet_loss acks (aw_manager w)\<rparr>)"
| am_timed_out: "am_step ne zc s (TimedOut now) w (w\<lparr>aw_manager := am_on_timeout now (aw_manager w)\<rparr>)"

inductive am_reachable ::
    "network_endian \<Rightarrow> zerocopy \<Rightarrow> packet_number_space \<Rightarrow> ack_settings \<Rightarrow> am_world \<Rightarrow> bool"
  for ne zc s st where
  am_start: "ack_manager_new s st = Some m \<Longrightarrow>
    am_reachable ne zc s st \<lparr>aw_processed = {}, aw_now = now, aw_manager = m\<rparr>"
| am_run: "am_reachable ne zc s st w \<Longrightarrow> am_step ne zc s e w w' \<Longrightarrow> am_reachable ne zc s st w'"

definition am_inv :: "packet_number_space \<Rightarrow> ack_settings \<Rightarrow> am_world \<Rightarrow> bool" where
  "am_inv s st w \<longleftrightarrow> (let m = aw_manager w; ranges = am_ack_ranges m; tx = am_ack_eliciting_transmissions m in
     am_ack_settings m = st \<and> pn_set_wf s ranges \<and> is_limit ranges = Some (unat (as_ack_ranges_limit st)) \<and>
     interval_count ranges \<le> unat (as_ack_ranges_limit st) \<and> pn_set ranges \<subseteq> aw_processed w \<and>
     (\<forall>t. ats_stable tx = Some t \<or> ats_latest tx = Some t \<longrightarrow> pn_in s (atx_largest_received_packet_number_acked t)) \<and>
     ecn_counts_valid (am_ecn_counts m) \<and>
     (\<forall>e. expiration (am_ack_delay_timer m) = Some e \<longrightarrow> unat e \<le> am_deadline st (aw_now w) \<and>
        (is_intervals ranges = [] \<or> am_transmission_state m \<noteq> Disabled)))"

lemma am_invD:
  assumes "am_inv s st w"
  shows "am_ack_settings (aw_manager w) = st" "pn_set_wf s (am_ack_ranges (aw_manager w))"
    "is_limit (am_ack_ranges (aw_manager w)) = Some (unat (as_ack_ranges_limit st))"
    "interval_count (am_ack_ranges (aw_manager w)) \<le> unat (as_ack_ranges_limit st)"
    "pn_set (am_ack_ranges (aw_manager w)) \<subseteq> aw_processed w" "ecn_counts_valid (am_ecn_counts (aw_manager w))"
  using assms by (simp_all add: am_inv_def Let_def)

lemma state_on_update_cases:
  "is_intervals ranges \<noteq> [] \<Longrightarrow> state_on_update ranges st \<noteq> Disabled"
  "is_intervals ranges \<noteq> [] \<Longrightarrow> ats_is_active (state_on_update ranges st) = ats_is_active st"
  by (cases st; simp add: state_on_update_def Let_def)+

lemma activate_cases [simp]:
  "activate st = Disabled \<longleftrightarrow> st = Disabled" "st \<noteq> Disabled \<Longrightarrow> ats_is_active (activate st)"
  "ats_is_active st \<Longrightarrow> ats_is_active (activate st)"
  by (cases st; simp)+

lemma poll_expiration_cases:
  obtains "poll_expiration now t = (True, timer_cancel t)" "timer_is_expired t now"
  | "poll_expiration now t = (False, t)" "\<not> timer_is_expired t now"
  by (auto simp: poll_expiration_def)

lemma am_insert_spec:
  assumes "am_inv s st w" "pn_in s p"
  obtains ranges where "am_insert p (aw_manager w) = Some ((aw_manager w)\<lparr>am_ack_ranges := ranges\<rparr>)"
    "pn_set_wf s ranges" "is_limit ranges = Some (unat (as_ack_ranges_limit st))"
    "interval_count ranges \<le> unat (as_ack_ranges_limit st)" "is_intervals ranges \<noteq> []"
    "pn_set ranges \<subseteq> insert (pn_val p) (pn_set (am_ack_ranges (aw_manager w)))"
proof -
  obtain res ranges where ins: "insert_packet_number (am_ack_ranges (aw_manager w)) p = Some (res, ranges)"
    "pn_set_wf s ranges" "is_limit ranges = Some (unat (as_ack_ranges_limit st))"
    "interval_count ranges \<le> unat (as_ack_ranges_limit st)" "is_intervals ranges \<noteq> []"
    "pn_set ranges \<subseteq> insert (pn_val p) (pn_set (am_ack_ranges (aw_manager w)))"
    using insert_packet_number_spec [OF am_invD(2-4) [OF assms(1)] assms(2)] by metis
  then show thesis
    by (intro that) (auto simp: am_insert_def min_value_def max_value_def split: list.splits)
qed

lemma am_on_processed_packet_spec:
  assumes ins: "am_insert (pp_packet_number p) m = Some (m\<lparr>am_ack_ranges := ranges\<rparr>)"
    and at: "ts_add (pp_timestamp p) (as_max_ack_delay (am_ack_settings m)) = Some at"
  shows "\<exists>m'. am_on_processed_packet p m = Some m' \<and> am_ack_ranges m' = ranges \<and>
    am_ack_settings m' = am_ack_settings m \<and> am_ack_eliciting_transmissions m' = am_ack_eliciting_transmissions m \<and>
    am_ecn_counts m' = ecn_increment (pp_ecn p) (am_ecn_counts m) \<and>
    am_transmission_state m' \<in> {state_on_update ranges (am_transmission_state m),
      activate (state_on_update ranges (am_transmission_state m))} \<and>
    expiration (am_ack_delay_timer m') \<in> {None, expiration (am_ack_delay_timer m), Some at} \<and>
    (expiration (am_ack_delay_timer m) \<noteq> expiration (am_ack_delay_timer m') \<and> expiration (am_ack_delay_timer m) \<noteq> None \<or>
       pp_ack_elicitation p = Eliciting \<and> expiration (am_ack_delay_timer m') = None \<longrightarrow>
     am_transmission_state m' = activate (state_on_update ranges (am_transmission_state m)))"
proof -
  have idem: "activate (activate x) = activate x" for x by (cases x) simp_all
  have post: "\<exists>m'. map_option (am_poll_timer (pp_timestamp p)) (am_schedule p ord lar n) = Some m' \<and>
      am_ack_ranges m' = am_ack_ranges n \<and> am_ack_settings m' = am_ack_settings n \<and>
      am_ack_eliciting_transmissions m' = am_ack_eliciting_transmissions n \<and> am_ecn_counts m' = am_ecn_counts n \<and>
      am_transmission_state m' \<in> {am_transmission_state n, activate (am_transmission_state n)} \<and>
      expiration (am_ack_delay_timer m') \<in> {None, expiration (am_ack_delay_timer n), Some at} \<and>
      (expiration (am_ack_delay_timer n) \<noteq> expiration (am_ack_delay_timer m') \<and> expiration (am_ack_delay_timer n) \<noteq> None \<or>
         pp_ack_elicitation p = Eliciting \<and> expiration (am_ack_delay_timer m') = None \<longrightarrow>
       am_transmission_state m' = activate (am_transmission_state n))"
    if "am_ack_settings n = am_ack_settings m" for ord lar n
    using at that idem
    by (auto simp: am_schedule_def am_poll_timer_def Let_def poll_expiration_def timer_cancel_def timer_set_def timer_is_armed_def)
  obtain ord lar where ol: "is_ordered_largest (pp_packet_number p) (am_ack_ranges m) = (ord, lar)" by fastforce
  define n where "n = m\<lparr>am_ack_ranges := ranges, am_ecn_counts := ecn_increment (pp_ecn p) (am_ecn_counts m),
    am_transmission_state := state_on_update ranges (am_transmission_state m),
    am_processed_packets_since_transmission := saturating_add (am_processed_packets_since_transmission m) 1,
    am_largest_received_packet_number_at := (if lar then Some (pp_timestamp p) else am_largest_received_packet_number_at m)\<rparr>"
  have "am_on_processed_packet p m = map_option (am_poll_timer (pp_timestamp p)) (am_schedule p ord lar n)"
    by (simp add: am_on_processed_packet_def Let_def ins ol n_def)
  with post [of n ord lar] show ?thesis by (simp add: n_def)
qed

lemma ecn_increment_valid: "ecn_counts_valid c \<Longrightarrow> ecn_counts_valid (ecn_increment e c)"
  by (cases e) (simp_all add: ecn_counts_valid_def varint_valid_saturating_add)

lemma am_processed_spec:
  assumes inv: "am_inv s st w" and p: "pn_in s (pp_packet_number p)" "pp_timestamp p \<noteq> 0" "am_deadline st (pp_timestamp p) < 2 ^ 64"
  shows "\<exists>m'. am_on_processed_packet p (aw_manager w) = Some m' \<and>
    am_ack_settings m' = st \<and> am_ack_eliciting_transmissions m' = am_ack_eliciting_transmissions (aw_manager w) \<and>
    ecn_counts_valid (am_ecn_counts m') \<and> am_transmission_state m' \<noteq> Disabled \<and>
    (ats_is_active (am_transmission_state (aw_manager w)) \<longrightarrow> ats_is_active (am_transmission_state m')) \<and>
    (\<forall>e. expiration (am_ack_delay_timer m') = Some e \<longrightarrow>
       expiration (am_ack_delay_timer (aw_manager w)) = Some e \<or> unat e = am_deadline st (pp_timestamp p)) \<and>
    (\<forall>e. expiration (am_ack_delay_timer (aw_manager w)) = Some e \<longrightarrow>
       expiration (am_ack_delay_timer m') = Some e \<or> ats_is_active (am_transmission_state m')) \<and>
    (pp_ack_elicitation p = Eliciting \<longrightarrow>
       expiration (am_ack_delay_timer m') \<noteq> None \<or> ats_is_active (am_transmission_state m')) \<and>
    pn_set_wf s (am_ack_ranges m') \<and> is_limit (am_ack_ranges m') = Some (unat (as_ack_ranges_limit st)) \<and>
    interval_count (am_ack_ranges m') \<le> unat (as_ack_ranges_limit st) \<and> is_intervals (am_ack_ranges m') \<noteq> [] \<and>
    pn_set (am_ack_ranges m') \<subseteq> insert (pn_val (pp_packet_number p)) (pn_set (am_ack_ranges (aw_manager w)))"
proof -
  let ?m = "aw_manager w"
  have st: "am_ack_settings ?m = st" by (rule am_invD(1) [OF inv])
  have "0 < unat (pp_timestamp p)" using p(2) by (simp add: unat_gt_0)
  then obtain at where at: "ts_add (pp_timestamp p) (as_max_ack_delay (am_ack_settings ?m)) = Some at"
    "unat at = am_deadline st (pp_timestamp p)"
    using unat_ts_add [of "pp_timestamp p" "as_max_ack_delay st"] p(3) st by (auto simp: am_deadline_def)
  obtain ranges where ins: "am_insert (pp_packet_number p) ?m = Some (?m\<lparr>am_ack_ranges := ranges\<rparr>)"
    and r: "pn_set_wf s ranges" "is_limit ranges = Some (unat (as_ack_ranges_limit st))"
    "interval_count ranges \<le> unat (as_ack_ranges_limit st)" "is_intervals ranges \<noteq> []"
    "pn_set ranges \<subseteq> insert (pn_val (pp_packet_number p)) (pn_set (am_ack_ranges ?m))"
    using am_insert_spec [OF inv p(1)] by blast
  note upd = state_on_update_cases [OF r(4), of "am_transmission_state ?m"]
  from am_on_processed_packet_spec [OF ins at(1)] obtain m' where
    m': "am_on_processed_packet p ?m = Some m'" "am_ack_ranges m' = ranges" "am_ack_settings m' = am_ack_settings ?m"
      "am_ack_eliciting_transmissions m' = am_ack_eliciting_transmissions ?m"
      "am_ecn_counts m' = ecn_increment (pp_ecn p) (am_ecn_counts ?m)"
    and s: "am_transmission_state m' \<in> {state_on_update ranges (am_transmission_state ?m),
      activate (state_on_update ranges (am_transmission_state ?m))}"
    and t1: "expiration (am_ack_delay_timer m') \<in> {None, expiration (am_ack_delay_timer ?m), Some at}"
    and t2: "expiration (am_ack_delay_timer ?m) \<noteq> expiration (am_ack_delay_timer m') \<and> expiration (am_ack_delay_timer ?m) \<noteq> None \<or>
       pp_ack_elicitation p = Eliciting \<and> expiration (am_ack_delay_timer m') = None \<longrightarrow>
     am_transmission_state m' = activate (state_on_update ranges (am_transmission_state ?m))" by blast
  have act: "am_transmission_state m' = activate (state_on_update ranges (am_transmission_state ?m)) \<Longrightarrow>
      ats_is_active (am_transmission_state m')" using upd(1) by simp
  have "ecn_counts_valid (am_ecn_counts m')" using m'(5) ecn_increment_valid am_invD(6) [OF inv] by simp
  moreover have "am_transmission_state m' \<noteq> Disabled" using s upd(1) by auto
  moreover have "ats_is_active (am_transmission_state ?m) \<longrightarrow> ats_is_active (am_transmission_state m')"
    using s upd(2) by auto
  moreover have "expiration (am_ack_delay_timer ?m) = Some e \<or> unat e = am_deadline st (pp_timestamp p)"
    if "expiration (am_ack_delay_timer m') = Some e" for e using that t1 at(2) by auto
  moreover have "expiration (am_ack_delay_timer m') = Some e \<or> ats_is_active (am_transmission_state m')"
    if "expiration (am_ack_delay_timer ?m) = Some e" for e using that t2 act by auto
  moreover have "expiration (am_ack_delay_timer m') \<noteq> None \<or> ats_is_active (am_transmission_state m')"
    if "pp_ack_elicitation p = Eliciting" using that t2 act by auto
  ultimately show ?thesis using m'(1-4) st r by (intro exI [of _ m'] conjI) simp_all
qed

lemma am_processed_inv:
  assumes inv: "am_inv s st w" and p: "pn_in s (pp_packet_number p)" "pp_timestamp p \<noteq> 0" "am_deadline st (pp_timestamp p) < 2 ^ 64"
    and now: "aw_now w \<le> pp_timestamp p" and m: "am_on_processed_packet p (aw_manager w) = Some m"
  shows "am_inv s st \<lparr>aw_processed = insert (pn_val (pp_packet_number p)) (aw_processed w), aw_now = pp_timestamp p, aw_manager = m\<rparr>"
proof -
  note spec = am_processed_spec [OF inv p, unfolded m, simplified]
  have "am_deadline st (aw_now w) \<le> am_deadline st (pp_timestamp p)"
    using now by (simp add: am_deadline_def word_le_nat_alt)
  then have "unat e \<le> am_deadline st (pp_timestamp p)" if "expiration (am_ack_delay_timer m) = Some e" for e
    using spec that inv by (auto simp: am_inv_def Let_def intro: order_trans)
  with spec am_invD(5) [OF inv] inv show ?thesis by (auto simp: am_inv_def Let_def)
qed

end
