(* ===== verification/AckRuns.thy ===== *)
theory AckRuns
  imports AckManager
begin

text \<open>
  What the acknowledgement manager guarantees in every run: it never panics, it only acknowledges
  packets that were processed, and every ack-eliciting packet whose number is still recorded is acknowledged
  in time. How a number can be lost before that is stated with it, and an example shows that it happens.
\<close>

section \<open>The invariant\<close>

lemma ats_on_update_sub:
  assumes "ats_on_update acks tx = (r, tx')"
  shows "ats_stable tx' = Some t \<or> ats_latest tx' = Some t \<Longrightarrow> ats_stable tx = Some t \<or> ats_latest tx = Some t"
    and "r = Some (lo, hi) \<Longrightarrow> \<exists>t. (ats_stable tx = Some t \<or> ats_latest tx = Some t) \<and>
      hi = atx_largest_received_packet_number_acked t \<and> lo = pn_from_varint 0 (pn_space hi)"
  using assms
  by (auto simp: ats_on_update_def atx_ack_range_def bind_eq_Some_conv split: option.splits if_splits)

lemma am_acked_spec:
  assumes inv: "am_inv s st w"
  shows "\<exists>m. am_on_packet_ack acks (aw_manager w) = Some m \<and> am_inv s st (w\<lparr>aw_manager := m\<rparr>) \<and>
    pn_set (am_ack_ranges m) \<subseteq> pn_set (am_ack_ranges (aw_manager w)) \<and>
    am_transmission_state m = am_transmission_state (aw_manager w) \<and> am_ack_delay_timer m = am_ack_delay_timer (aw_manager w)"
proof -
  let ?m = "aw_manager w"
  obtain r tx where u: "ats_on_update acks (am_ack_eliciting_transmissions ?m) = (r, tx)" by fastforce
  note sub = ats_on_update_sub [OF u]
  show ?thesis
  proof (cases r)
    case None
    with u sub(1) inv show ?thesis by (auto simp: am_on_packet_ack_def am_inv_def Let_def)
  next
    case (Some range)
    obtain lo hi where lh: "range = (lo, hi)" by fastforce
    have hi: "pn_in s hi" "lo = pn_from_varint 0 s"
      using sub(2) Some lh inv pn_space_in by (auto simp: am_inv_def Let_def)
    obtain ranges where rm: "is_remove packet_number_bound (am_ack_ranges ?m) (Included lo, Included hi) = Some (Inr (), ranges)"
      "pn_set_wf s ranges" "is_limit ranges = is_limit (am_ack_ranges ?m)"
      "interval_count ranges \<le> interval_count (am_ack_ranges ?m)" "pn_set ranges = pn_set (am_ack_ranges ?m) - {0..pn_val hi}"
      using ranges_remove_up_to [OF am_invD(2) [OF inv] hi(1)] hi(2) by blast
    have "is_intervals (am_ack_ranges ?m) = [] \<Longrightarrow> is_intervals ranges = []"
      using rm(4) by (simp add: interval_count_def)
    with u Some lh rm sub(1) inv show ?thesis by (auto simp: am_on_packet_ack_def am_inv_def Let_def)
  qed
qed

lemma am_lost_spec:
  assumes inv: "am_inv s st w" and m_def: "m = am_on_packet_loss acks (aw_manager w)"
  shows "am_inv s st (w\<lparr>aw_manager := m\<rparr>)" "am_ack_ranges m = am_ack_ranges (aw_manager w)"
    "am_ack_delay_timer m = am_ack_delay_timer (aw_manager w)"
    "pn_set (am_ack_ranges m) \<noteq> {} \<Longrightarrow> ats_is_active (am_transmission_state (aw_manager w)) \<Longrightarrow> ats_is_active (am_transmission_state m)"
proof -
  let ?m = "aw_manager w"
  obtain r tx where u: "ats_on_update acks (am_ack_eliciting_transmissions ?m) = (r, tx)" by fastforce
  note sub = ats_on_update_sub(1) [OF u]
  have ne: "is_intervals (am_ack_ranges ?m) \<noteq> [] \<Longrightarrow> activate (state_on_update (am_ack_ranges ?m) (am_transmission_state ?m)) \<noteq> Disabled"
    by (simp add: state_on_update_cases)
  show "am_inv s st (w\<lparr>aw_manager := m\<rparr>)"
    using sub inv ne by (auto simp: m_def am_on_packet_loss_def u am_inv_def Let_def split: option.splits)
  show same: "am_ack_ranges m = am_ack_ranges (aw_manager w)" "am_ack_delay_timer m = am_ack_delay_timer (aw_manager w)"
    by (simp_all add: m_def am_on_packet_loss_def u split: option.splits)
  show "ats_is_active (am_transmission_state m)"
    if "pn_set (am_ack_ranges m) \<noteq> {}" "ats_is_active (am_transmission_state (aw_manager w))"
    using that pn_set_empty_iff [OF am_invD(2) [OF inv]] same(1)
    by (auto simp: m_def am_on_packet_loss_def u state_on_update_cases split: option.splits)
qed

lemma am_timeout_spec:
  assumes inv: "am_inv s st w" and m_def: "m = am_on_timeout now (aw_manager w)"
  shows "am_inv s st (w\<lparr>aw_manager := m\<rparr>)" "am_ack_ranges m = am_ack_ranges (aw_manager w)"
    "ats_is_active (am_transmission_state (aw_manager w)) \<Longrightarrow> ats_is_active (am_transmission_state m)"
    "expiration (am_ack_delay_timer (aw_manager w)) = Some e \<Longrightarrow> pn_set (am_ack_ranges m) \<noteq> {} \<Longrightarrow>
      expiration (am_ack_delay_timer m) = Some e \<and> \<not> has_elapsed e now \<or> ats_is_active (am_transmission_state m)"
proof -
  let ?m = "aw_manager w"
  show "am_inv s st (w\<lparr>aw_manager := m\<rparr>)"
    using inv by (auto simp: m_def am_on_timeout_def am_poll_timer_def am_inv_def Let_def poll_expiration_def timer_cancel_def split: prod.splits)
  show same: "am_ack_ranges m = am_ack_ranges ?m"
    by (simp add: m_def am_on_timeout_def am_poll_timer_def Let_def split: prod.splits)
  show "ats_is_active (am_transmission_state ?m) \<Longrightarrow> ats_is_active (am_transmission_state m)"
    by (simp add: m_def am_on_timeout_def am_poll_timer_def Let_def split: prod.splits)
  assume e: "expiration (am_ack_delay_timer ?m) = Some e" and ne: "pn_set (am_ack_ranges m) \<noteq> {}"
  then have "am_transmission_state ?m \<noteq> Disabled"
    using inv pn_set_empty_iff [OF am_invD(2) [OF inv]] same by (auto simp: am_inv_def Let_def)
  then show "expiration (am_ack_delay_timer m) = Some e \<and> \<not> has_elapsed e now \<or> ats_is_active (am_transmission_state m)"
    using e by (auto simp: m_def am_on_timeout_def am_poll_timer_def Let_def poll_expiration_def timer_is_expired_def split: prod.splits)
qed

lemma am_try_elicit_Some:
  "am_try_elicit ne zc m ctx = Some (b, m', ctx') \<Longrightarrow> \<exists>c. m' = m\<lparr>am_transmissions_since_elicitation := c\<rparr>"
  by (auto simp: am_try_elicit_def Let_def split: if_splits intro: exI [of _ "am_transmissions_since_elicitation m"])

lemma am_transmit_complete_spec:
  assumes inv: "am_inv s st w" and ne: "network_endian_ok ne" "zerocopy_ok zc" and wf: "tx_wf ctx"
    and r: "am_has_ranges (aw_manager w)"
  shows "am_on_transmit_complete ne zc (aw_manager w) ctx \<noteq> None"
proof -
  let ?m = "(aw_manager w)\<lparr>am_ack_delay_timer := timer_cancel (am_ack_delay_timer (aw_manager w))\<rparr>"
  have "frame_ok (\<lambda>_. []) (Ping :: unit frame)" by simp
  from write_frame_spec [OF ne this wf] obtain res where "write_frame ne zc (\<lambda>_. []) (Ping :: unit frame) ctx = Some res"
    by (auto split: if_splits)
  then obtain b m' ctx' where e: "am_try_elicit ne zc ?m ctx = Some (b, m', ctx')"
    by (cases "am_try_elicit ne zc ?m ctx") (auto simp: am_try_elicit_def Let_def split: if_splits prod.splits)
  obtain p where "max_value (am_ack_ranges (aw_manager w)) = Some p"
    using max_value_spec [OF am_invD(2) [OF inv]] r by (auto simp: am_has_ranges_def)
  with e am_try_elicit_Some [OF e] show ?thesis by (auto simp: am_on_transmit_complete_def Let_def)
qed

lemma am_sent_inv:
  assumes inv: "am_inv s st w" and m: "am_on_transmit_complete ne zc (aw_manager w) ctx = Some (m, ctx')"
  shows "am_inv s st (w\<lparr>aw_manager := m\<rparr>)"
proof -
  let ?m = "(aw_manager w)\<lparr>am_ack_delay_timer := timer_cancel (am_ack_delay_timer (aw_manager w))\<rparr>"
  obtain b m1 ctx1 where e: "am_try_elicit ne zc ?m ctx = Some (b, m1, ctx1)"
    using m by (auto simp: am_on_transmit_complete_def Let_def bind_eq_Some_conv)
  then obtain c where c: "m1 = ?m\<lparr>am_transmissions_since_elicitation := c\<rparr>" using am_try_elicit_Some by blast
  obtain p where p: "max_value (am_ack_ranges (aw_manager w)) = Some p"
    using m e c by (auto simp: am_on_transmit_complete_def Let_def bind_eq_Some_conv)
  have m': "am_ack_settings m = am_ack_settings (aw_manager w)" "am_ack_ranges m = am_ack_ranges (aw_manager w)"
    "am_ecn_counts m = am_ecn_counts (aw_manager w)" "expiration (am_ack_delay_timer m) = None"
    "am_ack_eliciting_transmissions m = (if b then ats_on_transmit \<lparr>atx_sent_in_packet = tc_packet_number ctx1,
       atx_largest_received_packet_number_acked = p\<rparr> (am_ack_eliciting_transmissions (aw_manager w))
     else am_ack_eliciting_transmissions (aw_manager w))"
    using m e c p by (auto simp: am_on_transmit_complete_def Let_def timer_cancel_def)
  have "pn_in s p"
    using max_value_spec [OF am_invD(2) [OF inv]] p by (cases "is_intervals (am_ack_ranges (aw_manager w)) = []") (auto simp: max_value_def)
  then have "pn_in s (atx_largest_received_packet_number_acked t)"
    if "ats_stable (am_ack_eliciting_transmissions m) = Some t \<or> ats_latest (am_ack_eliciting_transmissions m) = Some t" for t
    using that inv by (auto simp: m'(5) ats_on_transmit_def Let_def am_inv_def split: if_splits)
  with m'(1-4) inv show ?thesis by (simp add: am_inv_def Let_def)
qed

lemma am_step_inv: "am_step ne zc s e w w' \<Longrightarrow> am_inv s st w \<Longrightarrow> am_inv s st w'"
proof (induction rule: am_step.induct)
  case (am_processed p w m)
  have "am_deadline st (pp_timestamp p) < 2 ^ 64" using am_processed(4) am_invD(1) [OF am_processed(6)] by simp
  then show ?case by (rule am_processed_inv [OF am_processed(6,1,3) _ am_processed(2,5)])
next
  case (am_acked acks w m)
  then show ?case using am_acked_spec [OF am_acked(2), of acks] by auto
qed (simp_all add: am_sent_inv am_lost_spec(1) am_timeout_spec(1))

lemma am_reachable_inv: "am_reachable ne zc s st w \<Longrightarrow> am_inv s st w"
proof (induction rule: am_reachable.induct)
  case (am_start m now)
  then have "0 < unat (as_ack_ranges_limit st)"
    and "m = \<lparr>am_ack_delay_timer = timer_default, am_ack_eliciting_transmissions = ack_transmission_set_default,
       am_ack_ranges = with_limit (unat (as_ack_ranges_limit st)), am_ack_settings = st,
       am_largest_received_packet_number_acked = pn_from_varint 0 s, am_largest_received_packet_number_at = None,
       am_processed_packets_since_transmission = 0, am_transmissions_since_elicitation = 0,
       am_transmission_state = Disabled, am_ecn_counts = ecn_counts_default\<rparr>"
    by (auto simp: ack_manager_new_def ranges_new_def split: if_splits)
  then show ?case
    by (simp add: am_inv_def Let_def pn_set_wf_def pn_set_def with_limit_def set_limit_def interval_set_new_def
        interval_count_def ack_transmission_set_default_def ecn_counts_valid_def ecn_counts_default_def timer_default_def
        varint_valid_def)
qed (simp add: am_step_inv)

section \<open>The frame that is sent\<close>

lemma am_frame_spec:
  assumes inv: "am_inv s st w" and st: "unat (as_ack_delay_exponent st) \<le> 20" and r: "am_has_ranges (aw_manager w)"
  shows "\<exists>delay. am_ack_delay now (aw_manager w) = Some delay \<and>
    frame_ok ranges_ack_ranges (Ack \<lparr>ack_delay = delay, ack_ranges = am_ack_ranges (aw_manager w),
      ack_ecn_counts = ecn_as_option (am_ecn_counts (aw_manager w))\<rparr>)"
proof -
  note spec = ranges_ack_ranges_spec [OF am_invD(2) [OF inv]]
  obtain delay where d: "am_ack_delay now (aw_manager w) = Some delay" "varint_valid delay"
    using encode_ack_delay_eq [OF st] am_invD(1) [OF inv]
    by (auto simp: am_ack_delay_def varint_max_less unat_of_nat_no_wrap)
  have "length (ranges_ack_ranges (am_ack_ranges (aw_manager w))) < 2 ^ 62"
    using spec(2) am_invD(4) [OF inv] unat_less_power [of "as_ack_ranges_limit st"] by simp
  moreover have "ranges_ack_ranges (am_ack_ranges (aw_manager w)) \<noteq> []"
    using r by (simp add: ranges_ack_ranges_def am_has_ranges_def)
  ultimately have "frame_ok ranges_ack_ranges (Ack \<lparr>ack_delay = delay, ack_ranges = am_ack_ranges (aw_manager w),
      ack_ecn_counts = ecn_as_option (am_ecn_counts (aw_manager w))\<rparr>)"
    using d spec(1) am_invD(6) [OF inv] by (simp add: ack_frame_ok_def ecn_as_option_def)
  with d show ?thesis by blast
qed

lemma ack_wire_length: "length (frame_wire ranges (Ack f)) \<le> 49 + 16 * length (ranges (ack_ranges f))"
proof -
  have v: "length (varint_wire v) \<le> 8" for v by (simp add: varint_len_def)
  have rs: "length (ack_ranges_wire x rs) \<le> 16 * length rs" for x rs
  proof (induction x rs rule: ack_ranges_wire.induct)
    case (2 x lo hi rs)
    with v [of "x - hi - 2"] v [of "hi - lo"] show ?case by simp
  qed simp
  have c: "length (case c of None \<Rightarrow> [] | Some c \<Rightarrow> ecn_counts_wire c) \<le> 24" for c
    by (cases c) (auto simp: ecn_counts_wire_def varint_len_def)
  show ?thesis
  proof (cases "ranges (ack_ranges f)")
    case (Cons r rs')
    obtain lo hi where r: "r = (lo, hi)" by fastforce
    show ?thesis
      using v [of hi] v [of "ack_delay f"] v [of "word_of_nat (length rs')"] v [of "hi - lo"] rs [of lo rs'] c [of "ack_ecn_counts f"]
      by (simp add: ack_wire_def ack_wire_body_def Cons r)
  qed (simp add: ack_wire_def ack_wire_body_def)
qed

lemma am_on_transmit_spec:
  assumes inv: "am_inv s st w" and st: "unat (as_ack_delay_exponent st) \<le> 20" and ne: "network_endian_ok ne" "zerocopy_ok zc"
    and wf: "tx_wf ctx"
  obtains b ctx' where "am_on_transmit ne zc (aw_manager w) ctx = Some (b, ctx')" "tx_wf ctx'" "b \<Longrightarrow> am_has_ranges (aw_manager w)"
    "b \<Longrightarrow> \<exists>f. frame_ok ranges_ack_ranges (Ack f) \<and> ack_ranges f = am_ack_ranges (aw_manager w) \<and>
       tx_payload ctx' = tx_payload ctx @ frame_wire ranges_ack_ranges (Ack f)"
proof (cases "should_transmit (am_transmission_state (aw_manager w)) (tc_constraint ctx) (tc_mode ctx) (am_has_ranges (aw_manager w))")
  case False
  then show thesis using that [of False ctx] wf by (simp add: am_on_transmit_def)
next
  case True
  then have r: "am_has_ranges (aw_manager w)" by (simp add: should_transmit_def split: if_splits)
  obtain delay where d: "am_ack_delay (tc_timestamp ctx) (aw_manager w) = Some delay"
    "frame_ok ranges_ack_ranges (Ack \<lparr>ack_delay = delay, ack_ranges = am_ack_ranges (aw_manager w),
      ack_ecn_counts = ecn_as_option (am_ecn_counts (aw_manager w))\<rparr>)"
    using am_frame_spec [OF inv st r] by blast
  let ?f = "\<lparr>ack_delay = delay, ack_ranges = am_ack_ranges (aw_manager w), ack_ecn_counts = ecn_as_option (am_ecn_counts (aw_manager w))\<rparr>"
  show thesis
  proof (cases "tx_accepts ranges_ack_ranges ctx (Ack ?f)")
    case False
    then have "write_frame ne zc ranges_ack_ranges (Ack ?f) ctx = Some (None, ctx)"
      using write_frame_spec [OF ne d(2) wf] by simp
    then show thesis using that [of False ctx] True d(1) wf by (simp add: am_on_transmit_def)
  next
    case acc: True
    then obtain ctx' where ctx': "write_frame ne zc ranges_ack_ranges (Ack ?f) ctx = Some (Some (tc_packet_number ctx), ctx')"
      "tx_wf ctx'" "tx_payload ctx' = tx_payload ctx @ frame_wire ranges_ack_ranges (Ack ?f)"
      using write_frame_spec [OF ne d(2) wf] by auto
    then have "am_on_transmit ne zc (aw_manager w) ctx = Some (True, ctx')"
      using True d(1) by (simp add: am_on_transmit_def)
    then show thesis
      by (rule that [OF _ ctx'(2)]) (use r d(2) ctx'(3) in \<open>auto intro!: exI [of _ ?f] simp del: frame_wire.simps\<close>)
  qed
qed

lemma am_on_transmit_written:
  assumes inv: "am_inv s st w" and st: "unat (as_ack_delay_exponent st) \<le> 20" and ne: "network_endian_ok ne" "zerocopy_ok zc"
    and wf: "tx_wf ctx" and act: "ats_is_active (am_transmission_state (aw_manager w))" and r: "am_has_ranges (aw_manager w)"
    and room: "49 + 16 * unat (as_ack_ranges_limit st) \<le> scatter_remaining (tc_buffer ctx)"
  shows "\<exists>ctx'. am_on_transmit ne zc (aw_manager w) ctx = Some (True, ctx')"
proof -
  obtain delay where d: "am_ack_delay (tc_timestamp ctx) (aw_manager w) = Some delay"
    "frame_ok ranges_ack_ranges (Ack \<lparr>ack_delay = delay, ack_ranges = am_ack_ranges (aw_manager w),
      ack_ecn_counts = ecn_as_option (am_ecn_counts (aw_manager w))\<rparr>)"
    using am_frame_spec [OF inv st r] by blast
  let ?f = "\<lparr>ack_delay = delay, ack_ranges = am_ack_ranges (aw_manager w), ack_ecn_counts = ecn_as_option (am_ecn_counts (aw_manager w))\<rparr>"
  have "length (frame_wire ranges_ack_ranges (Ack ?f)) \<le> 49 + 16 * interval_count (am_ack_ranges (aw_manager w))"
    using ack_wire_length [of ranges_ack_ranges ?f] ranges_ack_ranges_spec(2) [OF am_invD(2) [OF inv]] by simp
  then have "tx_accepts ranges_ack_ranges ctx (Ack ?f)"
    unfolding tx_accepts_def using room am_invD(4) [OF inv] by linarith
  then obtain ctx' where "write_frame ne zc ranges_ack_ranges (Ack ?f) ctx = Some (Some (tc_packet_number ctx), ctx')"
    using write_frame_spec [OF ne d(2) wf] by auto
  moreover have "should_transmit (am_transmission_state (aw_manager w)) (tc_constraint ctx) (tc_mode ctx) True"
    using act by (cases "am_transmission_state (aw_manager w)") (simp_all add: should_transmit_def)
  ultimately show ?thesis using d(1) r by (simp add: am_on_transmit_def)
qed

lemma decode_ack_wire:
  assumes "network_endian_ok ne" "frame_ok ranges (Ack f)"
  shows "\<exists>f'. decode_frame ne zc (frame_wire ranges (Ack f) @ rest) = Inr (Ack f', rest) \<and>
    decoder_ack_ranges ne (ack_ranges f') = Some (ranges (ack_ranges f)) \<and>
    largest_acknowledged (ranges (ack_ranges f)) = Some (ard_largest_acknowledged (ack_ranges f'))"
proof -
  obtain f' where "ack_decode ne (ack_tag f) (ack_wire ranges f @ rest) = Inr (f', rest)"
    "decoder_ack_ranges ne (ack_ranges f') = Some (ranges (ack_ranges f))"
    "largest_acknowledged (ranges (ack_ranges f)) = Some (ard_largest_acknowledged (ack_ranges f'))"
    using ack_decode_wire [OF assms(1), of ranges f rest] assms(2) by auto
  then show ?thesis by (simp add: computed_tags_decode decode_into_def)
qed

lemma largest_acknowledged_Max:
  assumes wf: "pn_set_wf s self" and "is_intervals self \<noteq> []"
  shows "\<exists>v. largest_acknowledged (ranges_ack_ranges self) = Some v \<and> unat v = Max (pn_set self)"
proof -
  obtain rs x where "is_intervals self = rs @ [x]" using assms(2) by (cases "is_intervals self" rule: rev_cases) auto
  moreover obtain p where "max_value self = Some p" "pn_val p = Max (pn_set self)"
    using max_value_spec [OF assms] by blast
  ultimately show ?thesis
    by (auto simp: largest_acknowledged_def ranges_ack_ranges_def max_value_def pn_as_varint_def)
qed

section \<open>Timely acknowledgement\<close>

text \<open>An acknowledgement is due: the manager wants to send, or a timer before the deadline will make it.\<close>

definition ack_due :: "nat \<Rightarrow> ack_manager \<Rightarrow> bool" where
  "ack_due d m \<longleftrightarrow> ats_is_active (am_transmission_state m) \<or> (\<exists>e. expiration (am_ack_delay_timer m) = Some e \<and> unat e \<le> d)"

definition am_quiet_step ::
    "network_endian \<Rightarrow> zerocopy \<Rightarrow> packet_number_space \<Rightarrow> packet_number \<Rightarrow> am_world \<Rightarrow> am_world \<Rightarrow> bool" where
  "am_quiet_step ne zc s n w w' \<longleftrightarrow>
     (\<exists>e. am_step ne zc s e w w' \<and> e \<noteq> AckSent \<and> (\<forall>p. e = Processed p \<longrightarrow> pp_packet_number p \<noteq> n))"

lemma ack_due_processed:
  assumes inv: "am_inv s st w" and step: "am_step ne zc s (Processed p) w w'" and el: "pp_ack_elicitation p = Eliciting"
  shows "ack_due (am_deadline st (pp_timestamp p)) (aw_manager w')"
  using step
proof cases
  case (am_processed m)
  have dl: "am_deadline st (pp_timestamp p) < 2 ^ 64" using am_processed(5) am_invD(1) [OF inv] by simp
  have "am_deadline st (aw_now w) \<le> am_deadline st (pp_timestamp p)"
    using am_processed(3) by (simp add: am_deadline_def word_le_nat_alt)
  then have old: "unat e \<le> am_deadline st (pp_timestamp p)" if "expiration (am_ack_delay_timer (aw_manager w)) = Some e" for e
    using that inv by (fastforce simp: am_inv_def Let_def)
  show ?thesis
    using am_processed_spec [OF inv am_processed(2,4) dl, unfolded am_processed(6)] el old am_processed(1)
    by (auto simp: ack_due_def)
qed

lemma ack_due_quiet:
  assumes inv: "am_inv s st w" and step: "am_quiet_step ne zc s n w w'" and n: "pn_in s n"
    and due: "pn_val n \<in> pn_set (am_ack_ranges (aw_manager w)) \<longrightarrow> ack_due d (aw_manager w)"
  shows "pn_val n \<in> pn_set (am_ack_ranges (aw_manager w')) \<longrightarrow> ack_due d (aw_manager w')"
proof -
  obtain e where e: "am_step ne zc s e w w'" "e \<noteq> AckSent" "\<forall>p. e = Processed p \<longrightarrow> pp_packet_number p \<noteq> n"
    using step by (auto simp: am_quiet_step_def)
  show ?thesis
    using e(1)
  proof cases
    case (am_processed p m)
    have dl: "am_deadline st (pp_timestamp p) < 2 ^ 64" using am_processed(6) am_invD(1) [OF inv] by simp
    have "pn_val (pp_packet_number p) \<noteq> pn_val n" using e(3) am_processed(1,3) n by (auto simp: pn_eq_iff [of s])
    then show ?thesis
      using am_processed_spec [OF inv am_processed(3,5) dl, unfolded am_processed(7)] due am_processed(2)
      by (auto simp: ack_due_def)
  next
    case (am_acked acks m)
    with am_acked_spec [OF inv, of acks] due show ?thesis by (auto simp: ack_due_def)
  next
    case (am_lost acks)
    with am_lost_spec [OF inv refl, of acks] due show ?thesis by (auto simp: ack_due_def)
  next
    case (am_timed_out now)
    note t = am_timeout_spec [OF inv refl, where now = now]
    show ?thesis
    proof
      assume in': "pn_val n \<in> pn_set (am_ack_ranges (aw_manager w'))"
      with am_timed_out t(2) due have "ack_due d (aw_manager w)" by simp
      then show "ack_due d (aw_manager w')" using t(3) t(4) in' am_timed_out by (auto simp: ack_due_def)
    qed
  qed (use e(2) in simp)
qed

lemma ack_due_run:
  assumes inv: "am_inv s st w" and run: "(am_quiet_step ne zc s n)\<^sup>*\<^sup>* w w'" and n: "pn_in s n"
    and due: "ack_due d (aw_manager w)"
  shows "am_inv s st w' \<and> (pn_val n \<in> pn_set (am_ack_ranges (aw_manager w')) \<longrightarrow> ack_due d (aw_manager w'))"
  using run
proof (induction rule: rtranclp_induct)
  case base
  then show ?case using inv due by simp
next
  case (step w1 w2)
  then have "am_inv s st w2" using am_step_inv by (auto simp: am_quiet_step_def)
  with step ack_due_quiet [of s st w1 ne zc n w2 d] n show ?case by blast
qed

section \<open>How a number is given up\<close>

lemma insert_packet_number_loses:
  assumes wf: "pn_set_wf s self" "is_limit self = Some l" "interval_count self \<le> l" and p: "pn_in s p"
    and ins: "insert_packet_number self p = Some (res, self')"
  shows "n \<in> pn_set self \<Longrightarrow> n \<notin> pn_set self' \<Longrightarrow> interval_count self = l \<and> n < pn_val p"
    and "pn_val p \<notin> pn_set self' \<Longrightarrow> interval_count self = l \<and> (\<forall>k\<in>pn_set self. pn_val p < k)"
proof -
  have r: "pnr_new p p = Some \<lparr>pnr_start = p, pnr_end = p, pnr_exhausted = False\<rparr>" by (simp add: pnr_new_def)
  have full: "interval_count self = l" if "pn_set self' \<noteq> pn_set self \<union> {pn_val p}"
  proof (cases rule: ranges_insert_first [OF wf p p order_refl, case_names Full Ok])
    case (Ok modified self'')
    with ins r that show ?thesis by (simp add: insert_packet_number_def insert_packet_number_range_def)
  qed
  obtain res' self'' where range: "insert_packet_number_range self \<lparr>pnr_start = p, pnr_end = p, pnr_exhausted = False\<rparr> = Some (res', self'')"
    "case res' of
       Inr _ \<Rightarrow> pn_set self'' = pn_set self \<union> {pn_val p..pn_val p}
     | Inl (LowestRangeDropped lo hi) \<Rightarrow>
         {pn_val lo..pn_val hi} \<subseteq> pn_set self \<and>
         pn_set self'' = (pn_set self - {pn_val lo..pn_val hi}) \<union> {pn_val p..pn_val p} \<and>
         pn_val hi < pn_val p \<and> (\<forall>n\<in>pn_set self - {pn_val lo..pn_val hi}. pn_val hi < n)
     | Inl (RangeInsertionFailed lo hi) \<Rightarrow>
         lo = p \<and> hi = p \<and> self'' = self \<and> (\<forall>n\<in>pn_set self. pn_val p < n)"
    using insert_packet_number_range_sound [OF wf p p r] by blast
  have self': "self'' = self'" using ins r range(1) by (simp add: insert_packet_number_def)
  show "interval_count self = l \<and> n < pn_val p" if "n \<in> pn_set self" "n \<notin> pn_set self'"
  proof
    show "interval_count self = l" using full that by blast
    show "n < pn_val p" using that range(2) by (auto simp: self' split: sum.splits ack_ranges_error.splits)
  qed
  show "interval_count self = l \<and> (\<forall>k\<in>pn_set self. pn_val p < k)" if "pn_val p \<notin> pn_set self'"
  proof
    show "interval_count self = l" using full that by blast
    show "\<forall>k\<in>pn_set self. pn_val p < k"
      using that range(2) by (auto simp: self' split: sum.splits ack_ranges_error.splits)
  qed
qed

lemma am_processed_ranges:
  assumes "am_on_processed_packet p m = Some m'"
  shows "\<exists>res. insert_packet_number (am_ack_ranges m) (pp_packet_number p) = Some (res, am_ack_ranges m')"
proof -
  have poll: "am_ack_ranges (am_poll_timer now m) = am_ack_ranges m" for now m
    by (simp add: am_poll_timer_def Let_def split: prod.splits)
  have sched: "am_ack_ranges m' = am_ack_ranges m" if "am_schedule p a b m = Some m'" for a b m m'
    using that by (auto simp: am_schedule_def Let_def split: if_splits)
  show ?thesis
    using assms by (auto simp: am_on_processed_packet_def am_insert_def Let_def bind_eq_Some_conv poll
        split: prod.splits if_splits dest!: sched)
qed

text \<open>
  A recorded number is given up for one of two reasons: a packet of ours that carried an
  acknowledgement up to a number not below it was acknowledged, or a higher number needed its place
  in ranges that were at their limit.
\<close>

definition am_gives_up :: "ack_settings \<Rightarrow> packet_number \<Rightarrow> am_world \<Rightarrow> am_world \<Rightarrow> bool" where
  "am_gives_up st n w w' \<longleftrightarrow>
     pn_val n \<in> pn_set (am_ack_ranges (aw_manager w)) \<and> pn_val n \<notin> pn_set (am_ack_ranges (aw_manager w')) \<and>
     ((\<exists>acks t. am_on_packet_ack acks (aw_manager w) = Some (aw_manager w') \<and> acks (atx_sent_in_packet t) \<and>
         t \<in> set_option (ats_stable (am_ack_eliciting_transmissions (aw_manager w))) \<union>
             set_option (ats_latest (am_ack_eliciting_transmissions (aw_manager w))) \<and>
         pn_val n \<le> pn_val (atx_largest_received_packet_number_acked t)) \<or>
      (\<exists>p. am_on_processed_packet p (aw_manager w) = Some (aw_manager w') \<and> pn_val n < pn_val (pp_packet_number p) \<and>
         interval_count (am_ack_ranges (aw_manager w)) = unat (as_ack_ranges_limit st)))"

lemma am_acked_loses:
  assumes inv: "am_inv s st w" and m: "am_on_packet_ack acks (aw_manager w) = Some m"
    and n: "n \<in> pn_set (am_ack_ranges (aw_manager w))" "n \<notin> pn_set (am_ack_ranges m)"
  shows "\<exists>t. acks (atx_sent_in_packet t) \<and> n \<le> pn_val (atx_largest_received_packet_number_acked t) \<and>
    t \<in> set_option (ats_stable (am_ack_eliciting_transmissions (aw_manager w))) \<union>
        set_option (ats_latest (am_ack_eliciting_transmissions (aw_manager w)))"
proof -
  let ?tx = "am_ack_eliciting_transmissions (aw_manager w)"
  obtain r tx where u: "ats_on_update acks ?tx = (r, tx)" by fastforce
  with m n obtain lo hi where lh: "r = Some (lo, hi)" by (cases r) (auto simp: am_on_packet_ack_def)
  then obtain t where t: "t \<in> set_option (ats_stable ?tx) \<union> set_option (ats_latest ?tx)" "acks (atx_sent_in_packet t)"
    "hi = atx_largest_received_packet_number_acked t" "lo = pn_from_varint 0 (pn_space hi)"
    using u by (auto simp: ats_on_update_def atx_ack_range_def bind_eq_Some_conv split: option.splits if_splits)
  have hi: "pn_in s hi" "lo = pn_from_varint 0 s"
    using t inv pn_space_in by (auto simp: am_inv_def Let_def)
  from ranges_remove_up_to [OF am_invD(2) [OF inv] hi(1)] obtain ranges where
    "is_remove packet_number_bound (am_ack_ranges (aw_manager w)) (Included lo, Included hi) = Some (Inr (), ranges)"
    "pn_set ranges = pn_set (am_ack_ranges (aw_manager w)) - {0..pn_val hi}" using hi(2) by blast
  with m u lh n have "n \<le> pn_val hi" by (auto simp: am_on_packet_ack_def)
  with t show ?thesis by blast
qed

lemma am_quiet_loses:
  assumes inv: "am_inv s st w" and step: "am_quiet_step ne zc s n w w'" and n: "pn_in s n"
    and in': "pn_val n \<in> pn_set (am_ack_ranges (aw_manager w))" "pn_val n \<notin> pn_set (am_ack_ranges (aw_manager w'))"
  shows "am_gives_up st n w w'"
proof -
  obtain e where e: "am_step ne zc s e w w'" "e \<noteq> AckSent" using step by (auto simp: am_quiet_step_def)
  show ?thesis
    using e(1)
  proof cases
    case (am_processed p m)
    obtain res where "insert_packet_number (am_ack_ranges (aw_manager w)) (pp_packet_number p) = Some (res, am_ack_ranges m)"
      using am_processed_ranges [OF am_processed(7)] by blast
    from insert_packet_number_loses(1) [OF am_invD(2-4) [OF inv] am_processed(3) this] in' am_processed(2)
    have "interval_count (am_ack_ranges (aw_manager w)) = unat (as_ack_ranges_limit st) \<and> pn_val n < pn_val (pp_packet_number p)"
      by simp
    with in' am_processed(2,7) show ?thesis unfolding am_gives_up_def by auto
  next
    case (am_acked acks m)
    then have m: "aw_manager w' = m" by simp
    obtain t where "acks (atx_sent_in_packet t)" "pn_val n \<le> pn_val (atx_largest_received_packet_number_acked t)"
      "t \<in> set_option (ats_stable (am_ack_eliciting_transmissions (aw_manager w))) \<union>
        set_option (ats_latest (am_ack_eliciting_transmissions (aw_manager w)))"
      using am_acked_loses [OF inv am_acked(3) in'(1)] in'(2) m by blast
    with in' am_acked(3) show ?thesis unfolding am_gives_up_def m by blast
  next
    case (am_lost acks)
    with am_lost_spec(2) [OF inv refl, of acks] in' show ?thesis by simp
  next
    case (am_timed_out now)
    with am_timeout_spec(2) [OF inv refl, where now = now] in' show ?thesis by simp
  qed (use e(2) in simp)
qed

lemma am_quiet_run_loses:
  assumes run: "(am_quiet_step ne zc s n)\<^sup>*\<^sup>* w w'" and inv: "am_inv s st w" and n: "pn_in s n"
    and rec: "pn_val n \<in> pn_set (am_ack_ranges (aw_manager w))"
  shows "pn_val n \<in> pn_set (am_ack_ranges (aw_manager w')) \<or>
    (\<exists>u u'. (am_quiet_step ne zc s n)\<^sup>*\<^sup>* w u \<and> am_gives_up st n u u' \<and> (am_quiet_step ne zc s n)\<^sup>*\<^sup>* u' w')"
  using run
proof (induction rule: rtranclp_induct)
  case (step u u')
  have "am_inv s st u"
    using step(1) inv by (induction rule: rtranclp_induct) (auto simp: am_quiet_step_def intro: am_step_inv)
  with step am_quiet_loses [of s st u ne zc n u'] n show ?case
    by (meson rtranclp.rtrancl_into_rtrancl rtranclp.rtrancl_refl)
qed (simp add: rec)

lemma am_processed_records:
  assumes inv: "am_inv s st w" and step: "am_step ne zc s (Processed p) w w'"
  shows "pn_val (pp_packet_number p) \<in> pn_set (am_ack_ranges (aw_manager w')) \<or>
    interval_count (am_ack_ranges (aw_manager w)) = unat (as_ack_ranges_limit st) \<and>
    (\<forall>k\<in>pn_set (am_ack_ranges (aw_manager w)). pn_val (pp_packet_number p) < k)"
  using step
proof cases
  case (am_processed m)
  obtain res where "insert_packet_number (am_ack_ranges (aw_manager w)) (pp_packet_number p) = Some (res, am_ack_ranges m)"
    using am_processed_ranges [OF am_processed(6)] by blast
  from insert_packet_number_loses(2) [OF am_invD(2-4) [OF inv] am_processed(2) this] am_processed(1) show ?thesis by auto
qed

section \<open>Properties\<close>

text \<open>
  C39. The delay of an acknowledgement survives the wire. For the exponents that the protocol allows,
  decoding never panics; encoding a decoded value gives it back; and a delay within range is decoded
  to a delay that is smaller by less than the resolution of the exponent.
\<close>

theorem ack_delay_round_trip:
  assumes "unat (as_ack_delay_exponent st) \<le> 20"
  shows "(\<forall>v. varint_valid v \<longrightarrow> (\<exists>d. decode_ack_delay st v = Some d \<and> encode_ack_delay st d = Some v)) \<and>
    (\<forall>d. duration_as_micros d \<le> unat MAX_VARINT_VALUE \<longrightarrow>
      (\<exists>v d'. encode_ack_delay st d = Some v \<and> varint_valid v \<and> decode_ack_delay st v = Some d' \<and> d' \<le> d \<and>
        duration_as_micros d < duration_as_micros d' + 2 ^ unat (as_ack_delay_exponent st)))"
proof (intro conjI allI impI)
  let ?k = "2 ^ unat (as_ack_delay_exponent st) :: nat"
  fix v :: varint assume v: "varint_valid v"
  have "unat v * 1000 * ?k div 1000 div ?k = unat v" by (simp add: div_mult2_eq [symmetric] mult.commute mult.left_commute)
  with v show "\<exists>d. decode_ack_delay st v = Some d \<and> encode_ack_delay st d = Some v"
    by (simp add: decode_ack_delay_eq [OF assms] encode_ack_delay_eq [OF assms] varint_max_less)
next
  let ?k = "2 ^ unat (as_ack_delay_exponent st) :: nat"
  fix d assume d: "duration_as_micros d \<le> unat MAX_VARINT_VALUE"
  define n where "n = d div 1000 div ?k"
  have "n \<le> d div 1000" by (simp add: n_def)
  with d have n: "n < 2 ^ 62" by (simp add: duration_as_micros_def)
  have "n * ?k \<le> d div 1000" "d div 1000 < n * ?k + ?k"
    using dividend_less_div_times [of ?k "d div 1000"] by (simp_all add: n_def add.commute)
  moreover from this(1) have "n * 1000 * ?k \<le> d" by linarith
  moreover have "duration_as_micros (n * 1000 * ?k) = n * ?k" by (simp add: duration_as_micros_def)
  ultimately show "\<exists>v d'. encode_ack_delay st d = Some v \<and> varint_valid v \<and> decode_ack_delay st v = Some d' \<and> d' \<le> d \<and>
        duration_as_micros d < duration_as_micros d' + ?k"
    using n by (simp add: encode_ack_delay_eq [OF assms] n_def [symmetric] decode_ack_delay_eq [OF assms] varint_max_less
        unat_of_nat_no_wrap) (simp add: duration_as_micros_def)
qed

theorem ack_delay_round_trip_witness:
  "\<exists>v d'. encode_ack_delay ack_settings_RECOMMENDED 1005000 = Some v \<and>
     decode_ack_delay ack_settings_RECOMMENDED v = Some d' \<and> d' \<le> 1005000 \<and> 1005 < duration_as_micros d' + 8"
proof -
  have "unat (as_ack_delay_exponent ack_settings_RECOMMENDED) \<le> 20" by (simp add: ack_settings_RECOMMENDED_def)
  from ack_delay_round_trip [OF this, THEN conjunct2, rule_format, of 1005000] show ?thesis
    by (auto simp: duration_as_micros_def ack_settings_RECOMMENDED_def)
qed

text \<open>
  C15. The manager never panics. In every state it can reach, with settings the protocol allows,
  acknowledged packets can be removed from the ranges, processing a packet and writing an
  acknowledgement succeed, and after one was written the transmission can be completed.
\<close>

theorem ack_manager_never_panics:
  assumes "network_endian_ok ne" and "zerocopy_ok zc" and "unat (as_ack_delay_exponent st) \<le> 20"
    and "am_reachable ne zc s st w"
  shows "am_on_packet_ack acks (aw_manager w) \<noteq> None \<and>
    (pn_in s (pp_packet_number p) \<and> pp_timestamp p \<noteq> 0 \<and> am_deadline st (pp_timestamp p) < 2 ^ 64 \<longrightarrow>
       am_on_processed_packet p (aw_manager w) \<noteq> None) \<and>
    (tx_wf ctx \<longrightarrow> (\<exists>written ctx'. am_on_transmit ne zc (aw_manager w) ctx = Some (written, ctx') \<and> tx_wf ctx' \<and>
       (written \<longrightarrow> (\<forall>ctx. tx_wf ctx \<longrightarrow> am_on_transmit_complete ne zc (aw_manager w) ctx \<noteq> None))))"
proof -
  note inv = am_reachable_inv [OF assms(4)]
  have "\<exists>written ctx'. am_on_transmit ne zc (aw_manager w) ctx = Some (written, ctx') \<and> tx_wf ctx' \<and>
       (written \<longrightarrow> (\<forall>ctx. tx_wf ctx \<longrightarrow> am_on_transmit_complete ne zc (aw_manager w) ctx \<noteq> None))" if "tx_wf ctx"
    by (rule am_on_transmit_spec [OF inv assms(3,1,2) that])
       (use am_transmit_complete_spec [OF inv assms(1,2)] in blast)
  moreover have "am_on_packet_ack acks (aw_manager w) \<noteq> None" using am_acked_spec [OF inv, of acks] by auto
  moreover have "am_on_processed_packet p (aw_manager w) \<noteq> None"
    if "pn_in s (pp_packet_number p)" "pp_timestamp p \<noteq> 0" "am_deadline st (pp_timestamp p) < 2 ^ 64"
    using am_processed_spec [OF inv that] by auto
  ultimately show ?thesis by blast
qed

text \<open>
  C4. Acknowledgements are honest. Whatever acknowledgement a manager writes in a state it can reach,
  the peer decodes it into ranges that cover only packet numbers that were processed, namely
  exactly the recorded ones, and its largest acknowledged number is the largest recorded one.
\<close>

theorem acknowledgements_are_honest:
  assumes "network_endian_ok ne" and "zerocopy_ok zc" and "unat (as_ack_delay_exponent st) \<le> 20"
    and "am_reachable ne zc s st w" and "tx_wf ctx" and "am_on_transmit ne zc (aw_manager w) ctx = Some (True, ctx')"
  shows "\<exists>bs. tx_payload ctx' = tx_payload ctx @ bs \<and>
    (\<forall>rest. \<exists>f rs. decode_frame ne zc (bs @ rest) = Inr (Ack f, rest) \<and> decoder_ack_ranges ne (ack_ranges f) = Some rs \<and>
      (\<Union>(lo, hi)\<in>set rs. {unat lo..unat hi}) = pn_set (am_ack_ranges (aw_manager w)) \<and>
      (\<Union>(lo, hi)\<in>set rs. {unat lo..unat hi}) \<subseteq> aw_processed w \<and>
      unat (ard_largest_acknowledged (ack_ranges f)) = Max (pn_set (am_ack_ranges (aw_manager w))))"
proof -
  note inv = am_reachable_inv [OF assms(4)]
  let ?ranges = "am_ack_ranges (aw_manager w)"
  obtain f where f: "frame_ok ranges_ack_ranges (Ack f)" "ack_ranges f = ?ranges"
    "tx_payload ctx' = tx_payload ctx @ frame_wire ranges_ack_ranges (Ack f)" and r: "am_has_ranges (aw_manager w)"
    by (rule am_on_transmit_spec [OF inv assms(3,1,2,5)]) (use assms(6) in auto)
  have wf: "pn_set_wf s ?ranges" "is_intervals ?ranges \<noteq> []" using am_invD(2) [OF inv] r by (simp_all add: am_has_ranges_def)
  show ?thesis
  proof (intro exI [of _ "frame_wire ranges_ack_ranges (Ack f)"] conjI allI)
    fix rest
    obtain f' where f': "decode_frame ne zc (frame_wire ranges_ack_ranges (Ack f) @ rest) = Inr (Ack f', rest)"
      "decoder_ack_ranges ne (ack_ranges f') = Some (ranges_ack_ranges ?ranges)"
      "largest_acknowledged (ranges_ack_ranges ?ranges) = Some (ard_largest_acknowledged (ack_ranges f'))"
      using decode_ack_wire [OF assms(1) f(1), of zc rest] f(2) by auto
    with ranges_ack_ranges_spec(3) [OF wf(1)] largest_acknowledged_Max [OF wf] am_invD(5) [OF inv]
    show "\<exists>f' rs. decode_frame ne zc (frame_wire ranges_ack_ranges (Ack f) @ rest) = Inr (Ack f', rest) \<and>
        decoder_ack_ranges ne (ack_ranges f') = Some rs \<and>
        (\<Union>(lo, hi)\<in>set rs. {unat lo..unat hi}) = pn_set ?ranges \<and>
        (\<Union>(lo, hi)\<in>set rs. {unat lo..unat hi}) \<subseteq> aw_processed w \<and>
        unat (ard_largest_acknowledged (ack_ranges f')) = Max (pn_set ?ranges)"
      by (intro exI [of _ f'] exI [of _ "ranges_ack_ranges ?ranges"]) (auto simp del: frame_wire.simps)
  qed (rule f(3))
qed

text \<open>
  C8. Acknowledgements are timely. After an ack-eliciting packet was processed, and until an
  acknowledgement is sent, as long as the number of the packet is recorded either the manager asks to
  transmit at once or its timer is set to at most the maximum delay after the arrival of the packet.
  Once the timer is polled at or after that time, the manager asks to transmit even when congestion
  limits everything else, and writes an acknowledgement into any packet with room for the recorded
  ranges. If the number is not recorded, the packet was not recorded in the first place, because the
  ranges were at their limit and all above it, or it was given up on the way: because a packet of ours
  was acknowledged that carried an acknowledgement up to a number not below it, or because a higher
  number took its place in ranges at their limit.
\<close>

theorem acknowledgements_are_timely:
  assumes "network_endian_ok ne" and "zerocopy_ok zc" and "unat (as_ack_delay_exponent st) \<le> 20"
    and "am_reachable ne zc s st w" and "am_step ne zc s (Processed p) w w1" and "pp_ack_elicitation p = Eliciting"
    and "(am_quiet_step ne zc s (pp_packet_number p))\<^sup>*\<^sup>* w1 w2"
    and "am_deadline st (pp_timestamp p) \<le> unat now" and "unat now + 1000 < 2 ^ 64"
    and "tx_wf ctx" and "49 + 16 * unat (as_ack_ranges_limit st) \<le> scatter_remaining (tc_buffer ctx)"
  shows "if pn_val (pp_packet_number p) \<in> pn_set (am_ack_ranges (aw_manager w2))
    then (has_transmission_interest (am_interest (aw_manager w2)) \<or>
        (\<exists>e. expiration (am_ack_delay_timer (aw_manager w2)) = Some e \<and> unat e \<le> am_deadline st (pp_timestamp p))) \<and>
      provider_can_transmit (am_interest (am_on_timeout now (aw_manager w2))) CongestionLimited \<and>
      (\<exists>ctx'. am_on_transmit ne zc (am_on_timeout now (aw_manager w2)) ctx = Some (True, ctx'))
    else interval_count (am_ack_ranges (aw_manager w)) = unat (as_ack_ranges_limit st) \<and>
        (\<forall>k\<in>pn_set (am_ack_ranges (aw_manager w)). pn_val (pp_packet_number p) < k) \<or>
      (\<exists>u u'. (am_quiet_step ne zc s (pp_packet_number p))\<^sup>*\<^sup>* w1 u \<and> am_gives_up st (pp_packet_number p) u u' \<and>
        (am_quiet_step ne zc s (pp_packet_number p))\<^sup>*\<^sup>* u' w2)"
proof -
  note inv = am_reachable_inv [OF assms(4)]
  note inv1 = am_step_inv [OF assms(5) inv]
  have p: "pn_in s (pp_packet_number p)" using assms(5) by cases
  show ?thesis
  proof (cases "pn_val (pp_packet_number p) \<in> pn_set (am_ack_ranges (aw_manager w2))")
    case True
    with ack_due_run [OF inv1 assms(7) p ack_due_processed [OF inv assms(5,6)]]
    have inv2: "am_inv s st w2" and due: "ack_due (am_deadline st (pp_timestamp p)) (aw_manager w2)" by auto
    note t = am_timeout_spec [OF inv2 refl, where now = now]
    have "has_elapsed e now" if "unat e \<le> am_deadline st (pp_timestamp p)" for e
      using that assms(8) unat_has_elapsed [OF assms(9)] by simp
    then have act: "ats_is_active (am_transmission_state (am_on_timeout now (aw_manager w2)))"
      using due t(2,3) t(4) True by (auto simp: ack_due_def)
    have "am_has_ranges (am_on_timeout now (aw_manager w2))"
      using True pn_set_empty_iff [OF am_invD(2) [OF inv2]] t(2) by (auto simp: am_has_ranges_def)
    then have "\<exists>ctx'. am_on_transmit ne zc (am_on_timeout now (aw_manager w2)) ctx = Some (True, ctx')"
      using am_on_transmit_written [OF t(1) assms(3,1,2,10) _ _ assms(11)] act by simp
    with due act True show ?thesis
      by (auto simp: ack_due_def am_interest_def state_interest_def has_transmission_interest_def has_interest_on_interest_def
          provider_can_transmit_def constraint_on_interest_def)
  next
    case False
    with am_processed_records [OF inv assms(5)] am_quiet_run_loses [OF assms(7) inv1 p] show ?thesis by auto
  qed
qed

section \<open>An example run\<close>

definition example_packet :: processed_packet where
  "example_packet = \<lparr>pp_packet_number = pn_from_varint 7 Initial, pp_timestamp = 1000, pp_ecn = NotEct,
     pp_ack_elicitation = Eliciting, pp_path_challenge_on_active_path = False\<rparr>"

lemma example_packet_simps [simp]:
  "pn_in Initial (pp_packet_number example_packet)" "pn_val (pp_packet_number example_packet) = 7"
  "pp_timestamp example_packet = 1000" "pp_ack_elicitation example_packet = Eliciting"
  "am_deadline ack_settings_RECOMMENDED 1000 = 26000"
  by (simp_all add: example_packet_def varint_valid_def MAX_VARINT_VALUE_def am_deadline_def ack_settings_RECOMMENDED_def
      duration_from_millis_def)

lemma example_settings_simps [simp]:
  "unat (as_ack_delay_exponent ack_settings_RECOMMENDED) = 3" "unat (as_ack_ranges_limit ack_settings_RECOMMENDED) = 10"
  by (simp_all add: ack_settings_RECOMMENDED_def)

lemma example_run:
  obtains w w' where "am_reachable ne zc Initial ack_settings_RECOMMENDED w" "am_step ne zc Initial (Processed example_packet) w w'"
    "pn_set (am_ack_ranges (aw_manager w')) = {7}" "aw_now w' = 1000"
proof -
  let ?st = ack_settings_RECOMMENDED
  obtain m where m: "ack_manager_new Initial ?st = Some m" and ranges: "am_ack_ranges m = with_limit 10"
    by (auto simp: ack_manager_new_def ranges_new_def)
  let ?w = "\<lparr>aw_processed = {}, aw_now = 1, aw_manager = m\<rparr>"
  have r: "am_reachable ne zc Initial ?st ?w" by (rule am_start [OF m])
  note inv = am_reachable_inv [OF r]
  obtain m' where m': "am_on_processed_packet example_packet m = Some m'" "pn_set_wf Initial (am_ack_ranges m')"
    "is_intervals (am_ack_ranges m') \<noteq> []" "pn_set (am_ack_ranges m') \<subseteq> insert 7 (pn_set (am_ack_ranges m))"
    using am_processed_spec [OF inv, of example_packet] by auto
  have "pn_set (am_ack_ranges m') = {7}"
    using m'(3,4) pn_set_empty_iff [OF m'(2)] by (auto simp: ranges pn_set_def with_limit_def set_limit_def interval_set_new_def)
  moreover have "am_step ne zc Initial (Processed example_packet) ?w
      \<lparr>aw_processed = insert (pn_val (pp_packet_number example_packet)) (aw_processed ?w),
       aw_now = pp_timestamp example_packet, aw_manager = m'\<rparr>"
    by (rule am_processed) (use m'(1) am_invD(1) [OF inv] in simp_all)
  ultimately show thesis using that [OF r] by simp
qed

lemma example_sent:
  assumes "network_endian_ok ne" "zerocopy_ok zc"
  obtains w ctx' where "am_reachable ne zc Initial ack_settings_RECOMMENDED w" "pn_set (am_ack_ranges (aw_manager w)) = {7}"
    "am_on_transmit ne zc (aw_manager w) (example_context 300) = Some (True, ctx')" "aw_now w = 1000"
proof -
  obtain w w' where w: "am_reachable ne zc Initial ack_settings_RECOMMENDED w" "am_step ne zc Initial (Processed example_packet) w w'"
    "pn_set (am_ack_ranges (aw_manager w')) = {7}" "aw_now w' = 1000" by (rule example_run)
  let ?m = "am_on_timeout 30000 (aw_manager w')"
  have r: "am_reachable ne zc Initial ack_settings_RECOMMENDED (w'\<lparr>aw_manager := ?m\<rparr>)"
    by (rule am_run [OF am_run [OF w(1,2)] am_timed_out])
  note inv = am_reachable_inv [OF am_run [OF w(1,2)]]
  note t = am_timeout_spec [OF inv refl, where now = 30000]
  have "ack_due 26000 (aw_manager w')" using ack_due_processed [OF am_reachable_inv [OF w(1)] w(2)] by simp
  then have act: "ats_is_active (am_transmission_state ?m)"
    using t(2,3) t(4) w(3) by (auto simp: ack_due_def unat_has_elapsed)
  have "am_has_ranges ?m" using w(3) t(2) pn_set_empty_iff [OF am_invD(2) [OF inv]] by (auto simp: am_has_ranges_def)
  then obtain ctx' where "am_on_transmit ne zc ?m (example_context 300) = Some (True, ctx')"
    using am_on_transmit_written [OF t(1) _ assms example_context_simps(1), of 300] act
    by (auto simp: example_context_def scatter_new_def scatter_remaining_def scatter_len_def)
  with that [OF r] w(3,4) t(2) show thesis by simp
qed

section \<open>A packet that is never acknowledged\<close>

text \<open>
  An acknowledgement of packet 7 is on its way when the late packet 3 arrives. The packet of ours that
  carried it is acknowledged before the next one is written: the numbers up to 7 are dropped, and with
  them packet 3, which no acknowledgement has ever covered and none will.
\<close>

definition late_packet :: processed_packet where
  "late_packet = \<lparr>pp_packet_number = pn_from_varint 3 Initial, pp_timestamp = 2000, pp_ecn = NotEct,
     pp_ack_elicitation = Eliciting, pp_path_challenge_on_active_path = False\<rparr>"

lemma late_packet_simps [simp]:
  "pn_in Initial (pp_packet_number late_packet)" "pn_val (pp_packet_number late_packet) = 3"
  "pp_timestamp late_packet = 2000" "am_deadline ack_settings_RECOMMENDED 2000 = 27000"
  by (simp_all add: late_packet_def varint_valid_def MAX_VARINT_VALUE_def am_deadline_def ack_settings_RECOMMENDED_def
      duration_from_millis_def)

lemma example_in_flight:
  assumes "network_endian_ok ne" "zerocopy_ok zc"
  obtains w t where "am_reachable ne zc Initial ack_settings_RECOMMENDED w" "pn_set (am_ack_ranges (aw_manager w)) = {7}"
    "aw_now w = 1000" "ats_latest (am_ack_eliciting_transmissions (aw_manager w)) = Some t"
    "pn_val (atx_largest_received_packet_number_acked t) = 7" "pn_in Initial (atx_largest_received_packet_number_acked t)"
proof -
  obtain w ctx' where w: "am_reachable ne zc Initial ack_settings_RECOMMENDED w" "pn_set (am_ack_ranges (aw_manager w)) = {7}"
    "am_on_transmit ne zc (aw_manager w) (example_context 300) = Some (True, ctx')" "aw_now w = 1000"
    by (rule example_sent [OF assms])
  note inv = am_reachable_inv [OF w(1)]
  have "is_intervals (am_ack_ranges (aw_manager w)) \<noteq> []"
    using w(2) pn_set_empty_iff [OF am_invD(2) [OF inv]] by auto
  from max_value_spec [OF am_invD(2) [OF inv] this] obtain q where
    q: "max_value (am_ack_ranges (aw_manager w)) = Some q" "pn_in Initial q" "pn_val q = 7" by (auto simp: w(2))
  let ?ctx = "(example_context 300)\<lparr>tc_ack_elicitation := Eliciting\<rparr>"
  define t where "t = \<lparr>atx_sent_in_packet = tc_packet_number ?ctx, atx_largest_received_packet_number_acked = q\<rparr>"
  obtain m where m: "am_on_transmit_complete ne zc (aw_manager w) ?ctx = Some (m, ?ctx)"
    "am_ack_ranges m = am_ack_ranges (aw_manager w)"
    "ats_latest (am_ack_eliciting_transmissions m) = Some t"
    by (simp add: am_on_transmit_complete_def am_try_elicit_def Let_def q(1) ats_on_transmit_def t_def)
  have "am_reachable ne zc Initial ack_settings_RECOMMENDED (w\<lparr>aw_manager := m\<rparr>)"
    by (rule am_run [OF w(1) am_sent [OF w(3) m(1)]])
  then show thesis by (rule that [of _ t]) (use m(2,3) q w(2,4) in \<open>simp_all add: t_def\<close>)
qed

lemma late_packet_recorded:
  assumes w: "am_reachable ne zc Initial ack_settings_RECOMMENDED w" and r: "pn_set (am_ack_ranges (aw_manager w)) = {7}"
    and now: "aw_now w = 1000"
  obtains w' where "am_step ne zc Initial (Processed late_packet) w w'" "3 \<in> pn_set (am_ack_ranges (aw_manager w'))"
    "pn_set (am_ack_ranges (aw_manager w')) \<subseteq> {3, 7}"
    "am_ack_eliciting_transmissions (aw_manager w') = am_ack_eliciting_transmissions (aw_manager w)"
proof -
  note inv = am_reachable_inv [OF w]
  have v: "varint_valid 7" by (simp add: varint_valid_def MAX_VARINT_VALUE_def)
  have "is_intervals (am_ack_ranges (aw_manager w)) = [\<lparr>iv_start = pn_from_varint 7 Initial, iv_end = pn_from_varint 7 Initial\<rparr>]"
    by (rule packet_number_bound.ivs_wf_unique [of Initial])
       (use am_invD(2) [OF inv] r v in \<open>auto simp: pn_set_wf_def pn_set_def ivs_wf_def iv_ok_def iv_ranks_def\<close>)
  then have count: "interval_count (am_ack_ranges (aw_manager w)) = 1" by (simp add: interval_count_def)
  obtain m where m: "am_on_processed_packet late_packet (aw_manager w) = Some m"
    "am_ack_eliciting_transmissions m = am_ack_eliciting_transmissions (aw_manager w)"
    "pn_set (am_ack_ranges m) \<subseteq> {3, 7}"
    using am_processed_spec [OF inv, of late_packet] r by auto
  have step: "am_step ne zc Initial (Processed late_packet) w
      \<lparr>aw_processed = insert (pn_val (pp_packet_number late_packet)) (aw_processed w),
       aw_now = pp_timestamp late_packet, aw_manager = m\<rparr>" (is "am_step _ _ _ _ _ ?w'")
    by (rule am_processed) (use m(1) now am_invD(1) [OF inv] in simp_all)
  have "3 \<in> pn_set (am_ack_ranges m)" using am_processed_records [OF inv step] count by simp
  with step m(2,3) that show thesis by simp
qed

lemma late_packet_never_acknowledged:
  "\<exists>w w1 w2. am_reachable big_endian zerocopy_chunks Initial ack_settings_RECOMMENDED w \<and>
     am_step big_endian zerocopy_chunks Initial (Processed late_packet) w w1 \<and> 3 \<in> pn_set (am_ack_ranges (aw_manager w1)) \<and>
     am_step big_endian zerocopy_chunks Initial AckAcked w1 w2 \<and> pn_set (am_ack_ranges (aw_manager w2)) = {} \<and>
     (\<forall>ctx. am_on_transmit big_endian zerocopy_chunks (aw_manager w2) ctx = Some (False, ctx))"
proof -
  obtain w t where w: "am_reachable big_endian zerocopy_chunks Initial ack_settings_RECOMMENDED w"
    "pn_set (am_ack_ranges (aw_manager w)) = {7}" "aw_now w = 1000"
    "ats_latest (am_ack_eliciting_transmissions (aw_manager w)) = Some t"
    "pn_val (atx_largest_received_packet_number_acked t) = 7" "pn_in Initial (atx_largest_received_packet_number_acked t)"
    by (rule example_in_flight [OF big_endian_ok zerocopy_chunks_ok])
  obtain w1 where w1: "am_step big_endian zerocopy_chunks Initial (Processed late_packet) w w1"
    "3 \<in> pn_set (am_ack_ranges (aw_manager w1))" "pn_set (am_ack_ranges (aw_manager w1)) \<subseteq> {3, 7}"
    "am_ack_eliciting_transmissions (aw_manager w1) = am_ack_eliciting_transmissions (aw_manager w)"
    by (rule late_packet_recorded [OF w(1-3)])
  note inv = am_reachable_inv [OF am_run [OF w(1) w1(1)]]
  obtain ranges where ranges: "is_remove packet_number_bound (am_ack_ranges (aw_manager w1))
      (Included (pn_from_varint 0 Initial), Included (atx_largest_received_packet_number_acked t)) = Some (Inr (), ranges)"
    "pn_set_wf Initial ranges" "pn_set ranges = pn_set (am_ack_ranges (aw_manager w1)) - {0..7}"
    using ranges_remove_up_to [OF am_invD(2) [OF inv] w(6)] w(5) by auto
  then have empty: "pn_set ranges = {}" "is_intervals ranges = []"
    using w1(3) pn_set_empty_iff [OF ranges(2)] by auto
  obtain m where m: "am_on_packet_ack (\<lambda>p. p = atx_sent_in_packet t) (aw_manager w1) = Some m" "am_ack_ranges m = ranges"
    using ranges(1) w(4,6) w1(4) pn_space_in [OF w(6)]
    by (simp add: am_on_packet_ack_def ats_on_update_def atx_ack_range_def)
  have "am_on_transmit big_endian zerocopy_chunks m ctx = Some (False, ctx)" for ctx
    using empty(2) by (simp add: am_on_transmit_def should_transmit_def am_has_ranges_def m(2))
  with w(1) w1(1,2) am_acked [OF m(1), of big_endian zerocopy_chunks Initial] m(2) empty(1) show ?thesis
    by (intro exI [of _ w] exI [of _ w1] exI [of _ "w1\<lparr>aw_manager := m\<rparr>"]) simp
qed

theorem ack_manager_never_panics_witness:
  "\<exists>w. am_reachable big_endian zerocopy_chunks Initial ack_settings_RECOMMENDED w \<and>
     am_on_processed_packet example_packet (aw_manager w) \<noteq> None"
proof -
  obtain w where w: "am_reachable big_endian zerocopy_chunks Initial ack_settings_RECOMMENDED w"
    by (rule example_run) blast
  have "unat (as_ack_delay_exponent ack_settings_RECOMMENDED) \<le> 20" by simp
  from ack_manager_never_panics [OF big_endian_ok zerocopy_chunks_ok this w, of "\<lambda>_. True" example_packet "example_context 2"]
  have "am_on_processed_packet example_packet (aw_manager w) \<noteq> None" by simp
  with w show ?thesis by blast
qed

theorem acknowledgements_are_honest_witness:
  "\<exists>bs f rs. decode_frame big_endian zerocopy_chunks bs = Inr (Ack f, []) \<and>
     decoder_ack_ranges big_endian (ack_ranges f) = Some rs \<and> (\<Union>(lo, hi)\<in>set rs. {unat lo..unat hi}) = {7}"
proof -
  obtain w ctx' where w: "am_reachable big_endian zerocopy_chunks Initial ack_settings_RECOMMENDED w"
    "pn_set (am_ack_ranges (aw_manager w)) = {7}"
    "am_on_transmit big_endian zerocopy_chunks (aw_manager w) (example_context 300) = Some (True, ctx')"
    by (rule example_sent [OF big_endian_ok zerocopy_chunks_ok]) blast
  have "unat (as_ack_delay_exponent ack_settings_RECOMMENDED) \<le> 20" by simp
  from acknowledgements_are_honest [OF big_endian_ok zerocopy_chunks_ok this w(1) example_context_simps(1) w(3)]
  show ?thesis
    unfolding w(2) by (elim exE conjE) (drule spec [of _ "[]"], elim exE conjE, intro exI conjI, simp, assumption+)
qed

theorem acknowledgements_are_timely_witness:
  "\<exists>w ctx'. am_reachable big_endian zerocopy_chunks Initial ack_settings_RECOMMENDED w \<and>
     am_on_transmit big_endian zerocopy_chunks (am_on_timeout 30000 (aw_manager w)) (example_context 300) = Some (True, ctx')"
proof -
  obtain w w' where w: "am_reachable big_endian zerocopy_chunks Initial ack_settings_RECOMMENDED w"
    "am_step big_endian zerocopy_chunks Initial (Processed example_packet) w w'"
    "pn_set (am_ack_ranges (aw_manager w')) = {7}" by (rule example_run) blast
  have "unat (as_ack_delay_exponent ack_settings_RECOMMENDED) \<le> 20" by simp
  note timely = acknowledgements_are_timely [OF big_endian_ok zerocopy_chunks_ok this w(1,2) _ rtranclp.rtrancl_refl,
      of 30000 "example_context 300"]
  have "scatter_remaining (tc_buffer (example_context 300)) = 300"
    by (simp add: example_context_def scatter_new_def scatter_remaining_def scatter_len_def)
  with timely w(3) obtain ctx' where
    "am_on_transmit big_endian zerocopy_chunks (am_on_timeout 30000 (aw_manager w')) (example_context 300) = Some (True, ctx')"
    by auto
  with am_run [OF w(1,2)] show ?thesis by blast
qed

end
