(* ===== verification/PacketMap.thy ===== *)
theory PacketMap
  imports PacketNumber
begin

text \<open>
  The interface of a map from packet numbers to values: what its users may rely on, as a locale, and
  runs of operations on it. The ring of slots (\<open>RingMap\<close>) and the sorted vector (\<open>SortedVec\<close>) are two
  implementations; whatever is shown of a run here holds for both.
\<close>

section \<open>The reference\<close>

definition pn_of :: "packet_number_space \<Rightarrow> nat \<Rightarrow> packet_number" where
  "pn_of s n = pn_from_varint (word_of_nat n) s"

lemma pn_of_simps [simp]: "n < 2 ^ 62 \<Longrightarrow> pn_in s (pn_of s n)" "n < 2 ^ 62 \<Longrightarrow> pn_val (pn_of s n) = n"
  "pn_in s p \<Longrightarrow> pn_of s (pn_val p) = p"
  by (simp_all add: pn_of_def varint_max_less unat_of_nat_no_wrap)

text \<open>The entries of a map with numbers from \<open>lo\<close> to \<open>hi\<close>, in order.\<close>

definition map_slice :: "packet_number_space \<Rightarrow> (nat \<Rightarrow> 'v option) \<Rightarrow> nat \<Rightarrow> nat \<Rightarrow> (packet_number \<times> 'v) list" where
  "map_slice s m lo hi = List.map_filter (\<lambda>n. map_option (Pair (pn_of s n)) (m n)) [lo..<Suc hi]"

definition entries :: "packet_number_space \<Rightarrow> (nat \<Rightarrow> 'v option) \<Rightarrow> nat \<Rightarrow> nat \<Rightarrow> (packet_number \<times> 'v) list" where
  "entries s m n r = List.map_filter (\<lambda>n. map_option (Pair (pn_of s n)) (m n)) [n..<n + r]"

lemma entries_0 [simp]: "entries s m n 0 = []"
  by (simp add: entries_def)

lemma entries_Suc:
  "entries s m n (Suc r) = (case m n of None \<Rightarrow> [] | Some v \<Rightarrow> [(pn_of s n, v)]) @ entries s m (Suc n) r"
  by (simp add: entries_def upt_conv_Cons del: upt_Suc split: option.splits)

lemma entries_cong: "(\<And>i. n \<le> i \<Longrightarrow> i < n + r \<Longrightarrow> m i = m' i) \<Longrightarrow> entries s m n r = entries s m' n r"
  by (induction r arbitrary: n) (simp_all add: entries_Suc)

lemma entries_add: "entries s m n (q + r) = entries s m n q @ entries s m (n + q) r"
  by (induction q arbitrary: n) (simp_all add: entries_Suc)

lemma entries_none: "(\<And>i. n \<le> i \<Longrightarrow> i < n + r \<Longrightarrow> m i = None) \<Longrightarrow> entries s m n r = []"
  by (induction r arbitrary: n) (simp_all add: entries_Suc)

lemma map_slice_entries: "map_slice s m lo hi = entries s m lo (Suc hi - lo)"
  by (cases "lo \<le> Suc hi") (simp_all add: map_slice_def entries_def)

text \<open>Numbers that are not in the map may be left out at either end.\<close>

lemma map_slice_narrow:
  assumes "lo' \<le> lo" "lo \<le> Suc hi" "hi \<le> hi'" "\<And>n. lo' \<le> n \<Longrightarrow> n < lo \<Longrightarrow> m n = None" "\<And>n. hi < n \<Longrightarrow> n \<le> hi' \<Longrightarrow> m n = None"
  shows "map_slice s m lo' hi' = map_slice s m lo hi"
proof -
  obtain a b c where lo: "lo = lo' + a" and hi: "Suc hi = lo + b" and hi': "Suc hi' = Suc hi + c"
    using assms(1-3) by (metis Suc_le_mono le_iff_add)
  have "entries s m lo' a = []" by (rule entries_none) (use assms(4) lo in auto)
  moreover have "entries s m (lo' + a + b) c = []" by (rule entries_none) (use assms(5) lo hi hi' in auto)
  ultimately have "entries s m lo' (a + (b + c)) = entries s m lo b" by (simp add: entries_add lo)
  then show ?thesis using lo hi hi' by (simp add: map_slice_entries add.assoc)
qed

lemma map_slice_none: "(\<And>n. lo \<le> n \<Longrightarrow> n \<le> hi \<Longrightarrow> m n = None) \<Longrightarrow> map_slice s m lo hi = []"
  by (auto simp: map_slice_entries intro!: entries_none)

datatype 'v pm_op =
    OpInsert packet_number 'v
  | OpInsertOrUpdate packet_number 'v "'v \<Rightarrow> 'v"
  | OpGet packet_number
  | OpRemove packet_number
  | OpRemoveRange packet_number packet_number
  | OpIter
  | OpClear

datatype 'v pm_out = OutUnit | OutValue "'v option" | OutEntries "(packet_number \<times> 'v) list"

text \<open>
  Insertions go to the end, updates do not go before the first entry, and the numbers in the map
  span less than a given bound.
\<close>

definition spans :: "nat \<Rightarrow> (nat \<Rightarrow> 'v option) \<Rightarrow> nat \<Rightarrow> bool" where
  "spans bound m n \<longleftrightarrow> (\<forall>k\<in>dom m. n < k + bound)"

fun op_ok :: "packet_number_space \<Rightarrow> nat \<Rightarrow> (nat \<Rightarrow> 'v option) \<Rightarrow> 'v pm_op \<Rightarrow> bool" where
  "op_ok s bound m (OpInsert p v) \<longleftrightarrow> pn_in s p \<and> (\<forall>k\<in>dom m. k < pn_val p) \<and> spans bound m (pn_val p)"
| "op_ok s bound m (OpInsertOrUpdate p v f) \<longleftrightarrow>
     pn_in s p \<and> (dom m \<noteq> {} \<longrightarrow> (\<exists>k\<in>dom m. k \<le> pn_val p)) \<and> spans bound m (pn_val p)"
| "op_ok s bound m (OpGet p) \<longleftrightarrow> pn_in s p"
| "op_ok s bound m (OpRemove p) \<longleftrightarrow> pn_in s p"
| "op_ok s bound m (OpRemoveRange a b) \<longleftrightarrow> pn_in s a \<and> pn_in s b \<and> pn_val a \<le> pn_val b"
| "op_ok s bound m OpIter \<longleftrightarrow> True"
| "op_ok s bound m OpClear \<longleftrightarrow> True"

fun ref_op :: "packet_number_space \<Rightarrow> 'v pm_op \<Rightarrow> (nat \<Rightarrow> 'v option) \<Rightarrow> 'v pm_out \<times> (nat \<Rightarrow> 'v option)" where
  "ref_op s (OpInsert p v) m = (OutUnit, m(pn_val p \<mapsto> v))"
| "ref_op s (OpInsertOrUpdate p v f) m =
     (OutUnit, m(pn_val p \<mapsto> (case m (pn_val p) of Some w \<Rightarrow> f w | None \<Rightarrow> v)))"
| "ref_op s (OpGet p) m = (OutValue (m (pn_val p)), m)"
| "ref_op s (OpRemove p) m = (OutValue (m (pn_val p)), m(pn_val p := None))"
| "ref_op s (OpRemoveRange a b) m =
     (OutEntries (map_slice s m (pn_val a) (pn_val b)), m |` (- {pn_val a..pn_val b}))"
| "ref_op s OpIter m = (OutEntries (map_slice s m 0 (2 ^ 62 - 1)), m)"
| "ref_op s OpClear m = (OutUnit, Map.empty)"

fun ref_run :: "packet_number_space \<Rightarrow> 'v pm_op list \<Rightarrow> (nat \<Rightarrow> 'v option) \<Rightarrow> 'v pm_out list" where
  "ref_run s [] m = []"
| "ref_run s (op # ops) m = (case ref_op s op m of (out, m) \<Rightarrow> out # ref_run s ops m)"

fun run_ok :: "packet_number_space \<Rightarrow> nat \<Rightarrow> 'v pm_op list \<Rightarrow> (nat \<Rightarrow> 'v option) \<Rightarrow> bool" where
  "run_ok s bound [] m \<longleftrightarrow> True"
| "run_ok s bound (op # ops) m \<longleftrightarrow> op_ok s bound m op \<and> run_ok s bound ops (snd (ref_op s op m))"

section \<open>Operations of an implementation\<close>

record ('m, 'v) pm_impl =
  impl_new :: 'm
  impl_insert :: "packet_number \<Rightarrow> 'v \<Rightarrow> 'm \<Rightarrow> 'm option"
  impl_insert_or_update :: "packet_number \<Rightarrow> 'v \<Rightarrow> ('v \<Rightarrow> 'v) \<Rightarrow> 'm \<Rightarrow> 'm option"
  impl_get :: "packet_number \<Rightarrow> 'm \<Rightarrow> 'v option option"
  impl_remove :: "packet_number \<Rightarrow> 'm \<Rightarrow> ('v option \<times> 'm) option"
  impl_remove_range :: "packet_number_range \<Rightarrow> 'm \<Rightarrow> ((packet_number \<times> 'v) list \<times> 'm) option"
  impl_iter :: "'m \<Rightarrow> (packet_number \<times> 'v) list option"
  impl_clear :: "'m \<Rightarrow> 'm option"

fun impl_op :: "('m, 'v) pm_impl \<Rightarrow> 'v pm_op \<Rightarrow> 'm \<Rightarrow> ('v pm_out \<times> 'm) option" where
  "impl_op i (OpInsert p v) m = map_option (Pair OutUnit) (impl_insert i p v m)"
| "impl_op i (OpInsertOrUpdate p v f) m = map_option (Pair OutUnit) (impl_insert_or_update i p v f m)"
| "impl_op i (OpGet p) m = map_option (\<lambda>v. (OutValue v, m)) (impl_get i p m)"
| "impl_op i (OpRemove p) m = map_option (\<lambda>(v, m). (OutValue v, m)) (impl_remove i p m)"
| "impl_op i (OpRemoveRange a b) m =
     Option.bind (pnr_new a b) (\<lambda>rng. map_option (\<lambda>(xs, m). (OutEntries xs, m)) (impl_remove_range i rng m))"
| "impl_op i OpIter m = map_option (\<lambda>xs. (OutEntries xs, m)) (impl_iter i m)"
| "impl_op i OpClear m = map_option (Pair OutUnit) (impl_clear i m)"

fun impl_run :: "('m, 'v) pm_impl \<Rightarrow> 'v pm_op list \<Rightarrow> 'm \<Rightarrow> 'v pm_out list option" where
  "impl_run i [] m = Some []"
| "impl_run i (op # ops) m =
     Option.bind (impl_op i op m) (\<lambda>(out, m). map_option (Cons out) (impl_run i ops m))"

section \<open>The laws\<close>

locale packet_number_map =
  fixes i :: "('m, 'v) pm_impl" and s :: packet_number_space and bound :: nat
    and wf :: "'m \<Rightarrow> bool" and abs :: "'m \<Rightarrow> nat \<Rightarrow> 'v option"
  assumes new_wf: "wf (impl_new i)" "abs (impl_new i) = Map.empty"
    and op_law: "wf m \<Longrightarrow> op_ok s bound (abs m) op \<Longrightarrow>
      \<exists>m'. impl_op i op m = Some (fst (ref_op s op (abs m)), m') \<and> wf m' \<and> abs m' = snd (ref_op s op (abs m))"
begin

lemma run_from:
  assumes "wf m" "run_ok s bound ops (abs m)"
  shows "impl_run i ops m = Some (ref_run s ops (abs m))"
  using assms
proof (induction ops arbitrary: m)
  case (Cons op ops)
  then obtain m' where "impl_op i op m = Some (fst (ref_op s op (abs m)), m')" "wf m'" "abs m' = snd (ref_op s op (abs m))"
    using op_law [of m op] by auto
  with Cons show ?case by (simp add: case_prod_beta)
qed simp

lemma run_refines: "run_ok s bound ops Map.empty \<Longrightarrow> impl_run i ops (impl_new i) = Some (ref_run s ops Map.empty)"
  using run_from [OF new_wf(1)] by (simp add: new_wf(2))

end

end
