(* ===== verification/RingMap.thy ===== *)
theory RingMap
  imports PacketMap
begin

text \<open>
  The map of packets that wait for an acknowledgement: \<^verbatim>\<open>quic/s2n-quic-core/src/packet/number/map/mod.rs\<close>,
  a ring of slots with a moving range of packet numbers.

  \<open>None\<close> is a panic or a loop that does not end. A vector is allocated with exactly the capacity
  asked for; asking for more than \<open>isize::MAX\<close> bytes panics, and \<open>elem\<close> is the size of a slot.
\<close>

section \<open>Definitions\<close>

record 'v pn_map =
  pm_values :: "'v option list"
  pm_start :: packet_number
  pm_end :: packet_number
  pm_index :: nat

definition DEFAULT_CAPACITY :: nat where
  "DEFAULT_CAPACITY = 8"

definition pm_default :: "'v pn_map" where
  "pm_default = \<lparr>pm_values = replicate DEFAULT_CAPACITY None, pm_start = pn_from_varint 0 Initial,
     pm_end = pn_from_varint 0 Initial, pm_index = DEFAULT_CAPACITY\<rparr>"

definition pm_is_empty :: "'v pn_map \<Rightarrow> bool" where
  "pm_is_empty self \<longleftrightarrow> pm_index self = length (pm_values self)"

definition logical_clear :: "'v pn_map \<Rightarrow> 'v pn_map" where
  "logical_clear self = self\<lparr>pm_index := length (pm_values self)\<rparr>"

partial_function (option) grow_len :: "u64 \<Rightarrow> u64 \<Rightarrow> u64 option" where
  "grow_len len new_len =
     (let new_len = new_len * 2 in if len < new_len then Some new_len else grow_len len new_len)"

definition isize_max :: nat where
  "isize_max = 2 ^ 63 - 1"

text \<open>
  \<open>Vec::with_capacity\<close> may give more than was asked for, and the source fills up whatever it gives.
  For elements that are not zero-sized the allocator gives exactly what is asked for, which is what
  \<open>pm_default\<close> and \<open>pm_resize\<close> have; \<open>None\<close> is the panic of an allocation beyond \<open>isize::MAX\<close> bytes.
\<close>

definition pm_resize :: "nat \<Rightarrow> u64 \<Rightarrow> 'v pn_map \<Rightarrow> 'v pn_map option" where
  "pm_resize elem len self =
     Option.bind (grow_len len (word_of_nat (length (pm_values self)))) (\<lambda>new_len.
     if unat new_len * elem > isize_max then None
     else
       let values = drop (pm_index self) (pm_values self) @ take (pm_index self) (pm_values self);
           values = values @ replicate (unat new_len - length values) None
       in Some (self\<lparr>pm_index := 0, pm_values := values\<rparr>))"

text \<open>What both insertions do with a map that is empty, and the slot they find in one that is not.\<close>

definition pm_insert_first :: "packet_number \<Rightarrow> 'v \<Rightarrow> 'v pn_map \<Rightarrow> 'v pn_map option" where
  "pm_insert_first packet_number value self =
     map_option (\<lambda>values. self\<lparr>pm_start := packet_number, pm_end := packet_number, pm_values := values, pm_index := 0\<rparr>)
       (vec_set 0 (Some value) (pm_values self))"

definition pm_reserve :: "nat \<Rightarrow> packet_number \<Rightarrow> 'v pn_map \<Rightarrow> (nat \<times> 'v pn_map) option" where
  "pm_reserve elem packet_number self =
     (let distance = pn_as_u64 packet_number - pn_as_u64 (pm_start self) in
      if unat distance \<ge> length (pm_values self)
      then map_option (\<lambda>self. (unat distance, self)) (pm_resize elem distance self)
      else Some ((pm_index self + unat distance) mod length (pm_values self), self))"

definition pm_insert :: "nat \<Rightarrow> packet_number \<Rightarrow> 'v \<Rightarrow> 'v pn_map \<Rightarrow> 'v pn_map option" where
  "pm_insert elem packet_number value self =
     (if pm_is_empty self then pm_insert_first packet_number value self
      else
        Option.bind (pm_reserve elem packet_number self) (\<lambda>(index, self).
        map_option (\<lambda>values. self\<lparr>pm_values := values, pm_end := packet_number\<rparr>)
          (vec_set index (Some value) (pm_values self))))"

definition pm_insert_or_update ::
    "nat \<Rightarrow> packet_number \<Rightarrow> 'v \<Rightarrow> ('v \<Rightarrow> 'v) \<Rightarrow> 'v pn_map \<Rightarrow> 'v pn_map option" where
  "pm_insert_or_update elem packet_number value update self =
     (if pm_is_empty self then pm_insert_first packet_number value self
      else
        Option.bind (pm_reserve elem packet_number self) (\<lambda>(index, self).
        Option.bind (vec_get index (pm_values self)) (\<lambda>entry.
        let entry = (case entry of Some prev \<Rightarrow> Some (update prev) | None \<Rightarrow> Some value) in
        Some (self\<lparr>pm_values := (pm_values self)[index := entry], pm_end := max (pm_end self) packet_number\<rparr>))))"

definition pn_index :: "packet_number \<Rightarrow> 'v pn_map \<Rightarrow> nat option" where
  "pn_index packet_number self =
     (if pm_is_empty self then None
      else if packet_number > pm_end self then None
      else
        Option.bind (pn_checked_distance packet_number (pm_start self)) (\<lambda>offset.
        if pm_index self + unat offset > usize_max then None
        else Some ((pm_index self + unat offset) mod length (pm_values self))))"

definition pm_get :: "packet_number \<Rightarrow> 'v pn_map \<Rightarrow> 'v option option" where
  "pm_get packet_number self =
     (case pn_index packet_number self of None \<Rightarrow> Some None | Some index \<Rightarrow> vec_get index (pm_values self))"

text \<open>The loops of \<open>pm_set_start\<close> and \<open>pm_set_end\<close>, over the packet numbers from either end.\<close>

partial_function (option) find_occupied :: "'v pn_map \<Rightarrow> packet_number_range \<Rightarrow> packet_number option" where
  "find_occupied self rng =
     (case pnr_next rng of
        (None, _) \<Rightarrow> None
      | (Some packet_number, rng) \<Rightarrow>
          Option.bind (pm_get packet_number self) (\<lambda>entry.
          if entry \<noteq> None then Some packet_number else find_occupied self rng))"

partial_function (option) find_occupied_back :: "'v pn_map \<Rightarrow> packet_number_range \<Rightarrow> packet_number option" where
  "find_occupied_back self rng =
     (case pnr_next_back rng of
        (None, _) \<Rightarrow> None
      | (Some packet_number, rng) \<Rightarrow>
          Option.bind (pm_get packet_number self) (\<lambda>entry.
          if entry \<noteq> None then Some packet_number else find_occupied_back self rng))"

definition pm_set_start :: "packet_number \<Rightarrow> 'v pn_map \<Rightarrow> 'v pn_map option" where
  "pm_set_start packet_number self =
     Option.bind (pnr_new packet_number (pm_end self)) (\<lambda>rng.
     Option.bind (find_occupied self rng) (\<lambda>packet_number.
     map_option (\<lambda>index. self\<lparr>pm_index := index, pm_start := packet_number\<rparr>) (pn_index packet_number self)))"

definition pm_set_end :: "packet_number \<Rightarrow> 'v pn_map \<Rightarrow> 'v pn_map option" where
  "pm_set_end packet_number self =
     Option.bind (pnr_new (pm_start self) packet_number) (\<lambda>rng.
     map_option (\<lambda>packet_number. self\<lparr>pm_end := packet_number\<rparr>) (find_occupied_back self rng))"

definition pm_remove :: "packet_number \<Rightarrow> 'v pn_map \<Rightarrow> ('v option \<times> 'v pn_map) option" where
  "pm_remove packet_number self =
     (case pn_index packet_number self of
        None \<Rightarrow> Some (None, self)
      | Some index \<Rightarrow>
          (case vec_get index (pm_values self) of
             None \<Rightarrow> None
           | Some None \<Rightarrow> Some (None, self)
           | Some (Some info) \<Rightarrow>
               let self = self\<lparr>pm_values := (pm_values self)[index := None]\<rparr> in
               map_option (Pair (Some info))
                 (case (pm_start self = packet_number, pm_end self = packet_number) of
                    (True, True) \<Rightarrow> Some (logical_clear self)
                  | (True, False) \<Rightarrow> Option.bind (pn_next packet_number) (\<lambda>p. pm_set_start p self)
                  | (False, True) \<Rightarrow> Option.bind (pn_prev packet_number) (\<lambda>p. pm_set_end p self)
                  | (False, False) \<Rightarrow> Some self)))"

text \<open>\<open>clear\<close>, slot by slot over the range.\<close>

partial_function (option) clear_loop :: "packet_number_range \<Rightarrow> 'v pn_map \<Rightarrow> 'v pn_map option" where
  "clear_loop rng self =
     (case pnr_next rng of
        (None, _) \<Rightarrow> Some self
      | (Some pn, rng) \<Rightarrow>
          (case pn_index pn self of
             None \<Rightarrow> clear_loop rng self
           | Some index \<Rightarrow>
               Option.bind (vec_set index None (pm_values self)) (\<lambda>values.
               clear_loop rng (self\<lparr>pm_values := values\<rparr>))))"

definition pm_clear :: "'v pn_map \<Rightarrow> 'v pn_map option" where
  "pm_clear self =
     (if pm_is_empty self then Some self
      else
        Option.bind (pnr_new (pm_start self) (pm_end self)) (\<lambda>rng.
        map_option logical_clear (clear_loop rng self)))"

definition pm_get_range :: "'v pn_map \<Rightarrow> packet_number_range option" where
  "pm_get_range self = pnr_new (pm_start self) (pm_end self)"

section \<open>Iterators\<close>

text \<open>\<open>Iter\<close>: the slots from the index on and then those before it, with the number of the next one.\<close>

record 'v pm_iter_state =
  pit_slots :: "'v option list"
  pit_packet_number :: "packet_number option"
  pit_remaining :: nat

definition pm_iter_new :: "'v pn_map \<Rightarrow> 'v pm_iter_state" where
  "pm_iter_new packets =
     (let iter = \<lparr>pit_slots = drop (pm_index packets) (pm_values packets) @ take (pm_index packets) (pm_values packets),
                  pit_packet_number = Some (pm_start packets), pit_remaining = 0\<rparr> in
      if pm_is_empty packets then iter
      else iter\<lparr>pit_remaining := unat (pn_as_u64 (pm_end packets) - pn_as_u64 (pm_start packets)) + 1\<rparr>)"

function pm_iter_next :: "'v pm_iter_state \<Rightarrow> (packet_number \<times> 'v) option \<times> 'v pm_iter_state" where
  "pm_iter_next self =
     (if pit_remaining self > 0 then
        let self = self\<lparr>pit_remaining := pit_remaining self - 1\<rparr> in
        (case pit_packet_number self of
           None \<Rightarrow> (None, self)
         | Some packet_number \<Rightarrow>
             let self = self\<lparr>pit_packet_number := pn_next packet_number\<rparr> in
             (case pit_slots self of
                [] \<Rightarrow> pm_iter_next self
              | None # slots \<Rightarrow> pm_iter_next (self\<lparr>pit_slots := slots\<rparr>)
              | Some info # slots \<Rightarrow> (Some (packet_number, info), self\<lparr>pit_slots := slots\<rparr>)))
      else (None, self))"
  by pat_completeness auto

termination
  by (relation "measure pit_remaining") auto

declare pm_iter_next.simps [simp del]

definition pm_iter :: "'v pn_map \<Rightarrow> (packet_number \<times> 'v) list option" where
  "pm_iter self = iterate pm_iter_next (pit_remaining (pm_iter_new self) + 1) (pm_iter_new self)"

text \<open>
  \<open>RemoveIter\<close>: the bounds of the map are moved when it is made, the slots are emptied while it runs.
  Dropping it runs it to the end, so \<open>pm_remove_range\<close> is the map after all of them.
\<close>

record 'v remove_iter =
  ri_packets :: "'v pn_map"
  ri_packet_number :: "packet_number option"
  ri_index :: nat
  ri_remaining :: nat

definition remove_iter_new :: "packet_number_range \<Rightarrow> 'v pn_map \<Rightarrow> 'v remove_iter option" where
  "remove_iter_new rng packets =
     (let start = pm_start packets; end' = pm_end packets; index = pm_index packets;
          started = (\<lambda>packets index start end'. \<lparr>ri_packets = packets, ri_packet_number = Some start, ri_index = index,
            ri_remaining = unat (pn_as_u64 end' - pn_as_u64 start) + 1\<rparr>)
      in
      if pm_is_empty packets \<or> pnr_end rng < start \<or> pnr_start rng > end'
      then Some \<lparr>ri_packets = packets, ri_packet_number = None, ri_index = index, ri_remaining = 0\<rparr>
      else if pnr_start rng \<le> start \<and> pnr_end rng \<ge> end'
      then Some (started (logical_clear packets) index start end')
      else if pnr_start rng \<le> start
      then
        Option.bind (pn_next (pnr_end rng)) (\<lambda>p.
        map_option (\<lambda>packets. started packets index start (pnr_end rng)) (pm_set_start p packets))
      else if pnr_end rng \<ge> end'
      then
        Option.bind (pn_index (pnr_start rng) packets) (\<lambda>index.
        Option.bind (pn_prev (pnr_start rng)) (\<lambda>p.
        map_option (\<lambda>packets. started packets index (pnr_start rng) end') (pm_set_end p packets)))
      else
        map_option (\<lambda>index. started packets index (pnr_start rng) (pnr_end rng)) (pn_index (pnr_start rng) packets))"

function remove_iter_next :: "'v remove_iter \<Rightarrow> ((packet_number \<times> 'v) option \<times> 'v remove_iter) option" where
  "remove_iter_next self =
     (if ri_remaining self > 0 then
        let self = self\<lparr>ri_remaining := ri_remaining self - 1\<rparr> in
        (case ri_packet_number self of
           None \<Rightarrow> Some (None, self)
         | Some packet_number \<Rightarrow>
             let self = self\<lparr>ri_packet_number := pn_next packet_number\<rparr>;
                 index = ri_index self;
                 values = pm_values (ri_packets self);
                 self = self\<lparr>ri_index := (index + 1) mod length values\<rparr> in
             (case vec_get index values of
                None \<Rightarrow> None
              | Some None \<Rightarrow> remove_iter_next self
              | Some (Some info) \<Rightarrow>
                  Some (Some (packet_number, info),
                        self\<lparr>ri_packets := (ri_packets self)\<lparr>pm_values := values[index := None]\<rparr>\<rparr>)))
      else Some (None, self))"
  by pat_completeness auto

termination
  by (relation "measure ri_remaining") auto

declare remove_iter_next.simps [simp del]

lemma remove_iter_next_less:
  "remove_iter_next self = Some (Some x, self') \<Longrightarrow> ri_remaining self' < ri_remaining self"
proof (induction self rule: remove_iter_next.induct)
  case (1 self)
  then show ?case
    by (subst (asm) remove_iter_next.simps) (fastforce simp: Let_def split: if_splits option.splits)
qed

function remove_iter_drain :: "'v remove_iter \<Rightarrow> ((packet_number \<times> 'v) list \<times> 'v remove_iter) option" where
  "remove_iter_drain self =
     (case remove_iter_next self of
        None \<Rightarrow> None
      | Some (None, self) \<Rightarrow> Some ([], self)
      | Some (Some x, self) \<Rightarrow> map_option (\<lambda>(xs, self). (x # xs, self)) (remove_iter_drain self))"
  by pat_completeness auto

termination
  by (relation "measure ri_remaining") (auto dest: remove_iter_next_less)

declare remove_iter_drain.simps [simp del]

definition pm_remove_range :: "packet_number_range \<Rightarrow> 'v pn_map \<Rightarrow> ((packet_number \<times> 'v) list \<times> 'v pn_map) option" where
  "pm_remove_range rng self =
     map_option (\<lambda>(removed, iter). (removed, ri_packets iter))
       (Option.bind (remove_iter_new rng self) remove_iter_drain)"

section \<open>The view of the ring\<close>

definition rm_view :: "nat \<Rightarrow> nat \<Rightarrow> 'v option list \<Rightarrow> nat \<Rightarrow> 'v option" where
  "rm_view i a vs n = (if a \<le> n \<and> n < a + length vs then vs ! ((i + (n - a)) mod length vs) else None)"

definition rm_abs :: "'v pn_map \<Rightarrow> nat \<Rightarrow> 'v option" where
  "rm_abs self = (if pm_is_empty self then Map.empty
     else rm_view (pm_index self) (pn_val (pm_start self)) (pm_values self))"

definition rm_wf :: "packet_number_space \<Rightarrow> 'v pn_map \<Rightarrow> bool" where
  "rm_wf s self \<longleftrightarrow> pm_values self \<noteq> [] \<and> length (pm_values self) < 2 ^ 63 \<and>
     (if pm_is_empty self then \<forall>x\<in>set (pm_values self). x = None
      else pm_index self < length (pm_values self) \<and> pn_in s (pm_start self) \<and> pn_in s (pm_end self) \<and>
        rm_abs self (pn_val (pm_start self)) \<noteq> None \<and> rm_abs self (pn_val (pm_end self)) \<noteq> None \<and>
        dom (rm_abs self) \<subseteq> {..pn_val (pm_end self)})"

lemma ring_inj_le: "k' \<le> k \<Longrightarrow> k < L \<Longrightarrow> (i + k) mod L = (i + k') mod L \<Longrightarrow> k = (k' :: nat)"
  using mod_eq_dvd_iff_nat [of "i + k'" "i + k" L] by (auto dest!: dvd_imp_le)

lemma ring_inj: "k < L \<Longrightarrow> k' < L \<Longrightarrow> (i + k) mod L = (i + k') mod L \<longleftrightarrow> k = (k' :: nat)"
  using ring_inj_le [of k k' L i] ring_inj_le [of k' k L i] by (cases "k \<le> k'") auto

lemma rm_view_at: "k < length vs \<Longrightarrow> rm_view i a vs (a + k) = vs ! ((i + k) mod length vs)"
  by (simp add: rm_view_def)

lemma rm_view_outside: "n < a \<or> a + length vs \<le> n \<Longrightarrow> rm_view i a vs n = None"
  by (auto simp: rm_view_def)

lemma rm_view_cases:
  obtains "n < a \<or> a + length vs \<le> n" "rm_view i a vs n = None"
  | k where "n = a + k" "k < length vs" "rm_view i a vs n = vs ! ((i + k) mod length vs)"
proof (cases "a \<le> n \<and> n < a + length vs")
  case True
  then have "n = a + (n - a)" "n - a < length vs" by auto
  with that(2) [of "n - a"] rm_view_at [of "n - a" vs i a] show thesis by simp
qed (use that(1) in \<open>auto simp: rm_view_outside\<close>)

lemma rm_view_set:
  assumes "k < length vs"
  shows "rm_view i a (vs[(i + k) mod length vs := x]) = (rm_view i a vs)(a + k := x)"
proof
  fix m
  show "rm_view i a (vs[(i + k) mod length vs := x]) m = ((rm_view i a vs)(a + k := x)) m"
  proof (cases rule: rm_view_cases [of m a vs i])
    case (2 j)
    have "(i + k) mod length vs < length vs" using assms by (intro mod_less_divisor) auto
    moreover have "(i + j) mod length vs = (i + k) mod length vs \<longleftrightarrow> j = k" by (rule ring_inj [OF 2(2) assms])
    ultimately show ?thesis
      using 2 rm_view_at [of j "vs[(i + k) mod length vs := x]" i a] by (auto simp: nth_list_update)
  qed (use assms in \<open>auto simp: rm_view_outside\<close>)
qed

lemma rm_view_rotate:
  assumes "i < length vs"
  shows "rm_view 0 a (drop i vs @ take i vs @ replicate r None) = rm_view i a vs"
proof
  fix n
  have rot: "drop i vs @ take i vs @ replicate r None = rotate i vs @ replicate r None"
    using assms by (simp add: rotate_drop_take)
  show "rm_view 0 a (drop i vs @ take i vs @ replicate r None) n = rm_view i a vs n"
    unfolding rot
  proof (cases rule: rm_view_cases [of n a "rotate i vs @ replicate r None" 0])
    case 1
    then show "rm_view 0 a (rotate i vs @ replicate r None) n = rm_view i a vs n" by (auto simp: rm_view_outside)
  next
    case (2 k)
    then show "rm_view 0 a (rotate i vs @ replicate r None) n = rm_view i a vs n"
      by (cases "k < length vs") (auto simp: rm_view_at rm_view_outside nth_append nth_rotate)
  qed
qed

lemma rm_view_rebase:
  assumes "d < length vs" "dom (rm_view i a vs) \<subseteq> {a + d..}"
  shows "rm_view ((i + d) mod length vs) (a + d) vs = rm_view i a vs"
proof
  fix n
  have low: "rm_view i a vs m = None" if "m < a + d" for m using that assms(2) by (metis atLeast_iff domIff leD subset_iff)
  show "rm_view ((i + d) mod length vs) (a + d) vs n = rm_view i a vs n"
  proof (cases rule: rm_view_cases [of n "a + d" vs "(i + d) mod length vs"])
    case 1
    then show ?thesis using low by (auto simp: rm_view_outside)
  next
    case (2 k)
    then have v: "rm_view ((i + d) mod length vs) (a + d) vs n = vs ! ((i + (d + k)) mod length vs)"
      by (simp add: mod_add_left_eq add.assoc)
    show ?thesis
    proof (cases "d + k < length vs")
      case True
      then show ?thesis using v 2(1) rm_view_at [of "d + k" vs i a] by (simp add: add.assoc)
    next
      case False
      then obtain j where j: "d + k = j + length vs" by (metis add.commute le_iff_add not_less)
      then have "j < d" "j < length vs" using 2(2) assms(1) by auto
      then have "rm_view i a vs (a + j) = None" using low by simp
      moreover have "(i + (d + k)) mod length vs = (i + j) mod length vs" unfolding j by (simp add: add.assoc [symmetric])
      ultimately have "rm_view ((i + d) mod length vs) (a + d) vs n = None"
        using v rm_view_at [OF \<open>j < length vs\<close>, of i a] by simp
      then show ?thesis using 2(1) False by (simp add: rm_view_outside add.assoc)
    qed
  qed
qed

lemma grow_len_spec:
  assumes "0 < unat n" "unat n \<le> unat len" "unat len < 2 ^ 62"
  shows "\<exists>r. grow_len len n = Some r \<and> unat len < unat r \<and> unat r \<le> 2 * unat len"
  using assms
proof (induction "unat len - unat n" arbitrary: n rule: less_induct)
  case less
  have two: "unat (n * 2) = 2 * unat n" using less.prems by (simp add: unat_word_ariths)
  show ?case
  proof (cases "len < n * 2")
    case True
    then show ?thesis using less.prems two by (subst grow_len.simps) (simp add: word_less_nat_alt)
  next
    case False
    then have "unat (n * 2) \<le> unat len" by (simp add: word_less_nat_alt)
    with less.hyps [of "n * 2"] less.prems two False show ?thesis
      by (subst grow_len.simps) (simp add: Let_def)
  qed
qed

end
