(* ===== verification/RingRefine.thy ===== *)
theory RingRefine
  imports RingMap
begin

text \<open>
  The ring of slots implements the interface of \<open>PacketMap\<close>.
\<close>

section \<open>Lookup and search\<close>

text \<open>A ring with bounds that may be wider than what it holds, as it is in the middle of a removal.\<close>

abbreviation ring_view :: "'v pn_map \<Rightarrow> nat \<Rightarrow> 'v option" where
  "ring_view self \<equiv> rm_view (pm_index self) (pn_val (pm_start self)) (pm_values self)"

definition rm_ring :: "packet_number_space \<Rightarrow> 'v pn_map \<Rightarrow> bool" where
  "rm_ring s self \<longleftrightarrow> length (pm_values self) < 2 ^ 63 \<and> pm_index self < length (pm_values self) \<and>
     pn_in s (pm_start self) \<and> pn_in s (pm_end self) \<and> pn_val (pm_start self) \<le> pn_val (pm_end self) \<and>
     pn_val (pm_end self) < pn_val (pm_start self) + length (pm_values self) \<and>
     dom (ring_view self) \<subseteq> {pn_val (pm_start self)..pn_val (pm_end self)}"

lemma rm_wf_ring:
  assumes "rm_wf s self" "\<not> pm_is_empty self"
  shows "rm_ring s self" "rm_abs self = ring_view self"
    "ring_view self (pn_val (pm_start self)) \<noteq> None" "ring_view self (pn_val (pm_end self)) \<noteq> None"
proof -
  show v: "rm_abs self = ring_view self" using assms(2) by (simp add: rm_abs_def)
  have w: "pm_index self < length (pm_values self)" "length (pm_values self) < 2 ^ 63" "pn_in s (pm_start self)" "pn_in s (pm_end self)"
    and occ: "ring_view self (pn_val (pm_start self)) \<noteq> None" "ring_view self (pn_val (pm_end self)) \<noteq> None"
      "dom (ring_view self) \<subseteq> {..pn_val (pm_end self)}"
    using assms v by (simp_all add: rm_wf_def)
  show "ring_view self (pn_val (pm_start self)) \<noteq> None" "ring_view self (pn_val (pm_end self)) \<noteq> None" by (fact occ)+
  have "dom (ring_view self) \<subseteq> {pn_val (pm_start self)..}" by (auto simp: rm_view_def split: if_splits)
  moreover have "pn_val (pm_start self) \<le> pn_val (pm_end self)"
    "pn_val (pm_end self) < pn_val (pm_start self) + length (pm_values self)"
    using occ(2) by (simp_all add: rm_view_def split: if_splits)
  moreover have "dom (ring_view self) \<subseteq> {pn_val (pm_start self)..pn_val (pm_end self)}"
    unfolding atLeastAtMost_def by (rule Int_greatest) (use occ(3) calculation in simp_all)
  ultimately show "rm_ring s self" using w by (simp add: rm_ring_def)
qed

lemma rm_ring_wf:
  assumes "rm_ring s self" "ring_view self (pn_val (pm_start self)) \<noteq> None" "ring_view self (pn_val (pm_end self)) \<noteq> None"
  shows "rm_wf s self" "rm_abs self = ring_view self"
proof -
  have "\<not> pm_is_empty self" using assms(1) by (simp add: rm_ring_def pm_is_empty_def)
  then show v: "rm_abs self = ring_view self" by (simp add: rm_abs_def)
  then show "rm_wf s self" using assms \<open>\<not> pm_is_empty self\<close> by (auto simp: rm_ring_def rm_wf_def)
qed

lemma rm_ring_empty [simp]: "rm_ring s self \<Longrightarrow> \<not> pm_is_empty self"
  by (simp add: rm_ring_def pm_is_empty_def)

lemma pn_index_ring:
  assumes "rm_ring s self" "pn_in s p"
  shows "pn_index p self = (if pn_val (pm_start self) \<le> pn_val p \<and> pn_val p \<le> pn_val (pm_end self)
    then Some ((pm_index self + (pn_val p - pn_val (pm_start self))) mod length (pm_values self)) else None)"
proof -
  have r: "pm_index self < 2 ^ 63" "pn_in s (pm_start self)" "pn_in s (pm_end self)" using assms(1) by (simp_all add: rm_ring_def)
  have le: "p > pm_end self \<longleftrightarrow> pn_val p > pn_val (pm_end self)" using assms(2) r(3) by (simp add: pn_less_iff)
  have "\<not> usize_max < pm_index self + (pn_val p - pn_val (pm_start self))"
    using r(1) pn_val_less [of p] by (simp add: usize_max_def)
  then show ?thesis
    using assms(1) le
    by (auto simp: pn_index_def pn_checked_distance_def checked_sub_def word_le_nat_alt unat_sub_no_wrap)
qed

lemma pm_get_ring:
  assumes "rm_ring s self" "pn_in s p"
  shows "pm_get p self = Some (ring_view self (pn_val p))"
proof (cases "pn_val (pm_start self) \<le> pn_val p \<and> pn_val p \<le> pn_val (pm_end self)")
  case True
  then obtain k where k: "pn_val p = pn_val (pm_start self) + k" by (metis le_iff_add)
  with True assms(1) have "k < length (pm_values self)" by (auto simp: rm_ring_def)
  with True k pn_index_ring [OF assms] show ?thesis
    by (auto simp: pm_get_def vec_get_def rm_view_at intro: mod_less_divisor)
next
  case False
  then have "ring_view self (pn_val p) = None" using assms(1) by (auto simp: rm_ring_def)
  with False pn_index_ring [OF assms] show ?thesis by (auto simp: pm_get_def)
qed

lemma find_occupied_spec:
  assumes "rm_ring s self" "pn_in s p" "pn_val p \<le> pn_val (pm_end self)" "ring_view self (pn_val (pm_end self)) \<noteq> None"
  shows "\<exists>q. find_occupied self \<lparr>pnr_start = p, pnr_end = pm_end self, pnr_exhausted = False\<rparr> = Some q \<and> pn_in s q \<and>
    pn_val p \<le> pn_val q \<and> pn_val q \<le> pn_val (pm_end self) \<and> ring_view self (pn_val q) \<noteq> None \<and>
    (\<forall>n. pn_val p \<le> n \<and> n < pn_val q \<longrightarrow> ring_view self n = None)"
  using assms(2,3)
proof (induction "pn_val (pm_end self) - pn_val p" arbitrary: p rule: less_induct)
  case less
  have e: "pn_in s (pm_end self)" using assms(1) by (simp add: rm_ring_def)
  have le: "p \<le> pm_end self" using less.prems e by (simp add: pn_le_iff)
  show ?case
  proof (cases "ring_view self (pn_val p)")
    case (Some v)
    then show ?thesis
      using less.prems le pm_get_ring [OF assms(1) less.prems(1)]
      by (subst find_occupied.simps) (auto simp: pnr_next_def split: option.splits)
  next
    case None
    then have "pn_val p < pn_val (pm_end self)" using assms(4) less.prems(2) by (cases "pn_val p = pn_val (pm_end self)") auto
    then obtain p' where p': "pn_next p = Some p'" "pn_in s p'" "pn_val p' = pn_val p + 1"
      using pn_next_Some [OF less.prems(1)] pn_next_None [OF less.prems(1)] pn_val_less [of "pm_end self"]
      by (cases "pn_next p") auto
    have "\<exists>q. find_occupied self \<lparr>pnr_start = p', pnr_end = pm_end self, pnr_exhausted = False\<rparr> = Some q \<and> pn_in s q \<and>
      pn_val p' \<le> pn_val q \<and> pn_val q \<le> pn_val (pm_end self) \<and> ring_view self (pn_val q) \<noteq> None \<and>
      (\<forall>n. pn_val p' \<le> n \<and> n < pn_val q \<longrightarrow> ring_view self n = None)"
      by (rule less.hyps) (use p' \<open>pn_val p < pn_val (pm_end self)\<close> in auto)
    then obtain q where "find_occupied self \<lparr>pnr_start = p', pnr_end = pm_end self, pnr_exhausted = False\<rparr> = Some q" "pn_in s q"
      "pn_val p' \<le> pn_val q" "pn_val q \<le> pn_val (pm_end self)" "ring_view self (pn_val q) \<noteq> None"
      "\<forall>n. pn_val p' \<le> n \<and> n < pn_val q \<longrightarrow> ring_view self n = None" by blast
    moreover from this(6) have "\<forall>n. pn_val p \<le> n \<and> n < pn_val q \<longrightarrow> ring_view self n = None"
      using None p'(3) by (metis Suc_eq_plus1 Suc_leI le_neq_implies_less)
    ultimately show ?thesis
      using None p' le pm_get_ring [OF assms(1) less.prems(1)]
      by (subst find_occupied.simps) (simp add: pnr_next_def)
  qed
qed

lemma find_occupied_back_spec:
  assumes "rm_ring s self" "pn_in s p" "pn_val (pm_start self) \<le> pn_val p" "ring_view self (pn_val (pm_start self)) \<noteq> None"
  shows "\<exists>q. find_occupied_back self \<lparr>pnr_start = pm_start self, pnr_end = p, pnr_exhausted = False\<rparr> = Some q \<and> pn_in s q \<and>
    pn_val (pm_start self) \<le> pn_val q \<and> pn_val q \<le> pn_val p \<and> ring_view self (pn_val q) \<noteq> None \<and>
    (\<forall>n. pn_val q < n \<and> n \<le> pn_val p \<longrightarrow> ring_view self n = None)"
  using assms(2,3)
proof (induction "pn_val p" arbitrary: p rule: less_induct)
  case less
  have e: "pn_in s (pm_start self)" using assms(1) by (simp add: rm_ring_def)
  have le: "pm_start self \<le> p" using less.prems e by (simp add: pn_le_iff)
  show ?case
  proof (cases "ring_view self (pn_val p)")
    case (Some v)
    then show ?thesis
      using less.prems le pm_get_ring [OF assms(1) less.prems(1)]
      by (subst find_occupied_back.simps) (auto simp: pnr_next_back_def split: option.splits)
  next
    case None
    then have lt: "pn_val (pm_start self) < pn_val p" using assms(4) less.prems(2) by (cases "pn_val p = pn_val (pm_start self)") auto
    then obtain p' where p': "pn_prev p = Some p'" "pn_in s p'" "pn_val p = pn_val p' + 1"
      using pn_prev_Some [OF less.prems(1)] pn_prev_None [OF less.prems(1)] by (cases "pn_prev p") auto
    have le': "\<not> p' < pm_start self" using p' lt e by (simp add: pn_less_iff)
    have "\<exists>q. find_occupied_back self \<lparr>pnr_start = pm_start self, pnr_end = p', pnr_exhausted = False\<rparr> = Some q \<and> pn_in s q \<and>
      pn_val (pm_start self) \<le> pn_val q \<and> pn_val q \<le> pn_val p' \<and> ring_view self (pn_val q) \<noteq> None \<and>
      (\<forall>n. pn_val q < n \<and> n \<le> pn_val p' \<longrightarrow> ring_view self n = None)"
      by (rule less.hyps) (use p' lt in auto)
    then obtain q where "find_occupied_back self \<lparr>pnr_start = pm_start self, pnr_end = p', pnr_exhausted = False\<rparr> = Some q" "pn_in s q"
      "pn_val (pm_start self) \<le> pn_val q" "pn_val q \<le> pn_val p'" "ring_view self (pn_val q) \<noteq> None"
      "\<forall>n. pn_val q < n \<and> n \<le> pn_val p' \<longrightarrow> ring_view self n = None" by blast
    moreover from this(6) have "\<forall>n. pn_val q < n \<and> n \<le> pn_val p \<longrightarrow> ring_view self n = None"
      using None p'(3) by (metis Suc_eq_plus1 le_SucE)
    ultimately show ?thesis
      using None p' le le' pm_get_ring [OF assms(1) less.prems(1)]
      by (subst find_occupied_back.simps) (simp add: pnr_next_back_def)
  qed
qed

lemma pm_set_start_spec:
  assumes "rm_ring s self" "pn_in s p" "pn_val (pm_start self) \<le> pn_val p" "pn_val p \<le> pn_val (pm_end self)"
    "ring_view self (pn_val (pm_end self)) \<noteq> None"
  shows "\<exists>q. pm_set_start p self = Some (self\<lparr>pm_start := q,
      pm_index := (pm_index self + (pn_val q - pn_val (pm_start self))) mod length (pm_values self)\<rparr>) \<and> pn_in s q \<and>
    pn_val p \<le> pn_val q \<and> pn_val q \<le> pn_val (pm_end self) \<and> ring_view self (pn_val q) \<noteq> None \<and>
    (\<forall>n. pn_val p \<le> n \<and> n < pn_val q \<longrightarrow> ring_view self n = None)"
proof -
  have "p \<le> pm_end self" using assms by (simp add: rm_ring_def pn_le_iff)
  then have new: "pnr_new p (pm_end self) = Some \<lparr>pnr_start = p, pnr_end = pm_end self, pnr_exhausted = False\<rparr>"
    by (simp add: pnr_new_def)
  obtain q where q: "find_occupied self \<lparr>pnr_start = p, pnr_end = pm_end self, pnr_exhausted = False\<rparr> = Some q" "pn_in s q"
    "pn_val p \<le> pn_val q" "pn_val q \<le> pn_val (pm_end self)" "ring_view self (pn_val q) \<noteq> None"
    "\<forall>n. pn_val p \<le> n \<and> n < pn_val q \<longrightarrow> ring_view self n = None"
    using find_occupied_spec [OF assms(1,2,4,5)] by blast
  have "pn_val (pm_start self) \<le> pn_val q" using q(3) assms(3) by simp
  then have "pn_index q self = Some ((pm_index self + (pn_val q - pn_val (pm_start self))) mod length (pm_values self))"
    using pn_index_ring [OF assms(1) q(2)] q(4) by simp
  then have "pm_set_start p self = Some (self\<lparr>pm_start := q,
      pm_index := (pm_index self + (pn_val q - pn_val (pm_start self))) mod length (pm_values self)\<rparr>)"
    by (simp add: pm_set_start_def new q(1))
  with q show ?thesis by blast
qed

lemma pm_set_end_spec:
  assumes "rm_ring s self" "pn_in s p" "pn_val (pm_start self) \<le> pn_val p" "ring_view self (pn_val (pm_start self)) \<noteq> None"
  shows "\<exists>q. pm_set_end p self = Some (self\<lparr>pm_end := q\<rparr>) \<and> pn_in s q \<and>
    pn_val (pm_start self) \<le> pn_val q \<and> pn_val q \<le> pn_val p \<and> ring_view self (pn_val q) \<noteq> None \<and>
    (\<forall>n. pn_val q < n \<and> n \<le> pn_val p \<longrightarrow> ring_view self n = None)"
proof -
  have "pm_start self \<le> p" using assms by (simp add: rm_ring_def pn_le_iff [of s])
  then have new: "pnr_new (pm_start self) p = Some \<lparr>pnr_start = pm_start self, pnr_end = p, pnr_exhausted = False\<rparr>"
    by (simp add: pnr_new_def)
  obtain q where q: "find_occupied_back self \<lparr>pnr_start = pm_start self, pnr_end = p, pnr_exhausted = False\<rparr> = Some q" "pn_in s q"
    "pn_val (pm_start self) \<le> pn_val q" "pn_val q \<le> pn_val p" "ring_view self (pn_val q) \<noteq> None"
    "\<forall>n. pn_val q < n \<and> n \<le> pn_val p \<longrightarrow> ring_view self n = None"
    using find_occupied_back_spec [OF assms] by blast
  then show ?thesis by (simp add: pm_set_end_def new) blast
qed

section \<open>Views after an update of a slot\<close>

lemma rm_view_empty:
  assumes "i < length vs" "rm_view i a vs = Map.empty"
  shows "\<forall>x\<in>set vs. x = None"
proof
  fix x assume "x \<in> set vs"
  then obtain j where j: "j < length vs" "x = vs ! j" by (metis in_set_conv_nth)
  obtain k where k: "k < length vs" "(i + k) mod length vs = j"
  proof (cases "i \<le> j")
    case True then show thesis using j that [of "j - i"] by simp
  next
    case False
    then have "i + (length vs - i + j) = j + length vs" "length vs - i + j < length vs" using assms(1) by auto
    then show thesis using j that [of "length vs - i + j"] by simp
  qed
  have "rm_view i a vs (a + k) = x" using rm_view_at [OF k(1), of i a] k(2) j(2) by simp
  then show "x = None" using assms(2) by simp
qed

lemma rm_wf_cleared:
  assumes "pm_values self \<noteq> []" "length (pm_values self) < 2 ^ 63" "\<forall>x\<in>set (pm_values self). x = None"
    "pm_index self = length (pm_values self)"
  shows "rm_wf s self" "rm_abs self = Map.empty"
  using assms by (simp_all add: rm_wf_def rm_abs_def pm_is_empty_def)

lemma rm_wf_nonempty:
  assumes "pm_index self < length (pm_values self)" "length (pm_values self) < 2 ^ 63"
    "pn_in s (pm_start self)" "pn_in s (pm_end self)" "ring_view self = m"
    "m (pn_val (pm_start self)) \<noteq> None" "m (pn_val (pm_end self)) \<noteq> None" "dom m \<subseteq> {..pn_val (pm_end self)}"
  shows "rm_wf s self" "rm_abs self = m"
proof -
  have ne: "\<not> pm_is_empty self" using assms(1) by (simp add: pm_is_empty_def)
  then show "rm_abs self = m" by (simp add: rm_abs_def assms(5))
  with ne assms show "rm_wf s self" by (auto simp: rm_wf_def)
qed

text \<open>A ring that moves its first slot forward over slots that are empty.\<close>

lemma rm_wf_restart:
  assumes "rm_ring s self" "pn_in s q" "pn_val (pm_start self) \<le> pn_val q" "pn_val q \<le> pn_val (pm_end self)"
    and "length vs = length (pm_values self)" "rm_view (pm_index self) (pn_val (pm_start self)) vs = m"
    and "m (pn_val q) \<noteq> None" "m (pn_val (pm_end self)) \<noteq> None" "dom m \<subseteq> {pn_val q..pn_val (pm_end self)}"
    and self': "self' = self\<lparr>pm_start := q, pm_values := vs,
      pm_index := (pm_index self + (pn_val q - pn_val (pm_start self))) mod length (pm_values self)\<rparr>"
  shows "rm_wf s self'" "rm_abs self' = m"
proof -
  obtain d where d: "pn_val q = pn_val (pm_start self) + d" using assms(3) by (metis le_iff_add)
  have r: "pm_index self < length vs" "length vs < 2 ^ 63" "pn_in s (pm_end self)"
    "pn_val (pm_end self) < pn_val (pm_start self) + length vs"
    using assms(1,5) by (simp_all add: rm_ring_def)
  have "d < length vs" using r(4) d assms(4) by simp
  moreover have "dom (rm_view (pm_index self) (pn_val (pm_start self)) vs) \<subseteq> {pn_val (pm_start self) + d..}"
    using assms(6,9) d by auto
  ultimately have "rm_view ((pm_index self + d) mod length vs) (pn_val (pm_start self) + d) vs = m"
    using rm_view_rebase assms(6) by metis
  then have view: "ring_view self' = m" using d assms(5) by (simp add: self')
  have idx: "pm_index self' < length (pm_values self')" using r(1) assms(5) by (auto simp: self' intro: mod_less_divisor)
  show "rm_wf s self'" by (rule rm_wf_nonempty [OF idx _ _ _ view]) (use assms(2,7-9) r self' in auto)
  show "rm_abs self' = m" by (rule rm_wf_nonempty [OF idx _ _ _ view]) (use assms(2,7-9) r self' in auto)
qed

lemma rm_view_none: "\<forall>x\<in>set vs. x = None \<Longrightarrow> rm_view i a vs = Map.empty"
proof
  fix n assume none: "\<forall>x\<in>set vs. x = None"
  show "rm_view i a vs n = None"
  proof (cases rule: rm_view_cases [of n a vs i])
    case (2 k)
    then have "(i + k) mod length vs < length vs" by (intro mod_less_divisor) auto
    with 2(3) none show ?thesis by simp
  qed simp
qed

section \<open>Insertion\<close>

lemma pm_insert_first_law:
  assumes "rm_wf s self" "pm_is_empty self" "pn_in s p"
  shows "\<exists>self'. pm_insert_first p v self = Some self' \<and> rm_wf s self' \<and> rm_abs self' = (rm_abs self)(pn_val p \<mapsto> v)"
proof -
  have w: "pm_values self \<noteq> []" "length (pm_values self) < 2 ^ 63" "\<forall>x\<in>set (pm_values self). x = None"
    using assms by (simp_all add: rm_wf_def)
  let ?self = "self\<lparr>pm_start := p, pm_end := p, pm_values := (pm_values self)[0 := Some v], pm_index := 0\<rparr>"
  have first: "pm_insert_first p v self = Some ?self" using w by (simp add: pm_insert_first_def vec_set_def)
  have view: "ring_view ?self = (rm_abs self)(pn_val p \<mapsto> v)"
    using rm_view_set [of 0 "pm_values self" 0 "pn_val p" "Some v"] rm_view_none [OF w(3)] w(1) assms(2) by (simp add: rm_abs_def)
  have "rm_abs self = Map.empty" using assms(2) by (simp add: rm_abs_def)
  with w assms(3) rm_wf_nonempty [OF _ _ _ _ view] have "rm_wf s ?self" "rm_abs ?self = (rm_abs self)(pn_val p \<mapsto> v)" by auto
  with first show ?thesis by blast
qed

definition ring_bound :: "nat \<Rightarrow> nat" where
  "ring_bound elem = isize_max div (2 * elem)"

lemma ring_bound_fits:
  assumes "d < ring_bound elem" "n \<le> 2 * d"
  shows "n * elem \<le> isize_max"
proof -
  have "n * elem \<le> 2 * d * elem" using assms(2) by simp
  also have "\<dots> \<le> ring_bound elem * (2 * elem)" using assms(1) by simp
  also have "\<dots> \<le> isize_max" unfolding ring_bound_def by (rule div_times_less_eq_dividend)
  finally show ?thesis .
qed

lemma pm_resize_spec:
  assumes "rm_ring s self" "length (pm_values self) \<le> unat d" "unat d < 2 ^ 62" "unat d < ring_bound elem"
  shows "\<exists>vs. pm_resize elem d self = Some (self\<lparr>pm_index := 0, pm_values := vs\<rparr>) \<and> unat d < length vs \<and> length vs < 2 ^ 63 \<and>
    rm_view 0 (pn_val (pm_start self)) vs = ring_view self"
proof -
  let ?vs = "pm_values self" and ?i = "pm_index self"
  have r: "?i < length ?vs" "length ?vs < 2 ^ 63" using assms(1) by (simp_all add: rm_ring_def)
  have n: "unat (word_of_nat (length ?vs) :: u64) = length ?vs" using r(2) by (simp add: unat_of_nat_no_wrap)
  obtain new_len where new: "grow_len d (word_of_nat (length ?vs)) = Some new_len" "unat d < unat new_len" "unat new_len \<le> 2 * unat d"
    using grow_len_spec [of "word_of_nat (length ?vs)" d, unfolded n] r(1) assms(2,3) by (cases ?vs) auto
  define vs where "vs = drop ?i ?vs @ take ?i ?vs @ replicate (unat new_len - length ?vs) None"
  have "pm_resize elem d self = Some (self\<lparr>pm_index := 0, pm_values := vs\<rparr>)"
    using new ring_bound_fits [OF assms(4) new(3)] r(1) by (simp add: pm_resize_def vs_def)
  moreover have "length vs = unat new_len" using new(2) assms(2) r(1) by (simp add: vs_def)
  ultimately show ?thesis using new(2,3) assms(3) rm_view_rotate [OF r(1)] by (auto simp: vs_def)
qed

lemma pm_reserve_spec:
  assumes "rm_ring s self" "pn_in s p" "pn_val (pm_start self) \<le> pn_val p" "pn_val p < pn_val (pm_start self) + ring_bound elem"
    and k: "pn_val p = pn_val (pm_start self) + k"
  shows "\<exists>i vs. pm_reserve elem p self = Some ((i + k) mod length vs, self\<lparr>pm_index := i, pm_values := vs\<rparr>) \<and>
    i < length vs \<and> k < length vs \<and> length vs < 2 ^ 63 \<and> rm_view i (pn_val (pm_start self)) vs = ring_view self"
proof -
  let ?d = "pn_as_u64 p - pn_as_u64 (pm_start self)"
  have "pn_as_u64 (pm_start self) \<le> pn_as_u64 p" using k by (simp add: word_le_nat_alt)
  then have d: "unat ?d = k" using k by (simp add: unat_sub_no_wrap)
  show ?thesis
  proof (cases "length (pm_values self) \<le> k")
    case True
    have "unat ?d < 2 ^ 62" using d k pn_val_less [of p] by simp
    with True d k assms(4) pm_resize_spec [OF assms(1), of ?d elem] obtain vs where
      "pm_resize elem ?d self = Some (self\<lparr>pm_index := 0, pm_values := vs\<rparr>)" "k < length vs" "length vs < 2 ^ 63"
      "rm_view 0 (pn_val (pm_start self)) vs = ring_view self" by auto
    with True d show ?thesis by (intro exI [of _ 0] exI [of _ vs]) (auto simp: pm_reserve_def)
  next
    case False
    have "self = self\<lparr>pm_index := pm_index self, pm_values := pm_values self\<rparr>" by simp
    with False d assms(1) show ?thesis
      by (intro exI [of _ "pm_index self"] exI [of _ "pm_values self"]) (simp add: pm_reserve_def rm_ring_def)
  qed
qed

text \<open>Both insertions write the slot they reserved and move the end of the range.\<close>

lemma rm_wf_written:
  assumes "rm_ring s self" "m = ring_view self" "m (pn_val (pm_start self)) \<noteq> None"
    and "i < length vs" "k < length vs" "length vs < 2 ^ 63" "rm_view i (pn_val (pm_start self)) vs = m"
    and "pn_in s e" "e = p \<or> m (pn_val e) \<noteq> None" "dom m \<subseteq> {..pn_val e}" "pn_val p \<le> pn_val e"
    and k: "pn_val p = pn_val (pm_start self) + k"
    and self': "self' = self\<lparr>pm_index := i, pm_values := vs[(i + k) mod length vs := Some x], pm_end := e\<rparr>"
  shows "rm_wf s self' \<and> rm_abs self' = m(pn_val p \<mapsto> x)"
proof -
  have view: "ring_view self' = m(pn_val p \<mapsto> x)"
    using rm_view_set [OF assms(5), of i "pn_val (pm_start self)" "Some x"] assms(7) k by (simp add: self')
  have "rm_wf s self'" "rm_abs self' = m(pn_val p \<mapsto> x)"
    by (rule rm_wf_nonempty [OF _ _ _ _ view]; use assms(1,3-6,8-11) in \<open>auto simp: self' rm_ring_def\<close>)+
  then show ?thesis by simp
qed

lemma rm_wf_bounds:
  assumes "rm_wf s self" "\<not> pm_is_empty self"
  shows "pn_val (pm_start self) \<in> dom (rm_abs self)" "pn_val (pm_end self) \<in> dom (rm_abs self)"
    "n \<in> dom (rm_abs self) \<Longrightarrow> pn_val (pm_start self) \<le> n \<and> n \<le> pn_val (pm_end self)"
    "dom (rm_abs self) \<subseteq> {pn_val (pm_start self)..pn_val (pm_end self)}"
proof -
  note w = rm_wf_ring [OF assms]
  show "pn_val (pm_start self) \<in> dom (rm_abs self)" "pn_val (pm_end self) \<in> dom (rm_abs self)" using w by auto
  show d: "dom (rm_abs self) \<subseteq> {pn_val (pm_start self)..pn_val (pm_end self)}" using w(1,2) by (simp add: rm_ring_def)
  show "n \<in> dom (rm_abs self) \<Longrightarrow> pn_val (pm_start self) \<le> n \<and> n \<le> pn_val (pm_end self)" using d by auto
qed

lemma pm_insert_law:
  assumes "rm_wf s self" "pn_in s p" "\<forall>k\<in>dom (rm_abs self). k < pn_val p" "spans (ring_bound elem) (rm_abs self) (pn_val p)"
  shows "\<exists>self'. pm_insert elem p v self = Some self' \<and> rm_wf s self' \<and> rm_abs self' = (rm_abs self)(pn_val p \<mapsto> v)"
proof (cases "pm_is_empty self")
  case True
  with pm_insert_first_law [OF assms(1) _ assms(2)] show ?thesis by (simp add: pm_insert_def)
next
  case False
  note w = rm_wf_ring [OF assms(1) False] and b = rm_wf_bounds [OF assms(1) False]
  have lt: "pn_val (pm_start self) < pn_val p" using assms(3) b(1) by blast
  then obtain k where k: "pn_val p = pn_val (pm_start self) + k" by (metis less_imp_le le_iff_add)
  have "pn_val p < pn_val (pm_start self) + ring_bound elem" using assms(4) b(1) by (auto simp: spans_def)
  with pm_reserve_spec [OF w(1) assms(2) _ _ k, of elem] lt obtain i vs where res:
    "pm_reserve elem p self = Some ((i + k) mod length vs, self\<lparr>pm_index := i, pm_values := vs\<rparr>)"
    "i < length vs" "k < length vs" "length vs < 2 ^ 63" "rm_view i (pn_val (pm_start self)) vs = rm_abs self"
    by (auto simp: w(2))
  let ?self = "self\<lparr>pm_index := i, pm_values := vs[(i + k) mod length vs := Some v], pm_end := p\<rparr>"
  have "(i + k) mod length vs < length vs" using res(2) by (intro mod_less_divisor) auto
  then have "pm_insert elem p v self = Some ?self" using False res(1) by (simp add: pm_insert_def vec_set_def)
  moreover have "dom (rm_abs self) \<subseteq> {..pn_val p}" using assms(3) by (auto intro: less_imp_le)
  then have "rm_wf s ?self \<and> rm_abs ?self = (rm_abs self)(pn_val p \<mapsto> v)"
    by (intro rm_wf_written [OF w(1,2) _ res(2-5) assms(2) _ _ _ k refl]) (use b(1) in auto)
  ultimately show ?thesis by blast
qed

lemma pm_insert_or_update_law:
  assumes "rm_wf s self" "pn_in s p" "dom (rm_abs self) \<noteq> {} \<longrightarrow> (\<exists>k\<in>dom (rm_abs self). k \<le> pn_val p)"
    "spans (ring_bound elem) (rm_abs self) (pn_val p)"
  shows "\<exists>self'. pm_insert_or_update elem p v f self = Some self' \<and> rm_wf s self' \<and>
    rm_abs self' = (rm_abs self)(pn_val p \<mapsto> (case rm_abs self (pn_val p) of Some w \<Rightarrow> f w | None \<Rightarrow> v))"
proof (cases "pm_is_empty self")
  case True
  then have "rm_abs self = Map.empty" by (simp add: rm_abs_def)
  with True pm_insert_first_law [OF assms(1) _ assms(2)] show ?thesis by (simp add: pm_insert_or_update_def)
next
  case False
  note w = rm_wf_ring [OF assms(1) False] and b = rm_wf_bounds [OF assms(1) False]
  have le: "pn_val (pm_start self) \<le> pn_val p" using assms(3) b(1,3) order_trans by blast
  then obtain k where k: "pn_val p = pn_val (pm_start self) + k" by (metis le_iff_add)
  have "pn_val p < pn_val (pm_start self) + ring_bound elem" using assms(4) b(1) by (auto simp: spans_def)
  with pm_reserve_spec [OF w(1) assms(2) le _ k, of elem] obtain i vs where res:
    "pm_reserve elem p self = Some ((i + k) mod length vs, self\<lparr>pm_index := i, pm_values := vs\<rparr>)"
    "i < length vs" "k < length vs" "length vs < 2 ^ 63" "rm_view i (pn_val (pm_start self)) vs = rm_abs self"
    by (auto simp: w(2))
  let ?x = "case rm_abs self (pn_val p) of Some w \<Rightarrow> f w | None \<Rightarrow> v"
  let ?self = "self\<lparr>pm_index := i, pm_values := vs[(i + k) mod length vs := Some ?x], pm_end := max (pm_end self) p\<rparr>"
  have "vs ! ((i + k) mod length vs) = rm_abs self (pn_val p)" using rm_view_at [OF res(3), of i "pn_val (pm_start self)"] res(5) k by simp
  moreover have "(i + k) mod length vs < length vs" using res(2) by (intro mod_less_divisor) auto
  ultimately have "pm_insert_or_update elem p v f self = Some ?self"
    using False res(1) by (simp add: pm_insert_or_update_def vec_get_def split: option.splits)
  moreover have e: "pn_in s (pm_end self)" using w(1) by (simp add: rm_ring_def)
  then have "dom (rm_abs self) \<subseteq> {..pn_val (max (pm_end self) p)}" "pn_val p \<le> pn_val (max (pm_end self) p)"
    using b(4) assms(2) by (auto simp: max_def pn_le_iff [of s])
  then have "rm_wf s ?self \<and> rm_abs ?self = (rm_abs self)(pn_val p \<mapsto> ?x)"
    by (intro rm_wf_written [OF w(1,2) _ res(2-5) _ _ _ _ k refl]) (use b(1,2) e assms(2) in \<open>auto simp: max_def\<close>)
  ultimately show ?thesis by blast
qed

section \<open>Removal of one entry\<close>

lemma rm_ring_cleared_slot:
  assumes "rm_ring s self" "k < length (pm_values self)"
    and self': "self' = self\<lparr>pm_values := (pm_values self)[(pm_index self + k) mod length (pm_values self) := None]\<rparr>"
  shows "rm_ring s self' \<and> ring_view self' = (ring_view self)(pn_val (pm_start self) + k := None)"
proof -
  have view: "ring_view self' = (ring_view self)(pn_val (pm_start self) + k := None)"
    using rm_view_set [OF assms(2)] by (simp add: self')
  have "dom (ring_view self') \<subseteq> dom (ring_view self)" unfolding view by auto
  with assms(1) have "rm_ring s self'" unfolding rm_ring_def by (auto simp: self')
  with view show ?thesis by simp
qed

lemma rm_wf_all_cleared:
  assumes "rm_ring s self" "ring_view self = Map.empty"
  shows "rm_wf s (logical_clear self) \<and> rm_abs (logical_clear self) = Map.empty"
proof -
  have r: "pm_index self < length (pm_values self)" "length (pm_values self) < 2 ^ 63" using assms(1) by (simp_all add: rm_ring_def)
  have "\<forall>x\<in>set (pm_values self). x = None" by (rule rm_view_empty [OF r(1) assms(2)])
  moreover have "pm_values self \<noteq> []" using r(1) by auto
  ultimately show ?thesis
    using r rm_wf_cleared(1) [of "logical_clear self" s] rm_wf_cleared(2) [of "logical_clear self"] by (auto simp: logical_clear_def)
qed

lemma pm_set_start_law:
  assumes "rm_ring s self" "pn_in s p" "pn_val (pm_start self) \<le> pn_val p" "pn_val p \<le> pn_val (pm_end self)"
    "ring_view self (pn_val (pm_end self)) \<noteq> None" "\<And>n. n < pn_val p \<Longrightarrow> ring_view self n = None"
  shows "\<exists>self'. pm_set_start p self = Some self' \<and> rm_wf s self' \<and> rm_abs self' = ring_view self"
proof -
  let ?self = "\<lambda>q. self\<lparr>pm_start := q,
      pm_index := (pm_index self + (pn_val q - pn_val (pm_start self))) mod length (pm_values self)\<rparr>"
  obtain q where q: "pm_set_start p self = Some (?self q)" "pn_in s q" "pn_val p \<le> pn_val q" "pn_val q \<le> pn_val (pm_end self)"
    "ring_view self (pn_val q) \<noteq> None" "\<And>n. pn_val p \<le> n \<Longrightarrow> n < pn_val q \<Longrightarrow> ring_view self n = None"
    using pm_set_start_spec [OF assms(1-5)] by blast
  have "n \<in> {pn_val q..pn_val (pm_end self)}" if "n \<in> dom (ring_view self)" for n
    using that assms(1,6) q(6) [of n] by (cases "n < pn_val q"; cases "n < pn_val p") (auto simp: rm_ring_def)
  then have dom: "dom (ring_view self) \<subseteq> {pn_val q..pn_val (pm_end self)}" by (rule subsetI)
  have "rm_wf s (?self q)" "rm_abs (?self q) = ring_view self"
    by (rule rm_wf_restart [OF assms(1) q(2) order_trans [OF assms(3) q(3)] q(4) refl refl q(5) assms(5) dom]; simp)+
  with q(1) show ?thesis by blast
qed

lemma pm_set_end_law:
  assumes "rm_ring s self" "pn_in s p" "pn_val (pm_start self) \<le> pn_val p"
    "ring_view self (pn_val (pm_start self)) \<noteq> None" "\<And>n. pn_val p < n \<Longrightarrow> ring_view self n = None"
  shows "\<exists>self'. pm_set_end p self = Some self' \<and> rm_wf s self' \<and> rm_abs self' = ring_view self"
proof -
  obtain q where q: "pm_set_end p self = Some (self\<lparr>pm_end := q\<rparr>)" "pn_in s q" "pn_val q \<le> pn_val p"
    "ring_view self (pn_val q) \<noteq> None" "\<And>n. pn_val q < n \<Longrightarrow> n \<le> pn_val p \<Longrightarrow> ring_view self n = None"
    using pm_set_end_spec [OF assms(1-4)] by blast
  have "n \<in> {..pn_val q}" if "n \<in> dom (ring_view self)" for n
    using that assms(5) q(5) [of n] by (cases "n > pn_val q"; cases "n > pn_val p") auto
  then have dom: "dom (ring_view self) \<subseteq> {..pn_val q}" by (rule subsetI)
  have "rm_wf s (self\<lparr>pm_end := q\<rparr>)" "rm_abs (self\<lparr>pm_end := q\<rparr>) = ring_view self"
    by (rule rm_wf_nonempty [where m = "ring_view self"]; use assms(1,4) q(2,4) dom in \<open>auto simp: rm_ring_def\<close>)+
  with q(1) show ?thesis by blast
qed

text \<open>The bounds after the value at a packet number is gone.\<close>

definition rm_rebound :: "packet_number \<Rightarrow> 'v pn_map \<Rightarrow> 'v pn_map option" where
  "rm_rebound p self =
     (if pm_start self = p \<and> pm_end self = p then Some (logical_clear self)
      else if pm_start self = p then Option.bind (pn_next p) (\<lambda>p. pm_set_start p self)
      else if pm_end self = p then Option.bind (pn_prev p) (\<lambda>p. pm_set_end p self)
      else Some self)"

lemma rm_rebound_law:
  assumes ring: "rm_ring s self" and p: "pn_in s p" "ring_view self (pn_val p) = None"
    and start: "pn_val (pm_start self) \<noteq> pn_val p \<Longrightarrow> ring_view self (pn_val (pm_start self)) \<noteq> None"
    and end': "pn_val (pm_end self) \<noteq> pn_val p \<Longrightarrow> ring_view self (pn_val (pm_end self)) \<noteq> None"
  shows "\<exists>self'. rm_rebound p self = Some self' \<and> rm_wf s self' \<and> rm_abs self' = ring_view self"
proof -
  have r: "pn_in s (pm_start self)" "pn_in s (pm_end self)" "pn_val (pm_start self) \<le> pn_val (pm_end self)"
    "dom (ring_view self) \<subseteq> {pn_val (pm_start self)..pn_val (pm_end self)}" using ring by (simp_all add: rm_ring_def)
  have eq: "pm_start self = p \<longleftrightarrow> pn_val (pm_start self) = pn_val p" "pm_end self = p \<longleftrightarrow> pn_val (pm_end self) = pn_val p"
    using r p(1) by (simp_all add: pn_eq_iff [of s])
  consider (both) "pn_val (pm_start self) = pn_val p" "pn_val (pm_end self) = pn_val p"
    | (front) "pn_val (pm_start self) = pn_val p" "pn_val (pm_end self) \<noteq> pn_val p"
    | (rear) "pn_val (pm_start self) \<noteq> pn_val p" "pn_val (pm_end self) = pn_val p"
    | (middle) "pn_val (pm_start self) \<noteq> pn_val p" "pn_val (pm_end self) \<noteq> pn_val p" by blast
  then show ?thesis
  proof cases
    case both
    then have "ring_view self n = None" for n using r(4) p(2) by (cases "n = pn_val p") auto
    then have "ring_view self = Map.empty" by blast
    with both eq rm_wf_all_cleared [OF ring] show ?thesis by (simp add: rm_rebound_def)
  next
    case front
    then have lt: "pn_val p < pn_val (pm_end self)" using r(3) by simp
    then obtain p' where p': "pn_next p = Some p'" "pn_in s p'" "pn_val p' = pn_val p + 1"
      using pn_next_Some [OF p(1)] pn_next_None [OF p(1)] pn_val_less [of "pm_end self"] by (cases "pn_next p") auto
    have "ring_view self n = None" if "n < pn_val p'" for n
      using that p'(3) front(1) r(4) p(2) by (cases "n = pn_val p") auto
    with pm_set_start_law [OF ring p'(2)] lt p' front end' eq show ?thesis by (simp add: rm_rebound_def)
  next
    case rear
    then have lt: "pn_val (pm_start self) < pn_val p" using r(3) by simp
    then obtain p' where p': "pn_prev p = Some p'" "pn_in s p'" "pn_val p = pn_val p' + 1"
      using pn_prev_Some [OF p(1)] pn_prev_None [OF p(1)] by (cases "pn_prev p") auto
    have "ring_view self n = None" if "pn_val p' < n" for n
      using that p'(3) rear(2) r(4) p(2) by (cases "n = pn_val p") auto
    with pm_set_end_law [OF ring p'(2)] lt p' rear start eq show ?thesis by (simp add: rm_rebound_def)
  next
    case middle
    with rm_ring_wf [OF ring start end'] eq show ?thesis by (simp add: rm_rebound_def)
  qed
qed

lemma pm_remove_law:
  assumes "rm_wf s self" "pn_in s p"
  shows "\<exists>self'. pm_remove p self = Some (rm_abs self (pn_val p), self') \<and> rm_wf s self' \<and> rm_abs self' = (rm_abs self)(pn_val p := None)"
proof (cases "rm_abs self (pn_val p)")
  case None
  have "pm_remove p self = Some (None, self)"
  proof (cases "pm_is_empty self")
    case True
    then show ?thesis by (simp add: pm_remove_def pn_index_def)
  next
    case False
    note w = rm_wf_ring [OF assms(1) False]
    from pm_get_ring [OF w(1) assms(2)] None w(2) show ?thesis by (auto simp: pm_remove_def pm_get_def split: option.splits)
  qed
  with None assms(1) show ?thesis by (auto simp: fun_upd_idem)
next
  case (Some info)
  then have False: "\<not> pm_is_empty self" by (auto simp: rm_abs_def)
  note w = rm_wf_ring [OF assms(1) False] and b = rm_wf_bounds [OF assms(1) False]
  have in_range: "pn_val (pm_start self) \<le> pn_val p \<and> pn_val p \<le> pn_val (pm_end self)" using b(3) Some by blast
  then obtain k where k: "pn_val p = pn_val (pm_start self) + k" by (metis le_iff_add)
  have kl: "k < length (pm_values self)" using w(1) in_range k by (simp add: rm_ring_def)
  let ?i = "(pm_index self + k) mod length (pm_values self)"
  let ?self = "self\<lparr>pm_values := (pm_values self)[?i := None]\<rparr>"
  have idx: "pn_index p self = Some ?i" using pn_index_ring [OF w(1) assms(2)] in_range k by simp
  have "vec_get ?i (pm_values self) = Some (Some info)" using pm_get_ring [OF w(1) assms(2)] Some w(2) idx by (simp add: pm_get_def)
  then have rem: "pm_remove p self = map_option (Pair (Some info)) (rm_rebound p ?self)"
    by (simp add: pm_remove_def idx rm_rebound_def)
  have ring: "rm_ring s ?self" "ring_view ?self = (rm_abs self)(pn_val p := None)"
    using rm_ring_cleared_slot [OF w(1) kl refl] k w(2) by auto
  have "\<exists>self'. rm_rebound p ?self = Some self' \<and> rm_wf s self' \<and> rm_abs self' = ring_view ?self"
    by (rule rm_rebound_law [OF ring(1) assms(2)]) (unfold ring(2), use b(1,2) in auto)
  with rem Some ring(2) show ?thesis by auto
qed

section \<open>Clearing\<close>

lemma clear_loop_spec:
  assumes "rm_ring s self" "pn_in s p" "pn_val (pm_start self) \<le> pn_val p" "pn_val p \<le> pn_val (pm_end self)"
    "\<And>n. n < pn_val p \<Longrightarrow> ring_view self n = None"
  shows "\<exists>self'. clear_loop \<lparr>pnr_start = p, pnr_end = pm_end self, pnr_exhausted = False\<rparr> self = Some self' \<and>
    rm_ring s self' \<and> ring_view self' = Map.empty"
  using assms
proof (induction "pn_val (pm_end self) - pn_val p" arbitrary: p self rule: less_induct)
  case less
  have r: "pn_in s (pm_end self)" "dom (ring_view self) \<subseteq> {pn_val (pm_start self)..pn_val (pm_end self)}"
    using less.prems(1) by (simp_all add: rm_ring_def)
  have le: "p \<le> pm_end self" using less.prems r by (simp add: pn_le_iff)
  obtain k where k: "pn_val p = pn_val (pm_start self) + k" using less.prems(3) by (metis le_iff_add)
  let ?i = "(pm_index self + k) mod length (pm_values self)"
  let ?self = "self\<lparr>pm_values := (pm_values self)[?i := None]\<rparr>"
  have kl: "k < length (pm_values self)" using less.prems(1,4) k by (simp add: rm_ring_def)
  have idx: "pn_index p self = Some ?i" using pn_index_ring [OF less.prems(1,2)] less.prems(3,4) k by simp
  have "?i < length (pm_values self)" using kl by (intro mod_less_divisor) auto
  then have set: "vec_set ?i None (pm_values self) = Some ((pm_values self)[?i := None])" by (simp add: vec_set_def)
  have ring: "rm_ring s ?self" "ring_view ?self = (ring_view self)(pn_val p := None)"
    using rm_ring_cleared_slot [OF less.prems(1) kl refl] k by auto
  have none: "ring_view ?self n = None" if "n < pn_val p + 1" for n
    unfolding ring(2) using less.prems(5) [of n] that by (cases "n = pn_val p") auto
  show ?case
  proof (cases "pn_val p < pn_val (pm_end self)")
    case True
    then obtain p' where p': "pn_next p = Some p'" "pn_in s p'" "pn_val p' = pn_val p + 1"
      using pn_next_Some [OF less.prems(2)] pn_next_None [OF less.prems(2)] pn_val_less [of "pm_end self"] by (cases "pn_next p") auto
    have "\<exists>self'. clear_loop \<lparr>pnr_start = p', pnr_end = pm_end ?self, pnr_exhausted = False\<rparr> ?self = Some self' \<and>
      rm_ring s self' \<and> ring_view self' = Map.empty"
      by (rule less.hyps [OF _ ring(1) p'(2)]) (use True p' less.prems(3) none in auto)
    with p' le idx set show ?thesis by (subst clear_loop.simps) (simp add: pnr_next_def)
  next
    case False
    have "ring_view ?self n = None" for n
    proof (cases "n < pn_val p + 1")
      case out: False
      then have "ring_view self n = None" using r(2) False by (auto simp: domIff)
      then show ?thesis unfolding ring(2) by simp
    qed (rule none)
    then have empty: "ring_view ?self = Map.empty" by blast
    have "\<exists>rng. pnr_next (snd (pnr_next \<lparr>pnr_start = p, pnr_end = pm_end self, pnr_exhausted = False\<rparr>)) = (None, rng)"
    proof (cases "pn_next p")
      case (Some p')
      then have "\<not> p' \<le> pm_end self" using pn_next_Some [OF less.prems(2), of p'] False r(1) by (simp add: pn_le_iff [of s])
      with Some le show ?thesis by (simp add: pnr_next_def)
    qed (use le in \<open>simp add: pnr_next_def\<close>)
    moreover obtain rng where "pnr_next \<lparr>pnr_start = p, pnr_end = pm_end self, pnr_exhausted = False\<rparr> = (Some p, rng)"
      using le by (simp add: pnr_next_def)
    ultimately show ?thesis
      using idx set ring(1) empty by (subst clear_loop.simps, subst clear_loop.simps) auto
  qed
qed

lemma pm_clear_law:
  assumes "rm_wf s self"
  shows "\<exists>self'. pm_clear self = Some self' \<and> rm_wf s self' \<and> rm_abs self' = Map.empty"
proof (cases "pm_is_empty self")
  case True
  with assms show ?thesis by (simp add: pm_clear_def rm_abs_def)
next
  case False
  note w = rm_wf_ring [OF assms False]
  have r: "pn_in s (pm_start self)" "pn_in s (pm_end self)" "pn_val (pm_start self) \<le> pn_val (pm_end self)"
    "dom (ring_view self) \<subseteq> {pn_val (pm_start self)..pn_val (pm_end self)}" using w(1) by (simp_all add: rm_ring_def)
  have "ring_view self n = None" if "n < pn_val (pm_start self)" for n using that by (simp add: rm_view_def)
  then obtain self' where self': "clear_loop \<lparr>pnr_start = pm_start self, pnr_end = pm_end self, pnr_exhausted = False\<rparr> self = Some self'"
    "rm_ring s self'" "ring_view self' = Map.empty" using clear_loop_spec [OF w(1) r(1) order_refl r(3)] by blast
  have "pnr_new (pm_start self) (pm_end self) = Some \<lparr>pnr_start = pm_start self, pnr_end = pm_end self, pnr_exhausted = False\<rparr>"
    using r by (simp add: pnr_new_def pn_le_iff [of s])
  with False self' rm_wf_all_cleared [OF self'(2,3)] show ?thesis by (simp add: pm_clear_def)
qed

section \<open>Iteration\<close>

definition pn_at :: "packet_number_space \<Rightarrow> nat \<Rightarrow> packet_number option" where
  "pn_at s n = (if n < 2 ^ 62 then Some (pn_of s n) else None)"

lemma pn_next_of: "n < 2 ^ 62 \<Longrightarrow> pn_next (pn_of s n) = pn_at s (Suc n)"
  using pn_next_Some [of s "pn_of s n" "pn_of s (Suc n)"] pn_next_None [of s "pn_of s n"]
  by (cases "Suc n < 2 ^ 62") (auto simp: pn_at_def)

lemma iterate_pm_iter_next:
  assumes "r \<le> length slots" "r < fuel" "a + r \<le> 2 ^ 62"
  shows "iterate pm_iter_next fuel \<lparr>pit_slots = slots, pit_packet_number = pn_at s a, pit_remaining = r\<rparr> =
    Some (entries s (rm_view 0 a slots) a r)"
  using assms
proof (induction r arbitrary: slots fuel a)
  case 0
  then show ?case by (cases fuel) (simp_all add: pm_iter_next.simps)
next
  case (Suc r)
  then obtain x xs where slots: "slots = x # xs" by (cases slots) auto
  obtain fuel' where fuel: "fuel = Suc fuel'" using Suc.prems(2) by (cases fuel) auto
  have at: "pn_at s a = Some (pn_of s a)" using Suc.prems(3) by (simp add: pn_at_def)
  have nxt: "pn_next (pn_of s a) = pn_at s (Suc a)" using Suc.prems(3) by (intro pn_next_of) simp
  have tl: "entries s (rm_view 0 a (x # xs)) (Suc a) r = entries s (rm_view 0 (Suc a) xs) (Suc a) r"
    by (rule entries_cong) (use Suc.prems(1) slots in \<open>auto simp: rm_view_def nth_Cons'\<close>)
  have hd: "rm_view 0 a (x # xs) a = x" by (simp add: rm_view_def)
  let ?it = "\<lparr>pit_slots = xs, pit_packet_number = pn_at s (Suc a), pit_remaining = r\<rparr>"
  show ?case
  proof (cases x)
    case None
    have "pm_iter_next \<lparr>pit_slots = slots, pit_packet_number = pn_at s a, pit_remaining = Suc r\<rparr> = pm_iter_next ?it"
      by (subst pm_iter_next.simps) (simp add: at nxt slots None)
    then have "iterate pm_iter_next fuel \<lparr>pit_slots = slots, pit_packet_number = pn_at s a, pit_remaining = Suc r\<rparr> =
      iterate pm_iter_next fuel ?it" by (simp add: fuel)
    with Suc.IH [of xs fuel "Suc a"] Suc.prems slots tl hd None show ?thesis by (simp add: entries_Suc)
  next
    case (Some v)
    have "pm_iter_next \<lparr>pit_slots = slots, pit_packet_number = pn_at s a, pit_remaining = Suc r\<rparr> = (Some (pn_of s a, v), ?it)"
      by (subst pm_iter_next.simps) (simp add: at nxt slots Some)
    with Suc.IH [of xs fuel' "Suc a"] Suc.prems slots fuel tl hd Some show ?thesis by (simp add: entries_Suc)
  qed
qed

lemma pm_iter_law:
  assumes "rm_wf s self"
  shows "pm_iter self = Some (map_slice s (rm_abs self) 0 (2 ^ 62 - 1))"
proof (cases "pm_is_empty self")
  case True
  then have "rm_abs self = Map.empty" by (simp add: rm_abs_def)
  with True show ?thesis by (simp add: pm_iter_def pm_iter_new_def pm_iter_next.simps map_slice_none)
next
  case False
  note w = rm_wf_ring [OF assms False] and b = rm_wf_bounds [OF assms False]
  let ?a = "pn_val (pm_start self)" and ?e = "pn_val (pm_end self)" and ?i = "pm_index self" and ?vs = "pm_values self"
  have r: "pn_in s (pm_start self)" "?a \<le> ?e" "?e < ?a + length ?vs" "?i < length ?vs" using w(1) by (simp_all add: rm_ring_def)
  have "pn_as_u64 (pm_start self) \<le> pn_as_u64 (pm_end self)" using r(2) by (simp add: word_le_nat_alt)
  then have d: "unat (pn_as_u64 (pm_end self) - pn_as_u64 (pm_start self)) = ?e - ?a" by (simp add: unat_sub_no_wrap)
  have at: "pn_at s ?a = Some (pm_start self)" unfolding pn_at_def using r(1) by (simp only: pn_val_less pn_of_simps if_True)
  have new: "pm_iter_new self =
    \<lparr>pit_slots = drop ?i ?vs @ take ?i ?vs, pit_packet_number = pn_at s ?a, pit_remaining = Suc ?e - ?a\<rparr>"
    using False d at r(2) by (simp add: pm_iter_new_def Suc_diff_le)
  have view: "rm_view 0 ?a (drop ?i ?vs @ take ?i ?vs) = rm_abs self" using rm_view_rotate [OF r(4), of ?a 0] w(2) by simp
  have le: "Suc ?e \<le> 2 ^ 62" using pn_val_less [of "pm_end self"] by linarith
  have "pm_iter self = Some (entries s (rm_view 0 ?a (drop ?i ?vs @ take ?i ?vs)) ?a (Suc ?e - ?a))"
    unfolding pm_iter_def new
    by (rule iterate_pm_iter_next [THEN trans]) (use r le in \<open>auto simp: min_def\<close>)
  also have "\<dots> = Some (map_slice s (rm_abs self) ?a ?e)" by (simp add: view map_slice_entries)
  also have "map_slice s (rm_abs self) ?a ?e = map_slice s (rm_abs self) 0 (2 ^ 62 - 1)"
    by (rule map_slice_narrow [symmetric]) (use r(2) le b(4) in \<open>auto simp: domIff\<close>)
  finally show ?thesis .
qed

end
