(* ===== verification/RingRange.thy ===== *)
theory RingRange
  imports RingRefine
begin

text \<open>
  Removal of a range of packet numbers from the ring, and the interpretation of the interface.
\<close>

section \<open>The removing iterator\<close>

lemma remove_iter_drain_spec:
  assumes "k + r \<le> length (pm_values packets)" "a + k + r \<le> 2 ^ 62"
  shows "\<exists>vs it. remove_iter_drain \<lparr>ri_packets = packets, ri_packet_number = pn_at s (a + k),
        ri_index = (i + k) mod length (pm_values packets), ri_remaining = r\<rparr> =
      Some (entries s (rm_view i a (pm_values packets)) (a + k) r, it) \<and>
    ri_packets it = packets\<lparr>pm_values := vs\<rparr> \<and> length vs = length (pm_values packets) \<and>
    rm_view i a vs = rm_view i a (pm_values packets) |` (- {a + k..<a + k + r})"
  using assms
proof (induction r arbitrary: k packets)
  case 0
  then show ?case
    by (intro exI [of _ "pm_values packets"]) (simp add: remove_iter_drain.simps remove_iter_next.simps restrict_map_def)
next
  case (Suc r)
  let ?vs = "pm_values packets" and ?j = "(i + k) mod length (pm_values packets)" and ?v = "rm_view i a (pm_values packets)"
  let ?it = "\<lambda>packets k r. \<lparr>ri_packets = packets, ri_packet_number = pn_at s (a + k), ri_index = (i + k) mod length ?vs, ri_remaining = r\<rparr>"
  have at: "pn_at s (a + k) = Some (pn_of s (a + k))" using Suc.prems(2) by (simp add: pn_at_def)
  have nxt: "pn_next (pn_of s (a + k)) = pn_at s (a + Suc k)" using Suc.prems(2) pn_next_of [of "a + k" s] by simp
  have j: "?j < length ?vs" using Suc.prems(1) by (intro mod_less_divisor) auto
  have suc: "(?j + 1) mod length ?vs = (i + Suc k) mod length ?vs" by (simp add: mod_Suc_eq)
  have slot: "?vs ! ?j = ?v (a + k)" using Suc.prems(1) rm_view_at [of k ?vs i a] by simp
  let ?packets = "packets\<lparr>pm_values := ?vs[?j := None]\<rparr>"
  have view: "rm_view i a (?vs[?j := None]) = ?v(a + k := None)" using Suc.prems(1) by (intro rm_view_set) simp
  have split: "{a + k..<a + k + Suc r} = insert (a + k) {a + Suc k..<a + Suc k + r}" by auto
  show ?case
  proof (cases "?v (a + k)")
    case None
    have "remove_iter_next (?it packets k (Suc r)) = remove_iter_next (?it packets (Suc k) r)"
      by (subst remove_iter_next.simps) (use None at nxt j slot suc in \<open>simp add: vec_get_def\<close>)
    then have "remove_iter_drain (?it packets k (Suc r)) = remove_iter_drain (?it packets (Suc k) r)"
      by (subst (1 2) remove_iter_drain.simps) simp
    moreover have "?v |` (- insert (a + k) {a + Suc k..<a + Suc k + r}) = ?v |` (- {a + Suc k..<a + Suc k + r})"
      using None by (auto simp: restrict_map_def)
    ultimately show ?thesis using Suc.IH [of "Suc k" packets] Suc.prems None unfolding split by (simp add: entries_Suc)
  next
    case (Some info)
    have "remove_iter_next (?it packets k (Suc r)) = Some (Some (pn_of s (a + k), info), ?it ?packets (Suc k) r)"
      by (subst remove_iter_next.simps) (use Some at nxt j slot suc in \<open>simp add: vec_get_def Let_def\<close>)
    moreover have "entries s (?v(a + k := None)) (a + Suc k) r = entries s ?v (a + Suc k) r" by (rule entries_cong) auto
    moreover have "?v(a + k := None) |` (- {a + Suc k..<a + Suc k + r}) = ?v |` (- insert (a + k) {a + Suc k..<a + Suc k + r})"
      by (auto simp: restrict_map_def)
    moreover have pk: "pm_values ?packets = ?vs[?j := None]" "\<And>vs. ?packets\<lparr>pm_values := vs\<rparr> = packets\<lparr>pm_values := vs\<rparr>"
      by simp_all
    have "Suc k + r \<le> length (pm_values ?packets)" "a + Suc k + r \<le> 2 ^ 62" using Suc.prems by simp_all
    from Suc.IH [OF this, unfolded pk, unfolded view length_list_update] obtain vs it where
      "remove_iter_drain (?it ?packets (Suc k) r) = Some (entries s (?v(a + k := None)) (a + Suc k) r, it)"
      "ri_packets it = packets\<lparr>pm_values := vs\<rparr>" "length vs = length ?vs"
      "rm_view i a vs = ?v(a + k := None) |` (- {a + Suc k..<a + Suc k + r})"
      by blast
    ultimately show ?thesis
      unfolding split using Some by (intro exI [of _ vs] exI [of _ it]) (subst remove_iter_drain.simps, simp add: entries_Suc)
  qed
qed

lemma remove_iter_drain_range:
  assumes "rm_ring s self" "pn_in s lo" "pn_val (pm_start self) \<le> pn_val lo" "pn_val lo \<le> pn_val hi" "pn_val hi \<le> pn_val (pm_end self)"
    and "pm_values packets = pm_values self"
  shows "\<exists>vs it. remove_iter_drain \<lparr>ri_packets = packets, ri_packet_number = Some lo,
        ri_index = (pm_index self + (pn_val lo - pn_val (pm_start self))) mod length (pm_values self),
        ri_remaining = unat (pn_as_u64 hi - pn_as_u64 lo) + 1\<rparr> = Some (map_slice s (ring_view self) (pn_val lo) (pn_val hi), it) \<and>
    ri_packets it = packets\<lparr>pm_values := vs\<rparr> \<and> length vs = length (pm_values self) \<and>
    rm_view (pm_index self) (pn_val (pm_start self)) vs = ring_view self |` (- {pn_val lo..pn_val hi})"
proof -
  obtain k where k: "pn_val lo = pn_val (pm_start self) + k" using assms(3) by (metis le_iff_add)
  obtain r where r: "pn_val hi = pn_val lo + r" using assms(4) by (metis le_iff_add)
  have "pn_as_u64 lo \<le> pn_as_u64 hi" using r by (simp add: word_le_nat_alt)
  then have d: "unat (pn_as_u64 hi - pn_as_u64 lo) = r" using r by (simp add: unat_sub_no_wrap)
  have at: "pn_at s (pn_val (pm_start self) + k) = Some lo"
    unfolding pn_at_def k [symmetric] using assms(2) by (simp only: pn_val_less pn_of_simps if_True)
  have "k + Suc r \<le> length (pm_values packets)" using assms(1,5,6) k r by (simp add: rm_ring_def)
  moreover have "pn_val (pm_start self) + k + Suc r \<le> 2 ^ 62" using k r pn_val_less [of hi] by linarith
  ultimately show ?thesis
    using remove_iter_drain_spec [of k "Suc r" packets "pn_val (pm_start self)" s "pm_index self"] at d k r assms(6)
    by (simp add: map_slice_entries atLeastLessThanSuc_atLeastAtMost)
qed

section \<open>Removal of a range\<close>

lemma dom_within: "(\<And>n. n < lo \<or> hi < n \<Longrightarrow> m n = None) \<Longrightarrow> dom m \<subseteq> {lo..hi :: nat}"
  by (meson atLeastAtMost_iff domIff not_less subsetI)

lemma dom_upto: "(\<And>n. hi < n \<Longrightarrow> m n = None) \<Longrightarrow> dom m \<subseteq> {..hi :: nat}"
  by (meson atMost_iff domIff not_less subsetI)

text \<open>The slots of a range that overlaps the ring, and what the iterator leaves behind.\<close>

lemma rm_range_clip:
  assumes "dom m \<subseteq> {st..en}" "a \<le> b" "st \<le> en" "a \<le> en" "st \<le> b"
  shows "map_slice s m a b = map_slice s m (max a st) (min b en)" "m |` (- {a..b}) = m |` (- {max a st..min b en})"
proof -
  have out: "m n = None" if "n < st \<or> en < n" for n using assms(1) that by (auto simp: domIff)
  show "map_slice s m a b = map_slice s m (max a st) (min b en)"
    by (rule map_slice_narrow) (use assms(2-5) in \<open>auto simp: max_def min_def intro: out split: if_splits\<close>)
  show "m |` (- {a..b}) = m |` (- {max a st..min b en})" 
    by (rule ext) (use out in \<open>auto simp: restrict_map_def not_le\<close>)
qed

definition removed_from :: "packet_number_space \<Rightarrow> 'v pn_map \<Rightarrow> packet_number \<Rightarrow> packet_number \<Rightarrow> 'v remove_iter \<Rightarrow> bool" where
  "removed_from s self a b iter \<longleftrightarrow> (\<exists>it. remove_iter_drain iter = Some (map_slice s (rm_abs self) (pn_val a) (pn_val b), it) \<and>
     rm_wf s (ri_packets it) \<and> rm_abs (ri_packets it) = rm_abs self |` (- {pn_val a..pn_val b}))"

definition remove_iter_at :: "'v pn_map \<Rightarrow> nat \<Rightarrow> packet_number \<Rightarrow> packet_number \<Rightarrow> 'v remove_iter" where
  "remove_iter_at packets index start end' = \<lparr>ri_packets = packets, ri_packet_number = Some start, ri_index = index,
     ri_remaining = unat (pn_as_u64 end' - pn_as_u64 start) + 1\<rparr>"

lemma removed_from_none:
  assumes "rm_wf s self" "pn_in s a" "pn_in s b" "pm_is_empty self \<or> b < pm_start self \<or> a > pm_end self"
  shows "removed_from s self a b \<lparr>ri_packets = self, ri_packet_number = None, ri_index = i, ri_remaining = 0\<rparr>"
proof -
  have none: "rm_abs self n = None" if "pn_val a \<le> n" "n \<le> pn_val b" for n
  proof (cases "pm_is_empty self")
    case True then show ?thesis by (simp add: rm_abs_def)
  next
    case False
    then have "pn_in s (pm_start self)" "pn_in s (pm_end self)" using rm_wf_ring(1) [OF assms(1)] by (simp_all add: rm_ring_def)
    with assms(2-4) False have "pn_val b < pn_val (pm_start self) \<or> pn_val a > pn_val (pm_end self)" by (simp add: pn_less_iff [of s])
    then have "n \<notin> dom (rm_abs self)" using that rm_wf_bounds(3) [OF assms(1) False, of n] by linarith
    then show ?thesis by (simp add: domIff)
  qed
  then have "rm_abs self |` (- {pn_val a..pn_val b}) = rm_abs self" by (auto simp: restrict_map_def)
  with none assms(1) show ?thesis
    by (simp add: removed_from_def remove_iter_drain.simps remove_iter_next.simps map_slice_none)
qed

lemma removed_from_all:
  assumes "rm_wf s self" "\<not> pm_is_empty self" "pn_val a \<le> pn_val (pm_start self)" "pn_val (pm_end self) \<le> pn_val b"
  shows "removed_from s self a b (remove_iter_at (logical_clear self) (pm_index self) (pm_start self) (pm_end self))"
proof -
  note w = rm_wf_ring [OF assms(1,2)] and bd = rm_wf_bounds [OF assms(1,2)]
  have r: "pn_in s (pm_start self)" "pn_val (pm_start self) \<le> pn_val (pm_end self)" "pm_index self < length (pm_values self)"
    "length (pm_values self) < 2 ^ 63" using w(1) by (simp_all add: rm_ring_def)
  have le: "pn_val a \<le> pn_val b" "pn_val a \<le> pn_val (pm_end self)" "pn_val (pm_start self) \<le> pn_val b" using assms(3,4) r(2) by auto
  note clip = rm_range_clip [OF bd(4) le(1) r(2) le(2,3)]
  have "pm_values (logical_clear self) = pm_values self" by (simp add: logical_clear_def)
  from remove_iter_drain_range [OF w(1) r(1) order_refl r(2) order_refl this] obtain vs it where it:
    "remove_iter_drain (remove_iter_at (logical_clear self) (pm_index self) (pm_start self) (pm_end self)) =
      Some (map_slice s (ring_view self) (pn_val (pm_start self)) (pn_val (pm_end self)), it)"
    "ri_packets it = (logical_clear self)\<lparr>pm_values := vs\<rparr>" "length vs = length (pm_values self)"
    "rm_view (pm_index self) (pn_val (pm_start self)) vs = ring_view self |` (- {pn_val (pm_start self)..pn_val (pm_end self)})"
    using r(3) by (auto simp: remove_iter_at_def)
  have gone: "rm_abs self |` (- {pn_val (pm_start self)..pn_val (pm_end self)}) = Map.empty"
    by (rule ext) (metis bd(4) ComplD domIff restrict_map_def subsetD)
  have "\<forall>x\<in>set vs. x = None" by (rule rm_view_empty) (use it(3,4) r(3) gone w(2) in auto)
  moreover have "vs \<noteq> []" using r(3) it(3) by auto
  ultimately have "rm_wf s (ri_packets it)" "rm_abs (ri_packets it) = Map.empty"
    using rm_wf_cleared(1) [of "ri_packets it" s] rm_wf_cleared(2) [of "ri_packets it"] it(2,3) r(4)
    by (simp_all add: logical_clear_def)
  with it(1) clip assms(3,4) gone show ?thesis by (simp add: removed_from_def w(2) max_absorb2 min_absorb2)
qed

lemma removed_from_front:
  assumes "rm_wf s self" "\<not> pm_is_empty self" "pn_in s b" "pn_val a \<le> pn_val (pm_start self)"
    "pn_val (pm_start self) \<le> pn_val b" "pn_val b < pn_val (pm_end self)" "pn_next b = Some p"
  shows "\<exists>packets. pm_set_start p self = Some packets \<and>
    removed_from s self a b (remove_iter_at packets (pm_index self) (pm_start self) b)"
proof -
  note w = rm_wf_ring [OF assms(1,2)] and bd = rm_wf_bounds [OF assms(1,2)]
  have p: "pn_in s p" "pn_val p = pn_val b + 1" using pn_next_Some [OF assms(3)] assms(7) by auto
  have r: "pn_in s (pm_start self)" "pm_index self < length (pm_values self)" using w(1) by (simp_all add: rm_ring_def)
  have le: "pn_val a \<le> pn_val b" "pn_val (pm_start self) \<le> pn_val (pm_end self)" "pn_val a \<le> pn_val (pm_end self)"
    "pn_val b \<le> pn_val (pm_end self)" "pn_val (pm_start self) \<le> pn_val p" "pn_val p \<le> pn_val (pm_end self)"
    using assms(4-6) p(2) by auto
  note clip = rm_range_clip [OF bd(4) le(1,2,3) assms(5)]
  define moved where "moved q = self\<lparr>pm_start := q,
      pm_index := (pm_index self + (pn_val q - pn_val (pm_start self))) mod length (pm_values self)\<rparr>" for q
  obtain q where q: "pm_set_start p self = Some (moved q)" "pn_in s q" "pn_val p \<le> pn_val q" "pn_val q \<le> pn_val (pm_end self)"
    "ring_view self (pn_val q) \<noteq> None" "\<And>n. pn_val p \<le> n \<Longrightarrow> n < pn_val q \<Longrightarrow> ring_view self n = None"
    using pm_set_start_spec [OF w(1) p(1) le(5,6) w(4)] unfolding moved_def by blast
  have "pm_values (moved q) = pm_values self" by (simp add: moved_def)
  from remove_iter_drain_range [OF w(1) r(1) order_refl assms(5) le(4) this] obtain vs it where it:
    "remove_iter_drain (remove_iter_at (moved q) (pm_index self) (pm_start self) b) =
      Some (map_slice s (ring_view self) (pn_val (pm_start self)) (pn_val b), it)"
    "ri_packets it = (moved q)\<lparr>pm_values := vs\<rparr>" "length vs = length (pm_values self)"
    "rm_view (pm_index self) (pn_val (pm_start self)) vs = ring_view self |` (- {pn_val (pm_start self)..pn_val b})"
    using r(2) by (auto simp: remove_iter_at_def)
  let ?m = "ring_view self |` (- {pn_val (pm_start self)..pn_val b})"
  have gone: "?m n = None" if "n < pn_val q \<or> pn_val (pm_end self) < n" for n
  proof (cases "n \<in> dom (ring_view self)")
    case True
    with bd(3) [of n] that w(2) q(6) [of n] p(2) show ?thesis by (auto simp: restrict_map_def)
  qed (auto simp: restrict_map_def domIff)
  then have dom: "dom ?m \<subseteq> {pn_val q..pn_val (pm_end self)}" by (rule dom_within)
  have ends: "?m (pn_val q) \<noteq> None" "?m (pn_val (pm_end self)) \<noteq> None"
    using q(3,5) p(2) w(4) assms(6) by (auto simp: restrict_map_def)
  have "rm_wf s (ri_packets it)" "rm_abs (ri_packets it) = ?m"
    by (rule rm_wf_restart [OF w(1) q(2) order_trans [OF le(5) q(3)] q(4) it(3,4) ends dom]; simp add: it(2) moved_def)+
  with it(1) clip assms(4) le(4) q(1) show ?thesis by (simp add: removed_from_def w(2) max_absorb2 min_absorb1)
qed

lemma removed_from_rear:
  assumes "rm_wf s self" "\<not> pm_is_empty self" "pn_in s a" "pn_val (pm_start self) < pn_val a"
    "pn_val a \<le> pn_val (pm_end self)" "pn_val (pm_end self) \<le> pn_val b" "pn_prev a = Some p"
  shows "\<exists>packets. pm_set_end p self = Some packets \<and>
    removed_from s self a b (remove_iter_at packets
      ((pm_index self + (pn_val a - pn_val (pm_start self))) mod length (pm_values self)) a (pm_end self))"
proof -
  note w = rm_wf_ring [OF assms(1,2)] and bd = rm_wf_bounds [OF assms(1,2)]
  have p: "pn_in s p" "pn_val a = pn_val p + 1" using pn_prev_Some [OF assms(3)] assms(7) by auto
  have r: "pm_index self < length (pm_values self)" "length (pm_values self) < 2 ^ 63" "pn_in s (pm_start self)"
    using w(1) by (simp_all add: rm_ring_def)
  have le: "pn_val a \<le> pn_val b" "pn_val (pm_start self) \<le> pn_val (pm_end self)" "pn_val (pm_start self) \<le> pn_val b"
    "pn_val (pm_start self) \<le> pn_val a" "pn_val (pm_start self) \<le> pn_val p"
    using assms(4-6) p(2) by auto
  note clip = rm_range_clip [OF bd(4) le(1,2) assms(5) le(3)]
  obtain q where q: "pm_set_end p self = Some (self\<lparr>pm_end := q\<rparr>)" "pn_in s q" "pn_val q \<le> pn_val p"
    "ring_view self (pn_val q) \<noteq> None" "\<And>n. pn_val q < n \<Longrightarrow> n \<le> pn_val p \<Longrightarrow> ring_view self n = None"
    using pm_set_end_spec [OF w(1) p(1) le(5) w(3)] by blast
  have "pm_values (self\<lparr>pm_end := q\<rparr>) = pm_values self" by simp
  from remove_iter_drain_range [OF w(1) assms(3) le(4) assms(5) order_refl this] obtain vs it where it:
    "remove_iter_drain (remove_iter_at (self\<lparr>pm_end := q\<rparr>)
      ((pm_index self + (pn_val a - pn_val (pm_start self))) mod length (pm_values self)) a (pm_end self)) =
      Some (map_slice s (ring_view self) (pn_val a) (pn_val (pm_end self)), it)"
    "ri_packets it = self\<lparr>pm_end := q, pm_values := vs\<rparr>" "length vs = length (pm_values self)"
    "rm_view (pm_index self) (pn_val (pm_start self)) vs = ring_view self |` (- {pn_val a..pn_val (pm_end self)})"
    by (auto simp: remove_iter_at_def)
  let ?m = "ring_view self |` (- {pn_val a..pn_val (pm_end self)})"
  have "?m n = None" if "pn_val q < n" for n
  proof (cases "n \<in> dom (ring_view self)")
    case True
    with bd(3) [of n] that w(2) q(5) [of n] p(2) show ?thesis by (auto simp: restrict_map_def)
  qed (auto simp: restrict_map_def domIff)
  then have dom: "dom ?m \<subseteq> {..pn_val q}" by (rule dom_upto)
  have ends: "?m (pn_val q) \<noteq> None" "?m (pn_val (pm_start self)) \<noteq> None"
    using q(3,4) p(2) w(3) assms(4) by (auto simp: restrict_map_def)
  have "rm_wf s (ri_packets it)" "rm_abs (ri_packets it) = ?m"
    by (rule rm_wf_nonempty [where m = ?m]; use it(2-4) r q(2) ends dom in simp)+
  with it(1) clip assms(6) le(4) q(1) show ?thesis by (simp add: removed_from_def w(2) max_absorb1 min_absorb2)
qed

lemma removed_from_middle:
  assumes "rm_wf s self" "\<not> pm_is_empty self" "pn_in s a" "pn_val (pm_start self) < pn_val a"
    "pn_val a \<le> pn_val b" "pn_val b < pn_val (pm_end self)"
  shows "removed_from s self a b (remove_iter_at self
    ((pm_index self + (pn_val a - pn_val (pm_start self))) mod length (pm_values self)) a b)"
proof -
  note w = rm_wf_ring [OF assms(1,2)] and bd = rm_wf_bounds [OF assms(1,2)]
  have r: "pm_index self < length (pm_values self)" "length (pm_values self) < 2 ^ 63" "pn_in s (pm_start self)" "pn_in s (pm_end self)"
    using w(1) by (simp_all add: rm_ring_def)
  have le: "pn_val (pm_start self) \<le> pn_val a" "pn_val b \<le> pn_val (pm_end self)" using assms(4,6) by auto
  from remove_iter_drain_range [OF w(1) assms(3) le(1) assms(5) le(2) refl] obtain vs it where it:
    "remove_iter_drain (remove_iter_at self
      ((pm_index self + (pn_val a - pn_val (pm_start self))) mod length (pm_values self)) a b) =
      Some (map_slice s (ring_view self) (pn_val a) (pn_val b), it)"
    "ri_packets it = self\<lparr>pm_values := vs\<rparr>" "length vs = length (pm_values self)"
    "rm_view (pm_index self) (pn_val (pm_start self)) vs = ring_view self |` (- {pn_val a..pn_val b})"
    by (auto simp: remove_iter_at_def)
  let ?m = "ring_view self |` (- {pn_val a..pn_val b})"
  have dom: "dom ?m \<subseteq> {..pn_val (pm_end self)}" using bd(4) w(2) by auto
  have ends: "?m (pn_val (pm_start self)) \<noteq> None" "?m (pn_val (pm_end self)) \<noteq> None"
    using w(3,4) assms(4,6) by (auto simp: restrict_map_def)
  have "rm_wf s (ri_packets it)" "rm_abs (ri_packets it) = ?m"
    by (rule rm_wf_nonempty [where m = ?m]; use it(2-4) r ends dom in simp)+
  with it(1) show ?thesis by (simp add: removed_from_def w(2))
qed

lemma remove_iter_new_law:
  assumes "rm_wf s self" "pn_in s a" "pn_in s b" "pn_val a \<le> pn_val b"
  shows "\<exists>iter. remove_iter_new \<lparr>pnr_start = a, pnr_end = b, pnr_exhausted = False\<rparr> self = Some iter \<and> removed_from s self a b iter"
proof (cases "pm_is_empty self \<or> b < pm_start self \<or> a > pm_end self")
  case True
  with removed_from_none [OF assms(1-3) True] show ?thesis by (simp add: remove_iter_new_def)
next
  case False
  then have ne: "\<not> pm_is_empty self" by simp
  note w = rm_wf_ring [OF assms(1) ne]
  have r: "pn_in s (pm_start self)" "pn_in s (pm_end self)" using w(1) by (simp_all add: rm_ring_def)
  note cmp = pn_le_iff [OF assms(2) r(1)] pn_le_iff [OF r(2) assms(3)] pn_less_iff [OF assms(3) r(1)] pn_less_iff [OF r(2) assms(2)]
  have over: "pn_val (pm_start self) \<le> pn_val b" "pn_val a \<le> pn_val (pm_end self)" using False cmp(3,4) by auto
  consider (all) "pn_val a \<le> pn_val (pm_start self)" "pn_val (pm_end self) \<le> pn_val b"
    | (front) "pn_val a \<le> pn_val (pm_start self)" "pn_val b < pn_val (pm_end self)"
    | (rear) "pn_val (pm_start self) < pn_val a" "pn_val (pm_end self) \<le> pn_val b"
    | (middle) "pn_val (pm_start self) < pn_val a" "pn_val b < pn_val (pm_end self)" by linarith
  then show ?thesis
  proof cases
    case all
    with removed_from_all [OF assms(1) ne] False cmp show ?thesis by (simp add: remove_iter_new_def remove_iter_at_def Let_def)
  next
    case front
    then obtain p where p: "pn_next b = Some p"
      using pn_next_None [OF assms(3)] pn_val_less [of "pm_end self"] by (cases "pn_next b") auto
    from removed_from_front [OF assms(1) ne assms(3) front(1) over(1) front(2) p] front False cmp p show ?thesis
      by (auto simp: remove_iter_new_def remove_iter_at_def Let_def)
  next
    case rear
    then obtain p where p: "pn_prev a = Some p" using pn_prev_None [OF assms(2)] by (cases "pn_prev a") auto
    from removed_from_rear [OF assms(1) ne assms(2) rear(1) over(2) rear(2) p] rear False cmp p over(2) pn_index_ring [OF w(1) assms(2)]
    show ?thesis by (auto simp: remove_iter_new_def remove_iter_at_def Let_def)
  next
    case middle
    from removed_from_middle [OF assms(1) ne assms(2) middle(1) assms(4) middle(2)] middle False cmp over(2) pn_index_ring [OF w(1) assms(2)]
    show ?thesis by (auto simp: remove_iter_new_def remove_iter_at_def Let_def)
  qed
qed

lemma pm_remove_range_law:
  assumes "rm_wf s self" "pn_in s a" "pn_in s b" "pn_val a \<le> pn_val b"
  shows "\<exists>self'. pm_remove_range \<lparr>pnr_start = a, pnr_end = b, pnr_exhausted = False\<rparr> self =
      Some (map_slice s (rm_abs self) (pn_val a) (pn_val b), self') \<and>
    rm_wf s self' \<and> rm_abs self' = rm_abs self |` (- {pn_val a..pn_val b})"
  using remove_iter_new_law [OF assms] by (auto simp: removed_from_def pm_remove_range_def)

section \<open>The interface\<close>

definition ring_map :: "nat \<Rightarrow> ('v pn_map, 'v) pm_impl" where
  "ring_map elem = \<lparr>impl_new = pm_default, impl_insert = pm_insert elem, impl_insert_or_update = pm_insert_or_update elem,
     impl_get = pm_get, impl_remove = pm_remove, impl_remove_range = pm_remove_range, impl_iter = pm_iter, impl_clear = pm_clear\<rparr>"

lemma pm_get_law: "rm_wf s self \<Longrightarrow> pn_in s p \<Longrightarrow> pm_get p self = Some (rm_abs self (pn_val p))"
  using pm_get_ring [OF rm_wf_ring(1), of s self p] rm_wf_ring(2) [of s self]
  by (cases "pm_is_empty self") (simp_all add: pm_get_def pn_index_def rm_abs_def)

lemma pm_default_wf: "rm_wf s pm_default" "rm_abs pm_default = Map.empty"
  by (rule rm_wf_cleared; simp add: pm_default_def DEFAULT_CAPACITY_def)+

interpretation ring: packet_number_map "ring_map elem" s "ring_bound elem" "rm_wf s" rm_abs
proof
  show "rm_wf s (impl_new (ring_map elem))" "rm_abs (impl_new (ring_map elem)) = Map.empty"
    by (simp_all add: ring_map_def pm_default_wf)
next
  fix self op
  assume wf: "rm_wf s self" and ok: "op_ok s (ring_bound elem) (rm_abs self) op"
  show "\<exists>m'. impl_op (ring_map elem) op self = Some (fst (ref_op s op (rm_abs self)), m') \<and>
    rm_wf s m' \<and> rm_abs m' = snd (ref_op s op (rm_abs self))"
  proof (cases op)
    case (OpInsert p v)
    with ok pm_insert_law [OF wf, of p elem v] show ?thesis by (auto simp: ring_map_def)
  next
    case (OpInsertOrUpdate p v f)
    with ok pm_insert_or_update_law [OF wf, of p elem v f] show ?thesis by (auto simp: ring_map_def)
  next
    case (OpGet p)
    with ok wf pm_get_law [OF wf, of p] show ?thesis by (simp add: ring_map_def)
  next
    case (OpRemove p)
    with ok pm_remove_law [OF wf, of p] show ?thesis by (auto simp: ring_map_def)
  next
    case (OpRemoveRange a b)
    with ok have "pnr_new a b = Some \<lparr>pnr_start = a, pnr_end = b, pnr_exhausted = False\<rparr>" by (simp add: pnr_new_def pn_le_iff [of s])
    with OpRemoveRange ok pm_remove_range_law [OF wf, of a b] show ?thesis by (auto simp: ring_map_def)
  next
    case OpIter
    with wf pm_iter_law [OF wf] show ?thesis by (simp add: ring_map_def)
  next
    case OpClear
    with pm_clear_law [OF wf] show ?thesis by (auto simp: ring_map_def)
  qed
qed

end
