(* ===== verification/SortedVec.thy ===== *)
theory SortedVec
  imports PacketMap
begin

text \<open>
  The map of packet numbers kept as a sorted queue: \<^verbatim>\<open>quic/s2n-quic-core/src/packet/number/map/sorted_vec.rs\<close>.

  A \<open>VecDeque\<close> is a list. Its \<open>binary_search_by_key\<close> and \<open>partition_point\<close> are what the standard
  library documents of them on a queue that is sorted; the two searches written out in the source are
  loops here.
\<close>

section \<open>Definitions\<close>

record 'v sorted_vec_map =
  sv_entries :: "(packet_number \<times> 'v) list"

definition sv_default :: "'v sorted_vec_map" where
  "sv_default = \<lparr>sv_entries = []\<rparr>"

definition sv_insert :: "packet_number \<Rightarrow> 'v \<Rightarrow> 'v sorted_vec_map \<Rightarrow> 'v sorted_vec_map" where
  "sv_insert packet_number value self = self\<lparr>sv_entries := sv_entries self @ [(packet_number, value)]\<rparr>"

definition sv_partition_point :: "packet_number \<Rightarrow> 'v sorted_vec_map \<Rightarrow> nat" where
  "sv_partition_point target self = length (takeWhile (\<lambda>(pn, _). pn < target) (sv_entries self))"

definition sv_search :: "packet_number \<Rightarrow> 'v sorted_vec_map \<Rightarrow> nat + nat" where
  "sv_search packet_number self =
     (let idx = length (takeWhile (\<lambda>(pn, _). pn < packet_number) (sv_entries self)) in
      if idx < length (sv_entries self) \<and> fst (sv_entries self ! idx) = packet_number then Inr idx else Inl idx)"

definition sv_insert_or_update ::
    "packet_number \<Rightarrow> 'v \<Rightarrow> ('v \<Rightarrow> 'v) \<Rightarrow> 'v sorted_vec_map \<Rightarrow> 'v sorted_vec_map option" where
  "sv_insert_or_update packet_number value update self =
     (case sv_search packet_number self of
        Inr idx \<Rightarrow>
          Option.bind (vec_get idx (sv_entries self)) (\<lambda>(pn, v).
          Some (self\<lparr>sv_entries := (sv_entries self)[idx := (pn, update v)]\<rparr>))
      | Inl idx \<Rightarrow>
          if idx \<le> length (sv_entries self)
          then Some (self\<lparr>sv_entries := take idx (sv_entries self) @ (packet_number, value) # drop idx (sv_entries self)\<rparr>)
          else None)"

definition sv_get :: "packet_number \<Rightarrow> 'v sorted_vec_map \<Rightarrow> 'v option option" where
  "sv_get packet_number self =
     (case sv_search packet_number self of
        Inl _ \<Rightarrow> Some None
      | Inr idx \<Rightarrow> map_option (\<lambda>e. Some (snd e)) (vec_get idx (sv_entries self)))"

definition sv_remove :: "packet_number \<Rightarrow> 'v sorted_vec_map \<Rightarrow> ('v option \<times> 'v sorted_vec_map) option" where
  "sv_remove packet_number self =
     (case sv_search packet_number self of
        Inl _ \<Rightarrow> Some (None, self)
      | Inr idx \<Rightarrow>
          map_option (\<lambda>e. (Some (snd e),
              self\<lparr>sv_entries := take idx (sv_entries self) @ drop (Suc idx) (sv_entries self)\<rparr>))
            (vec_get idx (sv_entries self)))"

text \<open>
  The loop of both searches: \<open>pred\<close> reads the entry in the middle, and a panic of the index is \<open>None\<close>.
\<close>

function partition_loop :: "(nat \<Rightarrow> bool option) \<Rightarrow> nat \<Rightarrow> nat \<Rightarrow> nat option" where
  "partition_loop pred lo hi =
     (if lo < hi then
        let mid = lo + (hi - lo) div 2 in
        (case pred mid of
           None \<Rightarrow> None
         | Some True \<Rightarrow> partition_loop pred (mid + 1) hi
         | Some False \<Rightarrow> partition_loop pred lo mid)
      else Some lo)"
  by pat_completeness auto

termination
  by (relation "measure (\<lambda>(pred, lo, hi). hi - lo)") auto

declare partition_loop.simps [simp del]

definition sv_partition_point_from :: "nat \<Rightarrow> packet_number \<Rightarrow> 'v sorted_vec_map \<Rightarrow> nat option" where
  "sv_partition_point_from from target self =
     (if from > length (sv_entries self) then None
      else partition_loop (\<lambda>mid. map_option (\<lambda>e. fst e \<le> target) (vec_get (from + mid) (sv_entries self)))
        0 (length (sv_entries self) - from))"

definition sv_remove_range ::
    "packet_number_range \<Rightarrow> 'v sorted_vec_map \<Rightarrow> ((packet_number \<times> 'v) list \<times> 'v sorted_vec_map) option" where
  "sv_remove_range rng self =
     (let start_idx = sv_partition_point (pnr_start rng) self in
      Option.bind (sv_partition_point_from start_idx (pnr_end rng) self) (\<lambda>n.
      let end_idx = start_idx + n in
      if start_idx \<le> end_idx \<and> end_idx \<le> length (sv_entries self)
      then Some (drop start_idx (take end_idx (sv_entries self)),
                 self\<lparr>sv_entries := take start_idx (sv_entries self) @ drop end_idx (sv_entries self)\<rparr>)
      else None))"

definition sv_get_range :: "'v sorted_vec_map \<Rightarrow> packet_number_range option" where
  "sv_get_range self =
     (if sv_entries self = []
      then let base = pn_from_varint 0 Initial in pnr_new base base
      else pnr_new (fst (hd (sv_entries self))) (fst (last (sv_entries self))))"

definition sv_iter :: "'v sorted_vec_map \<Rightarrow> (packet_number \<times> 'v) list" where
  "sv_iter self = map (\<lambda>(pn, v). (pn, v)) (sv_entries self)"

definition sv_is_empty :: "'v sorted_vec_map \<Rightarrow> bool" where
  "sv_is_empty self \<longleftrightarrow> sv_entries self = []"

definition sv_len :: "'v sorted_vec_map \<Rightarrow> nat" where
  "sv_len self = length (sv_entries self)"

definition sv_clear :: "'v sorted_vec_map \<Rightarrow> 'v sorted_vec_map" where
  "sv_clear self = self\<lparr>sv_entries := []\<rparr>"

definition LINEAR_SCAN_LIMIT :: nat where
  "LINEAR_SCAN_LIMIT = 16"

text \<open>The linear scan of \<open>contiguous_prefix_cutoff\<close>, over the indices that are left.\<close>

fun cutoff_scan :: "(nat \<Rightarrow> bool option) \<Rightarrow> nat list \<Rightarrow> nat \<Rightarrow> nat option" where
  "cutoff_scan pred [] cutoff_idx = Some cutoff_idx"
| "cutoff_scan pred (idx # idxs) cutoff_idx =
     (case pred idx of
        None \<Rightarrow> None
      | Some True \<Rightarrow> cutoff_scan pred idxs idx
      | Some False \<Rightarrow> Some cutoff_idx)"

definition contiguous_prefix_cutoff ::
    "packet_number \<Rightarrow> (packet_number \<Rightarrow> 'v \<Rightarrow> bool) \<Rightarrow> 'v sorted_vec_map \<Rightarrow> packet_number option option" where
  "contiguous_prefix_cutoff max_packet_number predicate self =
     Option.bind (sv_partition_point_from 0 max_packet_number self) (\<lambda>upper_bound.
     let pred = (\<lambda>idx. map_option (\<lambda>(pn, value). predicate pn value) (vec_get idx (sv_entries self))) in
     if upper_bound = 0 then Some None
     else
       Option.bind (pred 0) (\<lambda>first.
       if \<not> first then Some None
       else
         Option.bind
           (if upper_bound \<le> LINEAR_SCAN_LIMIT then cutoff_scan pred [1..<upper_bound] 0
            else map_option (\<lambda>lo. lo - 1) (partition_loop pred 1 upper_bound)) (\<lambda>cutoff_idx.
         map_option (\<lambda>e. Some (fst e)) (vec_get cutoff_idx (sv_entries self)))))"

section \<open>The invariant\<close>

definition sv_wf :: "packet_number_space \<Rightarrow> 'v sorted_vec_map \<Rightarrow> bool" where
  "sv_wf s self \<longleftrightarrow> (\<forall>e\<in>set (sv_entries self). pn_in s (fst e)) \<and>
     sorted_wrt (\<lambda>x y. pn_val (fst x) < pn_val (fst y)) (sv_entries self)"

definition sv_abs :: "'v sorted_vec_map \<Rightarrow> nat \<Rightarrow> 'v option" where
  "sv_abs self = map_of (map (\<lambda>(p, v). (pn_val p, v)) (sv_entries self))"

abbreviation es_abs :: "(packet_number \<times> 'v) list \<Rightarrow> nat \<Rightarrow> 'v option" where
  "es_abs es \<equiv> map_of (map (\<lambda>(p, v). (pn_val p, v)) es)"

abbreviation es_wf :: "packet_number_space \<Rightarrow> (packet_number \<times> 'v) list \<Rightarrow> bool" where
  "es_wf s es \<equiv> (\<forall>e\<in>set es. pn_in s (fst e)) \<and> sorted_wrt (\<lambda>x y. pn_val (fst x) < pn_val (fst y)) es"

lemma es_abs_None: "es_abs es n = None \<longleftrightarrow> (\<forall>e\<in>set es. pn_val (fst e) \<noteq> n)"
  by (force simp: map_of_eq_None_iff)

lemma es_dom: "dom (es_abs es) = (\<lambda>e. pn_val (fst e)) ` set es"
  by (force simp: dom_map_of_conv_image_fst image_image)

lemma es_split:
  assumes "es_wf s es" "pn_in s p"
  obtains L R where "es = L @ R" "length (takeWhile (\<lambda>(pn, _). pn < p) es) = length L"
    "\<forall>e\<in>set L. pn_val (fst e) < pn_val p" "\<forall>e\<in>set R. pn_val p \<le> pn_val (fst e)"
proof -
  let ?P = "\<lambda>(pn, _). pn < p"
  let ?L = "takeWhile ?P es" and ?R = "dropWhile ?P es"
  have eq: "es = ?L @ ?R" by simp
  have inL: "\<forall>e\<in>set ?L. pn_val (fst e) < pn_val p"
    using assms set_takeWhileD by (fastforce simp: pn_less_iff [of s])
  have inR: "\<forall>e\<in>set ?R. pn_val p \<le> pn_val (fst e)"
  proof (cases ?R)
    case (Cons h t)
    then have "\<not> ?P h" using hd_dropWhile [of ?P es] by simp
    moreover have "h \<in> set es" using Cons eq by (metis in_set_conv_decomp)
    ultimately have "pn_val p \<le> pn_val (fst h)" using assms by (auto simp: pn_less_iff [of s] split: prod.splits)
    moreover have "\<forall>e\<in>set t. pn_val (fst h) < pn_val (fst e)"
      using assms(1) eq Cons by (metis (no_types, lifting) sorted_wrt_append sorted_wrt.simps(2))
    ultimately show ?thesis unfolding Cons by fastforce
  next
    case Nil
    show ?thesis unfolding Nil by simp
  qed
  show thesis using that [of ?L ?R] eq inL inR by simp
qed

text \<open>The two outcomes of a search.\<close>

lemma sv_search_cases:
  assumes "sv_wf s self" "pn_in s p"
  obtains (found) L v R where "sv_entries self = L @ (p, v) # R" "sv_search p self = Inr (length L)"
      "\<forall>e\<in>set L. pn_val (fst e) < pn_val p" "\<forall>e\<in>set R. pn_val p < pn_val (fst e)"
  | (missing) L R where "sv_entries self = L @ R" "sv_search p self = Inl (length L)"
      "\<forall>e\<in>set L. pn_val (fst e) < pn_val p" "\<forall>e\<in>set R. pn_val p < pn_val (fst e)"
proof -
  have wf: "es_wf s (sv_entries self)" using assms(1) by (simp add: sv_wf_def)
  obtain L R where split: "sv_entries self = L @ R" "length (takeWhile (\<lambda>(pn, _). pn < p) (sv_entries self)) = length L"
    "\<forall>e\<in>set L. pn_val (fst e) < pn_val p" "\<forall>e\<in>set R. pn_val p \<le> pn_val (fst e)"
    using es_split [OF wf assms(2)] by blast
  show thesis
  proof (cases "\<exists>v R'. R = (p, v) # R'")
    case True
    then obtain v R' where R: "R = (p, v) # R'" by blast
    moreover have "\<forall>e\<in>set R'. pn_val p < pn_val (fst e)" using wf split(1) R by (auto simp: sorted_wrt_append)
    moreover have "sv_search p self = Inr (length L)" using split(1,2) R by (simp add: sv_search_def)
    ultimately show thesis using found [of L v R'] split by simp
  next
    case False
    have ne: "pn_val (fst e) \<noteq> pn_val p" if "e \<in> set R" for e
    proof (cases R)
      case (Cons h t)
      have "fst h \<noteq> p" using False Cons by (cases h) auto
      moreover have "pn_in s (fst h)" using wf split(1) Cons by simp
      ultimately have "pn_val (fst h) \<noteq> pn_val p" using assms(2) by (simp add: pn_eq_iff [of s])
      moreover have "\<forall>e\<in>set t. pn_val (fst h) < pn_val (fst e)" using wf split(1) Cons by (simp add: sorted_wrt_append)
      ultimately show ?thesis using that split(4) Cons by fastforce
    qed (use that in simp)
    have "\<forall>e\<in>set R. pn_val p < pn_val (fst e)" using ne split(4) by (metis le_neq_implies_less)
    moreover have "sv_search p self = Inl (length L)"
      using split(1,2) False by (cases R) (auto simp: sv_search_def nth_append split: if_splits)
    ultimately show thesis using missing [of L R] split by simp
  qed
qed

lemma es_abs_around:
  assumes "\<forall>e\<in>set L. pn_val (fst e) < n" "\<forall>e\<in>set R. n < pn_val (fst e)"
  shows "es_abs L n = None" "es_abs R n = None"
  using assms by (auto simp: es_abs_None)

lemma sv_insert_law:
  assumes "sv_wf s self" "pn_in s p" "\<forall>k\<in>dom (sv_abs self). k < pn_val p"
  shows "sv_wf s (sv_insert p v self) \<and> sv_abs (sv_insert p v self) = (sv_abs self)(pn_val p \<mapsto> v)"
proof -
  have lt: "\<forall>e\<in>set (sv_entries self). pn_val (fst e) < pn_val p" using assms(3) by (simp add: sv_abs_def es_dom)
  then have "sv_wf s (sv_insert p v self)" using assms(1,2) by (simp add: sv_wf_def sv_insert_def sorted_wrt_append)
  moreover have "es_abs (sv_entries self) (pn_val p) = None" using lt by (auto simp: es_abs_None)
  then have "sv_abs (sv_insert p v self) = (sv_abs self)(pn_val p \<mapsto> v)"
    by (auto simp: sv_abs_def sv_insert_def map_add_def fun_eq_iff split: option.splits)
  ultimately show ?thesis by simp
qed

lemma sv_insert_or_update_law:
  assumes "sv_wf s self" "pn_in s p"
  shows "\<exists>self'. sv_insert_or_update p v f self = Some self' \<and> sv_wf s self' \<and>
    sv_abs self' = (sv_abs self)(pn_val p \<mapsto> (case sv_abs self (pn_val p) of Some w \<Rightarrow> f w | None \<Rightarrow> v))"
  using assms
proof (cases rule: sv_search_cases)
  case (found L w R)
  have "es_abs L (pn_val p) = None" "es_abs R (pn_val p) = None" using es_abs_around found(3,4) by blast+
  with found assms show ?thesis
    by (auto simp: sv_insert_or_update_def sv_wf_def sv_abs_def vec_get_def sorted_wrt_append map_add_def fun_eq_iff split: option.splits)
next
  case (missing L R)
  have "es_abs L (pn_val p) = None" "es_abs R (pn_val p) = None" using es_abs_around missing(3,4) by blast+
  with missing assms show ?thesis
    by (fastforce simp: sv_insert_or_update_def sv_wf_def sv_abs_def sorted_wrt_append map_add_def fun_eq_iff split: option.splits)
qed

lemma sv_get_law:
  assumes "sv_wf s self" "pn_in s p"
  shows "sv_get p self = Some (sv_abs self (pn_val p))"
  using assms
proof (cases rule: sv_search_cases)
  case (found L w R)
  then have "es_abs L (pn_val p) = None" using es_abs_around(1) by blast
  with found show ?thesis by (simp add: sv_get_def sv_abs_def vec_get_def map_add_def)
next
  case (missing L R)
  have "es_abs L (pn_val p) = None" "es_abs R (pn_val p) = None" using es_abs_around missing(3,4) by blast+
  with missing show ?thesis by (simp add: sv_get_def sv_abs_def map_add_def)
qed

lemma sv_remove_law:
  assumes "sv_wf s self" "pn_in s p"
  shows "\<exists>self'. sv_remove p self = Some (sv_abs self (pn_val p), self') \<and> sv_wf s self' \<and> sv_abs self' = (sv_abs self)(pn_val p := None)"
  using assms
proof (cases rule: sv_search_cases)
  case (found L w R)
  have "es_abs L (pn_val p) = None" "es_abs R (pn_val p) = None" using es_abs_around found(3,4) by blast+
  with found assms show ?thesis
    by (auto simp: sv_remove_def sv_wf_def sv_abs_def vec_get_def sorted_wrt_append map_add_def fun_eq_iff split: option.splits)
next
  case (missing L R)
  have "es_abs L (pn_val p) = None" "es_abs R (pn_val p) = None" using es_abs_around missing(3,4) by blast+
  with missing assms show ?thesis by (simp add: sv_remove_def sv_abs_def map_add_def fun_upd_idem)
qed

section \<open>The searches\<close>

lemma partition_loop_spec:
  assumes "\<And>i. lo \<le> i \<Longrightarrow> i < hi \<Longrightarrow> pred i = Some (i < c)" "lo \<le> c" "c \<le> hi"
  shows "partition_loop pred lo hi = Some c"
  using assms
proof (induction pred lo hi rule: partition_loop.induct)
  case (1 pred lo hi)
  let ?mid = "lo + (hi - lo) div 2"
  show ?case
  proof (cases "lo < hi")
    case True
    then have mid: "lo \<le> ?mid" "?mid < hi" by auto
    have p: "pred ?mid = Some (?mid < c)" using 1(3) mid by simp
    show ?thesis
    proof (cases "?mid < c")
      case lt: True
      have "partition_loop pred (?mid + 1) hi = Some c"
        by (rule 1(1) [OF True refl]) (use p lt 1(3-5) in auto)
      with True p lt show ?thesis by (subst partition_loop.simps) simp
    next
      case ge: False
      have "partition_loop pred lo ?mid = Some c"
        by (rule 1(2) [OF True refl]) (use p ge 1(3-5) mid in auto)
      with True p ge show ?thesis by (subst partition_loop.simps) simp
    qed
  next
    case False
    with 1(4,5) show ?thesis by (subst partition_loop.simps) simp
  qed
qed

lemma takeWhile_boundary:
  assumes "sorted_wrt (\<lambda>x y. P y \<longrightarrow> P x) xs" "i < length xs"
  shows "P (xs ! i) \<longleftrightarrow> i < length (takeWhile P xs)"
proof
  show "i < length (takeWhile P xs) \<Longrightarrow> P (xs ! i)" by (metis nth_mem set_takeWhileD takeWhile_nth)
  assume p: "P (xs ! i)"
  show "i < length (takeWhile P xs)"
  proof (rule ccontr)
    assume "\<not> ?thesis"
    then have le: "length (takeWhile P xs) \<le> i" by simp
    then have "\<not> P (xs ! length (takeWhile P xs))" using assms(2) by (intro nth_length_takeWhile) simp
    moreover from this p le have "length (takeWhile P xs) < i" by (cases "length (takeWhile P xs) = i") auto
    ultimately show False using sorted_wrt_nth_less [OF assms(1) _ assms(2)] p by blast
  qed
qed

lemma es_upto_mono:
  assumes "es_wf s es" "pn_in s p"
  shows "sorted_wrt (\<lambda>x y. fst y \<le> p \<longrightarrow> fst x \<le> p) es"
proof (rule sorted_wrt_mono_rel [of _ "\<lambda>x y. pn_val (fst x) < pn_val (fst y)"])
  show "fst y \<le> p \<longrightarrow> fst x \<le> p" if "x \<in> set es" "y \<in> set es" "pn_val (fst x) < pn_val (fst y)" for x y
    using that assms by (auto simp: pn_le_iff [of s])
qed (use assms in blast)

lemma sv_partition_point_from_spec:
  assumes "sv_wf s self" "pn_in s p" "from \<le> length (sv_entries self)"
  shows "sv_partition_point_from from p self = Some (length (takeWhile (\<lambda>e. fst e \<le> p) (drop from (sv_entries self))))"
proof -
  let ?es = "drop from (sv_entries self)" and ?P = "\<lambda>e. fst e \<le> p"
  have "es_wf s ?es" using assms(1) by (auto simp: sv_wf_def sorted_wrt_drop dest: in_set_dropD)
  note mono = es_upto_mono [OF this assms(2)]
  have "partition_loop (\<lambda>mid. map_option ?P (vec_get (from + mid) (sv_entries self))) 0 (length (sv_entries self) - from) =
      Some (length (takeWhile ?P ?es))"
  proof (rule partition_loop_spec)
    fix i assume "i < length (sv_entries self) - from"
    then have i: "i < length ?es" "from + i < length (sv_entries self)" by auto
    then show "map_option ?P (vec_get (from + i) (sv_entries self)) = Some (i < length (takeWhile ?P ?es))"
      using takeWhile_boundary [OF mono i(1)] by (simp add: vec_get_def)
  qed (use length_takeWhile_le [of ?P ?es] in simp_all)
  with assms(3) show ?thesis by (simp add: sv_partition_point_from_def)
qed

section \<open>Ranges\<close>

lemma entries_es:
  assumes "es_wf s es"
  shows "entries s (es_abs es) n r = filter (\<lambda>e. n \<le> pn_val (fst e) \<and> pn_val (fst e) < n + r) es"
  using assms
proof (induction es arbitrary: n r)
  case Nil
  then show ?case by (simp add: entries_none)
next
  case (Cons e es)
  obtain p v where e: "e = (p, v)" by (cases e)
  have wf: "es_wf s es" "pn_in s p" "\<forall>x\<in>set es. pn_val p < pn_val (fst x)" using Cons.prems e by auto
  note IH = Cons.IH [OF wf(1)]
  show ?case
  proof (cases "n \<le> pn_val p \<and> pn_val p < n + r")
    case False
    have "entries s (es_abs (e # es)) n r = entries s (es_abs es) n r" by (rule entries_cong) (use False e in auto)
    also have "\<dots> = filter (\<lambda>x. n \<le> pn_val (fst x) \<and> pn_val (fst x) < n + r) (e # es)" using False e by (auto simp: IH)
    finally show ?thesis .
  next
    case True
    then obtain k q where k: "pn_val p = n + k" and r: "r = k + Suc q"
      by (metis add_less_cancel_left le_iff_add less_iff_Suc_add add_Suc_right)
    have "entries s (es_abs (e # es)) n k = []"
      by (rule entries_none) (use wf(3) k e in \<open>auto simp: es_abs_None\<close>)
    moreover have "entries s (es_abs (e # es)) (n + k) (Suc q) = e # entries s (es_abs (e # es)) (Suc (n + k)) q"
      using k e wf(2) pn_of_simps(3) [of s p] by (simp add: entries_Suc)
    moreover have "entries s (es_abs (e # es)) (Suc (n + k)) q = entries s (es_abs es) (Suc (n + k)) q"
      by (rule entries_cong) (use e k in auto)
    moreover have "filter (\<lambda>x. Suc (n + k) \<le> pn_val (fst x) \<and> pn_val (fst x) < Suc (n + k) + q) es =
        filter (\<lambda>x. n \<le> pn_val (fst x) \<and> pn_val (fst x) < n + r) es"
      by (rule filter_cong) (use wf(3) k r in auto)
    ultimately have "entries s (es_abs (e # es)) n r = e # filter (\<lambda>x. n \<le> pn_val (fst x) \<and> pn_val (fst x) < n + r) es"
      unfolding r entries_add IH by simp
    also have "\<dots> = filter (\<lambda>x. n \<le> pn_val (fst x) \<and> pn_val (fst x) < n + r) (e # es)" using True e by simp
    finally show ?thesis .
  qed
qed

lemma map_slice_es: "es_wf s es \<Longrightarrow> map_slice s (es_abs es) lo hi = filter (\<lambda>e. lo \<le> pn_val (fst e) \<and> pn_val (fst e) \<le> hi) es"
  by (cases "lo \<le> Suc hi") (auto simp: map_slice_entries entries_es less_Suc_eq_le intro!: filter_cong)

lemma sv_iter_law:
  assumes "sv_wf s self"
  shows "sv_iter self = map_slice s (sv_abs self) 0 (2 ^ 62 - 1)"
proof -
  have "pn_val p \<le> 2 ^ 62 - 1" for p using pn_val_less [of p] by linarith
  with assms show ?thesis by (simp add: sv_wf_def sv_abs_def map_slice_es sv_iter_def)
qed

lemma sv_remove_range_law:
  assumes "sv_wf s self" "pn_in s a" "pn_in s b" "pn_val a \<le> pn_val b"
  shows "\<exists>self'. sv_remove_range \<lparr>pnr_start = a, pnr_end = b, pnr_exhausted = False\<rparr> self =
      Some (map_slice s (sv_abs self) (pn_val a) (pn_val b), self') \<and>
    sv_wf s self' \<and> sv_abs self' = sv_abs self |` (- {pn_val a..pn_val b})"
proof -
  have wf: "es_wf s (sv_entries self)" using assms(1) by (simp add: sv_wf_def)
  obtain L R where L: "sv_entries self = L @ R" "sv_partition_point a self = length L"
    "\<forall>e\<in>set L. pn_val (fst e) < pn_val a" "\<forall>e\<in>set R. pn_val a \<le> pn_val (fst e)"
    using es_split [OF wf assms(2)] unfolding sv_partition_point_def by blast
  define M N where "M = takeWhile (\<lambda>e. fst e \<le> b) R" and "N = dropWhile (\<lambda>e. fst e \<le> b) R"
  have R: "R = M @ N" by (simp add: M_def N_def)
  have wfR: "es_wf s R" using wf L(1) by (simp add: sorted_wrt_append)
  have M: "\<forall>e\<in>set M. pn_val (fst e) \<le> pn_val b"
    using set_takeWhileD wfR assms(3) unfolding M_def by (metis (no_types, lifting) pn_le_iff)
  have N: "pn_val b < pn_val (fst e)" if e: "e \<in> set N" for e
  proof -
    obtain j where j: "j < length N" "e = N ! j" using e by (metis in_set_conv_nth)
    have "length M + j < length R" using j R by simp
    then have "\<not> fst (R ! (length M + j)) \<le> b"
      using takeWhile_boundary [OF es_upto_mono [OF wfR assms(3)], folded M_def] by simp
    then show ?thesis using j R wfR assms(3) e by (simp add: pn_le_iff [of s])
  qed
  have "sv_partition_point_from (length L) b self = Some (length M)"
    using sv_partition_point_from_spec [OF assms(1,3), of "length L"] L(1) by (simp add: M_def)
  then have rem: "sv_remove_range \<lparr>pnr_start = a, pnr_end = b, pnr_exhausted = False\<rparr> self = Some (M, self\<lparr>sv_entries := L @ N\<rparr>)"
    using L(1,2) R by (simp add: sv_remove_range_def)
  have none: "filter (\<lambda>e. pn_val a \<le> pn_val (fst e) \<and> pn_val (fst e) \<le> pn_val b) L = []"
    "filter (\<lambda>e. pn_val a \<le> pn_val (fst e) \<and> pn_val (fst e) \<le> pn_val b) N = []" using L(3) by (auto simp: filter_empty_conv dest!: N)
  have "filter (\<lambda>e. pn_val a \<le> pn_val (fst e) \<and> pn_val (fst e) \<le> pn_val b) M = M"
    using L(4) R M by (intro filter_True) simp
  with none have slice: "map_slice s (sv_abs self) (pn_val a) (pn_val b) = M"
    unfolding sv_abs_def map_slice_es [OF wf] by (simp add: L(1) R)
  have "es_abs (L @ N) n = (es_abs (L @ M @ N) |` (- {pn_val a..pn_val b})) n" for n
  proof (cases "n \<in> {pn_val a..pn_val b}")
    case True
    then have "es_abs (L @ N) n = None" unfolding es_abs_None using L(3) N by force
    with True show ?thesis by (simp add: restrict_map_def)
  next
    case False
    then have "es_abs M n = None" unfolding es_abs_None using L(4) M R by force
    with False show ?thesis by (auto simp: restrict_map_def map_add_def split: option.splits)
  qed
  then have "sv_abs (self\<lparr>sv_entries := L @ N\<rparr>) = sv_abs self |` (- {pn_val a..pn_val b})"
    using L(1) R by (simp add: sv_abs_def fun_eq_iff)
  moreover have "sv_wf s (self\<lparr>sv_entries := L @ N\<rparr>)" using wf L(1) R by (auto simp: sv_wf_def sorted_wrt_append)
  ultimately show ?thesis using rem slice by blast
qed

section \<open>The interface\<close>

definition sorted_vec :: "('v sorted_vec_map, 'v) pm_impl" where
  "sorted_vec = \<lparr>impl_new = sv_default, impl_insert = (\<lambda>p v m. Some (sv_insert p v m)), impl_insert_or_update = sv_insert_or_update,
     impl_get = sv_get, impl_remove = sv_remove, impl_remove_range = sv_remove_range, impl_iter = (\<lambda>m. Some (sv_iter m)),
     impl_clear = (\<lambda>m. Some (sv_clear m))\<rparr>"

interpretation sorted: packet_number_map sorted_vec s bound "sv_wf s" sv_abs
proof
  show "sv_wf s (impl_new sorted_vec)" "sv_abs (impl_new sorted_vec) = Map.empty"
    by (simp_all add: sorted_vec_def sv_default_def sv_wf_def sv_abs_def)
next
  fix self op
  assume wf: "sv_wf s self" and ok: "op_ok s bound (sv_abs self) op"
  show "\<exists>m'. impl_op sorted_vec op self = Some (fst (ref_op s op (sv_abs self)), m') \<and>
    sv_wf s m' \<and> sv_abs m' = snd (ref_op s op (sv_abs self))"
  proof (cases op)
    case (OpInsert p v)
    with ok sv_insert_law [OF wf, of p v] show ?thesis by (simp add: sorted_vec_def)
  next
    case (OpInsertOrUpdate p v f)
    with ok sv_insert_or_update_law [OF wf, of p v f] show ?thesis by (auto simp: sorted_vec_def)
  next
    case (OpGet p)
    with ok wf sv_get_law [OF wf, of p] show ?thesis by (simp add: sorted_vec_def)
  next
    case (OpRemove p)
    with ok sv_remove_law [OF wf, of p] show ?thesis by (auto simp: sorted_vec_def)
  next
    case (OpRemoveRange a b)
    with ok have "pnr_new a b = Some \<lparr>pnr_start = a, pnr_end = b, pnr_exhausted = False\<rparr>" by (simp add: pnr_new_def pn_le_iff [of s])
    with OpRemoveRange ok sv_remove_range_law [OF wf, of a b] show ?thesis by (auto simp: sorted_vec_def)
  next
    case OpIter
    with wf sv_iter_law [OF wf] show ?thesis by (simp add: sorted_vec_def)
  next
    case OpClear
    show ?thesis by (simp add: OpClear sorted_vec_def sv_clear_def sv_wf_def sv_abs_def)
  qed
qed

section \<open>The cutoff\<close>

text \<open>The scan that the tests of the source compare the cutoff with.\<close>

fun reference_prefix_cutoff ::
    "packet_number \<Rightarrow> (packet_number \<Rightarrow> 'v \<Rightarrow> bool) \<Rightarrow> (packet_number \<times> 'v) list \<Rightarrow> packet_number option \<Rightarrow> packet_number option" where
  "reference_prefix_cutoff max_pn predicate [] result = result"
| "reference_prefix_cutoff max_pn predicate ((pn, v) # es) result =
     (if pn > max_pn then result
      else if predicate pn v then reference_prefix_cutoff max_pn predicate es (Some pn)
      else result)"

lemma reference_prefix_cutoff_last:
  "reference_prefix_cutoff p f es result =
     (let pre = takeWhile (\<lambda>e. fst e \<le> p \<and> f (fst e) (snd e)) es in if pre = [] then result else Some (fst (last pre)))"
  by (induction p f es result rule: reference_prefix_cutoff.induct) (auto simp: Let_def)

lemma cutoff_scan_spec:
  assumes "\<And>j. j < n \<Longrightarrow> pred j = Some (j < c)" "i \<le> c" "c \<le> n" "0 < i"
  shows "cutoff_scan pred [i..<n] (i - 1) = Some (c - 1)"
  using assms
proof (induction "n - i" arbitrary: i)
  case (Suc k)
  then have i: "i < n" by simp
  show ?case
  proof (cases "i < c")
    case True
    with Suc(1) [of "Suc i"] Suc(2-) i show ?thesis by (simp add: upt_conv_Cons)
  qed (use Suc(3-) i in \<open>simp add: upt_conv_Cons\<close>)
qed simp

lemma contiguous_prefix_cutoff_exact:
  assumes wf: "sv_wf s self" and p: "pn_in s p"
    and mono: "sorted_wrt (\<lambda>x y. fst y \<le> p \<longrightarrow> f (fst y) (snd y) \<longrightarrow> f (fst x) (snd x)) (sv_entries self)"
  shows "contiguous_prefix_cutoff p f self = Some (reference_prefix_cutoff p f (sv_entries self) None)"
proof -
  let ?es = "sv_entries self" and ?Q = "\<lambda>e. fst e \<le> p \<and> f (fst e) (snd e)"
  let ?n = "length (takeWhile (\<lambda>e. fst e \<le> p) ?es)" and ?c = "length (takeWhile ?Q ?es)"
  let ?pred = "\<lambda>idx. map_option (\<lambda>(pn, value). f pn value) (vec_get idx ?es)"
  have ewf: "es_wf s ?es" using wf by (simp add: sv_wf_def)
  note upto = es_upto_mono [OF ewf p]
  have both: "sorted_wrt (\<lambda>x y. ?Q y \<longrightarrow> ?Q x) ?es"
    using upto mono by (auto simp: sorted_wrt_iff_nth_less)
  have n: "sv_partition_point_from 0 p self = Some ?n" "?n \<le> length ?es"
    using sv_partition_point_from_spec [OF wf p, of 0] length_takeWhile_le by auto
  have at: "?pred i = Some (i < ?c)" if "i < ?n" for i
    using that n(2) takeWhile_boundary [OF upto, of i] takeWhile_boundary [OF both, of i]
    by (auto simp: vec_get_def case_prod_beta)
  have le: "?c \<le> ?n"
  proof (rule ccontr)
    assume "\<not> ?c \<le> ?n"
    then have "?n < length ?es" "?n < ?c" using length_takeWhile_le [of ?Q ?es] by auto
    with takeWhile_boundary [OF upto, of ?n] takeWhile_boundary [OF both, of ?n] show False by simp
  qed
  show ?thesis
  proof (cases "?c = 0")
    case True
    have "contiguous_prefix_cutoff p f self = Some None"
    proof (cases "?n = 0")
      case False
      with True at [of 0] n(1) show ?thesis by (auto simp: contiguous_prefix_cutoff_def Let_def)
    qed (use n(1) in \<open>simp add: contiguous_prefix_cutoff_def\<close>)
    with True show ?thesis by (simp add: reference_prefix_cutoff_last)
  next
    case False
    then have one: "1 \<le> ?c" by linarith
    then have pos: "0 < ?n" "0 < ?c" "?n \<noteq> 0" using le by linarith+
    have scan: "cutoff_scan ?pred [1..<?n] 0 = Some (?c - 1)"
      using cutoff_scan_spec [OF _ one le zero_less_one, of ?pred] at by (simp only: diff_self_eq_0)
    have loop: "partition_loop ?pred 1 ?n = Some ?c" by (rule partition_loop_spec [OF _ one le]) (rule at)
    have first: "?pred 0 = Some True" using at [OF pos(1)] pos(2) by (simp only:)
    have "?c - 1 < length ?es" using n(2) le pos by linarith
    then have "vec_get (?c - 1) ?es = Some (last (takeWhile ?Q ?es))" using False by (simp add: vec_get_def last_conv_nth takeWhile_nth)
    then have "contiguous_prefix_cutoff p f self = Some (Some (fst (last (takeWhile ?Q ?es))))"
      unfolding contiguous_prefix_cutoff_def Let_def n(1)
      by (simp only: bind.bind_lunit pos(3) if_False first scan loop option.map if_cancel not_True_eq_False)
    with False show ?thesis by (simp add: reference_prefix_cutoff_last)
  qed
qed

end
