(* ===== verification/PacketMaps.thy ===== *)
theory PacketMaps
  imports RingRange SortedVec
begin

text \<open>
  What the two maps of packet numbers promise, over whole runs of operations.
\<close>

text \<open>
  C5. A map of sent packets behaves as a finite map over every run of inserts, updates, lookups,
  removals, range removals, iterations and clears: it never panics and every loop ends, and each answer
  is the one of the map, however the ring wrapped and grew on the way. Inserted numbers must be new and
  largest, updated ones not below the first entry, and the numbers held at once must span less than
  half of what fits in an allocation.
\<close>
theorem ring_map_refines:
  assumes "run_ok s (ring_bound elem) ops Map.empty"
  shows "impl_run (ring_map elem) ops pm_default = Some (ref_run s ops Map.empty)"
  using ring.run_refines [OF assms] by (simp add: ring_map_def)

definition sample_ops :: "nat pm_op list" where
  "sample_ops = [OpInsert (pn_of Initial 3) 30, OpInsert (pn_of Initial 14) 140, OpRemove (pn_of Initial 3),
     OpInsertOrUpdate (pn_of Initial 20) 200 Suc, OpInsertOrUpdate (pn_of Initial 14) 0 Suc, OpGet (pn_of Initial 14),
     OpRemoveRange (pn_of Initial 0) (pn_of Initial 15), OpGet (pn_of Initial 14), OpGet (pn_of Initial 20)]"

lemma sample_ops_ok: "run_ok Initial (ring_bound 8) sample_ops Map.empty"
  by (simp add: sample_ops_def ring_bound_def isize_max_def spans_def)

theorem ring_map_refines_witness:
  "impl_run (ring_map 8) sample_ops pm_default =
     Some [OutUnit, OutUnit, OutValue (Some 30), OutUnit, OutUnit, OutValue (Some 141),
       OutEntries [(pn_of Initial 14, 141)], OutValue None, OutValue (Some 200)]"
proof -
  have "map_slice Initial ((\<lambda>_. None)(14 \<mapsto> 141 :: nat, 20 \<mapsto> 200)) 0 15 = [(pn_of Initial 14, 141)]"
    by (subst map_slice_narrow [of _ 14 14]) (auto simp: map_slice_entries entries_Suc [of _ _ _ 0, simplified])
  with ring_map_refines [OF sample_ops_ok] show ?thesis
    by (simp add: sample_ops_def restrict_map_def fun_upd_twist)
qed

text \<open>
  C16. The two maps cannot be told apart: over every run of operations that the ring allows, the sorted
  queue gives the same answers, so one may replace the other.
\<close>
theorem packet_maps_agree:
  assumes "run_ok s (ring_bound elem) ops Map.empty"
  shows "impl_run sorted_vec ops sv_default = impl_run (ring_map elem) ops pm_default"
  using ring.run_refines [OF assms] sorted.run_refines [OF assms] by (simp add: ring_map_def sorted_vec_def)

theorem packet_maps_agree_witness:
  "run_ok Initial (ring_bound 8) sample_ops Map.empty \<and>
   impl_run sorted_vec sample_ops sv_default = impl_run (ring_map 8) sample_ops pm_default"
  using packet_maps_agree [OF sample_ops_ok] sample_ops_ok by blast

text \<open>
  C38. The cutoff of the sorted queue, by a scan when it is short and by binary search when it is long,
  is the last packet number of the run of entries up to a limit for which the predicate holds, which is
  what the linear scan of the tests returns; the search ends and never reads out of bounds.
\<close>
theorem prefix_cutoff_is_scan:
  assumes "sv_wf s self" "pn_in s p"
    and "sorted_wrt (\<lambda>x y. fst y \<le> p \<longrightarrow> f (fst y) (snd y) \<longrightarrow> f (fst x) (snd x)) (sv_entries self)"
  shows "contiguous_prefix_cutoff p f self = Some (reference_prefix_cutoff p f (sv_entries self) None)"
  by (rule contiguous_prefix_cutoff_exact [OF assms])

theorem prefix_cutoff_is_scan_witness:
  "contiguous_prefix_cutoff (pn_of Initial 14) (\<lambda>_ v. v \<le> 25)
     \<lparr>sv_entries = [(pn_of Initial 3, 20), (pn_of Initial 9, 25), (pn_of Initial 14, 30 :: nat)]\<rparr> = Some (Some (pn_of Initial 9))"
proof -
  let ?self = "\<lparr>sv_entries = [(pn_of Initial 3, 20), (pn_of Initial 9, 25), (pn_of Initial 14, 30 :: nat)]\<rparr>"
  have "sv_wf Initial ?self" by (simp add: sv_wf_def)
  then have "contiguous_prefix_cutoff (pn_of Initial 14) (\<lambda>_ v. v \<le> 25) ?self =
      Some (reference_prefix_cutoff (pn_of Initial 14) (\<lambda>_ v. v \<le> 25) (sv_entries ?self) None)"
    by (rule prefix_cutoff_is_scan) auto
  then show ?thesis by (simp add: pn_less_iff [of Initial])
qed

end
