(* ===== verification/Slot.thy ===== *)
theory Slot
  imports VarInt
begin

text \<open>
  Slots of the reassembler and what is written into them:
  \<^verbatim>\<open>quic/s2n-quic-core/src/buffer/reassembler/slot.rs\<close>, \<^verbatim>\<open>request.rs\<close>,
  \<^verbatim>\<open>buffer/reader.rs\<close>, the storage implementations of slices and of \<open>BytesMut\<close>.

  Offsets are natural numbers: a \<open>VarInt\<close> is below \<open>2 ^ 62\<close> and a slot is at most \<open>2 ^ 16\<close> bytes long, so
  no sum of them wraps (\<open>ra_wf\<close> bounds them). Subtractions without a check are \<open>u64_sub\<close>. \<open>None\<close> is a panic, a
  violated assumption of \<open>assume!\<close> (undefined behaviour in a release build), or a loop without end.
\<close>

section \<open>The buffers of the \<open>bytes\<close> package\<close>

text \<open>
  \<open>BytesMut\<close> is not part of the sources, so its operations are a parameter. \<open>bm_spare\<close> is what
  \<open>spare_capacity_mut\<close> shows, \<open>bm_write_spare\<close> writes into it from an index on, \<open>bm_split_off\<close> returns what
  remains and what was split off, \<open>bm_split_to\<close> the front and what remains, and \<open>bm_meets a b\<close> compares the
  pointer behind the data of \<open>a\<close> with the pointer of \<open>b\<close>.
\<close>

record 'b bytes_mut =
  bm_new :: 'b
  bm_with_capacity :: "nat \<Rightarrow> 'b"
  bm_len :: "'b \<Rightarrow> nat"
  bm_capacity :: "'b \<Rightarrow> nat"
  bm_as_slice :: "'b \<Rightarrow> u8 list"
  bm_spare :: "'b \<Rightarrow> u8 list"
  bm_write_spare :: "nat \<Rightarrow> u8 list \<Rightarrow> 'b \<Rightarrow> 'b"
  bm_advance_mut :: "nat \<Rightarrow> 'b \<Rightarrow> 'b"
  bm_advance :: "nat \<Rightarrow> 'b \<Rightarrow> 'b"
  bm_split_off :: "nat \<Rightarrow> 'b \<Rightarrow> 'b \<times> 'b"
  bm_split_to :: "nat \<Rightarrow> 'b \<Rightarrow> 'b \<times> 'b"
  bm_unsplit :: "'b \<Rightarrow> 'b \<Rightarrow> 'b"
  bm_meets :: "'b \<Rightarrow> 'b \<Rightarrow> bool"

text \<open>
  \<open>with_capacity\<close> is documented to give a buffer of at least the capacity asked for. The reassembler
  relies on exactly that capacity: its slots lie side by side and write into all of their spare
  capacity, and \<open>Slot::invariants\<close> asserts that the capacity is the size of the slot. The law states
  what the code relies on, and likewise that a new buffer has no capacity.

  What is documented of the rest, with \<open>joined a b\<close> for two parts of one allocation such that \<open>b\<close> begins where the
  capacity of \<open>a\<close> ends.
\<close>

definition bm_size_law :: "'b bytes_mut \<Rightarrow> bool" where
  "bm_size_law B \<longleftrightarrow>
     bm_as_slice B (bm_new B) = [] \<and> bm_spare B (bm_new B) = [] \<and>
     (\<forall>n. bm_as_slice B (bm_with_capacity B n) = [] \<and> length (bm_spare B (bm_with_capacity B n)) = n) \<and>
     (\<forall>b. bm_len B b = length (bm_as_slice B b) \<and> bm_capacity B b = length (bm_as_slice B b) + length (bm_spare B b))"

definition bm_write_law :: "'b bytes_mut \<Rightarrow> ('b \<Rightarrow> 'b \<Rightarrow> bool) \<Rightarrow> bool" where
  "bm_write_law B joined \<longleftrightarrow> (\<forall>i xs b. i + length xs \<le> length (bm_spare B b) \<longrightarrow>
     bm_as_slice B (bm_write_spare B i xs b) = bm_as_slice B b \<and>
     bm_spare B (bm_write_spare B i xs b) = take i (bm_spare B b) @ xs @ drop (i + length xs) (bm_spare B b) \<and>
     (\<forall>c. (joined b c \<longrightarrow> joined (bm_write_spare B i xs b) c) \<and> (joined c b \<longrightarrow> joined c (bm_write_spare B i xs b))))"

definition bm_advance_mut_law :: "'b bytes_mut \<Rightarrow> ('b \<Rightarrow> 'b \<Rightarrow> bool) \<Rightarrow> bool" where
  "bm_advance_mut_law B joined \<longleftrightarrow> (\<forall>n b. n \<le> length (bm_spare B b) \<longrightarrow>
     bm_as_slice B (bm_advance_mut B n b) = bm_as_slice B b @ take n (bm_spare B b) \<and>
     bm_spare B (bm_advance_mut B n b) = drop n (bm_spare B b) \<and>
     (\<forall>c. (joined b c \<longrightarrow> joined (bm_advance_mut B n b) c) \<and> (joined c b \<longrightarrow> joined c (bm_advance_mut B n b))))"

definition bm_advance_law :: "'b bytes_mut \<Rightarrow> ('b \<Rightarrow> 'b \<Rightarrow> bool) \<Rightarrow> bool" where
  "bm_advance_law B joined \<longleftrightarrow> (\<forall>n b. n \<le> length (bm_as_slice B b) \<longrightarrow>
     bm_as_slice B (bm_advance B n b) = drop n (bm_as_slice B b) \<and> bm_spare B (bm_advance B n b) = bm_spare B b \<and>
     (\<forall>c. joined b c \<longrightarrow> joined (bm_advance B n b) c))"

definition bm_split_off_law :: "'b bytes_mut \<Rightarrow> ('b \<Rightarrow> 'b \<Rightarrow> bool) \<Rightarrow> bool" where
  "bm_split_off_law B joined \<longleftrightarrow> (\<forall>at b x y. at \<le> bm_capacity B b \<longrightarrow> bm_split_off B at b = (x, y) \<longrightarrow>
     bm_as_slice B x = take at (bm_as_slice B b) \<and> bm_spare B x = take (at - bm_len B b) (bm_spare B b) \<and>
     bm_as_slice B y = drop at (bm_as_slice B b) \<and> bm_spare B y = drop (at - bm_len B b) (bm_spare B b) \<and>
     joined x y \<and> (\<forall>c. (joined c b \<longrightarrow> joined c x) \<and> (joined b c \<longrightarrow> joined y c)))"

definition bm_split_to_law :: "'b bytes_mut \<Rightarrow> ('b \<Rightarrow> 'b \<Rightarrow> bool) \<Rightarrow> bool" where
  "bm_split_to_law B joined \<longleftrightarrow> (\<forall>at b x y. at \<le> bm_len B b \<longrightarrow> bm_split_to B at b = (x, y) \<longrightarrow>
     bm_as_slice B x = take at (bm_as_slice B b) \<and>
     bm_as_slice B y = drop at (bm_as_slice B b) \<and> bm_spare B y = bm_spare B b \<and> (\<forall>c. joined b c \<longrightarrow> joined y c))"

definition bm_unsplit_law :: "'b bytes_mut \<Rightarrow> ('b \<Rightarrow> 'b \<Rightarrow> bool) \<Rightarrow> bool" where
  "bm_unsplit_law B joined \<longleftrightarrow> (\<forall>a b. joined a b \<longrightarrow> bm_spare B a = [] \<longrightarrow> bm_as_slice B a \<noteq> [] \<longrightarrow>
     bm_meets B a b \<and>
     bm_as_slice B (bm_unsplit B a b) = bm_as_slice B a @ bm_as_slice B b \<and> bm_spare B (bm_unsplit B a b) = bm_spare B b \<and>
     (\<forall>c. (joined c a \<longrightarrow> joined c (bm_unsplit B a b)) \<and> (joined b c \<longrightarrow> joined (bm_unsplit B a b) c)))"

definition bytes_mut_ok :: "'b bytes_mut \<Rightarrow> ('b \<Rightarrow> 'b \<Rightarrow> bool) \<Rightarrow> bool" where
  "bytes_mut_ok B joined \<longleftrightarrow> bm_size_law B \<and> bm_write_law B joined \<and> bm_advance_mut_law B joined \<and> bm_advance_law B joined \<and>
     bm_split_off_law B joined \<and> bm_split_to_law B joined \<and> bm_unsplit_law B joined"

text \<open>\<open>assume!\<close>.\<close>

definition assume_that :: "bool \<Rightarrow> 'a option \<Rightarrow> 'a option" where
  "assume_that c r = (if c then r else None)"

section \<open>Requests\<close>

datatype buffer_error = OutOfRange | InvalidFin

record request =
  rq_offset :: nat
  rq_data :: "u8 list"
  rq_is_fin :: bool

definition request_new :: "varint \<Rightarrow> u8 list \<Rightarrow> bool \<Rightarrow> buffer_error + request" where
  "request_new offset data is_fin =
     (case varint_checked_add_usize offset (length data) of
        None \<Rightarrow> Inl OutOfRange
      | Some _ \<Rightarrow> Inr \<lparr>rq_offset = unat offset, rq_data = data, rq_is_fin = is_fin\<rparr>)"

definition rq_final_offset :: "request \<Rightarrow> nat option" where
  "rq_final_offset self = (if rq_is_fin self then Some (rq_offset self + length (rq_data self)) else None)"

definition slice_read_chunk :: "nat \<Rightarrow> u8 list \<Rightarrow> u8 list \<times> u8 list" where
  "slice_read_chunk watermark self =
     (if self = [] then ([], self)
      else let len = min (length self) watermark in (take len self, drop len self))"

definition rq_read_chunk :: "nat \<Rightarrow> request \<Rightarrow> u8 list \<times> request" where
  "rq_read_chunk watermark self =
     (case slice_read_chunk watermark (rq_data self) of (chunk, data) \<Rightarrow>
        (chunk, self\<lparr>rq_data := data, rq_offset := rq_offset self + length chunk\<rparr>))"

text \<open>\<open>copy_into\<close> a destination with room for \<open>room\<close> bytes: what is written, and the rest.\<close>

definition slice_copy_into :: "nat \<Rightarrow> u8 list \<Rightarrow> u8 list \<times> u8 list" where
  "slice_copy_into room self =
     (if self = [] then ([], self)
      else let len = min (length self) room in (take len self, drop len self))"

definition rq_copy_into :: "nat \<Rightarrow> request \<Rightarrow> u8 list \<times> request" where
  "rq_copy_into room self =
     (case slice_copy_into room (rq_data self) of (written, data) \<Rightarrow>
        (written, self\<lparr>rq_data := data, rq_offset := rq_offset self + length written\<rparr>))"

partial_function (option) rq_skip_loop :: "nat \<Rightarrow> request \<Rightarrow> request option" where
  "rq_skip_loop offset self =
     (if offset < rq_offset self then Some self
      else
        let len = offset - rq_offset self in
        if \<not> len > 0 then Some self
        else
          let self = snd (rq_read_chunk (min usize_max len) self) in
          if rq_data self = [] then Some self else rq_skip_loop offset self)"

definition rq_skip_until :: "nat \<Rightarrow> request \<Rightarrow> request option" where
  "rq_skip_until offset self = (if \<not> offset > rq_offset self then Some self else rq_skip_loop offset self)"

section \<open>Slots\<close>

record 'b slot =
  sl_start :: nat
  sl_end :: nat
  sl_data :: 'b

definition slot_new :: "nat \<Rightarrow> nat \<Rightarrow> 'b \<Rightarrow> 'b slot" where
  "slot_new start end' data = \<lparr>sl_start = start, sl_end = end', sl_data = data\<rparr>"

definition slot_end :: "'b bytes_mut \<Rightarrow> 'b slot \<Rightarrow> nat" where
  "slot_end B self = sl_start self + bm_len B (sl_data self)"

definition slot_is_full :: "'b bytes_mut \<Rightarrow> 'b slot \<Rightarrow> bool" where
  "slot_is_full B self \<longleftrightarrow> slot_end B self = sl_end self"

definition slot_is_empty :: "'b bytes_mut \<Rightarrow> 'b slot \<Rightarrow> bool" where
  "slot_is_empty B self \<longleftrightarrow> bm_as_slice B (sl_data self) = []"

definition slot_is_occupied :: "'b bytes_mut \<Rightarrow> nat \<Rightarrow> 'b slot \<Rightarrow> bool" where
  "slot_is_occupied B prev_offset self \<longleftrightarrow> \<not> slot_is_empty B self \<and> sl_start self = prev_offset"

definition should_drop :: "'b slot \<Rightarrow> bool" where
  "should_drop self \<longleftrightarrow> sl_start self = sl_end self"

definition write_reader_append ::
    "'b bytes_mut \<Rightarrow> request \<Rightarrow> bool \<Rightarrow> 'b slot \<Rightarrow> ('b slot \<times> request \<times> bool) option" where
  "write_reader_append B reader filled_slot self =
     assume_that (bm_capacity B (sl_data self) > bm_len B (sl_data self))
       (let chunk_len = length (bm_spare B (sl_data self));
            (written, reader) = rq_copy_into chunk_len reader;
            data = bm_write_spare B 0 written (sl_data self);
            len = length written
        in assume_that (bm_len B data + len \<le> bm_capacity B data)
             (Some (self\<lparr>sl_data := bm_advance_mut B len data\<rparr>, reader, filled_slot \<or> chunk_len = len)))"

definition write_reader_split ::
    "'b bytes_mut \<Rightarrow> request \<Rightarrow> bool \<Rightarrow> 'b slot \<Rightarrow> ('b slot \<times> 'b slot \<times> request \<times> bool) option" where
  "write_reader_split B reader filled_slot self =
     (let reader_start = rq_offset reader in
      assume_that (reader_start > slot_end B self)
        (let offset = reader_start - slot_end B self in
         assume_that (length (bm_spare B (sl_data self)) > offset)
           (let chunk_len = length (bm_spare B (sl_data self)) - offset;
                (written, reader) = rq_copy_into chunk_len reader;
                data = bm_write_spare B offset written (sl_data self);
                filled_len = length written
            in assume_that (bm_len B data + offset \<le> bm_capacity B data)
                 (let (data, filled) = bm_split_off B (bm_len B data + offset) data in
                  assume_that (bm_as_slice B filled = [] \<and> filled_len \<le> bm_capacity B filled - bm_len B filled)
                    (let filled = \<lparr>sl_start = reader_start, sl_end = sl_end self, sl_data = bm_advance_mut B filled_len filled\<rparr> in
                     Some (self\<lparr>sl_data := data, sl_end := reader_start\<rparr>, filled, reader, filled_slot \<or> chunk_len = filled_len))))))"

definition try_write_reader ::
    "'b bytes_mut \<Rightarrow> request \<Rightarrow> bool \<Rightarrow> 'b slot \<Rightarrow> ('b slot option \<times> 'b slot \<times> request \<times> bool) option" where
  "try_write_reader B reader filled_slot self =
     (let end' = slot_end B self in
      if end' < sl_end self then
        Option.bind (rq_skip_until end' reader) (\<lambda>reader.
        if rq_data reader = [] then Some (None, self, reader, filled_slot)
        else
          let start = rq_offset reader in
          if \<not> start < sl_end self then Some (None, self, reader, filled_slot)
          else if start = end' then
            map_option (\<lambda>(self, reader, filled_slot). (None, self, reader, filled_slot)) (write_reader_append B reader filled_slot self)
          else
            map_option (\<lambda>(self, filled, reader, filled_slot). (Some filled, self, reader, filled_slot))
              (write_reader_split B reader filled_slot self))
      else
        map_option (\<lambda>reader. (None, self, reader, filled_slot)) (rq_skip_until (sl_end self) reader))"

definition slot_unsplit :: "'b bytes_mut \<Rightarrow> 'b slot \<Rightarrow> 'b slot \<Rightarrow> 'b slot option" where
  "slot_unsplit B next self =
     assume_that (slot_end B self = sl_end self \<and> slot_end B self = sl_start next \<and>
         bm_as_slice B (sl_data self) \<noteq> [] \<and> bm_capacity B (sl_data self) > 0 \<and>
         bm_as_slice B (sl_data next) \<noteq> [] \<and> bm_capacity B (sl_data next) > 0 \<and>
         bm_meets B (sl_data self) (sl_data next))
       (Some (self\<lparr>sl_data := bm_unsplit B (sl_data self) (sl_data next), sl_end := sl_end next\<rparr>))"

definition slot_consume :: "'b bytes_mut \<Rightarrow> 'b slot \<Rightarrow> 'b \<times> 'b slot" where
  "slot_consume B self = (sl_data self, self\<lparr>sl_data := bm_new B, sl_start := sl_end self\<rparr>)"

definition slot_skip :: "'b bytes_mut \<Rightarrow> nat \<Rightarrow> 'b slot \<Rightarrow> 'b slot option" where
  "slot_skip B len self =
     map_option (\<lambda>data.
         let to_advance = min (bm_len B data) len in
         self\<lparr>sl_data := bm_advance B to_advance data, sl_start := sl_start self + len\<rparr>)
       (if bm_len B (sl_data self) \<le> len
        then
          let to_advance = len - bm_len B (sl_data self) in
          assume_that (to_advance \<le> length (bm_spare B (sl_data self))) (Some (bm_advance_mut B to_advance (sl_data self)))
        else Some (sl_data self))"

definition slot_skip_until :: "'b bytes_mut \<Rightarrow> nat \<Rightarrow> 'b slot \<Rightarrow> 'b slot option" where
  "slot_skip_until B offset self =
     (if sl_start self \<le> offset then slot_skip B (offset - sl_start self) self else Some self)"

text \<open>\<open>read_chunk\<close> of \<open>BytesMut\<close> and of a slot: the chunk and what remains.\<close>

definition bm_read_chunk :: "'b bytes_mut \<Rightarrow> nat \<Rightarrow> 'b \<Rightarrow> 'b \<times> 'b" where
  "bm_read_chunk B watermark self =
     (let len = min (bm_len B self) watermark in
      if \<not> len > 0 then (bm_new B, self)
      else if bm_capacity B self = len then (self, bm_new B)
      else bm_split_to B len self)"

definition slot_read_chunk :: "'b bytes_mut \<Rightarrow> nat \<Rightarrow> 'b slot \<Rightarrow> 'b \<times> 'b slot" where
  "slot_read_chunk B watermark self =
     (case bm_read_chunk B watermark (sl_data self) of (chunk, data) \<Rightarrow>
        (chunk, self\<lparr>sl_data := data, sl_start := sl_start self + bm_len B chunk\<rparr>))"

text \<open>
  \<open>copy_into\<close> of \<open>BytesMut\<close> and of a slot, for a destination of \<open>room\<close> bytes that takes buffers
  (\<open>SPECIALIZES_BYTES\<close> or \<open>SPECIALIZES_BYTES_MUT\<close>) or slices: what is written and what remains.
\<close>

definition bm_copy_into :: "'b bytes_mut \<Rightarrow> bool \<Rightarrow> nat \<Rightarrow> 'b \<Rightarrow> u8 list \<times> 'b" where
  "bm_copy_into B specializes_bytes room self =
     (let watermark = min (bm_len B self) room in
      if specializes_bytes \<or> watermark = bm_len B self
      then (case bm_read_chunk B watermark self of (chunk, self) \<Rightarrow> (bm_as_slice B chunk, self))
      else (take watermark (bm_as_slice B self), bm_advance B watermark self))"

definition slot_copy_into :: "'b bytes_mut \<Rightarrow> bool \<Rightarrow> nat \<Rightarrow> 'b slot \<Rightarrow> u8 list \<times> 'b slot" where
  "slot_copy_into B specializes_bytes room self =
     (case bm_copy_into B specializes_bytes room (sl_data self) of (written, data) \<Rightarrow>
        (written, self\<lparr>sl_data := data, sl_start := sl_start self + length written\<rparr>))"

end
