(* ===== verification/SlotFacts.thy ===== *)
theory SlotFacts
  imports Slot
begin

text \<open>
  What the operations on requests and slots do to the bytes they hold, as partial maps from offsets to
  bytes.
\<close>

section \<open>Bytes at offsets\<close>

text \<open>The bytes of a list placed at an offset, and a write that keeps what is there already.\<close>

definition bytes_at :: "nat \<Rightarrow> u8 list \<Rightarrow> nat \<Rightarrow> u8 option" where
  "bytes_at o' xs n = (if o' \<le> n \<and> n < o' + length xs then Some (xs ! (n - o')) else None)"

definition put_bytes :: "nat \<Rightarrow> u8 list \<Rightarrow> (nat \<Rightarrow> u8 option) \<Rightarrow> nat \<Rightarrow> u8 option" where
  "put_bytes o' xs m = bytes_at o' xs ++ m"

lemma bytes_at_Nil [simp]: "bytes_at i [] = Map.empty"
  by (auto simp: bytes_at_def)

lemma bytes_at_append: "bytes_at i (xs @ ys) = bytes_at i xs ++ bytes_at (i + length xs) ys"
  by (rule ext) (auto simp: bytes_at_def map_add_def nth_append)

lemma bytes_at_None: "bytes_at i xs n = None \<longleftrightarrow> n < i \<or> i + length xs \<le> n"
  by (auto simp: bytes_at_def)

lemma dom_bytes_at: "dom (bytes_at i xs) = {i..<i + length xs}"
  by (auto simp: bytes_at_def split: if_splits)

lemma bytes_at_drop: "k \<le> length xs \<Longrightarrow> bytes_at (i + k) (drop k xs) n = (if n < i + k then None else bytes_at i xs n)"
  by (auto simp: bytes_at_def)

lemma bytes_at_take: "bytes_at i (take k xs) n = (if n < i + k then bytes_at i xs n else None)"
  by (auto simp: bytes_at_def)

lemma put_bytes_apply: "put_bytes i xs m n = (case m n of None \<Rightarrow> bytes_at i xs n | Some b \<Rightarrow> Some b)"
  by (simp add: put_bytes_def map_add_def)

lemma put_bytes_Nil [simp]: "put_bytes i [] m = m"
  by (simp add: put_bytes_def)

lemma put_bytes_covered: "{i..<i + length xs} \<subseteq> dom m \<Longrightarrow> put_bytes i xs m = m"
  by (rule ext) (auto simp: put_bytes_apply bytes_at_def split: option.splits)

lemma put_bytes_append: "put_bytes i (xs @ ys) m = put_bytes (i + length xs) ys (put_bytes i xs m)"
  by (rule ext) (auto simp: put_bytes_apply bytes_at_append map_add_def bytes_at_def split: option.splits)

lemma put_bytes_take_drop: "put_bytes (i + length (take k xs)) (drop k xs) (put_bytes i (take k xs) m) = put_bytes i xs m"
  using put_bytes_append [of i "take k xs" "drop k xs" m] by simp

section \<open>The buffers\<close>

lemma bm_new_ok:
  assumes "bytes_mut_ok B joined"
  shows "bm_as_slice B (bm_new B) = []" "bm_spare B (bm_new B) = []"
  using assms by (simp_all add: bytes_mut_ok_def bm_size_law_def)

lemma bm_with_capacity_ok:
  assumes "bytes_mut_ok B joined"
  shows "bm_as_slice B (bm_with_capacity B n) = []" "length (bm_spare B (bm_with_capacity B n)) = n"
  using assms by (simp_all add: bytes_mut_ok_def bm_size_law_def)

lemma bm_len_ok:
  assumes "bytes_mut_ok B joined"
  shows "bm_len B b = length (bm_as_slice B b)" "bm_capacity B b = length (bm_as_slice B b) + length (bm_spare B b)"
  using assms by (simp_all add: bytes_mut_ok_def bm_size_law_def)

lemma bm_write_spare_ok:
  assumes "bytes_mut_ok B joined" "i + length xs \<le> length (bm_spare B b)"
  shows "bm_as_slice B (bm_write_spare B i xs b) = bm_as_slice B b"
    "bm_spare B (bm_write_spare B i xs b) = take i (bm_spare B b) @ xs @ drop (i + length xs) (bm_spare B b)"
    "joined b c \<Longrightarrow> joined (bm_write_spare B i xs b) c" "joined c b \<Longrightarrow> joined c (bm_write_spare B i xs b)"
  using assms by (simp_all add: bytes_mut_ok_def bm_write_law_def)

lemma bm_advance_mut_ok:
  assumes "bytes_mut_ok B joined" "n \<le> length (bm_spare B b)"
  shows "bm_as_slice B (bm_advance_mut B n b) = bm_as_slice B b @ take n (bm_spare B b)"
    "bm_spare B (bm_advance_mut B n b) = drop n (bm_spare B b)"
    "joined b c \<Longrightarrow> joined (bm_advance_mut B n b) c" "joined c b \<Longrightarrow> joined c (bm_advance_mut B n b)"
  using assms by (simp_all add: bytes_mut_ok_def bm_advance_mut_law_def)

lemma bm_advance_ok:
  assumes "bytes_mut_ok B joined" "n \<le> length (bm_as_slice B b)"
  shows "bm_as_slice B (bm_advance B n b) = drop n (bm_as_slice B b)" "bm_spare B (bm_advance B n b) = bm_spare B b"
    "joined b c \<Longrightarrow> joined (bm_advance B n b) c"
  using assms by (simp_all add: bytes_mut_ok_def bm_advance_law_def)

lemma bm_split_off_ok:
  assumes "bytes_mut_ok B joined" "at \<le> bm_capacity B b" "bm_split_off B at b = (x, y)"
  shows "bm_as_slice B x = take at (bm_as_slice B b)" "bm_spare B x = take (at - bm_len B b) (bm_spare B b)"
    "bm_as_slice B y = drop at (bm_as_slice B b)" "bm_spare B y = drop (at - bm_len B b) (bm_spare B b)"
    "joined x y" "joined c b \<Longrightarrow> joined c x" "joined b c \<Longrightarrow> joined y c"
  using assms by (simp_all add: bytes_mut_ok_def bm_split_off_law_def)

lemma bm_split_to_ok:
  assumes "bytes_mut_ok B joined" "at \<le> bm_len B b" "bm_split_to B at b = (x, y)"
  shows "bm_as_slice B x = take at (bm_as_slice B b)" "bm_as_slice B y = drop at (bm_as_slice B b)"
    "bm_spare B y = bm_spare B b" "joined b c \<Longrightarrow> joined y c"
  using assms by (simp_all add: bytes_mut_ok_def bm_split_to_law_def)

lemma bm_unsplit_ok:
  assumes "bytes_mut_ok B joined" "joined a b" "bm_spare B a = []" "bm_as_slice B a \<noteq> []"
  shows "bm_meets B a b" "bm_as_slice B (bm_unsplit B a b) = bm_as_slice B a @ bm_as_slice B b"
    "bm_spare B (bm_unsplit B a b) = bm_spare B b"
    "joined c a \<Longrightarrow> joined c (bm_unsplit B a b)" "joined b c \<Longrightarrow> joined (bm_unsplit B a b) c"
  using assms by (simp_all add: bytes_mut_ok_def bm_unsplit_law_def)

section \<open>Requests\<close>

text \<open>A request after \<open>k\<close> of its bytes were taken.\<close>

definition rq_after :: "nat \<Rightarrow> request \<Rightarrow> request" where
  "rq_after k r = r\<lparr>rq_offset := rq_offset r + k, rq_data := drop k (rq_data r)\<rparr>"

lemma rq_after_simps [simp]: "rq_offset (rq_after k r) = rq_offset r + k" "rq_data (rq_after k r) = drop k (rq_data r)"
  "rq_is_fin (rq_after k r) = rq_is_fin r" "rq_after 0 r = r" "rq_after j (rq_after k r) = rq_after (k + j) r"
  by (simp_all add: rq_after_def ac_simps)

lemma rq_copy_into_after:
  "rq_copy_into room r = (take room (rq_data r), rq_after (min (length (rq_data r)) room) r)"
  by (auto simp: rq_copy_into_def slice_copy_into_def rq_after_def min_def)

lemma rq_read_chunk_after:
  "rq_read_chunk w r = (take w (rq_data r), rq_after (min (length (rq_data r)) w) r)"
  by (auto simp: rq_read_chunk_def slice_read_chunk_def rq_after_def min_def)

lemma rq_skip_until_after:
  assumes "x \<le> usize_max"
  shows "rq_skip_until x r = Some (rq_after (min (length (rq_data r)) (x - rq_offset r)) r)"
proof (cases "rq_offset r < x")
  case True
  let ?k = "min (length (rq_data r)) (x - rq_offset r)"
  let ?r = "rq_after ?k r"
  have fit: "min usize_max (x - rq_offset r) = x - rq_offset r" using assms by (intro min_absorb2) simp
  have pos: "\<not> x < rq_offset r" "0 < x - rq_offset r" using True by auto
  have loop: "rq_skip_loop x r = (if rq_data ?r = [] then Some ?r else rq_skip_loop x ?r)"
    by (subst rq_skip_loop.simps) (simp only: Let_def fit rq_read_chunk_after snd_conv pos if_False not_True_eq_False)
  have stop: "rq_skip_loop x ?r = Some ?r" if "rq_offset ?r = x"
    by (subst rq_skip_loop.simps) (simp only: Let_def that less_irrefl if_False diff_self_eq_0 not_False_eq_True if_True)
  have "rq_data ?r = [] \<or> rq_offset ?r = x"
    using True by (cases "length (rq_data r) \<le> x - rq_offset r") (simp_all add: min_absorb1 min_absorb2)
  then have "rq_skip_loop x r = Some ?r" unfolding loop using stop by (cases "rq_data ?r = []") (simp_all only: if_True if_False simp_thms)
  with True show ?thesis by (simp only: rq_skip_until_def not_True_eq_False if_False)
next
  case False
  then have "x - rq_offset r = 0" by simp
  with False show ?thesis by (simp only: rq_skip_until_def if_True not_False_eq_True min_0R rq_after_simps)
qed

section \<open>Slots\<close>

definition slot_wf :: "'b bytes_mut \<Rightarrow> 'b slot \<Rightarrow> bool" where
  "slot_wf B s \<longleftrightarrow> sl_start s < sl_end s \<and> sl_end s < 2 ^ 63 \<and>
     sl_start s + length (bm_as_slice B (sl_data s)) + length (bm_spare B (sl_data s)) = sl_end s"

definition slot_view :: "'b bytes_mut \<Rightarrow> 'b slot \<Rightarrow> nat \<Rightarrow> u8 option" where
  "slot_view B s = bytes_at (sl_start s) (bm_as_slice B (sl_data s))"

text \<open>What is left of a slot after a write: one slot in its place, or two.\<close>

definition slot_grown :: "'b bytes_mut \<Rightarrow> ('b \<Rightarrow> 'b \<Rightarrow> bool) \<Rightarrow> 'b slot \<Rightarrow> 'b slot \<Rightarrow> 'b slot option \<Rightarrow> bool" where
  "slot_grown B joined s s' filled \<longleftrightarrow>
     slot_wf B s' \<and> sl_start s' = sl_start s \<and>
     (bm_as_slice B (sl_data s) \<noteq> [] \<longrightarrow> bm_as_slice B (sl_data s') \<noteq> []) \<and>
     (\<forall>c. joined c (sl_data s) \<longrightarrow> joined c (sl_data s')) \<and>
     (case filled of
        None \<Rightarrow> sl_end s' = sl_end s \<and> (\<forall>c. joined (sl_data s) c \<longrightarrow> joined (sl_data s') c)
      | Some f \<Rightarrow> slot_wf B f \<and> sl_end s' = sl_start f \<and> sl_end f = sl_end s \<and> joined (sl_data s') (sl_data f) \<and>
          bm_as_slice B (sl_data f) \<noteq> [] \<and> (\<forall>c. joined (sl_data s) c \<longrightarrow> joined (sl_data f) c))"

definition pieces_view :: "'b bytes_mut \<Rightarrow> 'b slot \<Rightarrow> 'b slot option \<Rightarrow> nat \<Rightarrow> u8 option" where
  "pieces_view B s filled = (case filled of None \<Rightarrow> Map.empty | Some f \<Rightarrow> slot_view B f) ++ slot_view B s"

lemma slot_end_view:
  assumes "bytes_mut_ok B joined"
  shows "slot_end B s = sl_start s + length (bm_as_slice B (sl_data s))"
  using bm_len_ok [OF assms] by (simp add: slot_end_def)

lemma write_reader_append_spec:
  assumes ok: "bytes_mut_ok B joined" and wf: "slot_wf B s" and at: "rq_offset r = slot_end B s" "slot_end B s < sl_end s"
  shows "\<exists>s' fl'. write_reader_append B r fl s = Some (s', rq_after (min (length (rq_data r)) (sl_end s - rq_offset r)) r, fl') \<and>
    slot_grown B joined s s' None \<and>
    slot_view B s' = put_bytes (rq_offset r) (take (sl_end s - rq_offset r) (rq_data r)) (slot_view B s) \<and> (fl \<longrightarrow> fl')"
proof -
  let ?data = "bm_as_slice B (sl_data s)" and ?spare = "bm_spare B (sl_data s)"
  have o: "rq_offset r = sl_start s + length ?data" using at(1) slot_end_view [OF ok] by simp
  have room: "length ?spare = sl_end s - rq_offset r" "0 < length ?spare" using wf o at slot_end_view [OF ok, of s] by (auto simp: slot_wf_def)
  define xs where "xs = take (length ?spare) (rq_data r)"
  have len: "length xs \<le> length ?spare" "length xs = min (length (rq_data r)) (sl_end s - rq_offset r)"
    by (simp_all add: xs_def room(1))
  define b where "b = bm_write_spare B 0 xs (sl_data s)"
  have w: "bm_as_slice B b = ?data" "bm_spare B b = xs @ drop (length xs) ?spare"
    "\<And>c. joined (sl_data s) c \<Longrightarrow> joined b c" "\<And>c. joined c (sl_data s) \<Longrightarrow> joined c b"
    unfolding b_def using bm_write_spare_ok [OF ok, of 0 xs "sl_data s"] len(1) by simp_all
  define b' where "b' = bm_advance_mut B (length xs) b"
  have fit: "length xs \<le> length (bm_spare B b)" by (simp add: w(2))
  have a: "bm_as_slice B b' = ?data @ xs" "bm_spare B b' = drop (length xs) ?spare"
    "\<And>c. joined (sl_data s) c \<Longrightarrow> joined b' c" "\<And>c. joined c (sl_data s) \<Longrightarrow> joined c b'"
    unfolding b'_def using bm_advance_mut_ok [OF ok fit] w by simp_all
  let ?s = "s\<lparr>sl_data := b'\<rparr>"
  have "rq_copy_into (length ?spare) r = (xs, rq_after (length xs) r)" by (simp add: rq_copy_into_after xs_def)
  then have "write_reader_append B r fl s = Some (?s, rq_after (length xs) r, fl \<or> length ?spare = length xs)"
    using room(2) by (simp add: write_reader_append_def assume_that_def bm_len_ok [OF ok] b_def [symmetric] b'_def [symmetric] w)
  moreover have "slot_grown B joined s ?s None" using wf a len(1) by (simp add: slot_grown_def slot_wf_def)
  moreover have "slot_view B ?s = put_bytes (rq_offset r) xs (slot_view B s)"
    by (rule ext) (auto simp: slot_view_def put_bytes_apply a(1) bytes_at_append map_add_def o bytes_at_def split: option.splits)
  ultimately show ?thesis unfolding len(2) [symmetric] by (simp add: xs_def room(1))
qed

lemma write_reader_split_spec:
  assumes ok: "bytes_mut_ok B joined" and wf: "slot_wf B s" and at: "slot_end B s < rq_offset r" "rq_offset r < sl_end s"
    and ne: "rq_data r \<noteq> []"
  shows "\<exists>s' f fl'. write_reader_split B r fl s = Some (s', f, rq_after (min (length (rq_data r)) (sl_end s - rq_offset r)) r, fl') \<and>
    slot_grown B joined s s' (Some f) \<and> slot_view B s' = slot_view B s \<and>
    slot_view B f = bytes_at (rq_offset r) (take (sl_end s - rq_offset r) (rq_data r)) \<and> (fl \<longrightarrow> fl')"
proof -
  let ?data = "bm_as_slice B (sl_data s)" and ?spare = "bm_spare B (sl_data s)"
  define i where "i = rq_offset r - slot_end B s"
  have o: "rq_offset r = sl_start s + length ?data + i" "0 < i" using at(1) slot_end_view [OF ok, of s] by (auto simp: i_def)
  have sum: "sl_start s + length ?data + length ?spare = sl_end s" "sl_end s < 2 ^ 63" using wf by (simp_all add: slot_wf_def)
  have room: "length ?spare - i = sl_end s - rq_offset r" "i < length ?spare" using o at(2) sum by auto
  define xs where "xs = take (length ?spare - i) (rq_data r)"
  have len: "i + length xs \<le> length ?spare" "length xs = min (length (rq_data r)) (sl_end s - rq_offset r)" "xs \<noteq> []"
    using room ne by (auto simp: xs_def)
  define b where "b = bm_write_spare B i xs (sl_data s)"
  have w: "bm_as_slice B b = ?data" "bm_spare B b = take i ?spare @ xs @ drop (i + length xs) ?spare"
    "\<And>c. joined (sl_data s) c \<Longrightarrow> joined b c" "\<And>c. joined c (sl_data s) \<Longrightarrow> joined c b"
    unfolding b_def using bm_write_spare_ok [OF ok len(1)] by simp_all
  obtain x y where split: "bm_split_off B (length ?data + i) b = (x, y)" by (cases "bm_split_off B (length ?data + i) b")
  have cap: "length ?data + i \<le> bm_capacity B b" using room(2) len(1) by (simp add: bm_len_ok [OF ok] w(1,2))
  have xy: "bm_as_slice B x = ?data" "bm_spare B x = take i ?spare" "bm_as_slice B y = []" "bm_spare B y = xs @ drop (i + length xs) ?spare"
    "joined x y" "\<And>c. joined c (sl_data s) \<Longrightarrow> joined c x" "\<And>c. joined (sl_data s) c \<Longrightarrow> joined y c"
    using bm_split_off_ok [OF ok cap split] w room(2) by (simp_all add: bm_len_ok [OF ok])
  have fit: "length xs \<le> length (bm_spare B y)" by (simp add: xy(4))
  define z where "z = bm_advance_mut B (length xs) y"
  have z: "bm_as_slice B z = xs" "bm_spare B z = drop (i + length xs) ?spare" "joined x z" "\<And>c. joined (sl_data s) c \<Longrightarrow> joined z c"
    unfolding z_def using bm_advance_mut_ok [OF ok fit] xy by simp_all
  let ?s = "s\<lparr>sl_data := x, sl_end := rq_offset r\<rparr>" and ?f = "\<lparr>sl_start = rq_offset r, sl_end = sl_end s, sl_data = z\<rparr>"
  have "rq_copy_into (length ?spare - i) r = (xs, rq_after (length xs) r)" by (simp add: rq_copy_into_after xs_def)
  then have "write_reader_split B r fl s = Some (?s, ?f, rq_after (length xs) r, fl \<or> length ?spare - i = length xs)"
    using at(1) room(2) cap fit split
    by (simp add: write_reader_split_def assume_that_def i_def [symmetric] b_def [symmetric] z_def [symmetric] bm_len_ok [OF ok] w(1) xy(3) Let_def)
  moreover have "slot_grown B joined s ?s (Some ?f)" using o sum room len xy z by (simp add: slot_grown_def slot_wf_def)
  moreover have "slot_view B ?s = slot_view B s" "slot_view B ?f = bytes_at (rq_offset r) xs" by (simp_all add: slot_view_def xy(1) z(1))
  ultimately show ?thesis unfolding len(2) [symmetric] by (simp add: xs_def room(1))
qed

lemma take_min_length: "take (min (length xs) m) xs = take m xs"
  by (simp add: min_def)

text \<open>The bytes of a request that a slot takes, and what it looks like afterwards.\<close>

lemma try_write_reader_spec:
  assumes ok: "bytes_mut_ok B joined" and wf: "slot_wf B s" and at: "sl_start s \<le> rq_offset r"
  shows "\<exists>k filled s' fl'. try_write_reader B r fl s = Some (filled, s', rq_after k r, fl') \<and> k \<le> length (rq_data r) \<and>
    k = min (length (rq_data r)) (sl_end s - rq_offset r) \<and> slot_grown B joined s s' filled \<and>
    pieces_view B s' filled = put_bytes (rq_offset r) (take k (rq_data r)) (slot_view B s) \<and> (fl \<longrightarrow> fl')"
proof -
  let ?n = "length (rq_data r)" and ?o = "rq_offset r"
  have e: "slot_end B s = sl_start s + length (bm_as_slice B (sl_data s))" by (rule slot_end_view [OF ok])
  have le: "slot_end B s \<le> sl_end s" "sl_end s \<le> usize_max" using wf e by (auto simp: slot_wf_def usize_max_def)
  have same: "slot_grown B joined s s None" using wf by (simp add: slot_grown_def)
  have dom: "dom (slot_view B s) = {sl_start s..<slot_end B s}" by (simp add: slot_view_def dom_bytes_at e)
  have covered: "put_bytes ?o (take k (rq_data r)) (slot_view B s) = slot_view B s" if "?o + min ?n k \<le> slot_end B s \<or> ?n = 0 \<or> k = 0" for k
    using that at by (intro put_bytes_covered) (auto simp: dom)
  show ?thesis
  proof (cases "slot_end B s < sl_end s")
    case False
    let ?k = "min ?n (sl_end s - ?o)"
    have "try_write_reader B r fl s = Some (None, s, rq_after ?k r, fl)"
      using False rq_skip_until_after [OF le(2), of r] by (simp add: try_write_reader_def)
    moreover have "put_bytes ?o (take ?k (rq_data r)) (slot_view B s) = slot_view B s"
      by (rule covered) (use False le in auto)
    ultimately show ?thesis using same by (intro exI [of _ ?k] exI [of _ None] exI [of _ s] exI [of _ fl]) (simp add: pieces_view_def)
  next
    case True
    define j where "j = min ?n (slot_end B s - ?o)"
    have skip: "rq_skip_until (slot_end B s) r = Some (rq_after j r)" using rq_skip_until_after [of "slot_end B s" r] le by (simp add: j_def)
    have skipped: "put_bytes ?o (take j (rq_data r)) (slot_view B s) = slot_view B s" by (rule covered) (auto simp: j_def)
    show ?thesis
    proof (cases "drop j (rq_data r) = []")
      case all: True
      then have "j = ?n" "min ?n (sl_end s - ?o) = ?n" using le(1) by (auto simp: j_def)
      with True skip all skipped same show ?thesis
        by (intro exI [of _ ?n] exI [of _ None] exI [of _ s] exI [of _ fl]) (simp add: try_write_reader_def pieces_view_def)
    next
      case left: False
      then have j: "j = slot_end B s - ?o" "j < ?n" by (auto simp: j_def)
      consider (beyond) "sl_end s \<le> ?o + j" | (append) "?o + j = slot_end B s" | (split) "slot_end B s < ?o + j" "?o + j < sl_end s"
        using j(1) by linarith
      then show ?thesis
      proof cases
        case beyond
        then have "j = 0" using True j(1) by auto
        with beyond True skip left same show ?thesis
          by (intro exI [of _ 0] exI [of _ None] exI [of _ s] exI [of _ fl]) (simp add: try_write_reader_def pieces_view_def)
      next
        case append
        let ?k = "min (?n - j) (sl_end s - (?o + j))"
        obtain s' fl' where w: "write_reader_append B (rq_after j r) fl s = Some (s', rq_after (j + ?k) r, fl')"
          "slot_grown B joined s s' None" "slot_view B s' = put_bytes (?o + j) (take (sl_end s - (?o + j)) (drop j (rq_data r))) (slot_view B s)"
          "fl \<longrightarrow> fl'"
          using write_reader_append_spec [OF ok wf, of "rq_after j r" fl] append True by auto
        have k: "j + ?k = min ?n (sl_end s - ?o)" using append True j by auto
        have "take (j + ?k) (rq_data r) = take j (rq_data r) @ take (sl_end s - (?o + j)) (drop j (rq_data r))"
          using take_min_length [of "drop j (rq_data r)" "sl_end s - (?o + j)"] by (simp only: take_add length_drop)
        then have "slot_view B s' = put_bytes ?o (take (j + ?k) (rq_data r)) (slot_view B s)"
          using w(3) skipped j(2) by (simp only: put_bytes_append length_take min_absorb2 less_imp_le)
        with w True skip left append k show ?thesis
          by (intro exI [of _ "j + ?k"] exI [of _ None] exI [of _ s'] exI [of _ fl']) (simp add: try_write_reader_def pieces_view_def)
      next
        case split
        then have j0: "j = 0" using j(1) by auto
        let ?k = "min ?n (sl_end s - ?o)"
        obtain s' f fl' where w: "write_reader_split B r fl s = Some (s', f, rq_after ?k r, fl')" "slot_grown B joined s s' (Some f)"
          "slot_view B s' = slot_view B s" "slot_view B f = bytes_at ?o (take (sl_end s - ?o) (rq_data r))" "fl \<longrightarrow> fl'"
          using write_reader_split_spec [OF ok wf, of r fl] split left j0 by auto
        have "take ?k (rq_data r) = take (sl_end s - ?o) (rq_data r)" by (rule take_min_length)
        with w True skip left split j0 show ?thesis
          by (intro exI [of _ ?k] exI [of _ "Some f"] exI [of _ s'] exI [of _ fl'])
             (simp add: try_write_reader_def pieces_view_def put_bytes_def)
      qed
    qed
  qed
qed

section \<open>Merging, skipping and reading\<close>

lemma slot_unsplit_spec:
  assumes ok: "bytes_mut_ok B joined" and wf: "slot_wf B s" "slot_wf B t" and full: "slot_is_full B s" and adj: "sl_end s = sl_start t"
    and j: "joined (sl_data s) (sl_data t)" and ne: "bm_as_slice B (sl_data t) \<noteq> []"
  shows "\<exists>u. slot_unsplit B t s = Some u \<and> slot_wf B u \<and> sl_start u = sl_start s \<and> sl_end u = sl_end t \<and>
    bm_as_slice B (sl_data u) \<noteq> [] \<and> slot_view B u = slot_view B t ++ slot_view B s \<and>
    (\<forall>c. joined c (sl_data s) \<longrightarrow> joined c (sl_data u)) \<and> (\<forall>c. joined (sl_data t) c \<longrightarrow> joined (sl_data u) c)"
proof -
  have s: "bm_spare B (sl_data s) = []" "bm_as_slice B (sl_data s) \<noteq> []" "sl_start s + length (bm_as_slice B (sl_data s)) = sl_start t"
    using wf(1) full adj by (auto simp: slot_wf_def slot_is_full_def slot_end_view [OF ok])
  note u = bm_unsplit_ok [OF ok j s(1,2)]
  let ?u = "s\<lparr>sl_data := bm_unsplit B (sl_data s) (sl_data t), sl_end := sl_end t\<rparr>"
  have "slot_unsplit B t s = Some ?u"
    using full adj s(2) ne u(1) by (simp add: slot_unsplit_def assume_that_def slot_is_full_def bm_len_ok [OF ok])
  moreover have "slot_wf B ?u" using wf adj s(3) by (simp add: slot_wf_def u(2,3))
  moreover have "slot_view B ?u = slot_view B t ++ slot_view B s"
    by (rule ext) (auto simp: slot_view_def u(2) bytes_at_append map_add_def s(3) [symmetric] bytes_at_def split: option.splits)
  ultimately show ?thesis using s(2) u(2,4,5) by auto
qed

text \<open>A slot that gave its first bytes away, or what may be left of it.\<close>

definition slot_cut :: "'b bytes_mut \<Rightarrow> ('b \<Rightarrow> 'b \<Rightarrow> bool) \<Rightarrow> nat \<Rightarrow> 'b slot \<Rightarrow> 'b slot \<Rightarrow> bool" where
  "slot_cut B joined n s s' \<longleftrightarrow> sl_start s' = n \<and> sl_end s' = sl_end s \<and>
     (n < sl_end s \<longrightarrow> slot_wf B s' \<and> (\<forall>c. joined (sl_data s) c \<longrightarrow> joined (sl_data s') c)) \<and>
     slot_view B s' = slot_view B s |` {n..}"

lemma bytes_at_cut:
  "k \<le> length xs \<Longrightarrow> bytes_at (i + k) (drop k xs) = bytes_at i xs |` {i + k..}" "length xs \<le> k \<Longrightarrow> bytes_at i xs |` {i + k..} = Map.empty"
  by (rule ext, auto simp: bytes_at_def restrict_map_def)+

lemma slot_skip_until_spec:
  assumes ok: "bytes_mut_ok B joined" and wf: "slot_wf B s" and n: "n \<le> sl_end s"
  shows "\<exists>s'. slot_skip_until B n s = Some s' \<and> (if sl_start s \<le> n then slot_cut B joined n s s' else s' = s)"
proof (cases "sl_start s \<le> n")
  case True
  let ?data = "bm_as_slice B (sl_data s)" and ?spare = "bm_spare B (sl_data s)"
  define k where "k = n - sl_start s"
  have k: "n = sl_start s + k" using True by (simp add: k_def)
  have sum: "sl_start s + length ?data + length ?spare = sl_end s" "sl_end s < 2 ^ 63" using wf by (simp_all add: slot_wf_def)
  show ?thesis
  proof (cases "length ?data \<le> k")
    case le: True
    have fit: "k - length ?data \<le> length ?spare" using n k sum by simp
    define b where "b = bm_advance_mut B (k - length ?data) (sl_data s)"
    note a = bm_advance_mut_ok [OF ok fit, folded b_def]
    have len: "length (bm_as_slice B b) = k" using a(1) le fit by simp
    note c = bm_advance_ok [OF ok, of k b, unfolded len, OF order_refl]
    let ?s = "s\<lparr>sl_data := bm_advance B k b, sl_start := n\<rparr>"
    have "slot_skip_until B n s = Some ?s"
      using True le fit len k by (simp add: slot_skip_until_def slot_skip_def assume_that_def bm_len_ok [OF ok] b_def [symmetric])
    moreover have "slot_cut B joined n s ?s"
      using sum k le fit len n bytes_at_cut(2) [OF le, of "sl_start s"]
      by (auto simp: slot_cut_def slot_wf_def slot_view_def a c)
    ultimately show ?thesis using True by auto
  next
    case gt: False
    then have fit: "k \<le> length ?data" by simp
    note c = bm_advance_ok [OF ok fit]
    let ?s = "s\<lparr>sl_data := bm_advance B k (sl_data s), sl_start := n\<rparr>"
    have "slot_skip_until B n s = Some ?s"
      using True gt fit k by (simp add: slot_skip_until_def slot_skip_def bm_len_ok [OF ok])
    moreover have "slot_cut B joined n s ?s"
      using sum k fit gt bytes_at_cut(1) [OF fit, of "sl_start s"] by (auto simp: slot_cut_def slot_wf_def slot_view_def c)
    ultimately show ?thesis using True by auto
  qed
qed (simp add: slot_skip_until_def)

lemma bm_read_chunk_spec:
  assumes ok: "bytes_mut_ok B joined" and r: "bm_read_chunk B w b = (x, y)"
  shows "bm_as_slice B x = take w (bm_as_slice B b)" "bm_as_slice B y = drop w (bm_as_slice B b)" "bm_spare B y = bm_spare B b"
    "0 < bm_capacity B y \<Longrightarrow> joined b c \<Longrightarrow> joined y c"
proof -
  define n where "n = min (bm_len B b) w"
  have rd: "(x, y) = (if n = 0 then (bm_new B, b) else if bm_capacity B b = n then (b, bm_new B) else bm_split_to B n b)"
    using r [symmetric] unfolding bm_read_chunk_def Let_def n_def [symmetric] not_gr_zero .
  have len: "bm_len B b = length (bm_as_slice B b)" "bm_capacity B b = length (bm_as_slice B b) + length (bm_spare B b)"
    by (rule bm_len_ok [OF ok])+
  consider (none) "n = 0" | (all) "n > 0" "bm_capacity B b = n" | (split) "n > 0" "bm_capacity B b \<noteq> n" by blast
  then have "bm_as_slice B x = take w (bm_as_slice B b) \<and> bm_as_slice B y = drop w (bm_as_slice B b) \<and> bm_spare B y = bm_spare B b \<and>
    (0 < bm_capacity B y \<longrightarrow> joined b c \<longrightarrow> joined y c)"
  proof cases
    case none
    then have "x = bm_new B" "y = b" using rd by auto
    with none show ?thesis by (auto simp: bm_new_ok [OF ok] len n_def min_def split: if_splits)
  next
    case all
    then have "x = b" "y = bm_new B" using rd by auto
    with all show ?thesis by (auto simp: bm_new_ok [OF ok] bm_len_ok [OF ok] n_def min_def split: if_splits)
  next
    case split
    then have "bm_split_to B n b = (x, y)" using rd by auto
    from bm_split_to_ok [OF ok _ this] show ?thesis using len(1) by (auto simp: n_def min_def split: if_splits)
  qed
  then show "bm_as_slice B x = take w (bm_as_slice B b)" "bm_as_slice B y = drop w (bm_as_slice B b)" "bm_spare B y = bm_spare B b"
    "0 < bm_capacity B y \<Longrightarrow> joined b c \<Longrightarrow> joined y c" by blast+
qed

lemma slot_cut_data:
  assumes ok: "bytes_mut_ok B joined" and wf: "slot_wf B s" and y: "bm_as_slice B y = drop k (bm_as_slice B (sl_data s))"
    "bm_spare B y = bm_spare B (sl_data s)" "\<And>c. 0 < bm_capacity B y \<Longrightarrow> joined (sl_data s) c \<Longrightarrow> joined y c"
    and k: "k \<le> length (bm_as_slice B (sl_data s))"
  shows "slot_cut B joined (sl_start s + k) s (s\<lparr>sl_data := y, sl_start := sl_start s + k\<rparr>)"
  using wf y k bytes_at_cut(1) [OF k, of "sl_start s"] bm_len_ok(2) [OF ok, of y]
  by (auto simp: slot_cut_def slot_wf_def slot_view_def)

lemma slot_read_chunk_spec:
  assumes ok: "bytes_mut_ok B joined" and wf: "slot_wf B s" and r: "slot_read_chunk B w s = (chunk, s')"
  shows "bm_as_slice B chunk = take w (bm_as_slice B (sl_data s))"
    "slot_cut B joined (sl_start s + bm_len B chunk) s s'"
proof -
  let ?data = "bm_as_slice B (sl_data s)"
  obtain y where y: "bm_read_chunk B w (sl_data s) = (chunk, y)" "s' = s\<lparr>sl_data := y, sl_start := sl_start s + bm_len B chunk\<rparr>"
    using r by (auto simp: slot_read_chunk_def split: prod.splits)
  note spec = bm_read_chunk_spec [OF ok y(1)]
  show c: "bm_as_slice B chunk = take w ?data" by (rule spec(1))
  have len: "bm_len B chunk = min (length ?data) w" by (simp add: bm_len_ok [OF ok] c)
  have "drop w ?data = drop (min (length ?data) w) ?data" by (simp add: min_def)
  with spec show "slot_cut B joined (sl_start s + bm_len B chunk) s s'"
    unfolding y(2) len by (intro slot_cut_data [OF ok wf]) auto
qed

lemma slot_copy_into_spec:
  assumes ok: "bytes_mut_ok B joined" and wf: "slot_wf B s" and r: "slot_copy_into B sp room s = (written, s')"
  shows "written = take room (bm_as_slice B (sl_data s))" "slot_cut B joined (sl_start s + length written) s s'"
proof -
  let ?data = "bm_as_slice B (sl_data s)" and ?w = "min (bm_len B (sl_data s)) room"
  have len: "bm_len B (sl_data s) = length ?data" by (rule bm_len_ok [OF ok])
  obtain y where y: "bm_copy_into B sp room (sl_data s) = (written, y)" "s' = s\<lparr>sl_data := y, sl_start := sl_start s + length written\<rparr>"
    using r by (auto simp: slot_copy_into_def split: prod.splits)
  have facts: "written = take room ?data \<and> bm_as_slice B y = drop (length written) ?data \<and> bm_spare B y = bm_spare B (sl_data s) \<and>
    (\<forall>c. 0 < bm_capacity B y \<longrightarrow> joined (sl_data s) c \<longrightarrow> joined y c)"
  proof (cases "sp \<or> ?w = bm_len B (sl_data s)")
    case True
    obtain chunk z where c: "bm_read_chunk B ?w (sl_data s) = (chunk, z)" by (cases "bm_read_chunk B ?w (sl_data s)")
    then have "written = bm_as_slice B chunk" "y = z" using y(1) True by (auto simp: bm_copy_into_def Let_def)
    moreover have "take ?w ?data = take room ?data" "drop ?w ?data = drop (length (take room ?data)) ?data" by (simp_all add: len min_def)
    ultimately show ?thesis using bm_read_chunk_spec [OF ok c] by auto
  next
    case False
    then have lt: "room < length ?data" by (auto simp: len)
    then have "written = take room ?data" "y = bm_advance B room (sl_data s)" using y(1) False by (auto simp: bm_copy_into_def Let_def len min_def)
    with bm_advance_ok [OF ok, of room "sl_data s"] lt show ?thesis by auto
  qed
  then show "written = take room ?data" by simp
  have "length written \<le> length ?data" using facts by simp
  with facts show "slot_cut B joined (sl_start s + length written) s s'" unfolding y(2) by (intro slot_cut_data [OF ok wf]) auto
qed

end
