(* ===== verification/Reassembler.thy ===== *)
theory Reassembler
  imports SlotFacts
begin

text \<open>
  The buffer that puts the bytes of a stream back in order: \<^verbatim>\<open>quic/s2n-quic-core/src/buffer/reassembler.rs\<close> and
  \<^verbatim>\<open>reassembler/reader.rs\<close>. Readers are requests, which is what \<open>write_at\<close> and \<open>write_at_fin\<close> pass; they cannot
  fail, so the error type of the reader is empty.
\<close>

section \<open>State\<close>

definition MIN_BUFFER_ALLOCATION_SIZE :: nat where
  "MIN_BUFFER_ALLOCATION_SIZE = 4096"

definition UNKNOWN_FINAL_SIZE :: nat where
  "UNKNOWN_FINAL_SIZE = 2 ^ 64 - 1"

record cursors =
  cu_start_offset :: nat
  cu_max_recv_offset :: nat
  cu_final_offset :: nat

definition cursors_final_size :: "cursors \<Rightarrow> nat option" where
  "cursors_final_size self =
     (if cu_final_offset self = UNKNOWN_FINAL_SIZE then None else Some (cu_final_offset self))"

definition cursors_default :: cursors where
  "cursors_default = \<lparr>cu_start_offset = 0, cu_max_recv_offset = 0, cu_final_offset = UNKNOWN_FINAL_SIZE\<rparr>"

record 'b reassembler =
  ra_slots :: "'b slot list"
  ra_cursors :: cursors

definition reassembler_new :: "'b reassembler" where
  "reassembler_new = \<lparr>ra_slots = [], ra_cursors = cursors_default\<rparr>"

definition ra_final_size :: "'b reassembler \<Rightarrow> nat option" where
  "ra_final_size self = cursors_final_size (ra_cursors self)"

abbreviation ra_start :: "'b reassembler \<Rightarrow> nat" where
  "ra_start self \<equiv> cu_start_offset (ra_cursors self)"

section \<open>Queries\<close>

text \<open>\<open>iter\<close>: the slices of the slots that follow each other without a gap.\<close>

fun ra_iter_from :: "'b bytes_mut \<Rightarrow> nat \<Rightarrow> 'b slot list \<Rightarrow> u8 list list" where
  "ra_iter_from B prev_end [] = []"
| "ra_iter_from B prev_end (slot # slots) =
     (if \<not> slot_is_occupied B prev_end slot then []
      else bm_as_slice B (sl_data slot) # ra_iter_from B (slot_end B slot) slots)"

definition ra_iter :: "'b bytes_mut \<Rightarrow> 'b reassembler \<Rightarrow> u8 list list" where
  "ra_iter B self = ra_iter_from B (ra_start self) (ra_slots self)"

definition ra_report :: "'b bytes_mut \<Rightarrow> 'b reassembler \<Rightarrow> nat \<times> nat" where
  "ra_report B self = foldl (\<lambda>(bytes, chunks) chunk. (bytes + length chunk, chunks + 1)) (0, 0) (ra_iter B self)"

definition ra_len :: "'b bytes_mut \<Rightarrow> 'b reassembler \<Rightarrow> nat" where
  "ra_len B self = fst (ra_report B self)"

definition ra_is_empty :: "'b bytes_mut \<Rightarrow> 'b reassembler \<Rightarrow> bool" where
  "ra_is_empty B self =
     (case ra_slots self of slot # _ \<Rightarrow> \<not> slot_is_occupied B (ra_start self) slot | [] \<Rightarrow> True)"

definition consumed_len :: "'b reassembler \<Rightarrow> nat" where
  "consumed_len self = ra_start self"

fun total_received_from :: "'b bytes_mut \<Rightarrow> nat \<Rightarrow> 'b slot list \<Rightarrow> nat" where
  "total_received_from B offset [] = offset"
| "total_received_from B offset (slot # slots) =
     (if \<not> slot_is_occupied B offset slot then offset else total_received_from B (slot_end B slot) slots)"

definition total_received_len :: "'b bytes_mut \<Rightarrow> 'b reassembler \<Rightarrow> nat" where
  "total_received_len B self = total_received_from B (ra_start self) (ra_slots self)"

definition is_writing_complete :: "'b bytes_mut \<Rightarrow> 'b reassembler \<Rightarrow> bool" where
  "is_writing_complete B self =
     (case ra_final_size self of None \<Rightarrow> False | Some len \<Rightarrow> total_received_len B self = len)"

definition is_reading_complete :: "'b reassembler \<Rightarrow> bool" where
  "is_reading_complete self \<longleftrightarrow> ra_final_size self = Some (ra_start self)"

definition ra_reset :: "'b reassembler \<Rightarrow> 'b reassembler" where
  "ra_reset self = self\<lparr>ra_slots := [], ra_cursors := cursors_default\<rparr>"

section \<open>Allocation\<close>

text \<open>The loop over the powers; the alignment is an allocation size and so never zero.\<close>

fun allocation_size_loop :: "nat list \<Rightarrow> nat \<Rightarrow> nat" where
  "allocation_size_loop [] offset = MIN_BUFFER_ALLOCATION_SIZE"
| "allocation_size_loop (pow # pows) offset =
     (let mult = 2 ^ pow;
          square = mult * mult;
          min_offset = MIN_BUFFER_ALLOCATION_SIZE * square;
          allocation_size = MIN_BUFFER_ALLOCATION_SIZE * mult
      in if offset \<ge> min_offset then allocation_size else allocation_size_loop pows offset)"

definition allocation_size :: "nat \<Rightarrow> nat" where
  "allocation_size offset = allocation_size_loop (rev [2..<5]) offset"

definition align_offset :: "nat \<Rightarrow> nat \<Rightarrow> nat" where
  "align_offset offset alignment = (offset div alignment) * alignment"

definition allocate_slot :: "'b bytes_mut \<Rightarrow> request \<Rightarrow> cursors \<Rightarrow> 'b slot" where
  "allocate_slot B reader cursors =
     (let start = rq_offset reader;
          size = allocation_size start;
          offset = align_offset start size;
          (offset, size) =
            (if offset \<le> cu_start_offset cursors then
               let diff = cu_start_offset cursors - offset in
               if diff > 0 then (cu_start_offset cursors, u64_sub size diff) else (offset, size)
             else (offset, size));
          size =
            (if u64_sub (u64_sub (cu_final_offset cursors) (rq_offset reader)) (length (rq_data reader)) = 0 then
               let size_candidate = u64_sub start offset + length (rq_data reader) in
               if size_candidate < size then size_candidate else size
             else size)
      in slot_new offset (offset + size) (bm_with_capacity B size))"

definition ra_insert :: "nat \<Rightarrow> 'b slot \<Rightarrow> 'b slot list \<Rightarrow> 'b slot list" where
  "ra_insert idx slot slots = (if length slots < idx then slots @ [slot] else take idx slots @ slot # drop idx slots)"

section \<open>Writing\<close>

text \<open>The loops carry the slots, the reader, the index and the flag that says whether a slot was filled.\<close>

type_synonym 'b write_state = "'b slot list \<times> request \<times> nat \<times> bool"

partial_function (option) write_reader_with_alloc ::
    "'b bytes_mut \<Rightarrow> cursors \<Rightarrow> 'b write_state \<Rightarrow> 'b write_state option" where
  "write_reader_with_alloc B cursors st =
     (case st of (slots, reader, idx, filled_slot) \<Rightarrow>
        if rq_data reader = [] then Some st
        else if idx < length slots \<and> \<not> sl_start (slots ! idx) > rq_offset reader then Some st
        else
          Option.bind (try_write_reader B reader filled_slot (allocate_slot B reader cursors)) (\<lambda>(filled, slot, reader, filled_slot).
          let slots = ra_insert idx slot slots; idx = idx + 1 in
          case filled of
            None \<Rightarrow> write_reader_with_alloc B cursors (slots, reader, idx, filled_slot)
          | Some slot \<Rightarrow> write_reader_with_alloc B cursors (ra_insert idx slot slots, reader, idx + 1, filled_slot)))"

partial_function (option) write_reader_at_loop ::
    "'b bytes_mut \<Rightarrow> cursors \<Rightarrow> 'b write_state \<Rightarrow> 'b write_state option" where
  "write_reader_at_loop B cursors st =
     (case st of (slots, reader, idx, filled_slot) \<Rightarrow>
        if rq_data reader = [] then Some st
        else
          Option.bind (vec_get idx slots) (\<lambda>slot.
          Option.bind (try_write_reader B reader filled_slot slot) (\<lambda>(filled, slot, reader, filled_slot).
          let slots = slots[idx := slot]; idx = idx + 1;
              (slots, idx) = (case filled of None \<Rightarrow> (slots, idx) | Some slot \<Rightarrow> (ra_insert idx slot slots, idx + 1)) in
          if rq_data reader = [] then Some (slots, reader, idx, filled_slot)
          else
            Option.bind (write_reader_with_alloc B cursors (slots, reader, idx, filled_slot)) (write_reader_at_loop B cursors))))"

definition unsplit_at :: "'b bytes_mut \<Rightarrow> nat \<Rightarrow> 'b slot list \<Rightarrow> 'b slot list option" where
  "unsplit_at B idx slots =
     Option.bind (vec_get idx slots) (\<lambda>slot.
     if \<not> slot_is_full B slot then Some slots
     else
       let start = sl_start slot; end' = slot_end B slot in
       case vec_get (idx + 1) slots of
         None \<Rightarrow> Some slots
       | Some next \<Rightarrow>
           if sl_start next \<noteq> end' then Some slots
           else
             let current_block = align_offset start (allocation_size start);
                 next_block = align_offset (sl_start next) (allocation_size (sl_start next)) in
             if current_block \<noteq> next_block then Some slots
             else map_option (\<lambda>slot. (vec_remove (idx + 1) slots)[idx := slot]) (slot_unsplit B next slot))"

fun unsplit_loop :: "'b bytes_mut \<Rightarrow> nat list \<Rightarrow> 'b slot list \<Rightarrow> 'b slot list option" where
  "unsplit_loop B [] slots = Some slots"
| "unsplit_loop B (idx # idxs) slots = Option.bind (unsplit_at B idx slots) (unsplit_loop B idxs)"

definition unsplit_range :: "'b bytes_mut \<Rightarrow> nat \<Rightarrow> nat \<Rightarrow> 'b slot list \<Rightarrow> 'b slot list option" where
  "unsplit_range B lo hi slots = unsplit_loop B (rev [lo..<hi]) slots"

definition write_reader_at :: "'b bytes_mut \<Rightarrow> cursors \<Rightarrow> request \<Rightarrow> nat \<Rightarrow> 'b slot list \<Rightarrow> 'b slot list option" where
  "write_reader_at B cursors reader idx slots =
     assume_that (rq_data reader \<noteq> [])
       (Option.bind (write_reader_at_loop B cursors (slots, reader, idx, False)) (\<lambda>(slots, reader, idx', filled_slot).
        if filled_slot then unsplit_range B idx idx' slots else Some slots))"

text \<open>The search for the last slot that starts at or before the reader.\<close>

fun select_slot :: "nat \<Rightarrow> nat \<Rightarrow> 'b slot list \<Rightarrow> nat option" where
  "select_slot offset 0 slots = None"
| "select_slot offset (Suc idx) slots =
     (if sl_start (slots ! idx) \<le> offset then Some idx else select_slot offset idx slots)"

definition write_reader_impl :: "'b bytes_mut \<Rightarrow> request \<Rightarrow> 'b reassembler \<Rightarrow> 'b reassembler option" where
  "write_reader_impl B reader self =
     (if rq_data reader = [] then Some self
      else
        let slots = ra_slots self in
        map_option (\<lambda>slots. self\<lparr>ra_slots := slots\<rparr>)
          (case select_slot (rq_offset reader) (length slots) slots of
             Some idx \<Rightarrow> write_reader_at B (ra_cursors self) reader idx slots
           | None \<Rightarrow>
               Option.bind (try_write_reader B reader True (allocate_slot B reader (ra_cursors self))) (\<lambda>(filled, slot, reader, _).
               let (slots, idx) = (case filled of None \<Rightarrow> (slots, 0) | Some slot \<Rightarrow> (slot # slots, 1));
                   slots = slot # slots in
               if rq_data reader = [] then Some slots
               else write_reader_at B (ra_cursors self) reader idx slots)))"

definition check_reader_fin :: "request \<Rightarrow> cursors \<Rightarrow> buffer_error + cursors" where
  "check_reader_fin reader self =
     (let buffered_offset = rq_offset reader + length (rq_data reader) in
      if buffered_offset > unat MAX_VARINT_VALUE then Inl OutOfRange
      else
        rbind
          (case (rq_final_offset reader, cursors_final_size self) of
             (Some actual, Some expected) \<Rightarrow> ensure (actual = expected) InvalidFin (Inr self)
           | (Some final_offset, None) \<Rightarrow>
               ensure (cu_max_recv_offset self \<le> final_offset) InvalidFin (Inr (self\<lparr>cu_final_offset := final_offset\<rparr>))
           | (None, Some expected) \<Rightarrow> ensure (expected \<ge> buffered_offset) InvalidFin (Inr self)
           | (None, None) \<Rightarrow> Inr self)
          (\<lambda>self. Inr (self\<lparr>cu_max_recv_offset := max (cu_max_recv_offset self) buffered_offset\<rparr>)))"

definition write_reader :: "'b bytes_mut \<Rightarrow> request \<Rightarrow> 'b reassembler \<Rightarrow> ((buffer_error + unit) \<times> 'b reassembler) option" where
  "write_reader B reader self =
     Option.bind (rq_skip_until (ra_start self) reader) (\<lambda>reader.
     case check_reader_fin reader (ra_cursors self) of
       Inl e \<Rightarrow> Some (Inl e, self)
     | Inr cursors \<Rightarrow> map_option (Pair (Inr ())) (write_reader_impl B reader (self\<lparr>ra_cursors := cursors\<rparr>)))"

definition write_request :: "'b bytes_mut \<Rightarrow> varint \<Rightarrow> u8 list \<Rightarrow> bool \<Rightarrow> 'b reassembler \<Rightarrow> ((buffer_error + unit) \<times> 'b reassembler) option" where
  "write_request B offset data is_fin self =
     (case request_new offset data is_fin of
        Inl e \<Rightarrow> Some (Inl e, self)
      | Inr request \<Rightarrow> write_reader B request self)"

definition write_at :: "'b bytes_mut \<Rightarrow> varint \<Rightarrow> u8 list \<Rightarrow> 'b reassembler \<Rightarrow> ((buffer_error + unit) \<times> 'b reassembler) option" where
  "write_at B offset data self = write_request B offset data False self"

definition write_at_fin :: "'b bytes_mut \<Rightarrow> varint \<Rightarrow> u8 list \<Rightarrow> 'b reassembler \<Rightarrow> ((buffer_error + unit) \<times> 'b reassembler) option" where
  "write_at_fin B offset data self = write_request B offset data True self"

section \<open>Skipping\<close>

fun skip_slots :: "'b bytes_mut \<Rightarrow> nat \<Rightarrow> 'b slot list \<Rightarrow> 'b slot list option" where
  "skip_slots B new_start_offset [] = Some []"
| "skip_slots B new_start_offset (slot # slots) =
     (if sl_end slot < new_start_offset then skip_slots B new_start_offset slots
      else
        map_option (\<lambda>slot. if \<not> should_drop slot then slot # slots else slots) (slot_skip_until B new_start_offset slot))"

definition ra_skip :: "'b bytes_mut \<Rightarrow> varint \<Rightarrow> 'b reassembler \<Rightarrow> ((buffer_error + unit) \<times> 'b reassembler) option" where
  "ra_skip B len self =
     (if \<not> len > 0 then Some (Inr (), self)
      else
        let new_start_offset = ra_start self + unat len in
        if new_start_offset > unat MAX_VARINT_VALUE then Some (Inl OutOfRange, self)
        else if (case ra_final_size self of None \<Rightarrow> False | Some final_size \<Rightarrow> final_size < new_start_offset)
        then Some (Inl InvalidFin, self)
        else
          let cursors = (ra_cursors self)\<lparr>cu_max_recv_offset := max (cu_max_recv_offset (ra_cursors self)) new_start_offset,
                cu_start_offset := new_start_offset\<rparr> in
          map_option (\<lambda>slots. (Inr (), self\<lparr>ra_slots := slots, ra_cursors := cursors\<rparr>))
            (skip_slots B new_start_offset (ra_slots self)))"

text \<open>\<open>Skip for Reassembler\<close>: the final offset is written first.\<close>

definition duplex_skip ::
    "'b bytes_mut \<Rightarrow> varint \<Rightarrow> varint option \<Rightarrow> 'b reassembler \<Rightarrow> ((buffer_error + unit) \<times> 'b reassembler) option" where
  "duplex_skip B len final_offset self =
     Option.bind (case final_offset of None \<Rightarrow> Some (Inr (), self) | Some offset \<Rightarrow> write_at_fin B offset [] self)
       (\<lambda>(r, self). case r of Inl e \<Rightarrow> Some (Inl e, self) | Inr _ \<Rightarrow> ra_skip B len self)"

section \<open>Reading\<close>

definition ra_read_chunk :: "'b bytes_mut \<Rightarrow> nat \<Rightarrow> 'b reassembler \<Rightarrow> 'b \<times> 'b reassembler" where
  "ra_read_chunk B watermark self =
     (case ra_slots self of
        [] \<Rightarrow> (bm_new B, self)
      | slot # slots \<Rightarrow>
          if \<not> slot_is_occupied B (ra_start self) slot then (bm_new B, self)
          else
            let (chunk, slot) =
                  (if (case ra_final_size self of None \<Rightarrow> False
                       | Some final_size \<Rightarrow> final_size \<le> sl_end slot \<and> watermark \<ge> bm_len B (sl_data slot))
                   then slot_consume B slot
                   else slot_read_chunk B watermark slot);
                slots = (if should_drop slot then slots else slot # slots);
                cursors = (ra_cursors self)\<lparr>cu_start_offset := ra_start self + bm_len B chunk\<rparr>
            in (chunk, self\<lparr>ra_slots := slots, ra_cursors := cursors\<rparr>))"

definition pop_watermarked :: "'b bytes_mut \<Rightarrow> nat \<Rightarrow> 'b reassembler \<Rightarrow> 'b option \<times> 'b reassembler" where
  "pop_watermarked B watermark self =
     (case ra_read_chunk B watermark self of (chunk, self) \<Rightarrow>
        (if bm_as_slice B chunk = [] then None else Some chunk, self))"

definition ra_pop :: "'b bytes_mut \<Rightarrow> 'b reassembler \<Rightarrow> 'b option \<times> 'b reassembler" where
  "ra_pop B self = pop_watermarked B usize_max self"

text \<open>A destination: the room that is left and what was written.\<close>

record dest =
  d_room :: nat
  d_written :: "u8 list"

definition dest_put :: "u8 list \<Rightarrow> dest \<Rightarrow> dest" where
  "dest_put xs d = d\<lparr>d_room := d_room d - length xs, d_written := d_written d @ xs\<rparr>"

partial_function (option) partial_copy_loop ::
    "'b bytes_mut \<Rightarrow> 'b \<Rightarrow> dest \<Rightarrow> 'b reassembler \<Rightarrow> ('b \<times> dest \<times> 'b reassembler) option" where
  "partial_copy_loop B prev dest self =
     (let remaining = d_room dest in
      if \<not> bm_len B prev \<le> remaining then None
      else
        let watermark = remaining - bm_len B prev;
            (chunk, self) = ra_read_chunk B watermark self in
        if bm_as_slice B chunk = [] then Some (prev, dest, self)
        else
          let dest = (if bm_as_slice B prev \<noteq> [] then dest_put (bm_as_slice B prev) dest else dest) in
          if bm_len B chunk = watermark then Some (chunk, dest, self)
          else partial_copy_loop B chunk dest self)"

definition partial_copy_into ::
    "'b bytes_mut \<Rightarrow> dest \<Rightarrow> 'b reassembler \<Rightarrow> ('b \<times> dest \<times> 'b reassembler) option" where
  "partial_copy_into B dest self =
     (if \<not> d_room dest > 0 then Some (bm_new B, dest, self) else partial_copy_loop B (bm_new B) dest self)"

partial_function (option) copy_loop ::
    "'b bytes_mut \<Rightarrow> dest \<Rightarrow> 'b reassembler \<Rightarrow> (dest \<times> 'b reassembler) option" where
  "copy_loop B dest self =
     (if \<not> d_room dest > 0 then Some (dest, self)
      else
        case ra_slots self of
          [] \<Rightarrow> Some (dest, self)
        | slot # slots \<Rightarrow>
            if \<not> slot_is_occupied B (ra_start self) slot then Some (dest, self)
            else
              let (written, slot) = slot_copy_into B False (d_room dest) slot;
                  slots = (if should_drop slot then slots else slot # slots);
                  cursors = (ra_cursors self)\<lparr>cu_start_offset := ra_start self + length written\<rparr>
              in copy_loop B (dest_put written dest) (self\<lparr>ra_slots := slots, ra_cursors := cursors\<rparr>))"

definition ra_copy_into ::
    "'b bytes_mut \<Rightarrow> bool \<Rightarrow> dest \<Rightarrow> 'b reassembler \<Rightarrow> (dest \<times> 'b reassembler) option" where
  "ra_copy_into B specializes_bytes dest self =
     (if specializes_bytes
      then map_option (\<lambda>(chunk, dest, self). (dest_put (fst (bm_copy_into B True (d_room dest) chunk)) dest, self)) (partial_copy_into B dest self)
      else copy_loop B dest self)"

end
