(* ===== verification/ReassemblerInv.thy ===== *)
theory ReassemblerInv
  imports Reassembler
begin

text \<open>
  The invariant of the slots and the loops that write into them.
\<close>

section \<open>Blocks\<close>

text \<open>The block of memory that an offset belongs to.\<close>

definition block :: "nat \<Rightarrow> nat" where
  "block n = align_offset n (allocation_size n)"

definition block_end :: "nat \<Rightarrow> nat" where
  "block_end n = block n + allocation_size n"

lemma allocation_size_table:
  "allocation_size n = (if 1048576 \<le> n then 65536 else if 262144 \<le> n then 32768 else if 65536 \<le> n then 16384 else 4096)"
  by (simp add: allocation_size_def MIN_BUFFER_ALLOCATION_SIZE_def upt_rec)

lemma allocation_size_pos [simp]: "0 < allocation_size n"
  by (simp add: allocation_size_table)

lemma allocation_size_le: "allocation_size n \<le> 65536"
  by (simp add: allocation_size_table)

lemma block_bounds: "block n \<le> n" "n < block_end n"
proof -
  show "block n \<le> n" by (simp add: block_def align_offset_def)
  show "n < block_end n" using dividend_less_div_times [OF allocation_size_pos, of n n]
    by (simp add: block_end_def block_def align_offset_def add.commute)
qed

lemma aligned_within:
  fixes s x y L :: nat
  assumes "0 < s" "s dvd L" "x div s * s \<le> y" "y < x div s * s + s"
  shows "y div s = x div s" "L \<le> x \<longleftrightarrow> L \<le> y"
proof -
  show d: "y div s = x div s" using assms(1,3,4) by (intro div_nat_eqI) (simp_all add: mult.commute)
  have "L \<le> z \<longleftrightarrow> L div s \<le> z div s" for z
    using assms(1,2) by (metis div_le_mono dvd_div_mult_self less_eq_div_iff_mult_less_eq)
  with d show "L \<le> x \<longleftrightarrow> L \<le> y" by metis
qed

lemma block_same:
  assumes "block x \<le> y" "y < block_end x"
  shows "block y = block x" "block_end y = block_end x"
proof -
  let ?s = "allocation_size x"
  have b: "x div ?s * ?s \<le> y" "y < x div ?s * ?s + ?s" using assms by (simp_all add: block_end_def block_def align_offset_def)
  consider "1048576 \<le> x" | "262144 \<le> x" "x < 1048576" | "65536 \<le> x" "x < 262144" | "x < 65536" by linarith
  then have s: "allocation_size y = allocation_size x"
  proof cases
    case 1
    with aligned_within(2) [of ?s 1048576 x y] b show ?thesis by (simp add: allocation_size_table)
  next
    case 2
    with aligned_within(2) [of ?s 1048576 x y] aligned_within(2) [of ?s 262144 x y] b show ?thesis by (simp add: allocation_size_table)
  next
    case 3
    with aligned_within(2) [of ?s 262144 x y] aligned_within(2) [of ?s 65536 x y] b show ?thesis by (simp add: allocation_size_table)
  next
    case 4
    with aligned_within(2) [of ?s 65536 x y] b show ?thesis by (simp add: allocation_size_table)
  qed
  show "block y = block x" unfolding block_def s using aligned_within(1) [OF allocation_size_pos _ b, of 0] by (simp add: align_offset_def)
  then show "block_end y = block_end x" by (simp add: block_end_def s)
qed

lemma block_later:
  assumes "x < y" "block x \<noteq> block y"
  shows "block_end x \<le> block y"
proof (rule ccontr)
  assume "\<not> ?thesis"
  then have lt: "block y < block_end x" by simp
  show False
  proof (cases "block x \<le> block y")
    case True
    from block_same(1) [OF True lt] have "block (block y) = block x" .
    moreover have "block (block y) = block y" using block_bounds [of y] by (intro block_same(1)) auto
    ultimately show False using assms(2) by simp
  next
    case False
    then have "block y \<le> x" "x < block_end y" using block_bounds [of x] block_bounds [of y] assms(1) by auto
    from block_same(1) [OF this] show False using assms(2) by simp
  qed
qed

section \<open>The invariant\<close>

text \<open>
  Neighbouring slots of one block are parts of one buffer, without a gap between them, and only the first may
  be empty. A block is covered from its start, or from the read position, to its end; only the last one may
  end early, at the final offset.
\<close>

definition slot_linked :: "'b bytes_mut \<Rightarrow> ('b \<Rightarrow> 'b \<Rightarrow> bool) \<Rightarrow> nat \<Rightarrow> 'b slot \<Rightarrow> 'b slot \<Rightarrow> bool" where
  "slot_linked B joined so s t \<longleftrightarrow> sl_end s \<le> sl_start t \<and>
     (if block (sl_start s) = block (sl_start t)
      then sl_end s = sl_start t \<and> joined (sl_data s) (sl_data t) \<and> bm_as_slice B (sl_data t) \<noteq> []
      else sl_end s = block_end (sl_start s) \<and> sl_start t \<le> max (block (sl_start t)) so)"

definition slot_placed :: "'b bytes_mut \<Rightarrow> nat \<Rightarrow> nat \<Rightarrow> 'b slot \<Rightarrow> bool" where
  "slot_placed B so mr s \<longleftrightarrow> slot_wf B s \<and> sl_end s \<le> block_end (sl_start s) \<and> so \<le> sl_start s \<and>
     slot_end B s \<le> mr \<and> (sl_start s < mr \<or> sl_start s = so)"

definition slots_ok :: "'b bytes_mut \<Rightarrow> ('b \<Rightarrow> 'b \<Rightarrow> bool) \<Rightarrow> nat \<Rightarrow> nat \<Rightarrow> nat \<Rightarrow> 'b slot list \<Rightarrow> bool" where
  "slots_ok B joined so mr fin ss \<longleftrightarrow> (\<forall>s\<in>set ss. slot_placed B so mr s) \<and> successively (slot_linked B joined so) ss \<and>
     (ss \<noteq> [] \<longrightarrow> sl_start (hd ss) \<le> max (block (sl_start (hd ss))) so \<and>
       (sl_end (last ss) = block_end (sl_start (last ss)) \<or> fin \<le> sl_end (last ss)))"

definition ss_view :: "'b bytes_mut \<Rightarrow> 'b slot list \<Rightarrow> nat \<Rightarrow> u8 option" where
  "ss_view B ss = foldr (\<lambda>s m. m ++ slot_view B s) ss Map.empty"

lemma ss_view_simps [simp]: "ss_view B [] = Map.empty" "ss_view B (s # ss) = ss_view B ss ++ slot_view B s"
  by (simp_all add: ss_view_def)

lemma ss_view_append [simp]: "ss_view B (xs @ ys) = ss_view B ys ++ ss_view B xs"
  by (induction xs) simp_all

definition pieces :: "'b slot \<Rightarrow> 'b slot option \<Rightarrow> 'b slot list" where
  "pieces s filled = s # (case filled of None \<Rightarrow> [] | Some f \<Rightarrow> [f])"

lemma pieces_simps [simp]: "pieces s None = [s]" "pieces s (Some f) = [s, f]" "pieces s filled \<noteq> []" "hd (pieces s filled) = s"
  by (simp_all add: pieces_def)

lemma ss_view_pieces: "ss_view B (pieces s filled) = pieces_view B s filled"
  by (cases filled) (simp_all add: pieces_view_def)

lemma dom_slot_view: "bytes_mut_ok B joined \<Longrightarrow> dom (slot_view B s) = {sl_start s..<slot_end B s}"
  by (simp add: slot_view_def dom_bytes_at slot_end_view)

lemma slot_view_None: "bytes_mut_ok B joined \<Longrightarrow> slot_view B s n = None \<longleftrightarrow> n < sl_start s \<or> slot_end B s \<le> n"
  by (simp add: slot_view_def bytes_at_None slot_end_view)

lemma slot_wf_end: "bytes_mut_ok B joined \<Longrightarrow> slot_wf B s \<Longrightarrow> sl_start s \<le> slot_end B s \<and> slot_end B s \<le> sl_end s \<and> sl_start s < sl_end s"
  by (auto simp: slot_wf_def slot_end_view)

lemma successively_sorted:
  assumes "successively R ss" "\<And>s t. R s t \<Longrightarrow> sl_end s \<le> sl_start t" "\<forall>s\<in>set ss. sl_start s < sl_end s"
  shows "sorted_wrt (\<lambda>s t. sl_end s \<le> sl_start t) ss"
  using assms(1,3)
proof (induction ss)
  case (Cons s ss)
  show ?case
  proof (cases ss)
    case (Cons t ts)
    with Cons.prems have R: "R s t" "sorted_wrt (\<lambda>s t. sl_end s \<le> sl_start t) ss" using Cons.IH by auto
    have "sl_end s \<le> sl_start x" if "x \<in> set ss" for x
      using assms(2) [OF R(1)] R(2) Cons.prems(2) that Cons by (cases "x = t") fastforce+
    with R(2) show ?thesis by simp
  qed simp
qed simp

lemma slots_ok_sorted:
  assumes "bytes_mut_ok B joined" "slots_ok B joined so mr fin ss"
  shows "sorted_wrt (\<lambda>s t. sl_end s \<le> sl_start t) ss"
  by (rule successively_sorted [of "slot_linked B joined so"])
     (use assms(2) in \<open>auto simp: slots_ok_def slot_linked_def slot_placed_def slot_wf_def\<close>)

lemma ss_view_None: "(\<And>s. s \<in> set ss \<Longrightarrow> slot_view B s n = None) \<Longrightarrow> ss_view B ss n = None"
  by (induction ss) (auto simp: map_add_def)

text \<open>Within the range of a slot only that slot counts.\<close>

lemma ss_view_at:
  assumes ok: "bytes_mut_ok B joined" and inv: "slots_ok B joined so mr fin (pre @ s # post)" and n: "sl_start s \<le> n" "n < sl_end s"
  shows "ss_view B pre n = None" "ss_view B post n = None"
proof -
  have sorted: "sorted_wrt (\<lambda>s t. sl_end s \<le> sl_start t) (pre @ s # post)" by (rule slots_ok_sorted [OF ok inv])
  have wf: "slot_wf B x" if "x \<in> set (pre @ s # post)" for x using inv that by (auto simp: slots_ok_def slot_placed_def)
  show "ss_view B pre n = None"
  proof (rule ss_view_None)
    fix x assume x: "x \<in> set pre"
    then have "slot_end B x \<le> n" using sorted slot_wf_end [OF ok wf, of x] n(1) by (auto simp: sorted_wrt_append)
    then show "slot_view B x n = None" by (simp add: slot_view_None [OF ok])
  qed
  show "ss_view B post n = None"
  proof (rule ss_view_None)
    fix x assume x: "x \<in> set post"
    then have "n < sl_start x" using sorted n(2) by (auto simp: sorted_wrt_append)
    then show "slot_view B x n = None" by (simp add: slot_view_None [OF ok])
  qed
qed

section \<open>Writing into one slot\<close>

lemma slot_placed_bounds:
  assumes "bytes_mut_ok B joined" "slot_placed B so mr s"
  shows "slot_wf B s" "so \<le> sl_start s" "sl_start s < sl_end s" "sl_end s \<le> block_end (sl_start s)" "slot_end B s \<le> mr" "sl_start s \<le> mr"
  using assms slot_wf_end [OF assms(1), of s] by (auto simp: slot_placed_def)

lemma slot_block: "bytes_mut_ok B joined \<Longrightarrow> slot_placed B so mr s \<Longrightarrow> sl_start s \<le> n \<Longrightarrow> n < sl_end s \<Longrightarrow>
  block n = block (sl_start s) \<and> block_end n = block_end (sl_start s)"
  using slot_placed_bounds [of B joined so mr s] block_bounds [of "sl_start s"] block_same [of "sl_start s" n] by auto

lemma grown_bounds: "slot_grown B joined s s' filled \<Longrightarrow> slot_wf B s' \<and> sl_start s' = sl_start s \<and> sl_end s' \<le> sl_end s"
  by (cases filled) (auto simp: slot_grown_def slot_wf_def)

lemma grown_placed:
  assumes ok: "bytes_mut_ok B joined" and s: "slot_placed B so mr s" and grown: "slot_grown B joined s s' filled"
    and view: "\<And>n. n \<in> dom (pieces_view B s' filled) \<Longrightarrow> n < mr"
  shows "\<forall>x\<in>set (pieces s' filled). slot_placed B so mr x"
proof -
  have below: "slot_end B x \<le> mr" if x: "slot_wf B x" "dom (slot_view B x) \<subseteq> dom (pieces_view B s' filled)" "sl_start x \<le> mr" for x
  proof (cases "slot_end B x = sl_start x")
    case False
    then have "slot_end B x - 1 \<in> dom (slot_view B x)" using slot_wf_end [OF ok x(1)] by (auto simp: dom_slot_view [OF ok])
    then have "slot_end B x - 1 < mr" using x(2) view by blast
    then show ?thesis by linarith
  qed (use x(3) in simp)
  note sb = slot_placed_bounds [OF ok s]
  have s': "slot_wf B s'" "sl_start s' = sl_start s" "sl_end s' \<le> sl_end s" "so \<le> sl_start s'" "sl_start s' < mr \<or> sl_start s' = so"
    using grown_bounds [OF grown] s by (auto simp: slot_placed_def)
  have "dom (slot_view B s') \<subseteq> dom (pieces_view B s' filled)" by (auto simp: pieces_view_def)
  then have 1: "slot_placed B so mr s'" using s' sb below [OF s'(1)] by (auto simp: slot_placed_def)
  show ?thesis
  proof (cases filled)
    case (Some f)
    then have f: "slot_wf B f" "sl_end s' = sl_start f" "sl_end f = sl_end s" "bm_as_slice B (sl_data f) \<noteq> []"
      using grown by (auto simp: slot_grown_def)
    have "dom (slot_view B f) \<subseteq> dom (pieces_view B s' filled)" by (auto simp: pieces_view_def Some)
    moreover have fs: "sl_start f < slot_end B f" using f(4) by (simp add: slot_end_view [OF ok])
    then have "sl_start f \<in> dom (slot_view B f)" by (simp add: dom_slot_view [OF ok])
    ultimately have mr: "sl_start f < mr" "slot_end B f \<le> mr" using view below [OF f(1)] by (auto intro: less_imp_le)
    have in_s: "sl_start s \<le> sl_start f" "sl_start f < sl_end s" using f slot_wf_end [OF ok f(1)] slot_wf_end [OF ok s'(1)] s'(2) by auto
    from slot_block [OF ok s this] have "block_end (sl_start f) = block_end (sl_start s)" by simp
    then have "slot_placed B so mr f" using f mr in_s sb by (simp add: slot_placed_def)
    with 1 Some show ?thesis by simp
  qed (use 1 in simp)
qed

lemma grown_linked:
  assumes ok: "bytes_mut_ok B joined" and s: "slot_placed B so mr s" and grown: "slot_grown B joined s s' filled"
  shows "successively (slot_linked B joined so) (pieces s' filled)"
    "slot_linked B joined so x s \<Longrightarrow> slot_linked B joined so x s'"
    "slot_linked B joined so s y \<Longrightarrow> slot_linked B joined so (last (pieces s' filled)) y"
    "block (sl_start (last (pieces s' filled))) = block (sl_start s)" "sl_end (last (pieces s' filled)) = sl_end s"
    "block_end (sl_start (last (pieces s' filled))) = block_end (sl_start s)"
proof -
  have s': "slot_wf B s'" "sl_start s' = sl_start s" using grown by (auto simp: slot_grown_def)
  have f: "block (sl_start f) = block (sl_start s) \<and> block_end (sl_start f) = block_end (sl_start s)" if "filled = Some f" for f
  proof -
    have "slot_wf B f" "sl_end s' = sl_start f" "sl_end f = sl_end s" using grown that by (auto simp: slot_grown_def)
    then have "sl_start s \<le> sl_start f" "sl_start f < sl_end s" using slot_wf_end [OF ok, of f] slot_wf_end [OF ok s'(1)] s'(2) by auto
    then show ?thesis by (rule slot_block [OF ok s])
  qed
  show "slot_linked B joined so x s \<Longrightarrow> slot_linked B joined so x s'"
    using s'(2) grown unfolding slot_linked_def slot_grown_def by (cases "block (sl_start x) = block (sl_start s)") simp_all
  have "successively (slot_linked B joined so) (pieces s' filled) \<and>
    (slot_linked B joined so s y \<longrightarrow> slot_linked B joined so (last (pieces s' filled)) y) \<and>
    block (sl_start (last (pieces s' filled))) = block (sl_start s) \<and> sl_end (last (pieces s' filled)) = sl_end s \<and>
    block_end (sl_start (last (pieces s' filled))) = block_end (sl_start s)"
  proof (cases filled)
    case None
    with grown s'(2) have g: "sl_end s' = sl_end s" "\<And>c. joined (sl_data s) c \<Longrightarrow> joined (sl_data s') c" by (auto simp: slot_grown_def)
    have "slot_linked B joined so s y \<longrightarrow> slot_linked B joined so s' y" using g s'(2) unfolding slot_linked_def by auto
    with None g s'(2) show ?thesis by simp
  next
    case (Some t)
    with grown have g: "sl_end s' = sl_start t" "sl_end t = sl_end s" "joined (sl_data s') (sl_data t)" "bm_as_slice B (sl_data t) \<noteq> []"
      "\<And>c. joined (sl_data s) c \<Longrightarrow> joined (sl_data t) c" by (auto simp: slot_grown_def)
    have "slot_linked B joined so s' t" using g f [OF Some] s'(2) by (simp add: slot_linked_def)
    moreover have "slot_linked B joined so s y \<longrightarrow> slot_linked B joined so t y" using g f [OF Some] unfolding slot_linked_def by auto
    ultimately show ?thesis using g f [OF Some] by (simp add: Some)
  qed
  then show "successively (slot_linked B joined so) (pieces s' filled)"
    "slot_linked B joined so s y \<Longrightarrow> slot_linked B joined so (last (pieces s' filled)) y"
    "block (sl_start (last (pieces s' filled))) = block (sl_start s)" "sl_end (last (pieces s' filled)) = sl_end s"
    "block_end (sl_start (last (pieces s' filled))) = block_end (sl_start s)" by blast+
qed

text \<open>A slot that takes bytes of a request, in its place among the others.\<close>

lemma write_step:
  assumes ok: "bytes_mut_ok B joined" and inv: "slots_ok B joined so mr fin (pre @ s # post)"
    and at: "sl_start s \<le> rq_offset r" and mr: "rq_offset r + length (rq_data r) \<le> mr"
  shows "\<exists>k filled s' fl'. try_write_reader B r fl s = Some (filled, s', rq_after k r, fl') \<and>
    k = min (length (rq_data r)) (sl_end s - rq_offset r) \<and>
    slots_ok B joined so mr fin (pre @ pieces s' filled @ post) \<and>
    ss_view B (pre @ pieces s' filled @ post) = put_bytes (rq_offset r) (take k (rq_data r)) (ss_view B (pre @ s # post)) \<and>
    sl_end (last (pieces s' filled)) = sl_end s \<and> (fl \<longrightarrow> fl')"
proof -
  have s: "slot_placed B so mr s" using inv by (simp add: slots_ok_def)
  note sb = slot_placed_bounds [OF ok s]
  obtain k filled s' fl' where w: "try_write_reader B r fl s = Some (filled, s', rq_after k r, fl')"
    "k = min (length (rq_data r)) (sl_end s - rq_offset r)" "slot_grown B joined s s' filled"
    "pieces_view B s' filled = put_bytes (rq_offset r) (take k (rq_data r)) (slot_view B s)" "fl \<longrightarrow> fl'"
    using try_write_reader_spec [OF ok sb(1) at, of fl] by blast
  have k: "rq_offset r + k \<le> mr" using w(2) mr by simp
  have "n < mr" if "n \<in> dom (pieces_view B s' filled)" for n
  proof -
    have "n \<in> dom (slot_view B s) \<or> n \<in> dom (bytes_at (rq_offset r) (take k (rq_data r)))" using that w(4) by (simp add: put_bytes_def)
    then show ?thesis using k sb(5) by (auto simp: dom_slot_view [OF ok] dom_bytes_at)
  qed
  note placed = grown_placed [OF ok s w(3) this] and linked = grown_linked [OF ok s w(3)]
  have "slots_ok B joined so mr fin (pre @ pieces s' filled @ post)"
    using inv placed linked grown_bounds [OF w(3)]
    unfolding slots_ok_def by (auto simp: successively_append_iff hd_append successively_Cons split: if_splits)
  moreover have "ss_view B (pre @ pieces s' filled @ post) n = put_bytes (rq_offset r) (take k (rq_data r)) (ss_view B (pre @ s # post)) n" for n
  proof (cases "sl_start s \<le> n \<and> n < sl_end s")
    case True
    then show ?thesis using ss_view_at [OF ok inv, of n] by (simp add: ss_view_pieces w(4) put_bytes_apply map_add_def split: option.splits)
  next
    case False
    then have "bytes_at (rq_offset r) (take k (rq_data r)) n = None" "slot_view B s n = None"
      using at w(2) slot_wf_end [OF ok sb(1)] by (auto simp: bytes_at_None slot_view_None [OF ok])
    then show ?thesis by (simp add: ss_view_pieces w(4) put_bytes_apply map_add_def split: option.splits)
  qed
  ultimately show ?thesis using w(1,2,5) linked(5) by blast
qed

end
