(* ===== verification/ReassemblerWrite.thy ===== *)
theory ReassemblerWrite
  imports ReassemblerInv
begin

text \<open>
  The loops of a write: they end, keep the invariant of the slots and store the bytes of the request.
\<close>

section \<open>Allocation\<close>

lemma allocate_slot_eq:
  assumes "cu_start_offset cur \<le> rq_offset r" "rq_offset r + length (rq_data r) \<le> cu_final_offset cur" "cu_final_offset cur < 2 ^ 64"
    and "rq_offset r < 2 ^ 62"
  shows "allocate_slot B r cur = (let o' = rq_offset r; st = max (block o') (cu_start_offset cur);
      en = (if cu_final_offset cur = o' + length (rq_data r) then min (block_end o') (cu_final_offset cur) else block_end o')
    in \<lparr>sl_start = st, sl_end = en, sl_data = bm_with_capacity B (en - st)\<rparr>)"
proof -
  let ?o = "rq_offset r" and ?n = "length (rq_data r)" and ?so = "cu_start_offset cur" and ?fin = "cu_final_offset cur"
  define st where "st = max (block ?o) ?so"
  define size where "size = block_end ?o - st"
  have b: "block ?o \<le> ?o" "?o < block_end ?o" by (rule block_bounds)+
  have st: "st \<le> ?o" "block ?o \<le> st" using b(1) assms(1) by (auto simp: st_def)
  have size_le: "allocation_size ?o < 2 ^ 64" using allocation_size_le [of ?o] by simp
  have pos: "(if block ?o \<le> ?so then let diff = ?so - block ?o in
        if diff > 0 then (?so, u64_sub (allocation_size ?o) diff) else (block ?o, allocation_size ?o) else (block ?o, allocation_size ?o)) = (st, size)"
    using assms(1) b size_le by (auto simp: st_def size_def block_end_def u64_sub_le Let_def)
  have end': "st + size = block_end ?o" using st b by (simp add: size_def)
  have fin: "u64_sub (u64_sub ?fin ?o) ?n = 0 \<longleftrightarrow> ?fin = ?o + ?n" using assms(2,3) by (auto simp: u64_sub_le)
  have cand: "u64_sub ?o st = ?o - st" using st(1) assms(4) by (intro u64_sub_le) auto
  show ?thesis
  proof (cases "?fin = ?o + ?n")
    case True
    then have f: "u64_sub (u64_sub (?o + ?n) ?o) ?n = 0" using fin by simp
    show ?thesis
    proof (cases "?o - st + ?n < size")
      case lt: True
      then have "min (block_end ?o) ?fin = ?fin" "?fin - st = ?o - st + ?n" "st + (?o - st + ?n) = ?fin" using end' st True by auto
      with lt True show ?thesis
        unfolding allocate_slot_def Let_def block_def [symmetric] pos [unfolded Let_def] by (simp add: f cand slot_new_def st_def [symmetric])
    next
      case False
      then have "min (block_end ?o) ?fin = block_end ?o" using end' st True by auto
      with False True end' show ?thesis
        unfolding allocate_slot_def Let_def block_def [symmetric] pos [unfolded Let_def] by (simp add: f cand slot_new_def st_def [symmetric] size_def)
    qed
  next
    case False
    then have "u64_sub (u64_sub ?fin ?o) ?n \<noteq> 0" using fin by simp
    with False end' show ?thesis
      unfolding allocate_slot_def Let_def block_def [symmetric] pos [unfolded Let_def] by (simp add: slot_new_def st_def [symmetric] size_def)
  qed
qed

text \<open>A slot allocated where there is none belongs to a block that has no slot yet.\<close>

lemma alloc_apart:
  assumes ok: "bytes_mut_ok B joined" and inv: "slots_ok B joined so mr fin (pre @ post)" and lim: "so \<le> n" "n < fin"
    and pre: "pre \<noteq> [] \<Longrightarrow> sl_end (last pre) \<le> n" and post: "post \<noteq> [] \<Longrightarrow> n < sl_start (hd post)"
  shows "pre \<noteq> [] \<Longrightarrow> block (sl_start (last pre)) \<noteq> block n \<and> sl_end (last pre) = block_end (sl_start (last pre)) \<and>
      block_end (sl_start (last pre)) \<le> block n"
    "post \<noteq> [] \<Longrightarrow> block (sl_start (hd post)) \<noteq> block n \<and> sl_start (hd post) \<le> max (block (sl_start (hd post))) so \<and>
      block_end n \<le> sl_start (hd post)"
proof -
  have nb: "block n \<le> n" "n < block_end n" by (rule block_bounds)+
  have p: "block (sl_start (last pre)) \<noteq> block n \<and> sl_end (last pre) = block_end (sl_start (last pre)) \<and>
    block_end (sl_start (last pre)) \<le> block n" if ne: "pre \<noteq> []"
  proof -
    have placed: "slot_placed B so mr (last pre)" using inv ne by (simp add: slots_ok_def)
    have le: "sl_end (last pre) \<le> n" "sl_start (last pre) < n" using pre [OF ne] slot_placed_bounds(3) [OF ok placed] by auto
    have end': "sl_end (last pre) = block_end (sl_start (last pre))"
    proof (cases "post = []")
      case True
      with inv ne le(1) lim(2) show ?thesis by (auto simp: slots_ok_def)
    next
      case False
      then have "slot_linked B joined so (last pre) (hd post)" using inv ne by (auto simp: slots_ok_def successively_append_iff)
      with post [OF False] le(1) show ?thesis by (auto simp: slot_linked_def split: if_splits)
    qed
    have ne': "block (sl_start (last pre)) \<noteq> block n"
    proof
      assume same: "block (sl_start (last pre)) = block n"
      have "block (sl_start (last pre)) \<le> n" using nb same by simp
      then have "block_end n = block_end (sl_start (last pre)) \<or> block_end (sl_start (last pre)) \<le> n"
        using block_same(2) [of "sl_start (last pre)" n] by (metis not_less)
      moreover have "block_end (sl_start (last pre)) = block_end n"
        using block_same(2) [of n "sl_start (last pre)"] same le block_bounds [of "sl_start (last pre)"] nb by auto
      ultimately show False using nb(2) end' le(1) by linarith
    qed
    with end' block_later [OF le(2) ne'] show ?thesis by simp
  qed
  then show "pre \<noteq> [] \<Longrightarrow> block (sl_start (last pre)) \<noteq> block n \<and> sl_end (last pre) = block_end (sl_start (last pre)) \<and>
      block_end (sl_start (last pre)) \<le> block n" .
  assume ne: "post \<noteq> []"
  have first: "sl_start (hd post) \<le> max (block (sl_start (hd post))) so" if "block (sl_start (hd post)) = block n \<or> pre = [] \<or>
      block (sl_start (last pre)) \<noteq> block (sl_start (hd post))"
  proof (cases "pre = []")
    case True
    with inv ne show ?thesis by (auto simp: slots_ok_def)
  next
    case False
    then have "slot_linked B joined so (last pre) (hd post)" using inv ne by (auto simp: slots_ok_def successively_append_iff)
    with p [OF False] that False show ?thesis by (auto simp: slot_linked_def split: if_splits)
  qed
  have diff: "block (sl_start (hd post)) \<noteq> block n"
  proof
    assume "block (sl_start (hd post)) = block n"
    with first have "sl_start (hd post) \<le> max (block n) so" by simp
    with post [OF ne] nb(1) lim(1) show False by simp
  qed
  have later: "block_end n \<le> block (sl_start (hd post))" by (rule block_later [OF post [OF ne]]) (use diff in simp)
  have "sl_start (hd post) \<le> max (block (sl_start (hd post))) so"
  proof (cases "pre = []")
    case False
    have "block_end (sl_start (last pre)) \<le> block n" using p [OF False] by simp
    then have "block (sl_start (last pre)) \<noteq> block (sl_start (hd post))"
      using later nb block_bounds [of "sl_start (last pre)"] by linarith
    then show ?thesis by (intro first) simp
  qed (use first in simp)
  with diff later block_bounds(1) [of "sl_start (hd post)"] show "block (sl_start (hd post)) \<noteq> block n \<and>
    sl_start (hd post) \<le> max (block (sl_start (hd post))) so \<and> block_end n \<le> sl_start (hd post)" by simp
qed

definition write_ok :: "cursors \<Rightarrow> nat \<Rightarrow> request \<Rightarrow> bool" where
  "write_ok cur mr r \<longleftrightarrow> cu_start_offset cur \<le> rq_offset r \<and> rq_offset r + length (rq_data r) \<le> mr \<and> mr < 2 ^ 62 \<and>
     mr \<le> cu_final_offset cur \<and> cu_final_offset cur < 2 ^ 64"

lemma write_ok_after: "write_ok cur mr r \<Longrightarrow> k \<le> length (rq_data r) \<Longrightarrow> write_ok cur mr (rq_after k r)"
  by (auto simp: write_ok_def)

lemma alloc_step:
  assumes ok: "bytes_mut_ok B joined" and inv: "slots_ok B joined (cu_start_offset cur) mr (cu_final_offset cur) (pre @ post)"
    and w: "write_ok cur mr r" and ne: "rq_data r \<noteq> []"
    and pre: "pre \<noteq> [] \<Longrightarrow> sl_end (last pre) \<le> rq_offset r" and post: "post \<noteq> [] \<Longrightarrow> rq_offset r < sl_start (hd post)"
  shows "slots_ok B joined (cu_start_offset cur) mr (cu_final_offset cur) (pre @ allocate_slot B r cur # post)"
    "ss_view B (pre @ allocate_slot B r cur # post) = ss_view B (pre @ post)"
    "sl_start (allocate_slot B r cur) \<le> rq_offset r" "rq_offset r < sl_end (allocate_slot B r cur)"
proof -
  let ?o = "rq_offset r" and ?n = "length (rq_data r)" and ?so = "cu_start_offset cur" and ?fin = "cu_final_offset cur"
  define a where "a = allocate_slot B r cur"
  have pos: "0 < ?n" using ne by simp
  have lim0: "?so \<le> ?o" "?o + ?n \<le> mr" "mr \<le> ?fin" "?fin < 2 ^ 64" "mr < 2 ^ 62" using w by (auto simp: write_ok_def)
  have lim: "?so \<le> ?o" "?o + ?n \<le> mr" "mr \<le> ?fin" "?fin < 2 ^ 64" "?o < mr" "mr < 2 ^ 62" "?o < ?fin" "0 < ?n"
    using lim0 pos by linarith+
  have b: "block ?o \<le> ?o" "?o < block_end ?o" "block_end ?o \<le> ?o + 65536"
    using block_bounds [of ?o] allocation_size_le [of ?o] by (auto simp: block_end_def)
  have start: "sl_start a = max (block ?o) ?so"
    and end': "sl_end a = (if ?fin = ?o + ?n then min (block_end ?o) ?fin else block_end ?o)"
    and data: "sl_data a = bm_with_capacity B (sl_end a - sl_start a)"
    using allocate_slot_eq [of cur r B] lim unfolding a_def Let_def by (auto simp del: max.absorb1 max.absorb2 min.absorb1 min.absorb2)
  have se: "sl_start a \<le> ?o" "?o < sl_end a" "sl_end a \<le> block_end ?o" using start end' lim b by (auto simp: min_def)
  have blk: "block (sl_start a) = block ?o" "block_end (sl_start a) = block_end ?o"
    by (rule block_same; use start se(1) b in auto)+
  have empty: "bm_as_slice B (sl_data a) = []" "length (bm_spare B (sl_data a)) = sl_end a - sl_start a"
    using bm_with_capacity_ok [OF ok] data by metis+
  have "sl_start a < mr" "sl_end a < 2 ^ 63" "?so \<le> sl_start a" "sl_start a < sl_end a" using se lim(5,6) b(3) start by simp_all
  then have placed: "slot_placed B ?so mr a"
    using se(3) empty blk(2) by (simp add: slot_placed_def slot_wf_def slot_end_view [OF ok])
  have apart: "pre \<noteq> [] \<Longrightarrow> block (sl_start (last pre)) \<noteq> block ?o \<and> sl_end (last pre) = block_end (sl_start (last pre)) \<and>
      block_end (sl_start (last pre)) \<le> block ?o"
    "post \<noteq> [] \<Longrightarrow> block (sl_start (hd post)) \<noteq> block ?o \<and> sl_start (hd post) \<le> max (block (sl_start (hd post))) ?so \<and>
      block_end ?o \<le> sl_start (hd post)"
    using alloc_apart [OF ok inv lim(1) lim(7)] pre post by blast+
  have link_pre: "slot_linked B joined ?so (last pre) a" if "pre \<noteq> []"
    using apart(1) [OF that] blk start by (simp add: slot_linked_def le_max_iff_disj)
  have link_post: "slot_linked B joined ?so a (hd post) \<and> sl_end a = block_end ?o" if "post \<noteq> []"
  proof -
    have t: "slot_placed B ?so mr (hd post)" using inv that by (auto simp: slots_ok_def)
    have "block_end ?o \<le> ?fin" using apart(2) [OF that] slot_placed_bounds(6) [OF ok t] lim(3) by linarith
    then have "sl_end a = block_end ?o" using end' by simp
    with apart(2) [OF that] blk se show ?thesis by (simp add: slot_linked_def)
  qed
  have "sl_end a = block_end (sl_start a) \<or> ?fin \<le> sl_end a" using end' blk by (simp add: min_def)
  then show "slots_ok B joined ?so mr ?fin (pre @ allocate_slot B r cur # post)"
    unfolding a_def [symmetric] using inv placed link_pre link_post start blk
    by (auto simp: slots_ok_def successively_append_iff successively_Cons hd_append split: if_splits)
  have "slot_view B a = Map.empty" by (simp add: slot_view_def empty)
  then show "ss_view B (pre @ allocate_slot B r cur # post) = ss_view B (pre @ post)" by (simp add: a_def)
  show "sl_start (allocate_slot B r cur) \<le> ?o" "?o < sl_end (allocate_slot B r cur)" using se by (simp_all add: a_def)
qed

section \<open>The loops\<close>

lemma write_reader_with_alloc_spec:
  assumes ok: "bytes_mut_ok B joined" and inv: "slots_ok B joined (cu_start_offset cur) mr (cu_final_offset cur) (pre @ post)"
    and w: "write_ok cur mr r" and pre: "pre \<noteq> []" "rq_data r \<noteq> [] \<Longrightarrow> sl_end (last pre) \<le> rq_offset r"
  shows "\<exists>pre' k fl'. write_reader_with_alloc B cur (pre @ post, r, length pre, fl) = Some (pre' @ post, rq_after k r, length pre', fl') \<and>
    k \<le> length (rq_data r) \<and> length pre \<le> length pre' \<and>
    slots_ok B joined (cu_start_offset cur) mr (cu_final_offset cur) (pre' @ post) \<and>
    ss_view B (pre' @ post) = put_bytes (rq_offset r) (take k (rq_data r)) (ss_view B (pre @ post)) \<and>
    (k < length (rq_data r) \<longrightarrow> post \<noteq> [] \<and> sl_start (hd post) \<le> rq_offset r + k) \<and> (fl \<longrightarrow> fl')"
  using inv w pre
proof (induction "length (rq_data r)" arbitrary: pre r fl rule: less_induct)
  case less
  show ?case
  proof (cases "rq_data r = [] \<or> post \<noteq> [] \<and> sl_start (hd post) \<le> rq_offset r")
    case True
    then have "write_reader_with_alloc B cur (pre @ post, r, length pre, fl) = Some (pre @ post, r, length pre, fl)"
      by (subst write_reader_with_alloc.simps) (auto simp: hd_conv_nth nth_append)
    with True less.prems show ?thesis by (intro exI [of _ pre] exI [of _ 0] exI [of _ fl]) auto
  next
    case False
    then have ne: "rq_data r \<noteq> []" and post: "post \<noteq> [] \<Longrightarrow> rq_offset r < sl_start (hd post)" by auto
    let ?a = "allocate_slot B r cur"
    note a = alloc_step [OF ok less.prems(1,2) ne less.prems(4) [OF ne] post]
    have mr: "rq_offset r + length (rq_data r) \<le> mr" using less.prems(2) by (simp add: write_ok_def)
    obtain k filled s' fl1 where step: "try_write_reader B r fl ?a = Some (filled, s', rq_after k r, fl1)"
      "k = min (length (rq_data r)) (sl_end ?a - rq_offset r)"
      "slots_ok B joined (cu_start_offset cur) mr (cu_final_offset cur) (pre @ pieces s' filled @ post)"
      "ss_view B (pre @ pieces s' filled @ post) = put_bytes (rq_offset r) (take k (rq_data r)) (ss_view B (pre @ ?a # post))"
      "sl_end (last (pieces s' filled)) = sl_end ?a" "fl \<longrightarrow> fl1"
      using write_step [OF ok a(1,3) mr] by blast
    have k: "0 < k" "k \<le> length (rq_data r)" using step(2) a(4) ne by auto
    let ?pre = "pre @ pieces s' filled"
    have loop: "write_reader_with_alloc B cur (pre @ post, r, length pre, fl) =
        write_reader_with_alloc B cur (?pre @ post, rq_after k r, length ?pre, fl1)"
      by (subst write_reader_with_alloc.simps)
         (use ne post step(1) in \<open>cases filled; cases "post = []"; simp add: ra_insert_def hd_conv_nth nth_append\<close>)
    have shorter: "length (rq_data (rq_after k r)) < length (rq_data r)" using k by simp
    have inv': "slots_ok B joined (cu_start_offset cur) mr (cu_final_offset cur) (?pre @ post)" using step(3) by simp
    have last: "sl_end (last ?pre) \<le> rq_offset (rq_after k r)" if "rq_data (rq_after k r) \<noteq> []"
      using that step(2,5) by (auto simp: min_def split: if_splits)
    obtain pre' j fl' where rec: "write_reader_with_alloc B cur (?pre @ post, rq_after k r, length ?pre, fl1) =
        Some (pre' @ post, rq_after j (rq_after k r), length pre', fl')" "j \<le> length (rq_data (rq_after k r))" "length ?pre \<le> length pre'"
      "slots_ok B joined (cu_start_offset cur) mr (cu_final_offset cur) (pre' @ post)"
      "ss_view B (pre' @ post) = put_bytes (rq_offset (rq_after k r)) (take j (rq_data (rq_after k r))) (ss_view B (?pre @ post))"
      "j < length (rq_data (rq_after k r)) \<longrightarrow> post \<noteq> [] \<and> sl_start (hd post) \<le> rq_offset (rq_after k r) + j" "fl1 \<longrightarrow> fl'"
      using less.hyps [OF shorter inv' write_ok_after [OF less.prems(2) k(2)] _ last, of fl1] by auto
    have "take (k + j) (rq_data r) = take k (rq_data r) @ take j (drop k (rq_data r))" by (simp add: take_add)
    then have view: "ss_view B (pre' @ post) = put_bytes (rq_offset r) (take (k + j) (rq_data r)) (ss_view B (pre @ post))"
      using rec(5) step(4) a(2) k(2) by (simp add: put_bytes_append min_absorb2)
    show ?thesis
      by (rule exI [of _ pre'], rule exI [of _ "k + j"], rule exI [of _ fl'])
         (use loop rec(1-4,6,7) view step(6) k(2) in \<open>auto simp: add.assoc\<close>)
  qed
qed

lemma write_reader_at_loop_spec:
  assumes ok: "bytes_mut_ok B joined" and inv: "slots_ok B joined (cu_start_offset cur) mr (cu_final_offset cur) (pre @ s # post)"
    and w: "write_ok cur mr r" and at: "sl_start s \<le> rq_offset r" and ne: "rq_data r \<noteq> []"
  shows "\<exists>slots r' idx fl'. write_reader_at_loop B cur (pre @ s # post, r, length pre, fl) = Some (slots, r', idx, fl') \<and>
    length pre \<le> idx \<and> idx \<le> length slots \<and> slots_ok B joined (cu_start_offset cur) mr (cu_final_offset cur) slots \<and>
    ss_view B slots = put_bytes (rq_offset r) (rq_data r) (ss_view B (pre @ s # post))"
  using inv w at ne
proof (induction "length post" arbitrary: pre s post r fl rule: less_induct)
  case less
  have mr: "rq_offset r + length (rq_data r) \<le> mr" using less.prems(2) by (simp add: write_ok_def)
  obtain k filled s' fl1 where step: "try_write_reader B r fl s = Some (filled, s', rq_after k r, fl1)"
    "k = min (length (rq_data r)) (sl_end s - rq_offset r)"
    "slots_ok B joined (cu_start_offset cur) mr (cu_final_offset cur) (pre @ pieces s' filled @ post)"
    "ss_view B (pre @ pieces s' filled @ post) = put_bytes (rq_offset r) (take k (rq_data r)) (ss_view B (pre @ s # post))"
    "sl_end (last (pieces s' filled)) = sl_end s" "fl \<longrightarrow> fl1"
    using write_step [OF ok less.prems(1,3) mr] by blast
  let ?pre = "pre @ pieces s' filled"
  have loop: "write_reader_at_loop B cur (pre @ s # post, r, length pre, fl) =
      (if rq_data (rq_after k r) = [] then Some (?pre @ post, rq_after k r, length ?pre, fl1)
       else Option.bind (write_reader_with_alloc B cur (?pre @ post, rq_after k r, length ?pre, fl1)) (write_reader_at_loop B cur))"
    by (subst write_reader_at_loop.simps)
       (use less.prems(4) step(1) in \<open>cases filled; simp add: vec_get_def ra_insert_def nth_append\<close>)
  have k: "k \<le> length (rq_data r)" using step(2) by simp
  show ?case
  proof (cases "rq_data (rq_after k r) = []")
    case True
    then have "take k (rq_data r) = rq_data r" by simp
    with step(3,4) loop True show ?thesis
      by (intro exI [of _ "?pre @ post"] exI [of _ "rq_after k r"] exI [of _ "length ?pre"] exI [of _ fl1]) simp
  next
    case False
    have last: "sl_end (last ?pre) \<le> rq_offset (rq_after k r)" using False step(2,5) by (auto simp: min_def split: if_splits)
    have inv': "slots_ok B joined (cu_start_offset cur) mr (cu_final_offset cur) (?pre @ post)" using step(3) by simp
    obtain pre' j fl2 where alloc: "write_reader_with_alloc B cur (?pre @ post, rq_after k r, length ?pre, fl1) =
        Some (pre' @ post, rq_after j (rq_after k r), length pre', fl2)" "j \<le> length (rq_data (rq_after k r))" "length ?pre \<le> length pre'"
      "slots_ok B joined (cu_start_offset cur) mr (cu_final_offset cur) (pre' @ post)"
      "ss_view B (pre' @ post) = put_bytes (rq_offset (rq_after k r)) (take j (rq_data (rq_after k r))) (ss_view B (?pre @ post))"
      "j < length (rq_data (rq_after k r)) \<longrightarrow> post \<noteq> [] \<and> sl_start (hd post) \<le> rq_offset (rq_after k r) + j"
      using write_reader_with_alloc_spec [OF ok inv' write_ok_after [OF less.prems(2) k] _ last, of fl1] by auto
    let ?r = "rq_after (k + j) r"
    have "take (k + j) (rq_data r) = take k (rq_data r) @ take j (drop k (rq_data r))" by (simp add: take_add)
    then have view: "ss_view B (pre' @ post) = put_bytes (rq_offset r) (take (k + j) (rq_data r)) (ss_view B (pre @ s # post))"
      using alloc(5) step(4) k by (simp add: put_bytes_append min_absorb2)
    show ?thesis
    proof (cases "rq_data ?r = []")
      case True
      then have "take (k + j) (rq_data r) = rq_data r" by simp
      moreover have "write_reader_at_loop B cur (pre' @ post, ?r, length pre', fl2) = Some (pre' @ post, ?r, length pre', fl2)"
        by (subst write_reader_at_loop.simps) (use True in simp)
      ultimately show ?thesis using loop False alloc(1,3,4) view
        by (intro exI [of _ "pre' @ post"] exI [of _ ?r] exI [of _ "length pre'"] exI [of _ fl2]) simp
    next
      case left: False
      then have lt: "j < length (rq_data (rq_after k r))" by simp
      then obtain t ts where post: "post = t # ts" "sl_start t \<le> rq_offset ?r" using alloc(6) by (cases post) (auto simp: add.assoc)
      have kj: "k + j \<le> length (rq_data r)" using lt k by simp
      obtain slots r' idx fl' where rec: "write_reader_at_loop B cur (pre' @ t # ts, ?r, length pre', fl2) = Some (slots, r', idx, fl')"
        "length pre' \<le> idx" "idx \<le> length slots" "slots_ok B joined (cu_start_offset cur) mr (cu_final_offset cur) slots"
        "ss_view B slots = put_bytes (rq_offset ?r) (rq_data ?r) (ss_view B (pre' @ t # ts))"
        using less.hyps [of ts pre' t ?r fl2] alloc(4) write_ok_after [OF less.prems(2) kj] post left by auto
      have "put_bytes (rq_offset ?r) (rq_data ?r) (put_bytes (rq_offset r) (take (k + j) (rq_data r)) (ss_view B (pre @ s # post))) =
          put_bytes (rq_offset r) (rq_data r) (ss_view B (pre @ s # post))"
        using put_bytes_take_drop [of "rq_offset r" "k + j" "rq_data r"] kj by (simp add: min_absorb2)
      with rec loop False alloc(1,3) view post(1) show ?thesis
        by (intro exI [of _ slots] exI [of _ r'] exI [of _ idx] exI [of _ fl']) simp
    qed
  qed
qed

end
