(* ===== verification/ReassemblerLaws.thy ===== *)
theory ReassemblerLaws
  imports ReassemblerWrite
begin

text \<open>
  What every operation of the reassembler does to the bytes it holds.
\<close>

section \<open>Merging slots\<close>

lemma block_end_cong: "block x = block y \<Longrightarrow> block_end x = block_end y"
proof -
  have half: "block_end x = block_end y" if "x \<le> y" "block x = block y" for x y
    by (rule block_same(2)) (use block_bounds [of x] block_bounds [of y] that in linarith)+
  show "block x = block y \<Longrightarrow> block_end x = block_end y" using half [of x y] half [of y x] by (metis nle_le)
qed

lemma slots_ok_replace:
  assumes inv: "slots_ok B joined so mr fin (pre @ s # t # post)"
    and u: "slot_placed B so mr u" "sl_start u = sl_start s" "sl_end u = sl_end t" "bm_as_slice B (sl_data u) \<noteq> []"
      "block (sl_start t) = block (sl_start s)"
    and j: "\<And>c. joined c (sl_data s) \<Longrightarrow> joined c (sl_data u)" "\<And>c. joined (sl_data t) c \<Longrightarrow> joined (sl_data u) c"
  shows "slots_ok B joined so mr fin (pre @ u # post)"
proof -
  have bend: "block_end (sl_start t) = block_end (sl_start s)" by (rule block_end_cong [OF u(5)])
  have "slot_linked B joined so x u" if "slot_linked B joined so x s" for x
    using that u(2,4) j(1) unfolding slot_linked_def by (cases "block (sl_start x) = block (sl_start s)") simp_all
  moreover have "slot_linked B joined so u y" if "slot_linked B joined so t y" for y
    using that u(2,3,5) bend j(2) unfolding slot_linked_def by (cases "block (sl_start t) = block (sl_start y)") simp_all
  ultimately show ?thesis using inv u bend
    unfolding slots_ok_def by (auto simp: successively_append_iff successively_Cons hd_append split: if_splits)
qed

lemma unsplit_at_spec:
  assumes ok: "bytes_mut_ok B joined" and inv: "slots_ok B joined so mr fin slots" and idx: "idx < length slots"
  shows "\<exists>slots'. unsplit_at B idx slots = Some slots' \<and> idx < length slots' \<and> slots_ok B joined so mr fin slots' \<and>
    ss_view B slots' = ss_view B slots"
proof (cases "slot_is_full B (slots ! idx) \<and> idx + 1 < length slots \<and> sl_start (slots ! (idx + 1)) = slot_end B (slots ! idx) \<and>
    block (sl_start (slots ! idx)) = block (sl_start (slots ! (idx + 1)))")
  case False
  then have "unsplit_at B idx slots = Some slots"
    using idx by (auto simp: unsplit_at_def vec_get_def block_def Let_def)
  with inv idx show ?thesis by blast
next
  case True
  define pre post s t where "pre = take idx slots" and "post = drop (idx + 2) slots" and "s = slots ! idx" and "t = slots ! (idx + 1)"
  have m: "slot_is_full B s" "idx + 1 < length slots" "sl_start t = slot_end B s" "block (sl_start s) = block (sl_start t)"
    using True by (simp_all add: s_def t_def)
  have slots: "slots = pre @ s # t # post" and len: "length pre = idx"
    using m(2) by (simp_all add: pre_def post_def s_def t_def Cons_nth_drop_Suc)
  have placed: "slot_placed B so mr s" "slot_placed B so mr t" using inv unfolding slots by (auto simp: slots_ok_def)
  note sb = slot_placed_bounds [OF ok placed(1)] and tb = slot_placed_bounds [OF ok placed(2)]
  have "slot_linked B joined so s t" using inv unfolding slots by (auto simp: slots_ok_def successively_append_iff successively_Cons)
  then have l: "sl_end s = sl_start t" "joined (sl_data s) (sl_data t)" "bm_as_slice B (sl_data t) \<noteq> []" using m(4) by (simp_all add: slot_linked_def)
  obtain u where u: "slot_unsplit B t s = Some u" "slot_wf B u" "sl_start u = sl_start s" "sl_end u = sl_end t"
    "bm_as_slice B (sl_data u) \<noteq> []" "slot_view B u = slot_view B t ++ slot_view B s"
    "\<And>c. joined c (sl_data s) \<Longrightarrow> joined c (sl_data u)" "\<And>c. joined (sl_data t) c \<Longrightarrow> joined (sl_data u) c"
    using slot_unsplit_spec [OF ok sb(1) tb(1) m(1) l] by blast
  have un: "unsplit_at B idx slots = Some (pre @ u # post)"
    using m u(1) by (simp add: unsplit_at_def vec_get_def block_def slots len [symmetric] nth_append vec_remove_def list_update_append)
  have dom: "{sl_start u..<slot_end B u} = {sl_start s..<slot_end B s} \<union> {sl_start t..<slot_end B t}"
    using arg_cong [OF u(6), of dom] by (simp add: dom_slot_view [OF ok])
  have "slot_end B u \<le> mr"
  proof (cases "slot_end B u = sl_start u")
    case False
    then have "slot_end B u - 1 \<in> {sl_start u..<slot_end B u}" using slot_wf_end [OF ok u(2)] by auto
    then show ?thesis unfolding dom using sb(5) tb(5) by auto
  qed (use u(3) sb(6) in simp)
  then have "slot_placed B so mr u" using u(2-4) placed tb(4) block_end_cong [OF m(4)] by (simp add: slot_placed_def)
  then have "slots_ok B joined so mr fin (pre @ u # post)"
    by (rule slots_ok_replace [OF inv [unfolded slots]]) (use u m(4) in auto)
  with un u(6) len show ?thesis by (simp add: slots map_add_assoc)
qed

lemma unsplit_loop_spec:
  assumes ok: "bytes_mut_ok B joined" and "slots_ok B joined so mr fin slots" "hi \<le> length slots"
  shows "\<exists>slots'. unsplit_loop B (rev [lo..<hi]) slots = Some slots' \<and> slots_ok B joined so mr fin slots' \<and> ss_view B slots' = ss_view B slots"
  using assms(2,3)
proof (induction "hi - lo" arbitrary: hi slots)
  case (Suc n)
  then obtain j where hi: "hi = Suc j" "lo \<le> j" by (cases hi) auto
  obtain slots' where s: "unsplit_at B j slots = Some slots'" "j < length slots'" "slots_ok B joined so mr fin slots'" "ss_view B slots' = ss_view B slots"
    using unsplit_at_spec [OF ok Suc.prems(1), of j] Suc.prems(2) hi by auto
  have "rev [lo..<hi] = j # rev [lo..<j]" using hi by simp
  with Suc.hyps(1) [of j slots'] Suc.hyps(2) hi s show ?case by auto
qed simp

section \<open>Writing a request\<close>

lemma write_reader_at_spec:
  assumes ok: "bytes_mut_ok B joined" and inv: "slots_ok B joined (cu_start_offset cur) mr (cu_final_offset cur) slots"
    and w: "write_ok cur mr r" and idx: "idx < length slots" and at: "sl_start (slots ! idx) \<le> rq_offset r" and ne: "rq_data r \<noteq> []"
  shows "\<exists>slots'. write_reader_at B cur r idx slots = Some slots' \<and> slots_ok B joined (cu_start_offset cur) mr (cu_final_offset cur) slots' \<and>
    ss_view B slots' = put_bytes (rq_offset r) (rq_data r) (ss_view B slots)"
proof -
  obtain pre s post where slots: "slots = pre @ s # post" "length pre = idx"
    using id_take_nth_drop [OF idx] idx by (metis length_take min_absorb2 less_imp_le)
  then have s: "slots ! idx = s" by auto
  obtain slots1 r' idx' fl' where loop: "write_reader_at_loop B cur (slots, r, idx, False) = Some (slots1, r', idx', fl')"
    "idx' \<le> length slots1" "slots_ok B joined (cu_start_offset cur) mr (cu_final_offset cur) slots1"
    "ss_view B slots1 = put_bytes (rq_offset r) (rq_data r) (ss_view B slots)"
    using write_reader_at_loop_spec [OF ok inv [unfolded slots(1)] w at [unfolded s] ne, of False] by (auto simp: slots)
  obtain slots2 where "unsplit_loop B (rev [idx..<idx']) slots1 = Some slots2"
    "slots_ok B joined (cu_start_offset cur) mr (cu_final_offset cur) slots2" "ss_view B slots2 = ss_view B slots1"
    using unsplit_loop_spec [OF ok loop(3,2)] by blast
  with loop ne show ?thesis by (cases fl') (auto simp: write_reader_at_def assume_that_def unsplit_range_def)
qed

lemma select_slot_spec:
  "select_slot off n slots = Some idx \<Longrightarrow> idx < n \<and> sl_start (slots ! idx) \<le> off"
  "select_slot off n slots = None \<Longrightarrow> i < n \<Longrightarrow> off < sl_start (slots ! i)"
  by (induction n) (auto split: if_splits simp: less_Suc_eq)

lemma write_reader_impl_spec:
  fixes self :: "'b reassembler"
  defines "cur \<equiv> ra_cursors self"
  assumes ok: "bytes_mut_ok B joined" and inv: "slots_ok B joined (cu_start_offset cur) mr (cu_final_offset cur) (ra_slots self)"
    and w: "rq_data r \<noteq> [] \<Longrightarrow> write_ok cur mr r"
  shows "\<exists>slots'. write_reader_impl B r self = Some (self\<lparr>ra_slots := slots'\<rparr>) \<and>
    slots_ok B joined (cu_start_offset cur) mr (cu_final_offset cur) slots' \<and>
    ss_view B slots' = put_bytes (rq_offset r) (rq_data r) (ss_view B (ra_slots self))"
proof (cases "rq_data r = []")
  case True
  with inv show ?thesis by (intro exI [of _ "ra_slots self"]) (simp add: write_reader_impl_def)
next
  case ne: False
  let ?slots = "ra_slots self"
  note w = w [OF ne]
  show ?thesis
  proof (cases "select_slot (rq_offset r) (length ?slots) ?slots")
    case (Some idx)
    note sel = select_slot_spec(1) [OF Some]
    obtain slots' where s: "write_reader_at B cur r idx ?slots = Some slots'" "slots_ok B joined (cu_start_offset cur) mr (cu_final_offset cur) slots'"
      "ss_view B slots' = put_bytes (rq_offset r) (rq_data r) (ss_view B ?slots)"
      using write_reader_at_spec [OF ok inv w _ _ ne, of idx] sel by auto
    with Some ne show ?thesis by (auto simp: write_reader_impl_def cur_def)
  next
    case None
    have post: "rq_offset r < sl_start (hd ?slots)" if "?slots \<noteq> []"
      using select_slot_spec(2) [OF None, of 0] that by (simp add: hd_conv_nth)
    let ?a = "allocate_slot B r cur"
    have mr: "rq_offset r + length (rq_data r) \<le> mr" using w by (simp add: write_ok_def)
    have a: "slots_ok B joined (cu_start_offset cur) mr (cu_final_offset cur) ([] @ ?a # ?slots)" "ss_view B (?a # ?slots) = ss_view B ?slots"
      "sl_start ?a \<le> rq_offset r"
      using alloc_step [of B joined cur mr "[]" ?slots r, OF ok _ w ne _ post] inv by auto
    obtain k filled s' fl1 where step: "try_write_reader B r True ?a = Some (filled, s', rq_after k r, fl1)"
      "k = min (length (rq_data r)) (sl_end ?a - rq_offset r)"
      "slots_ok B joined (cu_start_offset cur) mr (cu_final_offset cur) (pieces s' filled @ ?slots)"
      "ss_view B (pieces s' filled @ ?slots) = put_bytes (rq_offset r) (take k (rq_data r)) (ss_view B ?slots)"
      "sl_end (last (pieces s' filled)) = sl_end ?a"
      using write_step [OF ok a(1,3) mr, of True] a(2) by auto
    have k: "k \<le> length (rq_data r)" using step(2) by simp
    let ?n = "length (pieces s' filled) - 1" and ?slots' = "pieces s' filled @ ?slots" and ?r = "rq_after k r"
    have impl: "write_reader_impl B r self = map_option (\<lambda>slots. self\<lparr>ra_slots := slots\<rparr>)
        (if rq_data ?r = [] then Some ?slots' else write_reader_at B cur ?r ?n ?slots')"
      using ne None step(1) by (cases filled) (simp_all add: write_reader_impl_def cur_def)
    show ?thesis
    proof (cases "rq_data ?r = []")
      case True
      then have "take k (rq_data r) = rq_data r" by simp
      with impl True step(3,4) show ?thesis by auto
    next
      case False
      have "?slots' ! ?n = last (pieces s' filled)" by (cases filled) auto
      moreover have "last (pieces s' filled) \<in> set ?slots'" by (cases filled) auto
      then have "slot_placed B (cu_start_offset cur) mr (last (pieces s' filled))" using step(3) by (simp add: slots_ok_def)
      then have "sl_start (last (pieces s' filled)) \<le> rq_offset ?r"
        using slot_placed_bounds(3) [OF ok] step(2,5) False by (fastforce simp: min_def split: if_splits)
      ultimately have at: "sl_start (?slots' ! ?n) \<le> rq_offset ?r" by simp
      have idx: "?n < length ?slots'" by (cases filled) auto
      obtain slots2 where "write_reader_at B cur ?r ?n ?slots' = Some slots2" "slots_ok B joined (cu_start_offset cur) mr (cu_final_offset cur) slots2"
        "ss_view B slots2 = put_bytes (rq_offset ?r) (rq_data ?r) (ss_view B ?slots')"
        using write_reader_at_spec [OF ok step(3) write_ok_after [OF w k] idx at False] by blast
      moreover have "put_bytes (rq_offset ?r) (rq_data ?r) (ss_view B ?slots') = put_bytes (rq_offset r) (rq_data r) (ss_view B ?slots)"
        unfolding step(4) using put_bytes_take_drop [of "rq_offset r" k "rq_data r"] k by (simp add: min_absorb2)
      ultimately show ?thesis using impl False by auto
    qed
  qed
qed

section \<open>The state\<close>

abbreviation ra_max :: "'b reassembler \<Rightarrow> nat" where
  "ra_max self \<equiv> cu_max_recv_offset (ra_cursors self)"

abbreviation ra_fin :: "'b reassembler \<Rightarrow> nat" where
  "ra_fin self \<equiv> cu_final_offset (ra_cursors self)"

definition ra_wf :: "'b bytes_mut \<Rightarrow> ('b \<Rightarrow> 'b \<Rightarrow> bool) \<Rightarrow> 'b reassembler \<Rightarrow> bool" where
  "ra_wf B joined self \<longleftrightarrow> slots_ok B joined (ra_start self) (ra_max self) (ra_fin self) (ra_slots self) \<and>
     ra_start self \<le> ra_max self \<and> ra_max self \<le> ra_fin self \<and> ra_max self < 2 ^ 62 \<and>
     (ra_fin self = UNKNOWN_FINAL_SIZE \<or> ra_fin self < 2 ^ 62)"

definition ra_view :: "'b bytes_mut \<Rightarrow> 'b reassembler \<Rightarrow> nat \<Rightarrow> u8 option" where
  "ra_view B self = ss_view B (ra_slots self)"

lemma ra_new_wf: "ra_wf B joined reassembler_new" "ra_view B reassembler_new = Map.empty"
  by (simp_all add: ra_wf_def ra_view_def reassembler_new_def cursors_default_def slots_ok_def UNKNOWN_FINAL_SIZE_def)

lemma ra_view_below:
  assumes "bytes_mut_ok B joined" "ra_wf B joined self" "n < ra_start self"
  shows "ra_view B self n = None"
  unfolding ra_view_def
proof (rule ss_view_None)
  fix s assume "s \<in> set (ra_slots self)"
  then have "ra_start self \<le> sl_start s" using assms(2) by (auto simp: ra_wf_def slots_ok_def slot_placed_def)
  with assms(3) show "slot_view B s n = None" by (simp add: slot_view_None [OF assms(1)])
qed

lemma ra_final_size_eq: "ra_final_size self = None \<longleftrightarrow> cu_final_offset (ra_cursors self) = UNKNOWN_FINAL_SIZE"
  "ra_final_size self = Some f \<longleftrightarrow> cu_final_offset (ra_cursors self) = f \<and> f \<noteq> UNKNOWN_FINAL_SIZE"
  by (auto simp: ra_final_size_def cursors_final_size_def)

text \<open>When the end of a write contradicts what is known of the final size.\<close>

definition fin_conflict :: "'b reassembler \<Rightarrow> nat \<Rightarrow> bool \<Rightarrow> bool" where
  "fin_conflict self e is_fin \<longleftrightarrow>
     (case ra_final_size self of None \<Rightarrow> is_fin \<and> e < ra_max self | Some f \<Rightarrow> if is_fin then e \<noteq> f else f < e)"

lemma check_reader_fin_spec:
  assumes "rq_offset r + length (rq_data r) < 2 ^ 62"
  shows "check_reader_fin r (ra_cursors self) = (let e = rq_offset r + length (rq_data r) in
    if fin_conflict self e (rq_is_fin r) then Inl InvalidFin
    else Inr ((ra_cursors self)\<lparr>cu_max_recv_offset := max (ra_max self) e,
      cu_final_offset := (if rq_is_fin r then e else cu_final_offset (ra_cursors self))\<rparr>))"
proof -
  have max: "unat MAX_VARINT_VALUE = 2 ^ 62 - 1" by (simp add: MAX_VARINT_VALUE_def)
  have small: "\<not> unat MAX_VARINT_VALUE < rq_offset r + length (rq_data r)" unfolding max using assms by linarith
  have max_f: "max m f = f" if "m \<le> f" for m f :: nat using that by simp
  show ?thesis
    using small assms
    by (auto simp: check_reader_fin_def fin_conflict_def ra_final_size_def rq_final_offset_def cursors_final_size_def ensure_def rbind_def Let_def
        split: option.splits if_splits)
qed

lemma checked_add_usize_None:
  assumes "n \<le> usize_max"
  shows "varint_checked_add_usize v n = None \<longleftrightarrow> 2 ^ 62 \<le> unat v + n"
proof (cases "n < 2 ^ 62")
  case True
  then have "unat (word_of_nat n :: u64) = n" by (simp add: unat_of_nat_no_wrap)
  with True show ?thesis by (simp add: varint_checked_add_usize_def varint_from_usize_Inr result_ok_def varint_checked_add_None)
next
  case False
  then have n: "unat (word_of_nat n :: u64) = n" using assms by (intro unat_of_nat_no_wrap) (simp add: usize_max_def)
  have "varint_from_usize n = Inl VarIntError"
    using False n by (auto simp: varint_from_usize_def varint_new_def word_less_nat_alt MAX_VARINT_VALUE_def)
  with False show ?thesis by (simp add: varint_checked_add_usize_def result_ok_def)
qed

lemma slots_ok_mono:
  assumes "slots_ok B joined so mr fin slots" "mr \<le> mr'" "fin' \<le> fin"
  shows "slots_ok B joined so mr' fin' slots"
  using assms unfolding slots_ok_def slot_placed_def by (auto intro: order_trans)

text \<open>The cursors after an accepted write.\<close>

lemma fin_bounds:
  fixes self :: "'b reassembler"
  assumes wf: "ra_wf B joined self" and e: "e < 2 ^ 62" and no: "\<not> fin_conflict self e is_fin"
  defines "cur \<equiv> (ra_cursors self)\<lparr>cu_max_recv_offset := max (ra_max self) e, cu_final_offset := (if is_fin then e else ra_fin self)\<rparr>"
  shows "max (ra_max self) e \<le> cu_final_offset cur" "cu_final_offset cur \<le> ra_fin self"
    "cu_final_offset cur = UNKNOWN_FINAL_SIZE \<or> cu_final_offset cur < 2 ^ 62" "cu_final_offset cur < 2 ^ 64"
    "cursors_final_size cur = (if is_fin then Some e else ra_final_size self)"
proof -
  have unknown: "UNKNOWN_FINAL_SIZE = 2 ^ 64 - 1" by (simp add: UNKNOWN_FINAL_SIZE_def)
  have w: "ra_max self \<le> ra_fin self" "ra_fin self = UNKNOWN_FINAL_SIZE \<or> ra_fin self < 2 ^ 62" using wf by (simp_all add: ra_wf_def)
  have "max (ra_max self) e \<le> cu_final_offset cur \<and> cu_final_offset cur \<le> ra_fin self \<and>
    (cu_final_offset cur = UNKNOWN_FINAL_SIZE \<or> cu_final_offset cur < 2 ^ 62) \<and>
    cursors_final_size cur = (if is_fin then Some e else ra_final_size self)"
  proof (cases "ra_final_size self")
    case None
    then have f: "ra_fin self = UNKNOWN_FINAL_SIZE" by (simp add: ra_final_size_eq)
    have le: "is_fin \<longrightarrow> ra_max self \<le> e" using no None by (auto simp: fin_conflict_def)
    have "e \<le> 2 ^ 64 - 1" "e \<noteq> 2 ^ 64 - 1" using e by auto
    with f le w(1) None show ?thesis using e by (simp add: cur_def unknown cursors_final_size_def ra_final_size_def)
  next
    case (Some f)
    then have "ra_fin self = f" "f \<noteq> UNKNOWN_FINAL_SIZE" by (simp_all add: ra_final_size_eq)
    with no Some w show ?thesis by (auto simp: cur_def fin_conflict_def cursors_final_size_def ra_final_size_def)
  qed
  then show lim: "max (ra_max self) e \<le> cu_final_offset cur" "cu_final_offset cur \<le> ra_fin self"
    "cu_final_offset cur = UNKNOWN_FINAL_SIZE \<or> cu_final_offset cur < 2 ^ 62"
    "cursors_final_size cur = (if is_fin then Some e else ra_final_size self)" by blast+
  show "cu_final_offset cur < 2 ^ 64" using lim(3) unfolding unknown by (auto intro: less_trans)
qed

lemma write_reader_spec:
  assumes ok: "bytes_mut_ok B joined" and wf: "ra_wf B joined self" and e: "rq_offset r + length (rq_data r) < 2 ^ 62"
  defines "e \<equiv> rq_offset r + length (rq_data r)"
  shows "if fin_conflict self e (rq_is_fin r) then write_reader B r self = Some (Inl InvalidFin, self)
    else \<exists>self'. write_reader B r self = Some (Inr (), self') \<and> ra_wf B joined self' \<and>
      ra_view B self' = (\<lambda>n. if n < ra_start self then None else put_bytes (rq_offset r) (rq_data r) (ra_view B self) n) \<and>
      ra_start self' = ra_start self \<and> ra_max self' = max (ra_max self) e \<and>
      ra_final_size self' = (if rq_is_fin r then Some e else ra_final_size self)"
proof -
  let ?so = "ra_start self" and ?d = "rq_data r" and ?o = "rq_offset r"
  have w: "slots_ok B joined ?so (ra_max self) (ra_fin self) (ra_slots self)" "?so \<le> ra_max self" "ra_max self \<le> ra_fin self"
    "ra_max self < 2 ^ 62" "ra_fin self = UNKNOWN_FINAL_SIZE \<or> ra_fin self < 2 ^ 62" using wf by (simp_all add: ra_wf_def)
  define k where "k = min (length ?d) (?so - ?o)"
  let ?r = "rq_after k r"
  have k: "k \<le> length ?d" by (simp add: k_def)
  have skip: "rq_skip_until ?so r = Some ?r" using rq_skip_until_after [of ?so r] w(2,4) by (simp add: k_def usize_max_def)
  have sum: "rq_offset ?r + length (rq_data ?r) = e" using k by (simp add: e_def)
  define cur where "cur = (ra_cursors self)\<lparr>cu_max_recv_offset := max (ra_max self) e,
      cu_final_offset := (if rq_is_fin r then e else ra_fin self)\<rparr>"
  have check: "check_reader_fin ?r (ra_cursors self) = (if fin_conflict self e (rq_is_fin r) then Inl InvalidFin else Inr cur)"
    using check_reader_fin_spec [of ?r self] e k unfolding sum by (simp add: cur_def e_def Let_def)
  show ?thesis
  proof (cases "fin_conflict self e (rq_is_fin r)")
    case True
    with skip check show ?thesis by (simp add: write_reader_def)
  next
    case False
    let ?self = "self\<lparr>ra_cursors := cur\<rparr>"
    have e62: "e < 2 ^ 62" using e by (simp add: e_def)
    note lim = fin_bounds [OF wf e62 False, folded cur_def]
    have m62: "max (ra_max self) e < 2 ^ 62" using w(4) e62 by simp
    have cs: "cu_start_offset cur = ?so" "cu_max_recv_offset cur = max (ra_max self) e" by (simp_all add: cur_def)
    have inv: "slots_ok B joined (cu_start_offset (ra_cursors ?self)) (max (ra_max self) e) (cu_final_offset (ra_cursors ?self)) (ra_slots ?self)"
      using slots_ok_mono [OF w(1) max.cobounded1 lim(2), of e] cs by simp
    have wok: "write_ok (ra_cursors ?self) (max (ra_max self) e) ?r" if "rq_data ?r \<noteq> []"
      using that cs lim m62 sum by (auto simp: write_ok_def k_def min_def split: if_splits)
    obtain slots' where impl: "write_reader_impl B ?r ?self = Some (?self\<lparr>ra_slots := slots'\<rparr>)"
      "slots_ok B joined ?so (max (ra_max self) e) (cu_final_offset cur) slots'"
      "ss_view B slots' = put_bytes (rq_offset ?r) (rq_data ?r) (ra_view B self)"
      using write_reader_impl_spec [OF ok inv wok] cs by (auto simp: ra_view_def)
    let ?self' = "?self\<lparr>ra_slots := slots'\<rparr>"
    have "put_bytes (rq_offset ?r) (rq_data ?r) (ra_view B self) n = (if n < ?so then None else put_bytes ?o ?d (ra_view B self) n)" for n
      using ra_view_below [OF ok wf, of n] bytes_at_drop [OF k, of ?o n]
      by (auto simp: put_bytes_apply k_def bytes_at_def min_def split: if_splits option.splits)
    then have "ra_view B ?self' = (\<lambda>n. if n < ?so then None else put_bytes ?o ?d (ra_view B self) n)"
      using impl(3) by (simp add: ra_view_def fun_eq_iff)
    moreover have "ra_wf B joined ?self'" using impl(2) cs lim m62 w(2) by (simp add: ra_wf_def)
    moreover have "ra_final_size ?self' = (if rq_is_fin r then Some e else ra_final_size self)" using lim(5) by (simp add: ra_final_size_def)
    moreover have "write_reader B r self = Some (Inr (), ?self')" using skip check False impl(1) by (simp add: write_reader_def)
    ultimately show ?thesis using False cs by auto
  qed
qed

lemma write_request_spec:
  fixes off :: varint
  assumes ok: "bytes_mut_ok B joined" and wf: "ra_wf B joined self" and len: "length xs \<le> usize_max"
  defines "e \<equiv> unat off + length xs"
  shows "if 2 ^ 62 \<le> e then write_request B off xs is_fin self = Some (Inl OutOfRange, self)
    else if fin_conflict self e is_fin then write_request B off xs is_fin self = Some (Inl InvalidFin, self)
    else \<exists>self'. write_request B off xs is_fin self = Some (Inr (), self') \<and> ra_wf B joined self' \<and>
      ra_view B self' = (\<lambda>n. if n < ra_start self then None else put_bytes (unat off) xs (ra_view B self) n) \<and>
      ra_start self' = ra_start self \<and> ra_max self' = max (ra_max self) e \<and>
      ra_final_size self' = (if is_fin then Some e else ra_final_size self)"
proof (cases "2 ^ 62 \<le> e")
  case True
  then have "varint_checked_add_usize off (length xs) = None" using checked_add_usize_None [OF len] by (simp add: e_def)
  with True show ?thesis by (simp add: write_request_def request_new_def)
next
  case False
  then obtain v where "varint_checked_add_usize off (length xs) = Some v"
    using checked_add_usize_None [OF len, of off] by (cases "varint_checked_add_usize off (length xs)") (auto simp: e_def)
  then have wr: "write_request B off xs is_fin self = write_reader B \<lparr>rq_offset = unat off, rq_data = xs, rq_is_fin = is_fin\<rparr> self"
    by (simp add: write_request_def request_new_def)
  show ?thesis
    unfolding wr if_not_P [OF False]
    using write_reader_spec [OF ok wf, of "\<lparr>rq_offset = unat off, rq_data = xs, rq_is_fin = is_fin\<rparr>", unfolded request.simps, folded e_def] False
    by linarith
qed

end
