(* ===== verification/ReassemblerRead.thy ===== *)
theory ReassemblerRead
  imports ReassemblerLaws
begin

text \<open>
  What skipping, reading and asking do: the bytes in front are given away in order, and the rest stays.
\<close>

section \<open>Giving bytes away\<close>

lemma slot_linked_mono: "slot_linked B joined so s t \<Longrightarrow> so \<le> n \<Longrightarrow> slot_linked B joined n s t"
  by (auto simp: slot_linked_def split: if_splits)

lemma slots_ok_tail:
  assumes ok: "bytes_mut_ok B joined" and inv: "slots_ok B joined so mr fin (s # ss)"
  shows "slots_ok B joined (sl_end s) mr fin ss"
proof -
  have sorted: "\<forall>t\<in>set ss. sl_end s \<le> sl_start t" using slots_ok_sorted [OF ok inv] by simp
  have s: "so \<le> sl_start s" "sl_start s < sl_end s" using inv slot_placed_bounds [OF ok, of so mr s] by (auto simp: slots_ok_def)
  have "slot_placed B (sl_end s) mr t" if "t \<in> set ss" for t
    using inv sorted s that by (fastforce simp: slots_ok_def slot_placed_def)
  moreover have "successively (slot_linked B joined (sl_end s)) ss"
    using inv s slot_linked_mono [of B joined so _ _ "sl_end s"]
    by (auto simp: slots_ok_def successively_Cons elim!: successively_mono)
  moreover have "sl_start (hd ss) \<le> max (block (sl_start (hd ss))) (sl_end s)" if "ss \<noteq> []"
    using inv s that by (auto simp: slots_ok_def successively_Cons slot_linked_def split: if_splits)
  ultimately show ?thesis using inv by (auto simp: slots_ok_def)
qed

lemma slots_ok_advance:
  assumes inv: "slots_ok B joined so mr fin ss" and n: "so \<le> n" "\<forall>s\<in>set ss. n \<le> sl_start s"
  shows "slots_ok B joined n mr fin ss"
proof -
  have "slot_placed B n mr t" if "t \<in> set ss" for t
    using inv n that by (fastforce simp: slots_ok_def slot_placed_def)
  moreover have "successively (slot_linked B joined n) ss"
    using inv n(1) slot_linked_mono [of B joined so _ _ n] by (auto simp: slots_ok_def elim!: successively_mono)
  ultimately show ?thesis using inv n(1) by (auto simp: slots_ok_def)
qed

lemma slots_ok_cut:
  assumes ok: "bytes_mut_ok B joined" and inv: "slots_ok B joined so mr fin (s # ss)" and cut: "slot_cut B joined n s s'"
    and n: "sl_start s \<le> n" "n \<le> sl_end s" "n \<le> mr"
  shows "slots_ok B joined n mr fin (if should_drop s' then ss else s' # ss)"
    "ss_view B (if should_drop s' then ss else s' # ss) = ss_view B (s # ss) |` {n..}"
proof -
  have s: "slot_placed B so mr s" using inv by (simp add: slots_ok_def)
  note sb = slot_placed_bounds [OF ok s]
  have c: "sl_start s' = n" "sl_end s' = sl_end s" "slot_view B s' = slot_view B s |` {n..}" using cut by (simp_all add: slot_cut_def)
  have dropped: "should_drop s' \<longleftrightarrow> n = sl_end s" by (simp add: should_drop_def c)
  have sorted: "\<forall>t\<in>set ss. sl_end s \<le> sl_start t" using slots_ok_sorted [OF ok inv] by simp
  have rest: "ss_view B ss i = None" if "i < n" for i
    by (rule ss_view_None) (use sorted n that slot_view_None [OF ok] in fastforce)
  have view: "ss_view B (s # ss) |` {n..} = ss_view B ss ++ slot_view B s'"
    by (rule ext) (use rest in \<open>auto simp: c(3) restrict_map_def map_add_def split: option.splits\<close>)
  have "slots_ok B joined n mr fin (if should_drop s' then ss else s' # ss) \<and>
    ss_view B (if should_drop s' then ss else s' # ss) = ss_view B (s # ss) |` {n..}"
  proof (cases "n = sl_end s")
    case True
    have "slot_view B s' = Map.empty"
      using slot_wf_end [OF ok sb(1)] True by (auto simp: c(3) restrict_map_def fun_eq_iff slot_view_None [OF ok])
    with slots_ok_tail [OF ok inv] True dropped view show ?thesis by simp
  next
    case False
    then have lt: "n < sl_end s" using n(2) by simp
    then have wf: "slot_wf B s'" and j: "\<And>d. joined (sl_data s) d \<Longrightarrow> joined (sl_data s') d" using cut by (simp_all add: slot_cut_def)
    note blk = slot_block [OF ok s n(1) lt]
    have "slot_end B s' \<le> mr"
    proof (cases "slot_end B s' = n")
      case ne: False
      then have "slot_end B s' - 1 \<in> dom (slot_view B s')" using slot_wf_end [OF ok wf] by (auto simp: dom_slot_view [OF ok] c(1))
      then have "slot_end B s' - 1 < slot_end B s" using dom_slot_view [OF ok, of s] by (auto simp: c(3))
      with sb(5) show ?thesis by simp
    qed (use n(3) in simp)
    then have placed: "slot_placed B n mr s'" using wf blk sb(4) by (simp add: slot_placed_def c)
    have link: "slot_linked B joined n s' t" if "slot_linked B joined so s t" for t
      using slot_linked_mono [OF that, of n] n(1) sb(2) blk j unfolding slot_linked_def c by auto
    have others: "slot_placed B n mr t" if "t \<in> set ss" for t
      using inv sorted lt sb(2,3) that by (fastforce simp: slots_ok_def slot_placed_def)
    have succ: "successively (slot_linked B joined n) ss"
      using inv n(1) sb(2) slot_linked_mono [of B joined so _ _ n] by (auto simp: slots_ok_def successively_Cons elim!: successively_mono)
    have "slots_ok B joined n mr fin (s' # ss)"
      using inv placed others succ link blk c unfolding slots_ok_def by (auto simp: successively_Cons split: if_splits)
    with False dropped view show ?thesis by simp
  qed
  then show "slots_ok B joined n mr fin (if should_drop s' then ss else s' # ss)"
    "ss_view B (if should_drop s' then ss else s' # ss) = ss_view B (s # ss) |` {n..}" by blast+
qed

section \<open>Skipping\<close>

lemma skip_slots_spec:
  assumes ok: "bytes_mut_ok B joined" and "slots_ok B joined so mr fin ss" "so \<le> n" "n \<le> mr"
  shows "\<exists>ss'. skip_slots B n ss = Some ss' \<and> slots_ok B joined n mr fin ss' \<and> ss_view B ss' = ss_view B ss |` {n..}"
  using assms(2,3)
proof (induction ss arbitrary: so)
  case Nil
  then show ?case by (simp add: slots_ok_def)
next
  case (Cons s ss)
  note inv = Cons.prems(1)
  have s: "slot_placed B so mr s" using inv by (simp add: slots_ok_def)
  note sb = slot_placed_bounds [OF ok s]
  show ?case
  proof (cases "sl_end s < n")
    case True
    then have "slot_view B s |` {n..} = Map.empty"
      using slot_wf_end [OF ok sb(1)] by (auto simp: restrict_map_def fun_eq_iff slot_view_None [OF ok])
    then have "ss_view B (s # ss) |` {n..} = ss_view B ss |` {n..}"
      by (auto simp: restrict_map_def map_add_def fun_eq_iff split: option.splits) (metis option.distinct(1))
    moreover obtain ss' where "skip_slots B n ss = Some ss'" "slots_ok B joined n mr fin ss'" "ss_view B ss' = ss_view B ss |` {n..}"
      using Cons.IH [OF slots_ok_tail [OF ok inv]] True by auto
    ultimately show ?thesis using True by simp
  next
    case False
    then have n: "n \<le> sl_end s" by simp
    obtain s' where s': "slot_skip_until B n s = Some s'" "if sl_start s \<le> n then slot_cut B joined n s s' else s' = s"
      using slot_skip_until_spec [OF ok sb(1) n] by blast
    show ?thesis
    proof (cases "sl_start s \<le> n")
      case True
      then have cut: "slot_cut B joined n s s'" using s'(2) by simp
      from slots_ok_cut [OF ok inv cut True n assms(4)] show ?thesis using False s'(1) by (cases "should_drop s'") simp_all
    next
      case gt: False
      have later: "\<forall>t\<in>set (s # ss). n \<le> sl_start t" using gt n slots_ok_sorted [OF ok inv] by auto
      then have "ss_view B (s # ss) i = None" if "i < n" for i
        by (intro ss_view_None) (use that slot_view_None [OF ok] in fastforce)
      then have "ss_view B (s # ss) |` {n..} = ss_view B (s # ss)" by (auto simp: restrict_map_def fun_eq_iff map_add_def)
      moreover have "\<not> should_drop s" using sb(3) by (simp add: should_drop_def)
      ultimately show ?thesis using False s' gt slots_ok_advance [OF inv Cons.prems(2) later] by simp
    qed
  qed
qed

lemma ra_skip_spec:
  fixes len :: varint
  assumes ok: "bytes_mut_ok B joined" and wf: "ra_wf B joined self"
  defines "n \<equiv> ra_start self + unat len"
  shows "if unat len = 0 then ra_skip B len self = Some (Inr (), self)
    else if 2 ^ 62 \<le> n then ra_skip B len self = Some (Inl OutOfRange, self)
    else if (\<exists>f. ra_final_size self = Some f \<and> f < n) then ra_skip B len self = Some (Inl InvalidFin, self)
    else \<exists>self'. ra_skip B len self = Some (Inr (), self') \<and> ra_wf B joined self' \<and> ra_view B self' = ra_view B self |` {n..} \<and>
      ra_start self' = n \<and> ra_max self' = max (ra_max self) n \<and> ra_final_size self' = ra_final_size self"
proof -
  have zero: "len > 0 \<longleftrightarrow> unat len \<noteq> 0" by (simp add: unat_eq_zero word_neq_0_conv)
  have far: "n > unat MAX_VARINT_VALUE \<longleftrightarrow> 2 ^ 62 \<le> n" by (simp add: MAX_VARINT_VALUE_def) linarith
  have past: "(case ra_final_size self of None \<Rightarrow> False | Some f \<Rightarrow> f < n) \<longleftrightarrow> (\<exists>f. ra_final_size self = Some f \<and> f < n)"
    by (simp split: option.splits)
  have skip: "ra_skip B len self = (if unat len = 0 then Some (Inr (), self) else if 2 ^ 62 \<le> n then Some (Inl OutOfRange, self)
     else if (\<exists>f. ra_final_size self = Some f \<and> f < n) then Some (Inl InvalidFin, self)
     else map_option (\<lambda>slots. (Inr (), self\<lparr>ra_slots := slots, ra_cursors := (ra_cursors self)\<lparr>cu_max_recv_offset := max (ra_max self) n,
                cu_start_offset := n\<rparr>\<rparr>)) (skip_slots B n (ra_slots self)))"
    unfolding ra_skip_def Let_def zero n_def [symmetric] far past by simp
  have w: "slots_ok B joined (ra_start self) (max (ra_max self) n) (ra_fin self) (ra_slots self)" "ra_max self \<le> ra_fin self" "ra_max self < 2 ^ 62"
    "ra_fin self = UNKNOWN_FINAL_SIZE \<or> ra_fin self < 2 ^ 62"
    using wf slots_ok_mono [of B joined "ra_start self" "ra_max self" "ra_fin self" _ "max (ra_max self) n" "ra_fin self"] by (auto simp: ra_wf_def)
  obtain ss' where ss': "skip_slots B n (ra_slots self) = Some ss'" "slots_ok B joined n (max (ra_max self) n) (ra_fin self) ss'"
    "ss_view B ss' = ra_view B self |` {n..}"
    using skip_slots_spec [OF ok w(1), of n] by (auto simp: n_def ra_view_def)
  have "n \<le> ra_fin self" if "n < 2 ^ 62" "\<not> (\<exists>f. ra_final_size self = Some f \<and> f < n)"
    using that by (cases "ra_final_size self") (auto simp: ra_final_size_eq UNKNOWN_FINAL_SIZE_def)
  with skip ss' w(2-4) show ?thesis
    by (auto simp: ra_wf_def ra_view_def ra_final_size_def cursors_final_size_def)
qed

section \<open>Reading\<close>

text \<open>The bytes \<open>c\<close> were given away from the front.\<close>

definition ra_gave :: "'b bytes_mut \<Rightarrow> ('b \<Rightarrow> 'b \<Rightarrow> bool) \<Rightarrow> u8 list \<Rightarrow> 'b reassembler \<Rightarrow> 'b reassembler \<Rightarrow> bool" where
  "ra_gave B joined c self self' \<longleftrightarrow> ra_wf B joined self' \<and> bytes_at (ra_start self) c \<subseteq>\<^sub>m ra_view B self \<and>
     ra_view B self' = ra_view B self |` {ra_start self + length c..} \<and>
     ra_start self' = ra_start self + length c \<and> ra_max self' = ra_max self \<and> ra_final_size self' = ra_final_size self"

lemma ra_gave_Nil: "bytes_mut_ok B joined \<Longrightarrow> ra_wf B joined self \<Longrightarrow> ra_gave B joined [] self self"
  using ra_view_below [of B joined self] by (auto simp: ra_gave_def restrict_map_def fun_eq_iff)

lemma ra_gave_trans:
  assumes "ra_gave B joined c self s1" "ra_gave B joined d s1 s2"
  shows "ra_gave B joined (c @ d) self s2"
proof -
  have c: "bytes_at (ra_start self) c \<subseteq>\<^sub>m ra_view B self" "ra_view B s1 = ra_view B self |` {ra_start self + length c..}"
    "ra_start s1 = ra_start self + length c" using assms(1) by (simp_all add: ra_gave_def)
  have "bytes_at (ra_start s1) d \<subseteq>\<^sub>m ra_view B s1" using assms(2) by (simp add: ra_gave_def)
  then have "bytes_at (ra_start self + length c) d \<subseteq>\<^sub>m ra_view B self"
    unfolding c(2,3) by (rule map_le_trans) (auto simp: map_le_def)
  with c(1) have "bytes_at (ra_start self) (c @ d) \<subseteq>\<^sub>m ra_view B self"
    by (simp add: bytes_at_append map_add_le_mapI)
  moreover have "{ra_start self + length c..} \<inter> {ra_start self + (length c + length d)..} = {ra_start self + (length c + length d)..}" by auto
  ultimately show ?thesis using assms by (simp add: ra_gave_def add.assoc)
qed

lemma ra_front:
  assumes ok: "bytes_mut_ok B joined" and wf: "ra_wf B joined self"
  shows "ra_view B self (ra_start self) = None \<longleftrightarrow> ra_is_empty B self"
proof (cases "ra_slots self")
  case (Cons s ss)
  have inv: "slots_ok B joined (ra_start self) (ra_max self) (ra_fin self) (s # ss)" using wf Cons by (simp add: ra_wf_def)
  have s: "slot_placed B (ra_start self) (ra_max self) s" using inv by (simp add: slots_ok_def)
  note sb = slot_placed_bounds [OF ok s]
  have "ra_start self < sl_start t" if "t \<in> set ss" for t using that slots_ok_sorted [OF ok inv] sb(2,3) by fastforce
  then have "ss_view B ss (ra_start self) = None" by (intro ss_view_None) (simp add: slot_view_None [OF ok])
  moreover have "slot_view B s (ra_start self) = None \<longleftrightarrow> \<not> slot_is_occupied B (ra_start self) s"
    using sb(2) by (auto simp: slot_view_None [OF ok] slot_end_view [OF ok] slot_is_occupied_def slot_is_empty_def)
  ultimately show ?thesis by (auto simp: ra_view_def ra_is_empty_def Cons map_add_def split: option.splits)
qed (simp add: ra_view_def ra_is_empty_def)

lemma ra_gave_cut:
  assumes ok: "bytes_mut_ok B joined" and wf: "ra_wf B joined self" and slots: "ra_slots self = s # ss" "sl_start s = ra_start self"
    and cut: "slot_cut B joined (sl_start s + length c) s s'" and c: "c = take k (bm_as_slice B (sl_data s))"
  shows "ra_gave B joined c self (self\<lparr>ra_slots := (if should_drop s' then ss else s' # ss),
    ra_cursors := (ra_cursors self)\<lparr>cu_start_offset := ra_start self + length c\<rparr>\<rparr>)"
proof -
  have inv: "slots_ok B joined (ra_start self) (ra_max self) (ra_fin self) (s # ss)" using wf slots by (simp add: ra_wf_def)
  have s: "slot_placed B (ra_start self) (ra_max self) s" using inv by (simp add: slots_ok_def)
  note sb = slot_placed_bounds [OF ok s]
  have n: "sl_start s + length c \<le> slot_end B s" by (simp add: c slot_end_view [OF ok])
  then have le: "sl_start s \<le> sl_start s + length c" "sl_start s + length c \<le> sl_end s" "sl_start s + length c \<le> ra_max self"
    using slot_wf_end [OF ok sb(1)] sb(5) by auto
  have "bytes_at (sl_start s) c \<subseteq>\<^sub>m slot_view B s" by (auto simp: map_le_def c slot_view_def bytes_at_take split: if_splits)
  then have "bytes_at (ra_start self) c \<subseteq>\<^sub>m ra_view B self"
    using map_le_map_add [of "slot_view B s" "ss_view B ss"] unfolding ra_view_def slots(1) slots(2) [symmetric] ss_view_simps by (rule map_le_trans)
  with slots_ok_cut [OF ok inv cut le] wf slots le show ?thesis
    by (simp add: ra_gave_def ra_wf_def ra_view_def ra_final_size_def cursors_final_size_def)
qed

text \<open>A slot that reaches the final offset is the last one; what it holds is all that is left.\<close>

lemma ra_gave_consume:
  assumes ok: "bytes_mut_ok B joined" and wf: "ra_wf B joined self" and slots: "ra_slots self = s # ss" "sl_start s = ra_start self"
    and f: "ra_final_size self = Some f" "f \<le> sl_end s"
  shows "ss = []" "ra_gave B joined (bm_as_slice B (sl_data s)) self (self\<lparr>ra_slots := [],
    ra_cursors := (ra_cursors self)\<lparr>cu_start_offset := ra_start self + length (bm_as_slice B (sl_data s))\<rparr>\<rparr>)"
proof -
  have inv: "slots_ok B joined (ra_start self) (ra_max self) (ra_fin self) (s # ss)" using wf slots by (simp add: ra_wf_def)
  then have s: "slot_placed B (ra_start self) (ra_max self) s" by (simp add: slots_ok_def)
  note sb = slot_placed_bounds [OF ok s]
  have mr: "ra_max self \<le> sl_end s" using wf f by (simp add: ra_wf_def ra_final_size_eq)
  show "ss = []"
  proof (rule ccontr)
    assume "ss \<noteq> []"
    then have t: "hd ss \<in> set ss" by simp
    then have "sl_start (hd ss) < ra_max self \<or> sl_start (hd ss) = ra_start self" using inv by (auto simp: slots_ok_def slot_placed_def)
    with t mr sb(2,3) slots_ok_sorted [OF ok inv] show False by auto
  qed
  moreover have "slot_view B s |` {slot_end B s..} = Map.empty" by (auto simp: restrict_map_def fun_eq_iff slot_view_None [OF ok])
  ultimately show "ra_gave B joined (bm_as_slice B (sl_data s)) self (self\<lparr>ra_slots := [],
    ra_cursors := (ra_cursors self)\<lparr>cu_start_offset := ra_start self + length (bm_as_slice B (sl_data s))\<rparr>\<rparr>)"
    using wf sb(5) slots
    by (auto simp: ra_gave_def ra_wf_def ra_view_def ra_final_size_def cursors_final_size_def slots_ok_def slot_end_view [OF ok] slot_view_def)
qed

lemma ra_read_chunk_spec:
  assumes ok: "bytes_mut_ok B joined" and wf: "ra_wf B joined self" and rd: "ra_read_chunk B w self = (chunk, self')"
  shows "ra_gave B joined (bm_as_slice B chunk) self self'" "length (bm_as_slice B chunk) \<le> w"
    "bm_as_slice B chunk = [] \<longleftrightarrow> w = 0 \<or> ra_view B self (ra_start self) = None"
proof -
  have "ra_gave B joined (bm_as_slice B chunk) self self' \<and> length (bm_as_slice B chunk) \<le> w \<and>
    (bm_as_slice B chunk = [] \<longleftrightarrow> w = 0 \<or> ra_is_empty B self)"
  proof (cases "ra_is_empty B self")
    case True
    then have "chunk = bm_new B" "self' = self" using rd by (auto simp: ra_is_empty_def ra_read_chunk_def split: list.splits)
    with True ra_gave_Nil [OF ok wf] show ?thesis by (simp add: bm_new_ok [OF ok])
  next
    case False
    then obtain s ss where slots: "ra_slots self = s # ss" and occ: "slot_is_occupied B (ra_start self) s"
      by (auto simp: ra_is_empty_def split: list.splits)
    have at: "sl_start s = ra_start self" "bm_as_slice B (sl_data s) \<noteq> []" using occ by (simp_all add: slot_is_occupied_def slot_is_empty_def)
    have inv: "slots_ok B joined (ra_start self) (ra_max self) (ra_fin self) (s # ss)" using wf slots by (simp add: ra_wf_def)
    then have s: "slot_placed B (ra_start self) (ra_max self) s" by (simp add: slots_ok_def)
    note sb = slot_placed_bounds [OF ok s]
    show ?thesis
    proof (cases "(case ra_final_size self of None \<Rightarrow> False | Some f \<Rightarrow> f \<le> sl_end s \<and> w \<ge> bm_len B (sl_data s))")
      case True
      then obtain f where f: "ra_final_size self = Some f" "f \<le> sl_end s" "w \<ge> bm_len B (sl_data s)" by (auto split: option.splits)
      note g = ra_gave_consume [OF ok wf slots at(1) f(1,2)]
      have "chunk = sl_data s" "self' = self\<lparr>ra_slots := [], ra_cursors := (ra_cursors self)\<lparr>cu_start_offset := ra_start self + bm_len B (sl_data s)\<rparr>\<rparr>"
        using rd f occ g(1) by (auto simp: ra_read_chunk_def slots slot_consume_def should_drop_def)
      with g(2) f(3) at(2) False show ?thesis by (cases w) (auto simp: bm_len_ok(1) [OF ok])
    next
      case no: False
      obtain s' where sc: "slot_read_chunk B w s = (chunk, s')"
        "self' = self\<lparr>ra_slots := (if should_drop s' then ss else s' # ss), ra_cursors := (ra_cursors self)\<lparr>cu_start_offset := ra_start self + bm_len B chunk\<rparr>\<rparr>"
        using rd no occ by (auto simp: ra_read_chunk_def slots Let_def split: prod.splits)
      note r = slot_read_chunk_spec [OF ok sb(1) sc(1)]
      have "ra_gave B joined (bm_as_slice B chunk) self self'"
        unfolding sc(2) bm_len_ok(1) [OF ok] by (rule ra_gave_cut [OF ok wf slots at(1) _ r(1)]) (use r(2) in \<open>simp add: bm_len_ok(1) [OF ok]\<close>)
      with r(1) at(2) False show ?thesis by simp
    qed
  qed
  then show "ra_gave B joined (bm_as_slice B chunk) self self'" "length (bm_as_slice B chunk) \<le> w"
    "bm_as_slice B chunk = [] \<longleftrightarrow> w = 0 \<or> ra_view B self (ra_start self) = None"
    unfolding ra_front [OF ok wf] by blast+
qed

lemma pop_watermarked_spec:
  assumes ok: "bytes_mut_ok B joined" and wf: "ra_wf B joined self" and pop: "pop_watermarked B w self = (chunk, self')"
  defines "c \<equiv> (case chunk of None \<Rightarrow> [] | Some b \<Rightarrow> bm_as_slice B b)"
  shows "ra_gave B joined c self self'" "length c \<le> w" "chunk = None \<longleftrightarrow> w = 0 \<or> ra_view B self (ra_start self) = None"
    "chunk = None \<longleftrightarrow> c = []"
proof -
  obtain b where b: "ra_read_chunk B w self = (b, self')" "chunk = (if bm_as_slice B b = [] then None else Some b)"
    using pop by (auto simp: pop_watermarked_def split: prod.splits)
  note r = ra_read_chunk_spec [OF ok wf b(1)]
  have "c = bm_as_slice B b" by (simp add: c_def b(2))
  with r b(2) show "ra_gave B joined c self self'" "length c \<le> w" "chunk = None \<longleftrightarrow> w = 0 \<or> ra_view B self (ra_start self) = None"
    "chunk = None \<longleftrightarrow> c = []" by auto
qed

section \<open>Copying\<close>

text \<open>All that a destination of \<open>room\<close> bytes can take is given away.\<close>

definition ra_filled :: "'b bytes_mut \<Rightarrow> nat \<Rightarrow> u8 list \<Rightarrow> 'b reassembler \<Rightarrow> bool" where
  "ra_filled B room c self \<longleftrightarrow> length c \<le> room \<and> (length c = room \<or> ra_view B self (ra_start self + length c) = None)"

lemma ra_filled_after:
  assumes "ra_gave B joined c self s1" "length c \<le> room" "ra_filled B (room - length c) d s1"
  shows "ra_filled B room (c @ d) self"
  using assms by (auto simp: ra_filled_def ra_gave_def restrict_map_def add.assoc split: if_splits)

lemma copy_loop_spec:
  assumes ok: "bytes_mut_ok B joined" and "ra_wf B joined self"
  shows "\<exists>c self'. copy_loop B dest self = Some (dest_put c dest, self') \<and> ra_gave B joined c self self' \<and> ra_filled B (d_room dest) c self"
  using assms(2)
proof (induction "d_room dest" arbitrary: dest self rule: less_induct)
  case less
  show ?case
  proof (cases "d_room dest = 0 \<or> ra_is_empty B self")
    case True
    then have "copy_loop B dest self = Some (dest, self)"
      by (subst copy_loop.simps) (auto simp: ra_is_empty_def split: list.splits)
    moreover have "ra_filled B (d_room dest) [] self" using True ra_front [OF ok less.prems] by (auto simp: ra_filled_def)
    ultimately show ?thesis using ra_gave_Nil [OF ok less.prems] by (intro exI [of _ "[]"]) (simp add: dest_put_def)
  next
    case False
    then obtain s ss where slots: "ra_slots self = s # ss" and occ: "slot_is_occupied B (ra_start self) s"
      by (auto simp: ra_is_empty_def split: list.splits)
    have at: "sl_start s = ra_start self" "bm_as_slice B (sl_data s) \<noteq> []" using occ by (simp_all add: slot_is_occupied_def slot_is_empty_def)
    have wf: "slot_wf B s" using less.prems slots by (simp add: ra_wf_def slots_ok_def slot_placed_def)
    obtain c s' where c: "slot_copy_into B False (d_room dest) s = (c, s')" by (cases "slot_copy_into B False (d_room dest) s")
    note cs = slot_copy_into_spec [OF ok wf c]
    define s1 where "s1 = self\<lparr>ra_slots := (if should_drop s' then ss else s' # ss), ra_cursors := (ra_cursors self)\<lparr>cu_start_offset := ra_start self + length c\<rparr>\<rparr>"
    have gave: "ra_gave B joined c self s1" unfolding s1_def by (rule ra_gave_cut [OF ok less.prems slots at(1) cs(2,1)])
    have loop: "copy_loop B dest self = copy_loop B (dest_put c dest) s1"
      by (subst copy_loop.simps) (use False slots occ c in \<open>simp add: s1_def\<close>)
    have len: "length c \<le> d_room dest" "c \<noteq> []" using cs(1) at(2) False by simp_all
    then have "d_room (dest_put c dest) < d_room dest" using False by (simp add: dest_put_def)
    moreover have "ra_wf B joined s1" using gave by (simp add: ra_gave_def)
    ultimately obtain d self' where d: "copy_loop B (dest_put c dest) s1 = Some (dest_put d (dest_put c dest), self')"
      "ra_gave B joined d s1 self'" "ra_filled B (d_room (dest_put c dest)) d s1" using less.hyps by blast
    have "dest_put d (dest_put c dest) = dest_put (c @ d) dest" by (simp add: dest_put_def)
    moreover have "ra_filled B (d_room dest) (c @ d) self" using ra_filled_after [OF gave len(1)] d(3) by (simp add: dest_put_def)
    ultimately show ?thesis using loop d(1) ra_gave_trans [OF gave d(2)] by auto
  qed
qed

lemma partial_copy_loop_spec:
  assumes ok: "bytes_mut_ok B joined" and "ra_wf B joined self" "length (bm_as_slice B prev) \<le> d_room dest"
  shows "\<exists>c chunk dest' self'. partial_copy_loop B prev dest self = Some (chunk, dest', self') \<and>
    dest_put (bm_as_slice B chunk) dest' = dest_put (bm_as_slice B prev @ c) dest \<and> length (bm_as_slice B chunk) \<le> d_room dest' \<and>
    ra_gave B joined c self self' \<and> ra_filled B (d_room dest - length (bm_as_slice B prev)) c self"
  using assms(2,3)
proof (induction "d_room dest - length (bm_as_slice B prev)" arbitrary: prev dest self rule: less_induct)
  case less
  let ?p = "bm_as_slice B prev"
  define w where "w = d_room dest - length ?p"
  obtain chunk s1 where rd: "ra_read_chunk B w self = (chunk, s1)" by (cases "ra_read_chunk B w self")
  let ?c = "bm_as_slice B chunk" and ?dest = "dest_put (bm_as_slice B prev) dest"
  note r = ra_read_chunk_spec [OF ok less.prems(1) rd]
  have put: "(if ?p \<noteq> [] then ?dest else dest) = ?dest" by (simp add: dest_put_def)
  have loop: "partial_copy_loop B prev dest self =
    (if ?c = [] then Some (prev, dest, s1) else if length ?c = w then Some (chunk, ?dest, s1) else partial_copy_loop B chunk ?dest s1)"
    by (subst partial_copy_loop.simps) (use less.prems(2) rd put in \<open>auto simp: bm_len_ok(1) [OF ok] w_def [symmetric] Let_def\<close>)
  have room: "d_room ?dest = w" by (simp add: dest_put_def w_def)
  show ?case
  proof (cases "?c = []")
    case True
    then have "ra_filled B w [] self" using r(3) by (auto simp: ra_filled_def)
    then show ?thesis using True loop less.prems(2) r(1) by (intro exI [of _ "[]"]) (simp add: w_def)
  next
    case ne: False
    show ?thesis
    proof (cases "length ?c = w")
      case True
      then have "ra_filled B w ?c self" by (simp add: ra_filled_def)
      moreover have "dest_put ?c ?dest = dest_put (?p @ ?c) dest" by (simp add: dest_put_def)
      ultimately show ?thesis using True ne loop r(1) room by (intro exI [of _ ?c]) (simp add: w_def)
    next
      case False
      have "d_room ?dest - length ?c < d_room dest - length ?p" using room ne r(2) by (cases "w = 0") (auto simp: w_def [symmetric])
      moreover have "ra_wf B joined s1" using r(1) by (simp add: ra_gave_def)
      ultimately obtain d chunk' dest' self' where d: "partial_copy_loop B chunk ?dest s1 = Some (chunk', dest', self')"
        "dest_put (bm_as_slice B chunk') dest' = dest_put (?c @ d) ?dest" "length (bm_as_slice B chunk') \<le> d_room dest'"
        "ra_gave B joined d s1 self'" "ra_filled B (d_room ?dest - length ?c) d s1"
        using less.hyps [of ?dest chunk s1] r(2) room by metis
      have "dest_put (?c @ d) ?dest = dest_put (?p @ ?c @ d) dest" by (simp add: dest_put_def)
      moreover have "ra_filled B w (?c @ d) self" using ra_filled_after [OF r(1,2)] d(5) room by simp
      ultimately show ?thesis using loop ne False d(1-3) ra_gave_trans [OF r(1) d(4)] by (intro exI [of _ "?c @ d"]) (auto simp: w_def)
    qed
  qed
qed

lemma bm_copy_into_written:
  assumes "bytes_mut_ok B joined"
  shows "fst (bm_copy_into B sp room b) = take room (bm_as_slice B b)"
proof -
  have len: "bm_len B b = length (bm_as_slice B b)" by (rule bm_len_ok [OF assms])
  define w where "w = min (bm_len B b) room"
  obtain x y where xy: "bm_read_chunk B w b = (x, y)" by (cases "bm_read_chunk B w b")
  have "take w (bm_as_slice B b) = take room (bm_as_slice B b)" by (simp add: w_def len min_def)
  with bm_read_chunk_spec(1) [OF assms xy] xy show ?thesis by (simp add: bm_copy_into_def Let_def w_def [symmetric])
qed

lemma ra_copy_into_spec:
  assumes ok: "bytes_mut_ok B joined" and wf: "ra_wf B joined self"
  shows "\<exists>c self'. ra_copy_into B specializes_bytes dest self = Some (dest_put c dest, self') \<and>
    ra_gave B joined c self self' \<and> ra_filled B (d_room dest) c self"
proof (cases specializes_bytes)
  case False
  with copy_loop_spec [OF ok wf, of dest] show ?thesis by (simp add: ra_copy_into_def)
next
  case True
  note new = bm_new_ok(1) [OF ok]
  have "\<exists>c chunk dest' self'. partial_copy_into B dest self = Some (chunk, dest', self') \<and>
    dest_put (bm_as_slice B chunk) dest' = dest_put c dest \<and> length (bm_as_slice B chunk) \<le> d_room dest' \<and>
    ra_gave B joined c self self' \<and> ra_filled B (d_room dest) c self"
  proof (cases "d_room dest = 0")
    case zero: True
    with ra_gave_Nil [OF ok wf] show ?thesis
      by (intro exI [of _ "[]"] exI [of _ "bm_new B"] exI [of _ dest]) (auto simp: partial_copy_into_def new ra_filled_def)
  next
    case pos: False
    with partial_copy_loop_spec [OF ok wf, of "bm_new B" dest] show ?thesis by (simp add: partial_copy_into_def new)
  qed
  then obtain c chunk dest' self' where p: "partial_copy_into B dest self = Some (chunk, dest', self')"
    "dest_put (bm_as_slice B chunk) dest' = dest_put c dest" "length (bm_as_slice B chunk) \<le> d_room dest'"
    "ra_gave B joined c self self'" "ra_filled B (d_room dest) c self" by blast
  then have "ra_copy_into B specializes_bytes dest self = Some (dest_put c dest, self')"
    using True by (simp add: ra_copy_into_def bm_copy_into_written [OF ok])
  with p(4,5) show ?thesis by blast
qed

section \<open>Questions\<close>

lemma iter_from_spec:
  assumes ok: "bytes_mut_ok B joined" and "sorted_wrt (\<lambda>s t. sl_end s \<le> sl_start t) ss" "\<forall>s\<in>set ss. slot_wf B s \<and> off \<le> sl_start s"
  defines "c \<equiv> concat (ra_iter_from B off ss)"
  shows "total_received_from B off ss = off + length c" "bytes_at off c \<subseteq>\<^sub>m ss_view B ss" "ss_view B ss (off + length c) = None"
proof -
  have "total_received_from B off ss = off + length (concat (ra_iter_from B off ss)) \<and>
    bytes_at off (concat (ra_iter_from B off ss)) \<subseteq>\<^sub>m ss_view B ss \<and> ss_view B ss (off + length (concat (ra_iter_from B off ss))) = None"
    using assms(2,3)
  proof (induction ss arbitrary: off)
    case (Cons s ss)
    then have s: "slot_wf B s" "off \<le> sl_start s" "\<forall>t\<in>set ss. sl_end s \<le> sl_start t" by auto
    note e = slot_wf_end [OF ok s(1)]
    have gap: "ss_view B ss n = None" if "n < sl_end s" for n
      by (rule ss_view_None) (use s(3) that slot_view_None [OF ok] in fastforce)
    show ?case
    proof (cases "slot_is_occupied B off s")
      case True
      then have at: "sl_start s = off" by (simp add: slot_is_occupied_def)
      let ?d = "bm_as_slice B (sl_data s)" and ?r = "concat (ra_iter_from B (slot_end B s) ss)"
      have se: "slot_end B s = off + length ?d" using slot_end_view [OF ok, of s] at by simp
      have IH: "total_received_from B (slot_end B s) ss = slot_end B s + length ?r" "bytes_at (slot_end B s) ?r \<subseteq>\<^sub>m ss_view B ss"
        "ss_view B ss (slot_end B s + length ?r) = None" using Cons.IH [of "slot_end B s"] Cons.prems e by fastforce+
      have "slot_view B s (slot_end B s + length ?r) = None" by (simp add: slot_view_None [OF ok])
      moreover have "bytes_at (slot_end B s) ?r \<subseteq>\<^sub>m ss_view B ss ++ slot_view B s"
        unfolding map_le_def dom_bytes_at
      proof
        fix n assume n: "n \<in> {slot_end B s..<slot_end B s + length ?r}"
        then have "slot_view B s n = None" by (simp add: slot_view_None [OF ok])
        with n IH(2) show "bytes_at (slot_end B s) ?r n = (ss_view B ss ++ slot_view B s) n" by (simp add: map_le_def dom_bytes_at map_add_def)
      qed
      moreover have "bytes_at off ?d \<subseteq>\<^sub>m ss_view B ss ++ slot_view B s" by (simp add: slot_view_def at)
      ultimately show ?thesis using True IH(1,3) se by (simp add: bytes_at_append map_add_le_mapI add.assoc)
    next
      case False
      then have "slot_view B s off = None" using s(2) by (auto simp: slot_view_None [OF ok] slot_is_occupied_def slot_is_empty_def slot_end_view [OF ok])
      with gap [of off] e s(2) False show ?thesis by (simp add: map_add_def)
    qed
  qed simp
  then show "total_received_from B off ss = off + length c" "bytes_at off c \<subseteq>\<^sub>m ss_view B ss" "ss_view B ss (off + length c) = None"
    by (simp_all add: c_def)
qed

lemma ra_iter_spec:
  assumes ok: "bytes_mut_ok B joined" and wf: "ra_wf B joined self"
  defines "c \<equiv> concat (ra_iter B self)"
  shows "total_received_len B self = ra_start self + length c" "bytes_at (ra_start self) c \<subseteq>\<^sub>m ra_view B self"
    "ra_view B self (ra_start self + length c) = None"
proof -
  have inv: "slots_ok B joined (ra_start self) (ra_max self) (ra_fin self) (ra_slots self)" using wf by (simp add: ra_wf_def)
  have "\<forall>s\<in>set (ra_slots self). slot_wf B s \<and> ra_start self \<le> sl_start s" using inv by (auto simp: slots_ok_def slot_placed_def)
  from iter_from_spec [OF ok slots_ok_sorted [OF ok inv] this]
  show "total_received_len B self = ra_start self + length c" "bytes_at (ra_start self) c \<subseteq>\<^sub>m ra_view B self"
    "ra_view B self (ra_start self + length c) = None" by (simp_all add: c_def total_received_len_def ra_iter_def ra_view_def)
qed

lemma ra_report_eq: "ra_report B self = (length (concat (ra_iter B self)), length (ra_iter B self))"
proof -
  have "foldl (\<lambda>(bytes, chunks) chunk. (bytes + length chunk, chunks + 1)) (b, n) xs = (b + length (concat xs), n + length xs)"
    for b n and xs :: "u8 list list" by (induction xs arbitrary: b n) simp_all
  then show ?thesis by (simp add: ra_report_def)
qed

end
