(* ===== verification/ReassemblerSpec.thy ===== *)
theory ReassemblerSpec
  imports ReassemblerRead
begin

text \<open>
  A stream buffer without slots: a partial map from offsets to bytes with three cursors. It says what every
  operation of the reassembler may answer; sequences of operations on both sides are compared.
\<close>

section \<open>Operations and their answers\<close>

datatype ra_op =
    OpWrite varint "u8 list" bool
  | OpSkip varint "varint option"
  | OpPop nat
  | OpCopy bool nat
  | OpReset

datatype ra_out = Outcome "buffer_error + unit" | Chunk "u8 list"

text \<open>The calls of the reassembler.\<close>

fun ra_step :: "'b bytes_mut \<Rightarrow> ra_op \<Rightarrow> 'b reassembler \<Rightarrow> (ra_out \<times> 'b reassembler) option" where
  "ra_step B (OpWrite offset data is_fin) self =
     map_option (\<lambda>(r, self). (Outcome r, self)) (if is_fin then write_at_fin B offset data self else write_at B offset data self)"
| "ra_step B (OpSkip len final_offset) self = map_option (\<lambda>(r, self). (Outcome r, self)) (duplex_skip B len final_offset self)"
| "ra_step B (OpPop watermark) self =
     (case pop_watermarked B watermark self of (chunk, self) \<Rightarrow>
        Some (Chunk (case chunk of None \<Rightarrow> [] | Some b \<Rightarrow> bm_as_slice B b), self))"
| "ra_step B (OpCopy specializes_bytes room) self =
     map_option (\<lambda>(dest, self). (Chunk (d_written dest), self)) (ra_copy_into B specializes_bytes \<lparr>d_room = room, d_written = []\<rparr> self)"
| "ra_step B OpReset self = Some (Outcome (Inr ()), ra_reset self)"

fun ra_run :: "'b bytes_mut \<Rightarrow> ra_op list \<Rightarrow> 'b reassembler \<Rightarrow> (ra_out list \<times> 'b reassembler) option" where
  "ra_run B [] self = Some ([], self)"
| "ra_run B (op # ops) self =
     Option.bind (ra_step B op self) (\<lambda>(out, self). map_option (\<lambda>(outs, self). (out # outs, self)) (ra_run B ops self))"

text \<open>A slice is never longer than \<open>usize::MAX\<close>.\<close>

fun op_fits :: "ra_op \<Rightarrow> bool" where
  "op_fits (OpWrite offset data is_fin) = (length data \<le> usize_max)"
| "op_fits _ = True"

section \<open>The stream buffer\<close>

record stream_buf =
  sb_bytes :: "nat \<Rightarrow> u8 option"
  sb_start :: nat
  sb_max :: nat
  sb_final :: "nat option"

definition sb_new :: stream_buf where
  "sb_new = \<lparr>sb_bytes = Map.empty, sb_start = 0, sb_max = 0, sb_final = None\<rparr>"

text \<open>
  Bytes that are already there stay, bytes before the read position are dropped. The final size is known at
  most once, nothing lies behind it, and an error changes nothing.
\<close>

definition sb_write :: "nat \<Rightarrow> u8 list \<Rightarrow> bool \<Rightarrow> stream_buf \<Rightarrow> (buffer_error + unit) \<times> stream_buf" where
  "sb_write offset data is_fin b =
     (let e = offset + length data in
      if 2 ^ 62 \<le> e then (Inl OutOfRange, b)
      else if (case sb_final b of None \<Rightarrow> is_fin \<and> e < sb_max b | Some f \<Rightarrow> if is_fin then e \<noteq> f else f < e) then (Inl InvalidFin, b)
      else (Inr (), b\<lparr>sb_bytes := (\<lambda>n. if n < sb_start b then None else put_bytes offset data (sb_bytes b) n),
        sb_max := max (sb_max b) e, sb_final := (if is_fin then Some e else sb_final b)\<rparr>))"

definition sb_advance :: "nat \<Rightarrow> stream_buf \<Rightarrow> stream_buf" where
  "sb_advance len b = b\<lparr>sb_bytes := sb_bytes b |` {sb_start b + len..}, sb_start := sb_start b + len\<rparr>"

definition sb_skip :: "nat \<Rightarrow> stream_buf \<Rightarrow> (buffer_error + unit) \<times> stream_buf" where
  "sb_skip len b =
     (let n = sb_start b + len in
      if len = 0 then (Inr (), b)
      else if 2 ^ 62 \<le> n then (Inl OutOfRange, b)
      else if (\<exists>f. sb_final b = Some f \<and> f < n) then (Inl InvalidFin, b)
      else (Inr (), (sb_advance len b)\<lparr>sb_max := max (sb_max b) n\<rparr>))"

definition sb_duplex_skip :: "nat \<Rightarrow> nat option \<Rightarrow> stream_buf \<Rightarrow> (buffer_error + unit) \<times> stream_buf" where
  "sb_duplex_skip len final_offset b =
     (case (case final_offset of None \<Rightarrow> (Inr (), b) | Some f \<Rightarrow> sb_write f [] True b) of
        (Inl e, b) \<Rightarrow> (Inl e, b)
      | (Inr _, b) \<Rightarrow> sb_skip len b)"

text \<open>A read returns a prefix of the bytes at the read position; how long a chunk of \<open>pop\<close> is, is not fixed.\<close>

inductive sb_step :: "ra_op \<Rightarrow> ra_out \<Rightarrow> stream_buf \<Rightarrow> stream_buf \<Rightarrow> bool" where
  wrote: "sb_write (unat offset) data is_fin b = (r, b') \<Longrightarrow> sb_step (OpWrite offset data is_fin) (Outcome r) b b'"
| skipped: "sb_duplex_skip (unat len) (map_option unat final_offset) b = (r, b') \<Longrightarrow> sb_step (OpSkip len final_offset) (Outcome r) b b'"
| popped: "bytes_at (sb_start b) c \<subseteq>\<^sub>m sb_bytes b \<Longrightarrow> length c \<le> watermark \<Longrightarrow>
    (c = [] \<longleftrightarrow> watermark = 0 \<or> sb_bytes b (sb_start b) = None) \<Longrightarrow> sb_step (OpPop watermark) (Chunk c) b (sb_advance (length c) b)"
| copied: "bytes_at (sb_start b) c \<subseteq>\<^sub>m sb_bytes b \<Longrightarrow> length c \<le> room \<Longrightarrow>
    (length c = room \<or> sb_bytes b (sb_start b + length c) = None) \<Longrightarrow> sb_step (OpCopy specializes_bytes room) (Chunk c) b (sb_advance (length c) b)"
| was_reset: "sb_step OpReset (Outcome (Inr ())) b sb_new"

inductive sb_run :: "ra_op list \<Rightarrow> ra_out list \<Rightarrow> stream_buf \<Rightarrow> stream_buf \<Rightarrow> bool" where
  stop: "sb_run [] [] b b"
| go: "sb_step op out b b' \<Longrightarrow> sb_run ops outs b' b'' \<Longrightarrow> sb_run (op # ops) (out # outs) b b''"

inductive_cases sb_step_cases:
  "sb_step (OpWrite offset data is_fin) out b b'" "sb_step (OpSkip len final_offset) out b b'"
  "sb_step (OpPop watermark) out b b'" "sb_step (OpCopy specializes_bytes room) out b b'" "sb_step OpReset out b b'"

inductive_simps sb_run_simps [simp]: "sb_run [] outs b b'" "sb_run (op # ops) outs b b''"

section \<open>Refinement\<close>

definition sb_of :: "'b bytes_mut \<Rightarrow> 'b reassembler \<Rightarrow> stream_buf" where
  "sb_of B self = \<lparr>sb_bytes = ra_view B self, sb_start = ra_start self, sb_max = ra_max self, sb_final = ra_final_size self\<rparr>"

lemma sb_of_simps [simp]:
  "sb_bytes (sb_of B self) = ra_view B self" "sb_start (sb_of B self) = ra_start self"
  "sb_max (sb_of B self) = ra_max self" "sb_final (sb_of B self) = ra_final_size self"
  by (simp_all add: sb_of_def)

lemma sb_of_eq: "sb_of B self = b \<longleftrightarrow> ra_view B self = sb_bytes b \<and> ra_start self = sb_start b \<and> ra_max self = sb_max b \<and> ra_final_size self = sb_final b"
  by (auto simp: sb_of_def)

lemma sb_of_new: "sb_of B reassembler_new = sb_new"
  by (simp add: sb_of_eq sb_new_def ra_new_wf) (simp add: reassembler_new_def cursors_default_def ra_final_size_def cursors_final_size_def)

lemma write_request_sim:
  assumes ok: "bytes_mut_ok B joined" and wf: "ra_wf B joined self" and len: "length xs \<le> usize_max"
  shows "\<exists>r self'. write_request B off xs is_fin self = Some (r, self') \<and> ra_wf B joined self' \<and>
    sb_write (unat off) xs is_fin (sb_of B self) = (r, sb_of B self')"
proof -
  let ?e = "unat off + length xs"
  have conflict: "(case sb_final (sb_of B self) of None \<Rightarrow> is_fin \<and> ?e < sb_max (sb_of B self) | Some f \<Rightarrow> if is_fin then ?e \<noteq> f else f < ?e)
    = fin_conflict self ?e is_fin" by (simp add: fin_conflict_def split: option.splits)
  note spec = write_request_spec [OF ok wf len, of off is_fin]
  show ?thesis
  proof (cases "2 ^ 62 \<le> ?e \<or> fin_conflict self ?e is_fin")
    case True
    then show ?thesis using spec wf unfolding sb_write_def Let_def conflict by (auto split: if_splits)
  next
    case False
    then obtain self' where s: "write_request B off xs is_fin self = Some (Inr (), self')" "ra_wf B joined self'"
      "ra_view B self' = (\<lambda>n. if n < ra_start self then None else put_bytes (unat off) xs (ra_view B self) n)"
      "ra_start self' = ra_start self" "ra_max self' = max (ra_max self) ?e" "ra_final_size self' = (if is_fin then Some ?e else ra_final_size self)"
      using spec by auto
    have "sb_write (unat off) xs is_fin (sb_of B self) = (Inr (), sb_of B self')"
      using False unfolding sb_write_def Let_def conflict unfolding sb_of_simps by (simp add: sb_of_def s)
    with s(1,2) show ?thesis by auto
  qed
qed

lemma ra_skip_sim:
  assumes ok: "bytes_mut_ok B joined" and wf: "ra_wf B joined self"
  shows "\<exists>r self'. ra_skip B len self = Some (r, self') \<and> ra_wf B joined self' \<and> sb_skip (unat len) (sb_of B self) = (r, sb_of B self')"
  using ra_skip_spec [OF ok wf, of len] wf
  by (auto simp: sb_skip_def Let_def sb_advance_def sb_of_def split: if_splits)

lemma duplex_skip_sim:
  assumes ok: "bytes_mut_ok B joined" and wf: "ra_wf B joined self"
  shows "\<exists>r self'. duplex_skip B len fo self = Some (r, self') \<and> ra_wf B joined self' \<and>
    sb_duplex_skip (unat len) (map_option unat fo) (sb_of B self) = (r, sb_of B self')"
proof (cases fo)
  case None
  with ra_skip_sim [OF ok wf, of len] show ?thesis by (auto simp: duplex_skip_def sb_duplex_skip_def)
next
  case (Some f)
  obtain r s1 where w: "write_at_fin B f [] self = Some (r, s1)" "ra_wf B joined s1" "sb_write (unat f) [] True (sb_of B self) = (r, sb_of B s1)"
    using write_request_sim [OF ok wf, of "[]" f True] by (auto simp: write_at_fin_def)
  with Some ra_skip_sim [OF ok w(2), of len] show ?thesis by (cases r) (auto simp: duplex_skip_def sb_duplex_skip_def)
qed

lemma ra_gave_advance: "ra_gave B joined c self self' \<Longrightarrow> sb_of B self' = sb_advance (length c) (sb_of B self)"
  by (simp add: ra_gave_def sb_of_eq sb_advance_def)

lemma ra_step_sim:
  assumes ok: "bytes_mut_ok B joined" and wf: "ra_wf B joined self" and fits: "op_fits op"
  shows "\<exists>out self'. ra_step B op self = Some (out, self') \<and> ra_wf B joined self' \<and> sb_step op out (sb_of B self) (sb_of B self')"
proof (cases op)
  case (OpWrite off xs is_fin)
  then show ?thesis using write_request_sim [OF ok wf, of xs off is_fin] fits
    by (auto simp: write_at_def write_at_fin_def intro: sb_step.wrote)
next
  case (OpSkip len fo)
  then show ?thesis using duplex_skip_sim [OF ok wf, of len fo] by (auto intro: sb_step.skipped)
next
  case (OpPop w)
  obtain chunk self' where p: "pop_watermarked B w self = (chunk, self')" by (cases "pop_watermarked B w self")
  note spec = pop_watermarked_spec [OF ok wf p]
  let ?c = "case chunk of None \<Rightarrow> [] | Some b \<Rightarrow> bm_as_slice B b"
  have "sb_step (OpPop w) (Chunk ?c) (sb_of B self) (sb_advance (length ?c) (sb_of B self))"
    by (rule sb_step.popped) (use spec in \<open>simp_all add: ra_gave_def\<close>)
  moreover have "ra_wf B joined self'" using spec(1) by (simp add: ra_gave_def)
  ultimately show ?thesis using p by (simp add: OpPop ra_gave_advance [OF spec(1)])
next
  case (OpCopy sp room)
  obtain c self' where c: "ra_copy_into B sp \<lparr>d_room = room, d_written = []\<rparr> self = Some (dest_put c \<lparr>d_room = room, d_written = []\<rparr>, self')"
    "ra_gave B joined c self self'" "ra_filled B room c self" using ra_copy_into_spec [OF ok wf, of sp "\<lparr>d_room = room, d_written = []\<rparr>"] by auto
  have "sb_step (OpCopy sp room) (Chunk c) (sb_of B self) (sb_advance (length c) (sb_of B self))"
    by (rule sb_step.copied) (use c in \<open>auto simp: ra_gave_def ra_filled_def\<close>)
  moreover have "ra_wf B joined self'" using c(2) by (simp add: ra_gave_def)
  ultimately show ?thesis using c(1) by (simp add: OpCopy ra_gave_advance [OF c(2)] dest_put_def)
next
  case OpReset
  moreover have "ra_reset self = reassembler_new" by (simp add: ra_reset_def reassembler_new_def)
  ultimately show ?thesis using ra_new_wf(1) [of B joined] by (auto simp: sb_of_new intro: sb_step.was_reset)
qed

lemma ra_run_sim:
  assumes ok: "bytes_mut_ok B joined" and "ra_wf B joined self" "\<forall>op\<in>set ops. op_fits op"
  shows "\<exists>outs self'. ra_run B ops self = Some (outs, self') \<and> ra_wf B joined self' \<and> sb_run ops outs (sb_of B self) (sb_of B self')"
  using assms(2,3)
proof (induction ops arbitrary: self)
  case (Cons op ops)
  obtain out s1 where 1: "ra_step B op self = Some (out, s1)" "ra_wf B joined s1" "sb_step op out (sb_of B self) (sb_of B s1)"
    using ra_step_sim [OF ok Cons.prems(1), of op] Cons.prems(2) by auto
  obtain outs s2 where "ra_run B ops s1 = Some (outs, s2)" "ra_wf B joined s2" "sb_run ops outs (sb_of B s1) (sb_of B s2)"
    using Cons.IH [OF 1(2)] Cons.prems(2) by auto
  with 1 show ?case by auto
qed simp

end
