(* ===== verification/ReassemblerRuns.thy ===== *)
theory ReassemblerRuns
  imports ReassemblerSpec
begin

text \<open>
  What a reader of the stream sees: the bytes of the stream in order, each once, and every byte that arrived.
\<close>

section \<open>Logs\<close>

text \<open>The bytes a log of calls and answers handed out, the offsets it accepted, and the offsets it skipped.\<close>

fun chunks :: "ra_out list \<Rightarrow> u8 list" where
  "chunks [] = []"
| "chunks (Chunk c # outs) = c @ chunks outs"
| "chunks (Outcome r # outs) = chunks outs"

fun written :: "(ra_op \<times> ra_out) list \<Rightarrow> nat set" where
  "written [] = {}"
| "written ((OpWrite off xs is_fin, Outcome (Inr u)) # log) = {unat off..<unat off + length xs} \<union> written log"
| "written (_ # log) = written log"

fun skips :: "nat \<Rightarrow> (ra_op \<times> ra_out) list \<Rightarrow> nat set" where
  "skips pos [] = {}"
| "skips pos ((OpSkip len fo, Outcome (Inr u)) # log) = {pos..<pos + unat len} \<union> skips (pos + unat len) log"
| "skips pos ((op, Chunk c) # log) = skips (pos + length c) log"
| "skips pos (_ # log) = skips pos log"

text \<open>The peer sends slices of one stream.\<close>

fun sends :: "(nat \<Rightarrow> u8) \<Rightarrow> ra_op \<Rightarrow> bool" where
  "sends S (OpWrite off xs is_fin) \<longleftrightarrow> length xs \<le> usize_max \<and> xs = map S [unat off..<unat off + length xs]"
| "sends S OpReset \<longleftrightarrow> False"
| "sends S _ \<longleftrightarrow> True"

lemma sends_fits: "sends S op \<Longrightarrow> op_fits op"
  by (cases op) auto

definition sb_holds :: "(nat \<Rightarrow> u8) \<Rightarrow> nat set \<Rightarrow> stream_buf \<Rightarrow> bool" where
  "sb_holds S W b \<longleftrightarrow> (\<forall>n. sb_bytes b n = (if sb_start b \<le> n \<and> n \<in> W then Some (S n) else None))"

lemma sb_holds_new: "sb_holds S {} sb_new"
  by (simp add: sb_holds_def sb_new_def)

lemma bytes_at_stream: "bytes_at i (map S [i..<i + k]) n = (if i \<le> n \<and> n < i + k then Some (S n) else None)"
  by (auto simp: bytes_at_def)

lemma sb_holds_advance: "sb_holds S W b \<Longrightarrow> sb_holds S W (sb_advance k b)"
  by (auto simp: sb_holds_def sb_advance_def restrict_map_def)

lemma sb_holds_prefix:
  assumes "sb_holds S W b" "bytes_at (sb_start b) c \<subseteq>\<^sub>m sb_bytes b"
  shows "c = map S [sb_start b..<sb_start b + length c]" "{sb_start b..<sb_start b + length c} \<subseteq> W"
proof -
  have at: "n \<in> W \<and> c ! (n - sb_start b) = S n" if n: "sb_start b \<le> n" "n < sb_start b + length c" for n
  proof -
    have "bytes_at (sb_start b) c n = sb_bytes b n" using assms(2) n by (auto simp: map_le_def dom_bytes_at)
    then have "Some (c ! (n - sb_start b)) = (if n \<in> W then Some (S n) else None)" using assms(1) n by (simp add: sb_holds_def bytes_at_def)
    then show ?thesis by (simp split: if_splits)
  qed
  show "c = map S [sb_start b..<sb_start b + length c]"
    by (rule nth_equalityI) (use at [of "sb_start b + _"] in auto)
  show "{sb_start b..<sb_start b + length c} \<subseteq> W" using at by auto
qed

lemma sb_write_holds:
  assumes "sb_holds S W b" "xs = map S [off..<off + length xs]" "sb_write off xs is_fin b = (r, b')"
  shows "sb_start b' = sb_start b" "sb_holds S (W \<union> (if r = Inr () then {off..<off + length xs} else {})) b'"
proof -
  have x: "bytes_at off xs n = (if off \<le> n \<and> n < off + length xs then Some (S n) else None)" for n
    by (subst assms(2)) (rule bytes_at_stream)
  show start: "sb_start b' = sb_start b" using assms(3) by (auto simp: sb_write_def Let_def split: if_splits)
  show "sb_holds S (W \<union> (if r = Inr () then {off..<off + length xs} else {})) b'"
  proof (cases "r = Inr ()")
    case True
    then have "sb_bytes b' = (\<lambda>n. if n < sb_start b then None else put_bytes off xs (sb_bytes b) n)"
      using assms(3) by (auto simp: sb_write_def Let_def split: if_splits)
    then have "sb_bytes b' n = (if sb_start b \<le> n \<and> n \<in> W \<union> {off..<off + length xs} then Some (S n) else None)" for n
      using assms(1) by (cases "n \<in> W") (simp_all add: sb_holds_def put_bytes_apply x not_less)
    with True start show ?thesis by (simp add: sb_holds_def)
  next
    case False
    then have "b' = b" using assms(3) by (auto simp: sb_write_def Let_def split: if_splits)
    with False assms(1) show ?thesis by simp
  qed
qed

lemma sb_skip_holds:
  assumes "sb_holds S W b" "sb_duplex_skip len fo b = (r, b')"
  shows "sb_start b' = sb_start b + (if r = Inr () then len else 0)" "sb_holds S W b'"
proof -
  have skip: "sb_start b' = sb_start b + (if r = Inr () then len else 0) \<and> sb_holds S W b'" if "sb_holds S W b" "sb_skip len b = (r, b')" for b
    using that sb_holds_advance [of S W b len]
    by (auto simp: sb_skip_def Let_def sb_advance_def sb_holds_def split: if_splits)
  have "sb_start b' = sb_start b + (if r = Inr () then len else 0) \<and> sb_holds S W b'"
  proof (cases fo)
    case None
    with assms skip show ?thesis by (simp add: sb_duplex_skip_def)
  next
    case (Some f)
    obtain r1 b1 where w: "sb_write f [] True b = (r1, b1)" by (cases "sb_write f [] True b")
    have "sb_start b1 = sb_start b" "sb_holds S W b1" using sb_write_holds [OF assms(1) _ w] by (simp_all split: if_splits)
    with w assms skip [of b1] Some show ?thesis by (cases r1) (auto simp: sb_duplex_skip_def)
  qed
  then show "sb_start b' = sb_start b + (if r = Inr () then len else 0)" "sb_holds S W b'" by blast+
qed

lemma skips_from: "skips pos log \<subseteq> {pos..}"
proof (induction pos log rule: skips.induct)
  case (2 pos len fo u log)
  then show ?case by auto
next
  case (3 pos op c log)
  then show ?case by auto
qed auto

text \<open>One call: what it accepts, and what it hands out or passes over.\<close>

lemma sb_step_log:
  assumes "sb_step op out b b'" "sb_holds S W b" "sends S op"
  shows "sb_holds S (W \<union> written [(op, out)]) b'" "sb_start b \<le> sb_start b'"
    "chunks [out] = map S (filter (\<lambda>n. n \<notin> skips (sb_start b) [(op, out)]) [sb_start b..<sb_start b'])"
    "written ((op, out) # log) = written [(op, out)] \<union> written log"
    "skips (sb_start b) ((op, out) # log) = skips (sb_start b) [(op, out)] \<union> skips (sb_start b') log"
    "skips (sb_start b) [(op, out)] \<subseteq> {..<sb_start b'}"
proof -
  have "sb_holds S (W \<union> written [(op, out)]) b' \<and> sb_start b \<le> sb_start b' \<and>
    chunks [out] = map S (filter (\<lambda>n. n \<notin> skips (sb_start b) [(op, out)]) [sb_start b..<sb_start b']) \<and>
    written ((op, out) # log) = written [(op, out)] \<union> written log \<and>
    skips (sb_start b) ((op, out) # log) = skips (sb_start b) [(op, out)] \<union> skips (sb_start b') log \<and>
    skips (sb_start b) [(op, out)] \<subseteq> {..<sb_start b'}"
    using assms
  proof (cases rule: sb_step.cases)
    case (wrote off xs is_fin r)
    with assms sb_write_holds [of S W b xs "unat off" is_fin r b'] show ?thesis by (cases r) auto
  next
    case (skipped len fo r)
    from skipped assms sb_skip_holds [of S W b "unat len" "map_option unat fo" r b'] show ?thesis
      by (cases r) (auto simp: filter_empty_conv)
  next
    case (popped c w)
    with sb_holds_prefix [OF assms(2) popped(4)] sb_holds_advance [OF assms(2)] show ?thesis by (simp add: sb_advance_def)
  next
    case (copied c room sp)
    with sb_holds_prefix [OF assms(2) copied(4)] sb_holds_advance [OF assms(2)] show ?thesis by (simp add: sb_advance_def)
  next
    case was_reset
    with assms show ?thesis by simp
  qed
  then show "sb_holds S (W \<union> written [(op, out)]) b'" "sb_start b \<le> sb_start b'"
    "chunks [out] = map S (filter (\<lambda>n. n \<notin> skips (sb_start b) [(op, out)]) [sb_start b..<sb_start b'])"
    "written ((op, out) # log) = written [(op, out)] \<union> written log"
    "skips (sb_start b) ((op, out) # log) = skips (sb_start b) [(op, out)] \<union> skips (sb_start b') log"
    "skips (sb_start b) [(op, out)] \<subseteq> {..<sb_start b'}" by blast+
qed

lemma chunks_Cons: "chunks (out # outs) = chunks [out] @ chunks outs"
  by (cases out) simp_all

lemma sb_run_log:
  assumes "sb_run ops outs b b'" "sb_holds S W b" "\<forall>op\<in>set ops. sends S op"
  shows "sb_holds S (W \<union> written (zip ops outs)) b' \<and> sb_start b \<le> sb_start b' \<and>
    chunks outs = map S (filter (\<lambda>n. n \<notin> skips (sb_start b) (zip ops outs)) [sb_start b..<sb_start b'])"
  using assms
proof (induction arbitrary: W rule: sb_run.induct)
  case (go op out b b1 ops outs b2)
  let ?A = "skips (sb_start b) [(op, out)]" and ?B = "skips (sb_start b1) (zip ops outs)"
  have sends: "sends S op" "\<forall>op\<in>set ops. sends S op" using go.prems(2) by simp_all
  note step = sb_step_log [OF go.hyps(1) go.prems(1) sends(1)]
  have IH: "sb_holds S (W \<union> written [(op, out)] \<union> written (zip ops outs)) b2" "sb_start b1 \<le> sb_start b2"
    "chunks outs = map S (filter (\<lambda>n. n \<notin> ?B) [sb_start b1..<sb_start b2])" using go.IH [OF step(1) sends(2)] by blast+
  have "[sb_start b..<sb_start b2] = [sb_start b..<sb_start b1] @ [sb_start b1..<sb_start b2]"
    using step(2) IH(2) by (metis le_add_diff_inverse upt_add_eq_append)
  moreover have "filter (\<lambda>n. n \<notin> ?A \<union> ?B) [sb_start b..<sb_start b1] = filter (\<lambda>n. n \<notin> ?A) [sb_start b..<sb_start b1]"
    by (rule filter_cong) (use skips_from [of "sb_start b1" "zip ops outs"] in auto)
  moreover have "filter (\<lambda>n. n \<notin> ?A \<union> ?B) [sb_start b1..<sb_start b2] = filter (\<lambda>n. n \<notin> ?B) [sb_start b1..<sb_start b2]"
    by (rule filter_cong) (use step(6) in auto)
  ultimately have "chunks (out # outs) = map S (filter (\<lambda>n. n \<notin> ?A \<union> ?B) [sb_start b..<sb_start b2])"
    using step(3) IH(3) chunks_Cons [of out outs] by simp
  moreover have "sb_holds S (W \<union> written (zip (op # ops) (out # outs))) b2" using IH(1) step(4) [of "zip ops outs"] by (simp add: Un_assoc)
  moreover have "skips (sb_start b) (zip (op # ops) (out # outs)) = ?A \<union> ?B" using step(5) [of "zip ops outs"] by simp
  ultimately show ?case using step(2) IH(2) by simp
qed simp

lemma ra_run_log:
  assumes ok: "bytes_mut_ok B joined" and s: "\<forall>op\<in>set ops. sends S op"
  obtains outs self where "ra_run B ops reassembler_new = Some (outs, self)" "ra_wf B joined self"
    "sb_holds S (written (zip ops outs)) (sb_of B self)"
    "chunks outs = map S (filter (\<lambda>n. n \<notin> skips 0 (zip ops outs)) [0..<ra_start self])"
proof -
  have fits: "\<forall>op\<in>set ops. op_fits op" using s sends_fits by blast
  obtain outs self where r: "ra_run B ops reassembler_new = Some (outs, self)" "ra_wf B joined self" "sb_run ops outs sb_new (sb_of B self)"
    using ra_run_sim [OF ok ra_new_wf(1) fits] by (auto simp: sb_of_new)
  have zero: "sb_start sb_new = 0" by (simp add: sb_new_def)
  from sb_run_log [OF r(3) sb_holds_new s, unfolded zero Un_empty_left sb_of_simps] show thesis by (intro that [OF r(1,2)]) blast+
qed

section \<open>An implementation of the buffers\<close>

text \<open>Pages of memory: the address, the bytes and the room behind them.\<close>

record page =
  pg_addr :: nat
  pg_data :: "u8 list"
  pg_spare :: "u8 list"

definition page_bytes :: "page bytes_mut" where
  "page_bytes = \<lparr>
     bm_new = \<lparr>pg_addr = 0, pg_data = [], pg_spare = []\<rparr>,
     bm_with_capacity = (\<lambda>n. \<lparr>pg_addr = 0, pg_data = [], pg_spare = replicate n 0\<rparr>),
     bm_len = (\<lambda>p. length (pg_data p)),
     bm_capacity = (\<lambda>p. length (pg_data p) + length (pg_spare p)),
     bm_as_slice = pg_data,
     bm_spare = pg_spare,
     bm_write_spare = (\<lambda>i xs p. p\<lparr>pg_spare := take i (pg_spare p) @ xs @ drop (i + length xs) (pg_spare p)\<rparr>),
     bm_advance_mut = (\<lambda>n p. p\<lparr>pg_data := pg_data p @ take n (pg_spare p), pg_spare := drop n (pg_spare p)\<rparr>),
     bm_advance = (\<lambda>n p. p\<lparr>pg_addr := pg_addr p + n, pg_data := drop n (pg_data p)\<rparr>),
     bm_split_off = (\<lambda>at p. let k = at - length (pg_data p) in
       (p\<lparr>pg_data := take at (pg_data p), pg_spare := take k (pg_spare p)\<rparr>,
        \<lparr>pg_addr = pg_addr p + at, pg_data = drop at (pg_data p), pg_spare = drop k (pg_spare p)\<rparr>)),
     bm_split_to = (\<lambda>at p.
       (\<lparr>pg_addr = pg_addr p, pg_data = take at (pg_data p), pg_spare = []\<rparr>,
        p\<lparr>pg_addr := pg_addr p + at, pg_data := drop at (pg_data p)\<rparr>)),
     bm_unsplit = (\<lambda>p q. p\<lparr>pg_data := pg_data p @ pg_data q, pg_spare := pg_spare q\<rparr>),
     bm_meets = (\<lambda>p q. pg_addr p + length (pg_data p) = pg_addr q)\<rparr>"

definition page_joined :: "page \<Rightarrow> page \<Rightarrow> bool" where
  "page_joined p q \<longleftrightarrow> pg_addr p + length (pg_data p) + length (pg_spare p) = pg_addr q"

lemma page_bytes_ok: "bytes_mut_ok page_bytes page_joined"
proof -
  have "bm_size_law page_bytes" by (simp add: bm_size_law_def page_bytes_def)
  moreover have "bm_write_law page_bytes page_joined" by (auto simp: bm_write_law_def page_bytes_def page_joined_def)
  moreover have "bm_advance_mut_law page_bytes page_joined" by (auto simp: bm_advance_mut_law_def page_bytes_def page_joined_def)
  moreover have "bm_advance_law page_bytes page_joined" by (auto simp: bm_advance_law_def page_bytes_def page_joined_def)
  moreover have "bm_split_off_law page_bytes page_joined" by (auto simp: bm_split_off_law_def page_bytes_def page_joined_def Let_def min_def)
  moreover have "bm_split_to_law page_bytes page_joined" by (auto simp: bm_split_to_law_def page_bytes_def page_joined_def)
  moreover have "bm_unsplit_law page_bytes page_joined" by (auto simp: bm_unsplit_law_def page_bytes_def page_joined_def)
  ultimately show ?thesis by (simp add: bytes_mut_ok_def)
qed

section \<open>Properties\<close>

text \<open>C1. Whatever calls are made of a new reassembler, in whatever order and with whatever offsets, none of them
  panics, breaks an assumption of the unsafe code or loops, and all answers are those of the plain stream buffer:
  writes outside the range of a \<open>VarInt\<close> and writes or skips against the final size are refused and change
  nothing, and reads return a prefix of the bytes at the read position.\<close>

theorem reassembler_refines:
  assumes "bytes_mut_ok B joined" "\<forall>op\<in>set ops. op_fits op"
  shows "\<exists>outs self. ra_run B ops reassembler_new = Some (outs, self) \<and> sb_run ops outs sb_new (sb_of B self)"
  using ra_run_sim [OF assms(1) ra_new_wf(1) assms(2)] by (auto simp: sb_of_new)

theorem reassembler_refines_witness:
  "\<exists>self. ra_run page_bytes [OpWrite 2 [3, 4] True, OpWrite 3 [9, 9] False, OpWrite 4611686018427387903 [7] False] reassembler_new =
    Some ([Outcome (Inr ()), Outcome (Inl InvalidFin), Outcome (Inl OutOfRange)], self)"
proof -
  let ?ops = "[OpWrite 2 [3, 4] True, OpWrite 3 [9, 9] False, OpWrite 4611686018427387903 [7] False]"
  have fits: "\<forall>op\<in>set ?ops. op_fits op" by (simp add: usize_max_def)
  obtain outs self where "ra_run page_bytes ?ops reassembler_new = Some (outs, self)" "sb_run ?ops outs sb_new (sb_of page_bytes self)"
    using reassembler_refines [OF page_bytes_ok fits] by blast
  moreover from this(2) have "outs = [Outcome (Inr ()), Outcome (Inl InvalidFin), Outcome (Inl OutOfRange)]"
    by (auto elim!: sb_step_cases simp: sb_write_def sb_new_def)
  ultimately show ?thesis by auto
qed

text \<open>C2. The bytes a reassembler hands out are the bytes of the stream that the peer sent, in order and each once,
  up to the read position and without the offsets that were skipped; no arrival order, overlap, repetition or
  refused call changes that.\<close>

theorem reassembler_delivers_stream:
  assumes "bytes_mut_ok B joined" "\<forall>op\<in>set ops. sends S op"
  shows "\<exists>outs self. ra_run B ops reassembler_new = Some (outs, self) \<and>
    chunks outs = map S (filter (\<lambda>n. n \<notin> skips 0 (zip ops outs)) [0..<ra_start self])"
  by (rule ra_run_log [OF assms]) blast

theorem reassembler_delivers_stream_witness:
  "\<exists>outs self. ra_run page_bytes [OpWrite 2 [2, 3] True, OpPop 5, OpWrite 0 [0, 1] False, OpCopy True 3, OpSkip 1 None] reassembler_new = Some (outs, self) \<and>
    chunks outs = map word_of_nat (filter (\<lambda>n. n \<notin> skips 0
      (zip [OpWrite 2 [2, 3] True, OpPop 5, OpWrite 0 [0, 1] False, OpCopy True 3, OpSkip 1 None] outs)) [0..<ra_start self])"
  by (rule reassembler_delivers_stream [OF page_bytes_ok]) (simp add: usize_max_def upt_rec)

lemma first_gap_unique:
  fixes s m l k :: nat
  assumes "{s..<s + m} \<subseteq> W" "s + m \<notin> W" "{s..<s + l} \<subseteq> W" "l = m + k \<or> s + l \<notin> W"
  shows "l = m"
proof (rule linorder_cases)
  assume "l < m"
  then have "s + l \<in> W" using assms(1) by auto
  with assms(4) \<open>l < m\<close> show ?thesis by simp
next
  assume "m < l"
  then have "s + m \<in> W" using assms(3) by auto
  with assms(2) show ?thesis by simp
qed

text \<open>C7. Nothing that arrived is lost: \<open>total_received_len\<close> is the first offset from the read position on that was
  not accepted, \<open>len\<close> is the distance to it, and a destination with enough room receives all bytes before it, after
  which reading is complete exactly if writing was.\<close>

theorem reassembler_delivers_all:
  assumes "bytes_mut_ok B joined" "\<forall>op\<in>set ops. sends S op"
  shows "\<exists>outs self self'. ra_run B ops reassembler_new = Some (outs, self) \<and>
    (let t = total_received_len B self; n = t - ra_start self in
     ra_start self \<le> t \<and> {ra_start self..<t} \<subseteq> written (zip ops outs) \<and> t \<notin> written (zip ops outs) \<and>
     ra_len B self = n \<and> ra_is_empty B self = (n = 0) \<and>
     ra_copy_into B specializes_bytes \<lparr>d_room = n + k, d_written = []\<rparr> self =
       Some (\<lparr>d_room = k, d_written = map S [ra_start self..<t]\<rparr>, self') \<and>
     ra_start self' = t \<and> is_reading_complete self' = is_writing_complete B self)"
proof (rule ra_run_log [OF assms])
  fix outs self
  assume r: "ra_run B ops reassembler_new = Some (outs, self)" and wf: "ra_wf B joined self"
    and holds: "sb_holds S (written (zip ops outs)) (sb_of B self)"
  define c where "c = concat (ra_iter B self)"
  let ?W = "written (zip ops outs)" and ?s = "ra_start self" and ?d = "\<lparr>d_room = length c + k, d_written = []\<rparr>"
  note it = ra_iter_spec [OF assms(1) wf, folded c_def]
  have at: "ra_view B self n = (if ?s \<le> n \<and> n \<in> ?W then Some (S n) else None)" for n using holds by (simp add: sb_holds_def)
  have t: "?s + length c \<notin> ?W" using it(3) by (simp add: at split: if_splits)
  note pre = sb_holds_prefix [OF holds, of c, simplified, OF it(2)]
  obtain d self' where d: "ra_copy_into B specializes_bytes ?d self = Some (dest_put d ?d, self')"
    "ra_gave B joined d self self'" "ra_filled B (length c + k) d self" using ra_copy_into_spec [OF assms(1) wf, of specializes_bytes ?d] by auto
  have le: "bytes_at ?s d \<subseteq>\<^sub>m ra_view B self" using d(2) by (simp add: ra_gave_def)
  note pred = sb_holds_prefix [OF holds, of d, simplified, OF le]
  have len: "length d = length c"
    by (rule first_gap_unique [OF pre(2) t pred(2), of k]) (use d(3) in \<open>auto simp: ra_filled_def at split: if_splits\<close>)
  have start': "ra_start self' = ?s + length c" "ra_final_size self' = ra_final_size self" using d(2) len by (simp_all add: ra_gave_def)
  have "is_reading_complete self' = is_writing_complete B self"
    by (auto simp: is_reading_complete_def is_writing_complete_def start' it(1) split: option.splits)
  moreover have "ra_is_empty B self = (length c = 0)"
    using t pre(2) unfolding ra_front [OF assms(1) wf, symmetric] at by (cases "c = []") auto
  moreover have "ra_len B self = length c" by (simp add: ra_len_def ra_report_eq c_def)
  moreover have "dest_put d ?d = \<lparr>d_room = k, d_written = map S [?s..<?s + length c]\<rparr>" using pred(1) len by (simp add: dest_put_def)
  ultimately show ?thesis using r d(1) t pre(2) start'(1) it(1) by (intro exI [of _ outs] exI [of _ self] exI [of _ self']) (simp add: Let_def)
qed

theorem reassembler_delivers_all_witness:
  "\<exists>outs self self'. ra_run page_bytes [OpWrite 2 [2, 3] True, OpWrite 0 [0, 1] False] reassembler_new = Some (outs, self) \<and>
    ra_copy_into page_bytes False \<lparr>d_room = total_received_len page_bytes self - ra_start self + 0, d_written = []\<rparr> self =
      Some (\<lparr>d_room = 0, d_written = map word_of_nat [ra_start self..<total_received_len page_bytes self]\<rparr>, self')"
proof -
  let ?ops = "[OpWrite 2 [2, 3] True, OpWrite 0 [0, 1] False]"
  have "\<forall>op\<in>set ?ops. sends word_of_nat op" by (simp add: usize_max_def upt_rec)
  from reassembler_delivers_all [OF page_bytes_ok this, of False 0] show ?thesis unfolding Let_def by blast
qed

end
