(* ===== verification/Spec2Isabelle.thy ===== *)
theory Spec2Isabelle
  imports SlidingWindow FlowControl AckRuns PacketMaps ReassemblerRuns
begin

text \<open>
  Verification of the transport core of s2n-quic, an implementation of the QUIC protocol (RFC 9000) in Rust.

  \<^bold>\<open>The program.\<close> The sources are a workspace of packages. \<^verbatim>\<open>common/s2n-codec\<close> reads and writes byte buffers.
  \<^verbatim>\<open>quic/s2n-quic-core\<close> holds the data types of the protocol and the state machines that need no I/O: variable-length
  integers, packet numbers, frames, sets of intervals, acknowledgement ranges, timers, and the buffers of streams.
  \<^verbatim>\<open>quic/s2n-quic-transport\<close> composes them into connections: acknowledgement managers, flow controllers and the
  synchronisation of values with the peer. A packet that arrives is checked for replay (sliding window), its frames are
  decoded, its number is recorded by the acknowledgement manager, and its stream data goes through the flow
  controllers into the reassembler, from which the application reads. A packet that is sent is filled frame by frame
  through a transmission context with what the components want to send, and is remembered in a map of sent packets
  until it is acknowledged or lost.

  \<^bold>\<open>Conventions.\<close> A definition follows one function of the sources and keeps its name, with a prefix where names
  would clash. Structs are records, enums are datatypes, machine integers are words (\<open>u8\<close> to \<open>u128\<close>), and lengths and
  indices are natural numbers with the bound of \<open>usize\<close> (64 bit) stated where it matters. \<open>Result<T, E>\<close> is \<open>'e + 't\<close>,
  and a function that may panic, break an assumption of unsafe code (\<open>assume!\<close>) or run forever returns an option whose
  value \<open>None\<close> stands for that. The build is a release build: \<open>debug_assert!\<close> is not executed and \<open>+\<close> wraps around.
  Code outside the sources is a parameter: \<open>network_endian\<close> (the byte orders of the \<open>byteorder\<close> package), \<open>zerocopy\<close>
  (its views of byte arrays) and \<open>bytes_mut\<close> (the buffers of the \<open>bytes\<close> package), each with the behaviour that
  the code relies on as a named hypothesis, and each with a concrete instance in the witnesses. That is documented
  behaviour, except that \<open>BytesMut::with_capacity\<close> is taken to give exactly the capacity asked for, as the assertions of
  the reassembler do.

  \<^bold>\<open>The theories.\<close>

  \<^item> \<open>Prelude\<close>: words, options, results and vectors as the standard library has them; shared lemmas.
  \<^item> \<open>Codec\<close> (\<^verbatim>\<open>common/s2n-codec/src\<close>): decoders, encoders, the length estimator. Encoders are related to the bytes they
    emit, and decoders to the bytes they consume.
  \<^item> \<open>VarInt\<close> (\<^verbatim>\<open>core/src/varint\<close>): values below \<open>2 ^ 62\<close>, their table-driven encoding and branch-free decoding. The
    encoding round-trips, is the shortest one, and the optimised reader is the one of the RFC.
  \<^item> \<open>PacketNumber\<close> (\<^verbatim>\<open>core/src/packet/number\<close>): packet number spaces, truncation and recovery, ranges. A truncated
    number is recovered by the receiver, and the truncation is the shortest one.
  \<^item> \<open>SlidingWindow\<close> (\<^verbatim>\<open>core/src/packet/number/sliding_window.rs\<close>): the replay window of 128 packets refines a set of
    all packet numbers seen; no number is accepted twice.
  \<^item> \<open>Interval\<close>, \<open>IntervalInsert\<close>, \<open>IntervalRemove\<close>, \<open>IntervalIntersection\<close>, \<open>IntervalSet\<close> (\<^verbatim>\<open>core/src/interval_set\<close>):
    sorted disjoint intervals with an optional limit. Every operation is the set operation it names. At the limit,
    inserting and removing an interval fail without effect, while union and difference stop at the first interval of
    the other set that the limit blocks and keep what they did before. \<open>AckRanges\<close> (\<^verbatim>\<open>core/src/ack\<close>) adds the policy that keeps the largest numbers.
  \<^item> \<open>AckFrame\<close>, \<open>Frames\<close>, \<open>FrameCodec\<close>, \<open>StreamId\<close> (\<^verbatim>\<open>core/src/frame\<close>, \<^verbatim>\<open>core/src/stream\<close>): all frames with their
    encoders, decoders and sizes. Frames round-trip, every decoded frame is valid, and fitted frames fit. The
    identifiers of streams, and their states as the histories of events that they accept.
  \<^item> \<open>Time\<close>, \<open>Transmission\<close> (\<^verbatim>\<open>core/src/time\<close>, \<^verbatim>\<open>core/src/transmission\<close>, \<^verbatim>\<open>transport/src/transmission\<close>): timestamps and
    timers, and the context that packs frames into a packet. A frame is written exactly if it fits, and what was
    written is what the peer decodes.
  \<^item> \<open>Sync\<close>, \<open>FlowControl\<close> (\<^verbatim>\<open>transport/src/sync\<close>, \<^verbatim>\<open>transport/src/stream\<close>): values that are sent
    until a packet that carried them is acknowledged, and both ends of a flow control window, connected by an unreliable network as a step
    relation. A sender that stays within its credit is never accused, and the window never deadlocks.
  \<^item> \<open>AckManager\<close>, \<open>AckRuns\<close> (\<^verbatim>\<open>transport/src/ack\<close>): the acknowledgement manager as a step relation over received,
    sent, acknowledged and lost packets and timeouts. Acknowledgements cover only packets that were processed, they
    are sent in time for every number that is still recorded, a number is given up only for two reasons that are
    spelled out, and no reachable state panics. A lemma exhibits a late packet that is given up unacknowledged.
  \<^item> \<open>PacketMap\<close>, \<open>RingMap\<close>, \<open>RingRefine\<close>, \<open>RingRange\<close>, \<open>SortedVec\<close>, \<open>PacketMaps\<close> (\<^verbatim>\<open>core/src/packet/number/map\<close>): the two
    maps from packet numbers to values, a growing ring of slots and a sorted queue, both interpretations of one
    locale that promises a finite map; over every run of operations they answer alike.
  \<^item> \<open>Slot\<close>, \<open>SlotFacts\<close>, \<open>Reassembler\<close>, \<open>ReassemblerInv\<close>, \<open>ReassemblerWrite\<close>, \<open>ReassemblerLaws\<close>, \<open>ReassemblerRead\<close>,
    \<open>ReassemblerSpec\<close>, \<open>ReassemblerRuns\<close> (\<^verbatim>\<open>core/src/buffer/reassembler\<close>): the buffer that puts stream data in order. The
    slots refine a plain map from offsets to bytes; the bytes that come out are those of the stream, in order, each
    once, and none that arrived is lost.

  \<^bold>\<open>Bounds and fuel.\<close> Loops are structural recursions, functions with a termination proof, or
  \<open>partial_function\<close>s whose result is then proved to exist (the loops of the ring map and of the reassembler). A caller
  that drains an iterator is a recursion on a bound, with \<open>None\<close> when the bound runs out: \<open>stream_iterate\<close>, \<open>iterate\<close> on
  the intersection of interval sets, the ranges of a decoded ACK frame (bounded by their announced number) and the
  iterator of the ring map (bounded by the slots that remain). In each case the theorems show that the bound given is enough.
  Bounds are those of the code: offsets below \<open>2 ^ 62\<close>, buffers of at most \<open>usize::MAX\<close> bytes. Lengths of memory are
  natural numbers, since they never exceed \<open>isize::MAX\<close>.

  \<^bold>\<open>Not modelled.\<close> Cryptography and TLS (\<^verbatim>\<open>quic/s2n-quic-crypto\<close>, \<^verbatim>\<open>s2n-quic-tls\<close>, \<^verbatim>\<open>s2n-quic-rustls\<close>): calls into
  libraries outside the sources. Sockets, XDP and the event loops (\<^verbatim>\<open>s2n-quic-platform\<close>, \<^verbatim>\<open>tools/xdp\<close>): I/O. Events
  (\<^verbatim>\<open>core/src/event/generated\<close>): generated code without effect on the protocol. The congestion controllers:
  floating-point arithmetic (CUBIC), and a controller whose behaviour is a heuristic (BBR). The glue of endpoints,
  connections and providers, the \<^verbatim>\<open>dc\<close> packages, and examples, tests and tools are left out for their size.
\<close>

end
